(* ===== verification/Prelude.thy ===== *)
theory Prelude
  imports Main "HOL-Library.Word" "HOL-Library.Monad_Syntax"
    "HOL-Library.Product_Lexorder" "HOL-Library.List_Lexorder"
begin

text \<open>
  Shared ground of the development: the types the components name, the text type with the
  order the code gives it, the ordered containers of the C++ standard library, and the
  interface of a component that is driven by a sequence of operations.

  A process that stops at a failed \<open>CHECK\<close> or at \<open>LOG(FATAL)\<close>, or that dereferences an
  iterator that points nowhere, is the value \<open>None\<close>; everything that the code returns is
  \<open>Some\<close>. The model is the release build: \<open>DCHECK\<close> is compiled away and \<open>LOG(DFATAL)\<close>
  only logs, as \<open>trace_macros.h\<close> defines them under \<open>NDEBUG\<close>.
\<close>

named_theorems om_simps \<open>look-ups in ordered maps after an update\<close>
named_theorems om_intros \<open>ordering of ordered maps\<close>

section \<open>Names of the model's types\<close>

type_synonym uuid = "64 word"
type_synonym descriptor = int
type_synonym byte = "8 word"
type_synonym buffer = "byte list"

section \<open>Texts\<close>

text \<open>
  \<open>CText\<close>, in containers compared by \<open>CStringFastLessCompare\<close>: shorter texts first, texts of
  one length by their code points.
\<close>

datatype ctext = CText (chars: string)

definition ctext_key :: "ctext \<Rightarrow> nat \<times> nat list" where
  "ctext_key t = (length (chars t), map of_char (chars t))"

lemma ctext_key_inj [simp]: "ctext_key a = ctext_key b \<longleftrightarrow> a = b"
proof
  assume "ctext_key a = ctext_key b"
  then have "map (of_char :: char \<Rightarrow> nat) (chars a) = map of_char (chars b)"
    by (simp add: ctext_key_def)
  then have "chars a = chars b"
    by (rule map_injective) (simp add: inj_def)
  then show "a = b" by (simp add: ctext.expand)
qed simp

instantiation ctext :: linorder
begin

definition less_eq_ctext :: "ctext \<Rightarrow> ctext \<Rightarrow> bool" where
  "less_eq_ctext a b \<longleftrightarrow> ctext_key a \<le> ctext_key b"

definition less_ctext :: "ctext \<Rightarrow> ctext \<Rightarrow> bool" where
  "less_ctext a b \<longleftrightarrow> ctext_key a < ctext_key b"

instance
proof
  fix a b c :: ctext
  show "a < b \<longleftrightarrow> a \<le> b \<and> \<not> b \<le> a"
    unfolding less_eq_ctext_def less_ctext_def by (rule less_le_not_le)
  show "a \<le> a" by (simp add: less_eq_ctext_def)
  show "a \<le> b \<Longrightarrow> b \<le> c \<Longrightarrow> a \<le> c" by (auto simp: less_eq_ctext_def)
  show "a \<le> b \<Longrightarrow> b \<le> a \<Longrightarrow> a = b" by (auto simp: less_eq_ctext_def)
  show "a \<le> b \<or> b \<le> a" by (auto simp: less_eq_ctext_def)
qed

end

text \<open>The comparison as the code writes it agrees with the order of the instance.\<close>

definition CStringFastLessCompare :: "ctext \<Rightarrow> ctext \<Rightarrow> bool" where
  "CStringFastLessCompare a b =
     (let la = length (chars a); lb = length (chars b)
      in if la = lb \<and> la \<noteq> 0
         then (map of_char (chars a) :: nat list) < map of_char (chars b)
         else la < lb)"

lemma fast_less_compare_is_order: "CStringFastLessCompare a b \<longleftrightarrow> a < b"
  by (auto simp: CStringFastLessCompare_def less_ctext_def ctext_key_def Let_def less_prod_def)

section \<open>Ordered maps\<close>

text \<open>
  \<open>std::map\<close>: the entries in the order of their keys, which is the order in which the code
  walks them. \<open>om_set\<close> is assignment through \<open>operator[]\<close>, \<open>om_insert\<close> is \<open>insert\<close>, which
  leaves an entry that is already there, with or without a hint.
\<close>

type_synonym ('k, 'v) omap = "('k \<times> 'v) list"

abbreviation om_get :: "('k, 'v) omap \<Rightarrow> 'k \<Rightarrow> 'v option" where
  "om_get m k \<equiv> map_of m k"

fun om_set :: "'k::linorder \<Rightarrow> 'v \<Rightarrow> ('k, 'v) omap \<Rightarrow> ('k, 'v) omap" where
  "om_set k v [] = [(k, v)]"
| "om_set k v (e # m) =
     (if fst e < k then e # om_set k v m
      else if fst e = k then (k, v) # m
      else (k, v) # e # m)"

definition om_has :: "'k \<Rightarrow> ('k, 'v) omap \<Rightarrow> bool" where
  "om_has k m \<longleftrightarrow> om_get m k \<noteq> None"

definition om_insert :: "'k::linorder \<Rightarrow> 'v \<Rightarrow> ('k, 'v) omap \<Rightarrow> ('k, 'v) omap" where
  "om_insert k v m = (if om_has k m then m else om_set k v m)"

definition om_erase :: "'k \<Rightarrow> ('k, 'v) omap \<Rightarrow> ('k, 'v) omap" where
  "om_erase k m = filter (\<lambda>e. fst e \<noteq> k) m"

definition om_ok :: "('k::linorder, 'v) omap \<Rightarrow> bool" where
  "om_ok m \<longleftrightarrow> sorted_wrt (<) (map fst m)"

lemma om_ok_Nil [simp, om_intros]: "om_ok []"
  by (simp add: om_ok_def)

lemma om_ok_Cons: "om_ok (e # m) \<longleftrightarrow> om_ok m \<and> (\<forall>x\<in>set m. fst e < fst x)"
  by (auto simp: om_ok_def)

lemma om_ok_distinct: "om_ok m \<Longrightarrow> distinct (map fst m)"
  by (induction m) (auto simp: om_ok_Cons)

lemma om_get_set [om_simps]: "om_get (om_set k v m) x = (if x = k then Some v else om_get m x)"
  by (induction m) auto

lemma om_set_keys: "fst ` set (om_set k v m) = insert k (fst ` set m)"
  by (induction m) auto

lemma om_set_subset: "set (om_set k v m) \<subseteq> insert (k, v) (set m)"
  by (induction m) auto

lemma om_ok_set [om_intros]: "om_ok m \<Longrightarrow> om_ok (om_set k v m)"
proof (induction m)
  case Nil
  then show ?case by (simp add: om_ok_def)
next
  case (Cons e m)
  show ?case
  proof (cases "fst e < k")
    case True
    have "\<forall>x\<in>set (om_set k v m). fst e < fst x"
      using True Cons.prems om_set_subset [of k v m] by (auto simp: om_ok_Cons)
    with True Cons show ?thesis by (simp add: om_ok_Cons)
  next
    case False
    then show ?thesis using Cons.prems by (auto simp: om_ok_Cons)
  qed
qed

lemma om_set_not_Nil [simp]: "om_set k v m \<noteq> []"
  by (cases m) auto

lemma om_has_iff: "om_has k m \<longleftrightarrow> k \<in> fst ` set m"
  by (simp add: om_has_def map_of_eq_None_iff)

lemma om_has_set [om_simps]: "om_has x (om_set k v m) \<longleftrightarrow> x = k \<or> om_has x m"
  by (auto simp: om_has_def om_get_set)

lemma om_has_insert [om_simps]: "om_has x (om_insert k v m) \<longleftrightarrow> x = k \<or> om_has x m"
  by (auto simp: om_insert_def om_has_set)

lemma om_get_insert [om_simps]:
  "om_get (om_insert k v m) x = (if x = k \<and> \<not> om_has k m then Some v else om_get m x)"
  by (auto simp: om_insert_def om_get_set om_has_def)

lemma om_ok_insert [om_intros]: "om_ok m \<Longrightarrow> om_ok (om_insert k v m)"
  by (simp add: om_insert_def om_ok_set)

lemma om_get_erase [om_simps]: "om_get (om_erase k m) x = (if x = k then None else om_get m x)"
  by (induction m) (auto simp: om_erase_def)

lemma om_has_erase [om_simps]: "om_has x (om_erase k m) \<longleftrightarrow> x \<noteq> k \<and> om_has x m"
  by (simp add: om_has_def om_get_erase)

lemma om_ok_filter [om_intros]: "om_ok m \<Longrightarrow> om_ok (filter P m)"
  by (induction m) (auto simp: om_ok_Cons)

lemma om_ok_erase [om_intros]: "om_ok m \<Longrightarrow> om_ok (om_erase k m)"
  by (simp add: om_erase_def om_ok_filter)

lemma om_get_mem: "om_ok m \<Longrightarrow> om_get m k = Some v \<longleftrightarrow> (k, v) \<in> set m"
  by (simp add: om_ok_distinct)

lemma om_get_map_values [om_simps]:
  "om_get (map (\<lambda>(k, v). (k, f k v)) m) x = map_option (f x) (om_get m x)"
  by (induction m) auto

lemma om_ok_map_values [om_intros]: "om_ok (map (\<lambda>(k, v). (k, f k v)) m) \<longleftrightarrow> om_ok m"
proof -
  have "map fst (map (\<lambda>(k, v). (k, f k v)) m) = map fst m" by (induction m) auto
  then show ?thesis by (simp only: om_ok_def)
qed

text \<open>Two ordered maps that answer alike are the same list.\<close>

lemma om_eqI:
  assumes "om_ok m" "om_ok n" "\<And>k. om_get m k = om_get n k"
  shows "m = n"
proof -
  have "sorted (map fst m)" "sorted (map fst n)"
    using assms(1,2) by (auto simp: om_ok_def strict_sorted_iff)
  moreover have "distinct (map fst m)" "distinct (map fst n)"
    using assms(1,2) by (auto dest: om_ok_distinct)
  moreover have "set m = set n"
    using assms(1,2) by (auto simp flip: om_get_mem simp: assms(3))
  ultimately show ?thesis
    by (intro map_sorted_distinct_set_unique [of fst]) (auto simp: distinct_map)
qed

section \<open>Ordered sets\<close>

text \<open>\<open>std::set\<close>: the elements in their order, each once.\<close>

definition os_insert :: "'a::linorder \<Rightarrow> 'a list \<Rightarrow> 'a list" where
  "os_insert x s = insort_insert x s"

definition os_erase :: "'a \<Rightarrow> 'a list \<Rightarrow> 'a list" where
  "os_erase x s = filter (\<lambda>y. y \<noteq> x) s"

definition os_ok :: "'a::linorder list \<Rightarrow> bool" where
  "os_ok s \<longleftrightarrow> sorted s \<and> distinct s"

lemma os_ok_Nil [simp]: "os_ok []"
  by (simp add: os_ok_def)

lemma set_os_insert [simp]: "set (os_insert x s) = insert x (set s)"
  by (simp add: os_insert_def set_insort_insert)

lemma set_os_erase [simp]: "set (os_erase x s) = set s - {x}"
  by (auto simp: os_erase_def)

lemma os_ok_insert [om_intros]: "os_ok s \<Longrightarrow> os_ok (os_insert x s)"
  by (simp add: os_ok_def os_insert_def sorted_insort_insert distinct_insort_insert)

lemma os_ok_erase [om_intros]: "os_ok s \<Longrightarrow> os_ok (os_erase x s)"
  by (simp add: os_ok_def os_erase_def sorted_filter [of "\<lambda>x. x", simplified])

lemma os_ok_Cons: "os_ok (x # s) \<longleftrightarrow> os_ok s \<and> (\<forall>y\<in>set s. x < y)"
  by (auto simp: os_ok_def order_less_le)

section \<open>Components driven by operations\<close>

text \<open>
  A component is a state and a set of operations; an operation that stops the process has no
  next state. Under a discipline on the callers (\<open>allowed\<close>), an invariant that every
  operation keeps, and under which no operation stops, is kept by every run.
\<close>

fun run_ops :: "('s \<Rightarrow> 'o \<Rightarrow> 's option) \<Rightarrow> 's \<Rightarrow> 'o list \<Rightarrow> 's option" where
  "run_ops step s [] = Some s"
| "run_ops step s (x # xs) = step s x \<bind> (\<lambda>t. run_ops step t xs)"

fun disciplined :: "('s \<Rightarrow> 'o \<Rightarrow> 's option) \<Rightarrow> ('s \<Rightarrow> 'o \<Rightarrow> bool) \<Rightarrow> 's \<Rightarrow> 'o list \<Rightarrow> bool" where
  "disciplined step allowed s [] = True"
| "disciplined step allowed s (x # xs) =
     (allowed s x \<and> (case step s x of None \<Rightarrow> True | Some t \<Rightarrow> disciplined step allowed t xs))"

locale operation_driven =
  fixes step :: "'s \<Rightarrow> 'o \<Rightarrow> 's option"
    and allowed :: "'s \<Rightarrow> 'o \<Rightarrow> bool"
    and inv :: "'s \<Rightarrow> bool"
  assumes step_total: "inv s \<Longrightarrow> allowed s x \<Longrightarrow> \<exists>t. step s x = Some t"
    and step_inv: "inv s \<Longrightarrow> allowed s x \<Longrightarrow> step s x = Some t \<Longrightarrow> inv t"
begin

lemma run_total_inv:
  "inv s \<Longrightarrow> disciplined step allowed s xs \<Longrightarrow> \<exists>t. run_ops step s xs = Some t \<and> inv t"
proof (induction xs arbitrary: s)
  case Nil
  then show ?case by simp
next
  case (Cons x xs)
  then obtain t where t: "step s x = Some t" using step_total by fastforce
  with Cons.prems have "inv t" "disciplined step allowed t xs"
    by (auto intro: step_inv)
  with Cons.IH t show ?case by simp
qed

end

text \<open>
  Where the operations refine those of a specification on abstract states, a run refines the
  fold of the specification.
\<close>

locale refined_component = operation_driven step allowed inv
  for step :: "'s \<Rightarrow> 'o \<Rightarrow> 's option" and allowed :: "'s \<Rightarrow> 'o \<Rightarrow> bool" and inv :: "'s \<Rightarrow> bool" +
  fixes abs :: "'s \<Rightarrow> 'a"
    and spec :: "'o \<Rightarrow> 'a \<Rightarrow> 'a"
  assumes step_abs: "inv s \<Longrightarrow> allowed s x \<Longrightarrow> step s x = Some t \<Longrightarrow> abs t = spec x (abs s)"
begin

lemma run_refines:
  "inv s \<Longrightarrow> disciplined step allowed s xs \<Longrightarrow>
     \<exists>t. run_ops step s xs = Some t \<and> inv t \<and> abs t = fold spec xs (abs s)"
proof (induction xs arbitrary: s)
  case Nil
  then show ?case by simp
next
  case (Cons x xs)
  then obtain t where t: "step s x = Some t" using step_total by fastforce
  with Cons.prems have "inv t" "disciplined step allowed t xs" "abs t = spec x (abs s)"
    by (auto intro: step_inv step_abs)
  with Cons.IH [of t] t show ?case by simp
qed

end

end
