(* ===== verification/Udt_Types.thy ===== *)
theory Udt_Types
  imports Prelude
begin

text \<open>
  The data the kernel and the customer library exchange (\<open>shared_types.h/.cpp\<close>,
  \<open>udt_types.h\<close>, \<open>programm_id.h\<close>, \<open>version.h\<close>, \<open>CFlags.h\<close>, \<open>kernel_type.h/.cpp\<close>,
  \<open>endian_type.h\<close>): identifiers, versions, message headers, flags, subscriptions, the
  information that travels with every message, delivery errors and packet limits. Fields keep
  their names and widths; a field name that two structures share gets a suffix.
  The platform is little-endian (\<open>SHARE_LITTLEENDIAN\<close>).
\<close>

unbundle bit_operations_syntax

named_theorems flag_defs \<open>flag words and the operations on them\<close>

section \<open>Flag words\<close>

definition MGetFlag :: "'a::len word \<Rightarrow> 'a word \<Rightarrow> bool" where
  "MGetFlag f x \<longleftrightarrow> f AND x \<noteq> 0"

definition MSetFlag :: "'a::len word \<Rightarrow> bool \<Rightarrow> 'a word \<Rightarrow> 'a word" where
  "MSetFlag x val f = (if val then f OR x else f AND NOT x)"

declare MGetFlag_def [flag_defs] MSetFlag_def [flag_defs]

section \<open>Error codes\<close>

type_synonym error_type = "32 word"
type_synonym user_error_type = "8 word"

definition eUserErrorStartBits :: nat where
  "eUserErrorStartBits = (4 - 1) * 8"

definition E_NO_ERROR :: error_type where "E_NO_ERROR = 0"
definition E_CANNOT_SWAP_ENDIAN :: error_type where "E_CANNOT_SWAP_ENDIAN = push_bit 9 1"
definition E_HANDLER_IS_NOT_EXIST :: error_type where "E_HANDLER_IS_NOT_EXIST = push_bit 10 1"
definition E_NO_ROUTE :: error_type where "E_NO_ROUTE = push_bit 11 1"
definition E_UNKNOWN_ERROR :: error_type where "E_UNKNOWN_ERROR = push_bit 12 1"
definition E_PARSER_IS_NOT_EXIST :: error_type where "E_PARSER_IS_NOT_EXIST = push_bit 13 1"
definition E_CANNOT_PARSE_BUFFER :: error_type where "E_CANNOT_PARSE_BUFFER = push_bit 14 1"
definition E_SOCKET_CLOSED :: error_type where "E_SOCKET_CLOSED = push_bit 15 1"
definition E_BUFFER_IS_FULL :: error_type where "E_BUFFER_IS_FULL = push_bit 16 1"
definition E_PACKET_LOST :: error_type where "E_PACKET_LOST = push_bit 17 1"
definition E_DATA_TOO_LARGE :: error_type where "E_DATA_TOO_LARGE = push_bit 18 1"
definition E_MERGE_ERROR :: error_type where "E_MERGE_ERROR = push_bit 19 1"
definition E_PROTOCOL_VERSION_IS_NOT_COMPATIBLE :: error_type where
  "E_PROTOCOL_VERSION_IS_NOT_COMPATIBLE = push_bit 20 1"
definition E_INCORRECT_USING_OF_UDT_1 :: error_type where
  "E_INCORRECT_USING_OF_UDT_1 = push_bit 21 1"
definition E_USER_ERROR_BEGIN :: error_type where
  "E_USER_ERROR_BEGIN = push_bit (eUserErrorStartBits - 1) 1"

lemmas error_codes = E_NO_ERROR_def E_CANNOT_SWAP_ENDIAN_def E_HANDLER_IS_NOT_EXIST_def
  E_NO_ROUTE_def E_UNKNOWN_ERROR_def E_PARSER_IS_NOT_EXIST_def E_CANNOT_PARSE_BUFFER_def
  E_SOCKET_CLOSED_def E_BUFFER_IS_FULL_def E_PACKET_LOST_def E_DATA_TOO_LARGE_def
  E_MERGE_ERROR_def E_PROTOCOL_VERSION_IS_NOT_COMPATIBLE_def E_INCORRECT_USING_OF_UDT_1_def

definition USER_ERROR_MASK :: error_type where
  "USER_ERROR_MASK = push_bit eUserErrorStartBits (- 1)"

definition code_inner_error :: "error_type \<Rightarrow> error_type" where
  "code_inner_error aError = aError"

definition encode_inner_error :: "error_type \<Rightarrow> error_type" where
  "encode_inner_error aError = aError AND NOT USER_ERROR_MASK"

text \<open>The \<open>CHECK_LE\<close> of \<open>encode_user_error\<close> compares a value of eight bits with 255.\<close>

definition encode_user_error :: "error_type \<Rightarrow> user_error_type" where
  "encode_user_error aError =
     ucast (drop_bit eUserErrorStartBits (aError AND USER_ERROR_MASK))"

definition code_user_error :: "user_error_type \<Rightarrow> error_type" where
  "code_user_error aError = push_bit eUserErrorStartBits (ucast aError) OR E_USER_ERROR_BEGIN"

section \<open>Versions, headers and identifiers\<close>

record version_t =
  FMajor :: "8 word"
  FMinor :: "8 word"
  FRelease :: "16 word"

definition no_version :: version_t where
  "no_version = \<lparr>FMajor = 0, FMinor = 0, FRelease = 0\<rparr>"

definition MIsExist :: "version_t \<Rightarrow> bool" where
  "MIsExist v \<longleftrightarrow> FMajor v \<noteq> 0 \<or> FMinor v \<noteq> 0 \<or> FRelease v \<noteq> 0"

definition MIsCompatibleWith :: "version_t \<Rightarrow> version_t \<Rightarrow> bool" where
  "MIsCompatibleWith v aVal \<longleftrightarrow> FMajor v = FMajor aVal \<and> FMinor v \<le> FMinor aVal"

text \<open>
  \<open>FMessageHeader\<close> holds eight bytes; the word is their value with the first byte the most
  significant, so that \<open><\<close> is the \<open>memcmp\<close> of \<open>CReqHeaderFastLessCompare\<close>. Containers keyed by
  a header compare these bytes alone, the version of a key is the one it was inserted with.
\<close>

record required_header_t =
  FVersion :: version_t
  FMessageHeader :: "64 word"

definition no_header :: required_header_t where
  "no_header = \<lparr>FVersion = no_version, FMessageHeader = 0\<rparr>"

definition header_MIsValid :: "required_header_t \<Rightarrow> bool" where
  "header_MIsValid h \<longleftrightarrow> FMessageHeader h \<noteq> 0"

record id_t =
  FUuid :: uuid
  FName :: string

definition id_of_uuid :: "uuid \<Rightarrow> id_t" where
  "id_of_uuid u = \<lparr>FUuid = u, FName = []\<rparr>"

text \<open>\<open>uuid_t::MIsValid\<close> is \<open>FVal != 0\<close>; an identifier is valid with a name or a valid uuid.\<close>

definition id_MIsValid :: "id_t \<Rightarrow> bool" where
  "id_MIsValid i \<longleftrightarrow> FName i \<noteq> [] \<or> FUuid i \<noteq> 0"

datatype eProgramType = E_KERNEL | E_CONSUMER

datatype eEndian = E_SHARE_LITTLE_ENDIAN | E_SHARE_BIG_ENDIAN

definition E_SHARE_ENDIAN :: eEndian where
  "E_SHARE_ENDIAN = E_SHARE_LITTLE_ENDIAN"

record program_id_t =
  FId :: id_t
  FProgVersion :: version_t
  FTime :: "32 word"
  FPid :: "64 word"
  FPath :: string
  FType :: eProgramType
  FProgEndian :: eEndian

definition default_program_id :: program_id_t where
  "default_program_id = \<lparr>FId = id_of_uuid 0, FProgVersion = no_version, FTime = 0, FPid = 0,
     FPath = [], FType = E_KERNEL, FProgEndian = E_SHARE_ENDIAN\<rparr>"

definition program_id_eq :: "program_id_t \<Rightarrow> program_id_t \<Rightarrow> bool" where
  "program_id_eq a b \<longleftrightarrow> FUuid (FId a) = FUuid (FId b) \<and> FPath a = FPath b \<and> FPid a = FPid b"

definition program_id_MIsValid :: "program_id_t \<Rightarrow> bool" where
  "program_id_MIsValid p \<longleftrightarrow> id_MIsValid (FId p) \<and> FTime p \<noteq> 0 \<and> FPid p \<noteq> 0"

section \<open>Subscriptions\<close>

definition E_REGISTRATOR :: "32 word" where "E_REGISTRATOR = push_bit 0 1"
definition E_IS_BIG_ENDIAN :: "32 word" where "E_IS_BIG_ENDIAN = push_bit 1 1"
definition E_AS_INHERITANCE :: "32 word" where "E_AS_INHERITANCE = push_bit 2 1"
definition E_INVERT_GROUP :: "32 word" where "E_INVERT_GROUP = push_bit 3 1"
definition E_NEAREST :: "32 word" where "E_NEAREST = push_bit 4 1"
definition E_REMOVED :: "32 word" where "E_REMOVED = push_bit 5 1"

declare E_REGISTRATOR_def [flag_defs] E_IS_BIG_ENDIAN_def [flag_defs]
  E_AS_INHERITANCE_def [flag_defs] E_INVERT_GROUP_def [flag_defs] E_NEAREST_def [flag_defs]
  E_REMOVED_def [flag_defs]

type_synonym handler_id = "32 word"

definition NO_HANDLER :: handler_id where "NO_HANDLER = - 1"
definition HANDLER_DEFAULT_PRIORITY :: "32 word" where "HANDLER_DEFAULT_PRIORITY = (- 1) div 2"

record demand_dg_t =
  FHandlerPriority :: "32 word"
  FWhat :: required_header_t
  FNameFrom :: string
  FUUIDFrom :: "uuid option"
  FProtocol :: ctext
  FHandler :: handler_id
  FFlags :: "32 word"

definition RAW_PROTOCOL_NAME :: ctext where
  "RAW_PROTOCOL_NAME = CText ''raw''"

definition MIsRegistrator :: "demand_dg_t \<Rightarrow> bool" where
  "MIsRegistrator d = MGetFlag (FFlags d) E_REGISTRATOR"

definition demand_MIsValid :: "demand_dg_t \<Rightarrow> bool" where
  "demand_MIsValid d \<longleftrightarrow> chars (FProtocol d) \<noteq> [] \<and> (FNameFrom d \<noteq> [] \<or> FUUIDFrom d \<noteq> None)
     \<and> FHandler d \<noteq> NO_HANDLER"

definition MSwitchEndianFlag :: "demand_dg_t \<Rightarrow> demand_dg_t" where
  "MSwitchEndianFlag d =
     (if MGetFlag (FFlags d) E_IS_BIG_ENDIAN
      then d\<lparr>FFlags := MSetFlag E_IS_BIG_ENDIAN False (FFlags d)\<rparr>
      else d\<lparr>FFlags := MSetFlag E_IS_BIG_ENDIAN True (FFlags d)\<rparr>)"

definition MIsValidEndian :: "demand_dg_t \<Rightarrow> bool" where
  "MIsValidEndian d \<longleftrightarrow>
     (if MGetFlag (FFlags d) E_IS_BIG_ENDIAN then E_SHARE_BIG_ENDIAN else E_SHARE_LITTLE_ENDIAN)
       = E_SHARE_ENDIAN"

definition demand_MIsEqual :: "demand_dg_t \<Rightarrow> demand_dg_t \<Rightarrow> bool" where
  "demand_MIsEqual d aRht \<longleftrightarrow> FProtocol d = FProtocol aRht \<and> FNameFrom d = FNameFrom aRht
     \<and> FMessageHeader (FWhat d) = FMessageHeader (FWhat aRht)"

definition demand_eq :: "demand_dg_t \<Rightarrow> demand_dg_t \<Rightarrow> bool" where
  "demand_eq d aRht \<longleftrightarrow> demand_MIsEqual d aRht \<and> FUUIDFrom d = FUUIDFrom aRht"

text \<open>\<open>demand_dgs_for_t\<close>: a map from identifiers, compared by uuid, to lists of demands.\<close>

type_synonym demand_dgs_t = "demand_dg_t list"
type_synonym demand_dgs_for_t = "(uuid, demand_dgs_t) omap"

section \<open>Messages\<close>

record split_packet_t =
  FIsLast :: bool
  FCounter :: "16 word"
  FCoefficient :: "16 word"

definition no_split :: split_packet_t where
  "no_split = \<lparr>FIsLast = True, FCounter = 1, FCoefficient = 1\<rparr>"

definition split_MIsValid :: "split_packet_t \<Rightarrow> bool" where
  "split_MIsValid s \<longleftrightarrow> FCounter s > 0 \<and> FCoefficient s > 0"

definition MIsSplited :: "split_packet_t \<Rightarrow> bool" where
  "MIsSplited s \<longleftrightarrow> \<not> (FCounter s = 1 \<and> FCoefficient s = 1 \<and> FIsLast s)"

definition MGetAlignmentSize :: "split_packet_t \<Rightarrow> nat \<Rightarrow> nat option" where
  "MGetAlignmentSize s aSize =
     (let c = unat (FCoefficient s)
      in if c = 0 then None
         else if aSize mod c = 0 \<or> c = 1 then Some aSize
         else Some ((aSize div c + 1) * c))"

text \<open>\<open>routing_t\<close> is a list of uuids with the sender in \<open>FFrom\<close>; the list is \<open>FRoute\<close>.\<close>

record routing_t =
  FRoute :: "uuid list"
  FFrom :: id_t

record user_data_info_t =
  FPacketNumber :: "32 word"
  FDataProtocol :: ctext
  FDataOffset :: "32 word"
  FEventsList :: "handler_id list"
  FDestination :: "uuid list"
  FRegistrators :: "uuid list"
  FRouting :: routing_t
  FSplit :: split_packet_t
  FEndian :: eEndian
  FDataWhat :: required_header_t

definition MIsRaw :: "user_data_info_t \<Rightarrow> bool" where
  "MIsRaw i \<longleftrightarrow> chars (FDataProtocol i) = [] \<or> FDataProtocol i = RAW_PROTOCOL_NAME"

definition MIsMsgExist :: "user_data_info_t \<Rightarrow> bool" where
  "MIsMsgExist i \<longleftrightarrow> FMessageHeader (FDataWhat i) \<noteq> 0"

definition data_protocol :: "user_data_info_t \<Rightarrow> ctext" where
  "data_protocol i = (if MIsRaw i then RAW_PROTOCOL_NAME else FDataProtocol i)"

record user_data_t =
  FDataId :: user_data_info_t
  FData :: buffer

definition user_data_MIsValid :: "user_data_t \<Rightarrow> bool" where
  "user_data_MIsValid d \<longleftrightarrow> chars (FDataProtocol (FDataId d)) \<noteq> [] \<and> FData d \<noteq> []"

type_synonym user_datas_t = "user_data_t list"

section \<open>Delivery errors\<close>

record fail_send_t = user_data_info_t +
  FError :: error_type

definition fail_MSetError :: "error_type \<Rightarrow> fail_send_t \<Rightarrow> fail_send_t" where
  "fail_MSetError aError f = f\<lparr>FError := MSetFlag (code_inner_error aError) True (FError f)\<rparr>"

definition fail_MSetUserError :: "user_error_type \<Rightarrow> fail_send_t \<Rightarrow> fail_send_t" where
  "fail_MSetUserError aError f = f\<lparr>FError := MSetFlag (code_user_error aError) True (FError f)\<rparr>"

definition fail_of_info :: "user_data_info_t \<Rightarrow> fail_send_t" where
  "fail_of_info aRht = user_data_info_t.extend aRht (fail_send_t.fields E_NO_ERROR)"

definition fail_of_info_to :: "user_data_info_t \<Rightarrow> uuid list \<Rightarrow> error_type \<Rightarrow> fail_send_t" where
  "fail_of_info_to aRht aTo aError =
     (let f = fail_MSetError aError (fail_of_info aRht)
      in f\<lparr>FRouting := (FRouting f)\<lparr>FRoute := aTo\<rparr>\<rparr>)"

definition fail_MGetInnerError :: "fail_send_t \<Rightarrow> error_type" where
  "fail_MGetInnerError f = encode_inner_error (FError f)"

definition fail_MGetUserError :: "fail_send_t \<Rightarrow> user_error_type" where
  "fail_MGetUserError f =
     (if \<not> MGetFlag (FError f) E_USER_ERROR_BEGIN then 0 else encode_user_error (FError f))"

definition fail_MIsError :: "fail_send_t \<Rightarrow> bool" where
  "fail_MIsError f \<longleftrightarrow> FError f = E_NO_ERROR"

section \<open>Kernels and links\<close>

text \<open>\<open>kern_links_t\<close> is a set of links ordered by the uuid of their program.\<close>

record kernel_link =
  FProgramm :: program_id_t
  FConnectTime :: "64 word"
  FTypeLink :: string
  FLatency :: "16 word"

type_synonym kern_links_t = "(uuid, kernel_link) omap"

definition link_uuid :: "kernel_link \<Rightarrow> uuid" where
  "link_uuid l = FUuid (FId (FProgramm l))"

record kernel_infos_t =
  FKernelInfo :: program_id_t
  FCustomerInfo :: kern_links_t
  FIndexNumber :: "32 word"

definition kernel_infos_of :: "program_id_t \<Rightarrow> kernel_infos_t" where
  "kernel_infos_of aId = \<lparr>FKernelInfo = aId, FCustomerInfo = [], FIndexNumber = 0\<rparr>"

definition kernel_uuid :: "kernel_infos_t \<Rightarrow> uuid" where
  "kernel_uuid k = FUuid (FId (FKernelInfo k))"

section \<open>Limits of a channel\<close>

definition CAN_NOT_SPLIT :: "32 word" where "CAN_NOT_SPLIT = push_bit 0 1"
definition LIMITED :: "32 word" where "LIMITED = push_bit 1 1"

declare CAN_NOT_SPLIT_def [flag_defs] LIMITED_def [flag_defs]

text \<open>
  The call-back \<open>pMCalculate\<close> of a channel, when it has one, computes the size of a message
  with the channel's own header; it is a parameter.
\<close>

record split_info =
  FMtuType :: "32 word"
  FMaxSize :: nat
  pMCalculate :: "(user_data_t \<Rightarrow> nat) option"

definition default_split_info :: split_info where
  "default_split_info = \<lparr>FMtuType = 0, FMaxSize = 0, pMCalculate = None\<rparr>"

definition MDataSize :: "split_info \<Rightarrow> user_data_t \<Rightarrow> nat" where
  "MDataSize i aData = (case pMCalculate i of Some f \<Rightarrow> f aData | None \<Rightarrow> length (FData aData))"

end
