(* ===== verification/Program_Names.thy ===== *)
theory Program_Names
  imports Prelude "HOL-Library.Sublist"
begin

text \<open>
  Names of programs (\<open>CAddress.h/.cpp\<close>). A program is named \<open>name@group\<close>, a group is a
  path whose levels are separated by dots; subscriptions choose senders by such names. The
  functions work on the raw text, character by character, as the code does; the lemmas relate
  them to the paths of groups. A result of type \<open>unsigned\<close> is a natural number: a match
  depth counts the dots of a text, so it stays below \<open>UINT_MAX\<close>, which the code uses as the
  depth of a match by a name without a group.
\<close>

definition NAME_SEP :: char where "NAME_SEP = CHR ''@''"
definition GROUP_SEP :: char where "GROUP_SEP = CHR ''.''"
definition UINT_MAX :: nat where "UINT_MAX = 4294967295"

lemma seps_differ [simp]: "NAME_SEP \<noteq> GROUP_SEP" "GROUP_SEP \<noteq> NAME_SEP"
  by (simp_all add: NAME_SEP_def GROUP_SEP_def)

section \<open>Operations of the text type\<close>

definition text_find :: "char \<Rightarrow> string \<Rightarrow> nat option" where
  "text_find c s = (if c \<in> set s then Some (length (takeWhile (\<lambda>x. x \<noteq> c) s)) else None)"

definition text_find_last :: "char \<Rightarrow> string \<Rightarrow> nat option" where
  "text_find_last c s =
     map_option (\<lambda>p. length s - 1 - p) (text_find c (rev s))"

fun text_contains :: "string \<Rightarrow> string \<Rightarrow> bool" where
  "text_contains pat [] = (pat = [])"
| "text_contains pat (c # s) = (take (length pat) (c # s) = pat \<or> text_contains pat s)"

section \<open>Names\<close>

definition sMRegister :: "string \<Rightarrow> string \<Rightarrow> string" where
  "sMRegister aName aGroup = (if aGroup = [] then aName else aName @ NAME_SEP # aGroup)"

definition MGetName :: "string \<Rightarrow> string" where
  "MGetName raw = (case text_find NAME_SEP raw of None \<Rightarrow> raw | Some p \<Rightarrow> take p raw)"

definition MGetAddressText :: "string \<Rightarrow> string option" where
  "MGetAddressText raw =
     (case text_find NAME_SEP raw of
        None \<Rightarrow> Some []
      | Some p \<Rightarrow> if last raw = NAME_SEP then None else Some (drop (p + 1) raw))"

definition MChangeName :: "string \<Rightarrow> string \<Rightarrow> string" where
  "MChangeName aNewName raw =
     (if raw = [] then aNewName
      else case text_find NAME_SEP raw of
             None \<Rightarrow> aNewName
           | Some p \<Rightarrow> aNewName @ drop p raw)"

definition MAddTo :: "string \<Rightarrow> string \<Rightarrow> string" where
  "MAddTo aGroup raw = sMRegister (MGetName raw) aGroup"

definition MIsName :: "string \<Rightarrow> bool" where
  "MIsName raw \<longleftrightarrow> raw \<noteq> [] \<and> hd raw \<noteq> NAME_SEP"

definition MIsAddress :: "string \<Rightarrow> bool" where
  "MIsAddress raw \<longleftrightarrow> text_find NAME_SEP raw \<noteq> None"

text \<open>The walk of \<open>sMCompare\<close>: what is left of both texts and whether an at-sign was passed.\<close>

fun compare_walk :: "string \<Rightarrow> string \<Rightarrow> bool \<Rightarrow> string \<times> string \<times> bool" where
  "compare_walk (w # ws) (h # hs) sep =
     (if w = h then compare_walk ws hs (sep \<or> w = NAME_SEP) else (w # ws, h # hs, sep))"
| "compare_walk ws hs sep = (ws, hs, sep)"

definition sMCompare :: "string \<Rightarrow> string \<Rightarrow> nat" where
  "sMCompare aWhat aWith =
     (if aWith = [] \<or> aWhat = [] then 0
      else if length aWith > length aWhat then 0
      else case compare_walk aWith aWhat False of (ws, hs, sep) \<Rightarrow>
             if ws \<noteq> [] then 0
             else if hs = [] then 1
             else if hd hs = NAME_SEP then UINT_MAX
             else if sep \<and> hd hs = GROUP_SEP then 1 + count_list hs GROUP_SEP
             else 0)"

definition MIsForMe :: "string \<Rightarrow> string \<Rightarrow> nat" where
  "MIsForMe me aWhat = sMCompare aWhat me"

definition MIsMe :: "string \<Rightarrow> string \<Rightarrow> nat" where
  "MIsMe me aWith = sMCompare me aWith"

fun MIsNameEqual :: "string \<Rightarrow> string \<Rightarrow> bool" where
  "MIsNameEqual (i # is) (j # js) =
     (if i = j \<and> i \<noteq> NAME_SEP then MIsNameEqual is js else False)"
| "MIsNameEqual [] [] = True"
| "MIsNameEqual [] (j # js) = (j = NAME_SEP)"
| "MIsNameEqual (i # is) [] = (i = NAME_SEP)"

section \<open>Groups\<close>

definition MAddPath :: "string \<Rightarrow> string \<Rightarrow> string" where
  "MAddPath aName g =
     (if g = [] then aName
      else if aName \<noteq> [] then g @ GROUP_SEP # aName
      else g)"

definition group_MSet :: "string list \<Rightarrow> string" where
  "group_MSet aGroups = fold MAddPath aGroups []"

definition MRemoveLastPath :: "string \<Rightarrow> string option" where
  "MRemoveLastPath g =
     (case text_find_last GROUP_SEP g of
        None \<Rightarrow> Some []
      | Some p \<Rightarrow> if p = 0 then None else Some (take p g))"

lemma text_find_drop_less: "text_find c s = Some p \<Longrightarrow> length s - Suc p < length s"
  by (cases s) (auto simp: text_find_def)

function path_loop :: "string \<Rightarrow> string list" where
  "path_loop s =
     (case text_find GROUP_SEP s of
        None \<Rightarrow> [s]
      | Some p \<Rightarrow> take p s # path_loop (drop (Suc p) s))"
  by pat_completeness auto
termination
  by (relation "measure length") (auto simp: text_find_drop_less)

declare path_loop.simps [simp del]

definition MGetPath :: "string \<Rightarrow> string list" where
  "MGetPath g = (if g = [] then [] else path_loop g)"

definition sMIsSubGroupOf :: "string \<Rightarrow> string \<Rightarrow> nat" where
  "sMIsSubGroupOf aWhat aWith =
     (let group_pos = (case text_find NAME_SEP aWhat of None \<Rightarrow> 0 | Some p \<Rightarrow> Suc p);
          size_gr = length aWhat - group_pos;
          end_of_group = group_pos + length aWith
      in if aWith = [] then (if aWhat = [] then 1 else UINT_MAX)
         else if aWhat = [] \<or> size_gr < length aWith then 0
         else if take (length aWith) (drop group_pos aWhat) = aWith
                 \<and> (size_gr = length aWith \<or> aWhat ! end_of_group = GROUP_SEP)
              then 1 + count_list (drop end_of_group aWhat) GROUP_SEP
              else 0)"

definition MIsSubGroupOf :: "string \<Rightarrow> string \<Rightarrow> nat" where
  "MIsSubGroupOf me aName = sMIsSubGroupOf aName me"

definition MIsInGroup :: "string \<Rightarrow> string \<Rightarrow> nat" where
  "MIsInGroup me aRawGroup = sMIsSubGroupOf me aRawGroup"

definition MIsFrom :: "string \<Rightarrow> string \<Rightarrow> nat" where
  "MIsFrom me aGroup = MIsSubGroupOf aGroup me"

section \<open>Validity of texts\<close>

text \<open>
  The loop of \<open>CProgramName::sMIsValid\<close>, with the position \<open>i\<close> and the position of the last
  dot of the group; the result says whether it reaches the end of the text.
\<close>

fun name_valid_loop :: "int \<Rightarrow> string \<Rightarrow> bool \<Rightarrow> int \<Rightarrow> bool" where
  "name_valid_loop i [] sep prev = True"
| "name_valid_loop i (c # cs) sep prev =
     (if c = NAME_SEP
      then (if sep then False
            else if cs \<noteq> [] \<and> hd cs = GROUP_SEP then False
            else name_valid_loop (i + 1) cs True prev)
      else if c = GROUP_SEP
      then (if sep
            then (if i - prev = 1 then False else name_valid_loop (i + 1) cs sep i)
            else name_valid_loop (i + 1) cs sep prev)
      else name_valid_loop (i + 1) cs sep prev)"

definition name_sMIsValid :: "string \<Rightarrow> bool" where
  "name_sMIsValid s =
     (if s = [] then True
      else if last s = GROUP_SEP \<or> last s = NAME_SEP
              \<or> (hd s = NAME_SEP \<and> length s = 1)
              \<or> (hd s = NAME_SEP \<and> s ! 1 = GROUP_SEP)
      then False
      else name_valid_loop 0 s False (- 1))"

definition group_sMIsValid :: "string \<Rightarrow> bool" where
  "group_sMIsValid s =
     (if s = [] then True
      else if hd s = GROUP_SEP \<or> last s = GROUP_SEP \<or> last s = NAME_SEP
              \<or> (hd s = NAME_SEP \<and> length s = 1)
              \<or> (hd s = NAME_SEP \<and> s ! 1 = GROUP_SEP)
      then False
      else \<not> text_contains [GROUP_SEP, GROUP_SEP] s \<and> text_find NAME_SEP s = None)"

definition sMIsNameValid :: "string \<Rightarrow> bool" where
  "sMIsNameValid s \<longleftrightarrow> dropWhile (\<lambda>c. c \<noteq> NAME_SEP) s = []"

definition sMIsGroupNameValid :: "string \<Rightarrow> bool" where
  "sMIsGroupNameValid s \<longleftrightarrow> dropWhile (\<lambda>c. c \<noteq> NAME_SEP \<and> c \<noteq> GROUP_SEP) s = []"

section \<open>Lemmas\<close>

lemma text_find_None [simp]: "text_find c s = None \<longleftrightarrow> c \<notin> set s"
  by (simp add: text_find_def)

lemma text_find_notin [simp]: "c \<notin> set s \<Longrightarrow> text_find c s = None"
  by simp

lemma text_find_append_Cons [simp]:
  "c \<notin> set n \<Longrightarrow> text_find c (n @ c # g) = Some (length n)"
  by (auto simp: text_find_def takeWhile_append)

lemma text_find_SomeD:
  "text_find c s = Some p \<Longrightarrow>
     \<exists>n g. s = n @ c # g \<and> c \<notin> set n \<and> p = length n"
proof -
  assume "text_find c s = Some p"
  then have c: "c \<in> set s" and p: "p = length (takeWhile (\<lambda>x. x \<noteq> c) s)"
    by (auto simp: text_find_def split: if_splits)
  from c obtain n g where "s = n @ c # g" "c \<notin> set n" by (meson split_list_first)
  with p show ?thesis by (auto simp: takeWhile_append)
qed

lemma sMIsNameValid_iff: "sMIsNameValid s \<longleftrightarrow> NAME_SEP \<notin> set s"
  by (auto simp: sMIsNameValid_def dropWhile_eq_Nil_conv)

lemma sMIsGroupNameValid_iff:
  "sMIsGroupNameValid s \<longleftrightarrow> NAME_SEP \<notin> set s \<and> GROUP_SEP \<notin> set s"
  by (auto simp: sMIsGroupNameValid_def dropWhile_eq_Nil_conv)

lemma last_no_char [simp]: "c \<notin> set g \<Longrightarrow> g \<noteq> [] \<Longrightarrow> last g \<noteq> c"
  by (metis last_in_set)

lemma MGetName_register:
  "NAME_SEP \<notin> set n \<Longrightarrow> MGetName (sMRegister n g) = n"
  by (cases "g = []") (simp_all add: MGetName_def sMRegister_def)

lemma MGetAddressText_register:
  "NAME_SEP \<notin> set n \<Longrightarrow> NAME_SEP \<notin> set g \<Longrightarrow> MGetAddressText (sMRegister n g) = Some g"
  by (cases "g = []") (simp_all add: MGetAddressText_def sMRegister_def)

subsection \<open>Paths\<close>

text \<open>
  The specification of a group is the list of its levels, each a non-empty text without
  separators; \<open>group_MSet\<close> builds its text.
\<close>

definition path_ok :: "string list \<Rightarrow> bool" where
  "path_ok ps \<longleftrightarrow> (\<forall>p\<in>set ps. p \<noteq> [] \<and> sMIsGroupNameValid p)"

definition path_tail :: "string list \<Rightarrow> string" where
  "path_tail ps = concat (map (\<lambda>p. GROUP_SEP # p) ps)"

lemma path_tail_simps [simp]:
  "path_tail [] = []" "path_tail (p # ps) = GROUP_SEP # p @ path_tail ps"
  by (simp_all add: path_tail_def)

lemma path_ok_simps [simp]:
  "path_ok []"
  "path_ok (p # ps) \<longleftrightarrow> p \<noteq> [] \<and> NAME_SEP \<notin> set p \<and> GROUP_SEP \<notin> set p \<and> path_ok ps"
  by (auto simp: path_ok_def sMIsGroupNameValid_iff)

lemma path_tail_hd: "path_tail ps = [] \<or> hd (path_tail ps) = GROUP_SEP"
  by (cases ps) auto

lemma path_tail_empty [simp]: "path_tail ps = [] \<longleftrightarrow> ps = []"
  by (cases ps) auto

lemma fold_MAddPath:
  "g \<noteq> [] \<Longrightarrow> path_ok ps \<Longrightarrow> fold MAddPath ps g = g @ path_tail ps"
  by (induction ps arbitrary: g) (auto simp: MAddPath_def)

lemma group_MSet_Nil [simp]: "group_MSet [] = []"
  by (simp add: group_MSet_def)

lemma group_MSet_Cons [simp]:
  "path_ok (p # ps) \<Longrightarrow> group_MSet (p # ps) = p @ path_tail ps"
  by (simp add: group_MSet_def MAddPath_def fold_MAddPath)

lemma path_text_no_sep:
  "path_ok ps \<Longrightarrow> NAME_SEP \<notin> set (path_tail ps)" "path_ok ps \<Longrightarrow> NAME_SEP \<notin> set (group_MSet ps)"
proof -
  show t: "NAME_SEP \<notin> set (path_tail ps)" if "path_ok ps" for ps
    using that by (induction ps) auto
  show "NAME_SEP \<notin> set (group_MSet ps)" if "path_ok ps"
    using that t by (cases ps) auto
qed

lemma group_MSet_empty [simp]: "path_ok ps \<Longrightarrow> group_MSet ps = [] \<longleftrightarrow> ps = []"
  by (cases ps) auto

lemma count_path_tail: "path_ok ps \<Longrightarrow> count_list (path_tail ps) GROUP_SEP = length ps"
  by (induction ps) (auto simp: count_notin)

lemma level_split:
  assumes "c \<notin> set a" "c \<notin> set b" "x = [] \<or> hd x = c" "y = [] \<or> hd y = c"
  shows "a @ x = b @ y \<longleftrightarrow> a = b \<and> x = y"
proof
  have tw: "takeWhile (\<lambda>z. z \<noteq> c) (l @ w) = l" if "c \<notin> set l" "w = [] \<or> hd w = c" for l w
    using that by (cases w) (auto simp: takeWhile_append)
  assume "a @ x = b @ y"
  then have "takeWhile (\<lambda>z. z \<noteq> c) (a @ x) = takeWhile (\<lambda>z. z \<noteq> c) (b @ y)" by simp
  then have "a = b" using tw assms by metis
  with \<open>a @ x = b @ y\<close> show "a = b \<and> x = y" by simp
qed simp

lemma path_tail_prefix:
  assumes "path_ok qs" "path_ok ps" "r = [] \<or> hd r = GROUP_SEP"
  shows "path_tail qs @ r = path_tail ps \<longleftrightarrow> prefix qs ps \<and> r = path_tail (drop (length qs) ps)"
  using assms
proof (induction qs arbitrary: ps)
  case (Cons q qs)
  show ?case
  proof (cases ps)
    case ps: (Cons p ps')
    have "path_tail qs @ r = [] \<or> hd (path_tail qs @ r) = GROUP_SEP"
      using Cons.prems(3) by (cases qs) auto
    then have "q @ (path_tail qs @ r) = p @ path_tail ps' \<longleftrightarrow>
        q = p \<and> path_tail qs @ r = path_tail ps'"
      using Cons.prems ps path_tail_hd by (intro level_split) auto
    with Cons ps show ?thesis by auto
  qed simp
qed auto

lemma group_MSet_prefix:
  assumes "path_ok qs" "path_ok ps" "qs \<noteq> []" "r = [] \<or> hd r = GROUP_SEP"
  shows "group_MSet qs @ r = group_MSet ps \<longleftrightarrow>
     prefix qs ps \<and> r = path_tail (drop (length qs) ps)"
proof -
  have "path_tail xs = GROUP_SEP # group_MSet xs" if "xs \<noteq> []" "path_ok xs" for xs
    using that by (cases xs) auto
  then show ?thesis
    using path_tail_prefix [of qs ps r] assms by (cases "ps = []") auto
qed

lemma group_MSet_extend:
  "path_ok qs \<Longrightarrow> path_ok ps \<Longrightarrow> qs \<noteq> [] \<Longrightarrow> prefix qs ps \<Longrightarrow>
     group_MSet ps = group_MSet qs @ path_tail (drop (length qs) ps)"
  using group_MSet_prefix [of qs ps "path_tail (drop (length qs) ps)"] path_tail_hd by metis

lemma path_loop_text:
  "GROUP_SEP \<notin> set p \<Longrightarrow> path_ok ps \<Longrightarrow> path_loop (p @ path_tail ps) = p # ps"
proof (induction ps arbitrary: p)
  case Nil
  then show ?case by (simp add: path_loop.simps text_find_def)
next
  case (Cons q qs)
  then show ?case by (subst path_loop.simps) simp
qed

lemma MGetPath_text: "path_ok ps \<Longrightarrow> MGetPath (group_MSet ps) = ps"
  by (cases ps) (auto simp: MGetPath_def path_loop_text)

subsection \<open>Valid texts are paths\<close>

lemma text_contains_iff: "text_contains pat s \<longleftrightarrow> (\<exists>a b. s = a @ pat @ b)"
proof (induction s)
  case (Cons c s)
  have "take (length pat) (c # s) = pat \<longleftrightarrow> (\<exists>b. c # s = pat @ b)"
    by (metis append_eq_conv_conj append_take_drop_id)
  moreover have "(\<exists>a b. c # s = a @ pat @ b) \<longleftrightarrow>
      (\<exists>b. c # s = pat @ b) \<or> (\<exists>a b. s = a @ pat @ b)"
    by (metis append_Cons append_Nil append_eq_Cons_conv)
  ultimately show ?case using Cons.IH by simp
qed auto

lemma group_text_is_path:
  assumes "NAME_SEP \<notin> set s" "s \<noteq> []" "hd s \<noteq> GROUP_SEP" "last s \<noteq> GROUP_SEP"
    "\<not> text_contains [GROUP_SEP, GROUP_SEP] s"
  shows "path_ok (path_loop s) \<and> group_MSet (path_loop s) = s \<and> path_loop s \<noteq> []"
  using assms
proof (induction s rule: path_loop.induct)
  case (1 s)
  show ?case
  proof (cases "text_find GROUP_SEP s")
    case None
    then show ?thesis using 1(2,3) by (simp add: path_loop.simps [of s])
  next
    case (Some p)
    then obtain n g where s: "s = n @ GROUP_SEP # g" "GROUP_SEP \<notin> set n" "p = length n"
      using text_find_SomeD by blast
    have loop: "path_loop s = n # path_loop g"
      by (subst path_loop.simps) (simp add: s)
    have n: "n \<noteq> []" using 1(4) s(1) by (cases n) auto
    have g: "g \<noteq> []" using 1(5) s(1) by auto
    have "hd g \<noteq> GROUP_SEP"
    proof
      assume "hd g = GROUP_SEP"
      then have "s = n @ [GROUP_SEP, GROUP_SEP] @ tl g" using s(1) g by (cases g) auto
      with 1(6) show False unfolding text_contains_iff by blast
    qed
    moreover have "\<not> text_contains [GROUP_SEP, GROUP_SEP] g"
      using 1(6) unfolding text_contains_iff s(1) by (metis append.assoc append_Cons)
    moreover have "last g \<noteq> GROUP_SEP" using 1(5) s(1) g by simp
    ultimately have "path_ok (path_loop g) \<and> group_MSet (path_loop g) = g \<and> path_loop g \<noteq> []"
      using 1(1) [OF Some] 1(2) s g by simp
    moreover from this have "path_tail (path_loop g) = GROUP_SEP # g"
      by (cases "path_loop g") auto
    ultimately show ?thesis using loop n s 1(2) by auto
  qed
qed

lemma valid_group_is_path:
  "group_sMIsValid g \<Longrightarrow> path_ok (MGetPath g) \<and> group_MSet (MGetPath g) = g"
  using group_text_is_path [of g]
  by (auto simp: group_sMIsValid_def MGetPath_def split: if_splits)

lemma name_valid_loop_True:
  "name_valid_loop i s True prev \<Longrightarrow> prev < i \<Longrightarrow> s \<noteq> [] \<Longrightarrow> (prev = i - 1 \<longrightarrow> hd s \<noteq> GROUP_SEP) \<and>
     NAME_SEP \<notin> set s \<and> \<not> text_contains [GROUP_SEP, GROUP_SEP] s"
proof (induction s arbitrary: i prev)
  case (Cons c cs)
  then have c: "c \<noteq> NAME_SEP" by (auto split: if_splits)
  show ?case
  proof (cases "cs = []")
    case True
    then show ?thesis using Cons.prems c by (auto split: if_splits)
  next
    case cs: False
    show ?thesis
    proof (cases "c = GROUP_SEP")
      case True
      then have "name_valid_loop (i + 1) cs True i" "i - prev \<noteq> 1"
        using Cons.prems c by (auto split: if_splits)
      with Cons.IH [of "i + 1" i] cs c True show ?thesis by (cases cs) auto
    next
      case False
      then have "name_valid_loop (i + 1) cs True prev" using Cons.prems c by auto
      with Cons.IH [of "i + 1" prev] Cons.prems(2) cs c False show ?thesis by (cases cs) auto
    qed
  qed
qed simp

lemma name_valid_loop_split:
  "NAME_SEP \<notin> set n \<Longrightarrow> name_valid_loop i (n @ NAME_SEP # g) False prev \<Longrightarrow> prev < i \<Longrightarrow> g \<noteq> [] \<Longrightarrow>
     hd g \<noteq> GROUP_SEP \<and> NAME_SEP \<notin> set g \<and> \<not> text_contains [GROUP_SEP, GROUP_SEP] g"
proof (induction n arbitrary: i)
  case Nil
  then show ?case using name_valid_loop_True [of "i + 1" g prev] by (auto split: if_splits)
next
  case (Cons c n)
  then show ?case by (auto split: if_splits)
qed

lemma valid_name_has_valid_group:
  assumes "name_sMIsValid s"
  shows "\<exists>g. MGetAddressText s = Some g \<and> group_sMIsValid g \<and> NAME_SEP \<notin> set (MGetName s)
             \<and> sMRegister (MGetName s) g = s"
proof (cases "text_find NAME_SEP s")
  case None
  then show ?thesis
    by (auto simp: MGetAddressText_def MGetName_def sMRegister_def group_sMIsValid_def)
next
  case (Some p)
  then obtain n g where s: "s = n @ NAME_SEP # g" "NAME_SEP \<notin> set n" "p = length n"
    using text_find_SomeD by blast
  have v: "last s \<noteq> GROUP_SEP" "last s \<noteq> NAME_SEP" "name_valid_loop 0 s False (- 1)"
    using assms s by (auto simp: name_sMIsValid_def split: if_splits)
  have g: "g \<noteq> []" using v(2) s(1) by auto
  have "hd g \<noteq> GROUP_SEP \<and> NAME_SEP \<notin> set g \<and> \<not> text_contains [GROUP_SEP, GROUP_SEP] g"
    using name_valid_loop_split [of n 0 g "- 1"] v(3) s g by simp
  moreover from this g have "hd g \<noteq> NAME_SEP" by (metis hd_in_set)
  ultimately show ?thesis
    using v s g by (auto simp: MGetAddressText_def MGetName_def sMRegister_def group_sMIsValid_def)
qed

subsection \<open>Comparison of names and groups\<close>

lemma compare_walk_result:
  "compare_walk ws hs sep = (a, b, t) \<Longrightarrow>
     (a = [] \<longleftrightarrow> prefix ws hs) \<and> (a = [] \<longrightarrow> b = drop (length ws) hs \<and> t = (sep \<or> NAME_SEP \<in> set ws))
     \<or> length hs < length ws"
  by (induction ws hs sep rule: compare_walk.induct) (auto split: if_splits)

lemma sMCompare_unfold:
  "sMCompare aWhat aWith =
     (if aWith = [] \<or> \<not> prefix aWith aWhat then 0
      else let r = drop (length aWith) aWhat
           in if r = [] then 1
              else if hd r = NAME_SEP then UINT_MAX
              else if NAME_SEP \<in> set aWith \<and> hd r = GROUP_SEP then 1 + count_list r GROUP_SEP
              else 0)"
proof (cases "aWith = [] \<or> length aWhat < length aWith")
  case True
  then show ?thesis by (auto simp: sMCompare_def prefix_def)
next
  case False
  obtain a b t where w: "compare_walk aWith aWhat False = (a, b, t)" by (metis prod_cases3)
  show ?thesis
    using compare_walk_result [OF w] False w by (auto simp: sMCompare_def Let_def)
qed

lemma sMCompare_append:
  "w \<noteq> [] \<Longrightarrow> sMCompare (w @ r) w =
     (if r = [] then 1 else if hd r = NAME_SEP then UINT_MAX
      else if NAME_SEP \<in> set w \<and> hd r = GROUP_SEP then 1 + count_list r GROUP_SEP else 0)"
  by (simp add: sMCompare_unfold)

lemma sMCompare_no_prefix: "(\<And>r. x \<noteq> w @ r) \<Longrightarrow> sMCompare x w = 0"
  by (simp add: sMCompare_unfold prefix_def)

lemma sMCompare_groups:
  assumes "NAME_SEP \<notin> set n" "NAME_SEP \<notin> set m" "path_ok ps" "path_ok qs" "ps \<noteq> []" "qs \<noteq> []"
  shows "sMCompare (n @ NAME_SEP # group_MSet ps) (m @ NAME_SEP # group_MSet qs) =
     (if n = m \<and> prefix qs ps then 1 + (length ps - length qs) else 0)"
proof -
  let ?what = "n @ NAME_SEP # group_MSet ps" and ?with = "m @ NAME_SEP # group_MSet qs"
  have eq: "?what = ?with @ r \<longleftrightarrow> n = m \<and> group_MSet ps = group_MSet qs @ r" for r
    using level_split [of NAME_SEP n m "NAME_SEP # group_MSet ps" "NAME_SEP # group_MSet qs @ r"]
      assms by auto
  show ?thesis
  proof (cases "n = m \<and> prefix qs ps")
    case True
    let ?d = "drop (length qs) ps"
    have "path_ok ?d" using assms(3) by (auto simp: path_ok_def dest: in_set_dropD)
    moreover have "?what = ?with @ path_tail ?d"
      using eq group_MSet_extend [of qs ps] True assms by blast
    moreover have "?d \<noteq> [] \<Longrightarrow> hd (path_tail ?d) = GROUP_SEP" using path_tail_hd [of ?d] by simp
    ultimately show ?thesis
      using True sMCompare_append [of ?with "path_tail ?d"] by (simp add: count_path_tail)
  next
    case False
    show ?thesis
    proof (cases "\<exists>r. ?what = ?with @ r")
      case no: False
      then have "sMCompare ?what ?with = 0" by (intro sMCompare_no_prefix) blast
      with False show ?thesis by simp
    next
      case True
      then obtain r where r: "?what = ?with @ r" by blast
      then have nm: "n = m" and ps: "group_MSet ps = group_MSet qs @ r" using eq by auto
      have "\<not> (r = [] \<or> hd r = GROUP_SEP)"
        using group_MSet_prefix [of qs ps r] assms ps False nm by auto
      moreover have "r \<noteq> [] \<Longrightarrow> hd r \<noteq> NAME_SEP"
        using path_text_no_sep(2) [of ps] assms(3) ps by (cases r) auto
      ultimately have "sMCompare (?with @ r) ?with = 0" by (subst sMCompare_append) simp_all
      with r False show ?thesis by simp
    qed
  qed
qed

lemma sMCompare_no_group:
  assumes "NAME_SEP \<notin> set n" "NAME_SEP \<notin> set m" "m \<noteq> []" "NAME_SEP \<notin> set g"
  shows "sMCompare (sMRegister n g) m = (if n = m then if g = [] then 1 else UINT_MAX else 0)"
proof (cases "n = m")
  case True
  then show ?thesis
    using assms sMCompare_append [of m "[]"] sMCompare_append [of m "NAME_SEP # g"]
    by (simp add: sMRegister_def)
next
  case False
  show ?thesis
  proof (cases "\<exists>r. sMRegister n g = m @ r")
    case no: False
    then have "sMCompare (sMRegister n g) m = 0" by (intro sMCompare_no_prefix) blast
    with False show ?thesis by simp
  next
    case True
    then obtain r where r: "sMRegister n g = m @ r" by blast
    obtain t where t: "n @ t = m @ r" "t = [] \<or> hd t = NAME_SEP"
      using r by (cases "g = []") (force simp: sMRegister_def)+
    have "\<not> (r = [] \<or> hd r = NAME_SEP)"
    proof
      assume "r = [] \<or> hd r = NAME_SEP"
      with t assms have "n = m \<and> t = r" using level_split [of NAME_SEP n m t r] by blast
      with False show False by simp
    qed
    then have "sMCompare (m @ r) m = 0" using assms by (subst sMCompare_append) simp_all
    with r False show ?thesis by simp
  qed
qed

lemma sub_group_text:
  assumes "path_ok ps" "path_ok qs" "ps \<noteq> []" "qs \<noteq> []" "NAME_SEP \<notin> set n"
    and at: "pre = n @ [NAME_SEP] \<or> pre = []"
  shows "sMIsSubGroupOf (pre @ group_MSet ps) (group_MSet qs) =
     (if prefix qs ps then 1 + (length ps - length qs) else 0)"
proof -
  let ?p = "group_MSet ps" and ?q = "group_MSet qs"
  let ?r = "drop (length ?q) ?p"
  have find: "(case text_find NAME_SEP (pre @ ?p) of None \<Rightarrow> 0 | Some p \<Rightarrow> Suc p) = length pre"
    using at assms path_text_no_sep(2) [of ps] by auto
  have ne: "?q \<noteq> []" "?p \<noteq> []" using assms by auto
  have unf: "sMIsSubGroupOf (pre @ ?p) ?q =
     (if prefix ?q ?p \<and> (?r = [] \<or> hd ?r = GROUP_SEP) then 1 + count_list ?r GROUP_SEP else 0)"
  proof (cases "length ?p < length ?q")
    case True
    then show ?thesis using ne prefix_length_le [of ?q ?p]
      by (auto simp: sMIsSubGroupOf_def find Let_def)
  next
    case False
    then have "take (length ?q) ?p = ?q \<longleftrightarrow> prefix ?q ?p"
      by (metis append_eq_conv_conj prefix_def take_is_prefix)
    moreover have "hd ?r = ?p ! length ?q" if "length ?p \<noteq> length ?q"
      using that False by (simp add: hd_drop_conv_nth)
    ultimately show ?thesis using ne False
      by (cases "length ?p = length ?q") (auto simp: sMIsSubGroupOf_def find Let_def nth_append)
  qed
  have iff: "prefix ?q ?p \<and> (?r = [] \<or> hd ?r = GROUP_SEP) \<longleftrightarrow> prefix qs ps"
  proof
    assume l: "prefix ?q ?p \<and> (?r = [] \<or> hd ?r = GROUP_SEP)"
    then have "?q @ ?r = ?p" by (metis append_eq_conv_conj prefix_def)
    then show "prefix qs ps" using group_MSet_prefix [of qs ps ?r] assms l by auto
  next
    assume "prefix qs ps"
    then have "?q @ path_tail (drop (length qs) ps) = ?p"
      using group_MSet_extend [of qs ps] assms by auto
    then show "prefix ?q ?p \<and> (?r = [] \<or> hd ?r = GROUP_SEP)"
      using path_tail_hd by (metis append_eq_conv_conj prefixI)
  qed
  have "count_list ?r GROUP_SEP = length ps - length qs" if "prefix qs ps"
  proof -
    from that iff have l: "prefix ?q ?p" "?r = [] \<or> hd ?r = GROUP_SEP" by auto
    then have "?q @ ?r = ?p" by (metis append_eq_conv_conj prefix_def)
    then have "?r = path_tail (drop (length qs) ps)"
      using group_MSet_prefix [of qs ps ?r] assms l by auto
    moreover have "path_ok (drop (length qs) ps)"
      using assms(1) by (auto simp: path_ok_def dest: in_set_dropD)
    ultimately show ?thesis by (simp add: count_path_tail)
  qed
  with unf iff show ?thesis by auto
qed

section \<open>Properties\<close>

text \<open>
  A name that passes \<open>CProgramName::sMIsValid\<close> has a group that passes
  \<open>CProgramGroup::sMIsValid\<close>, taking the group from it does not stop the process, its name
  part is a valid plain name, and registering the one in the other gives the text back.
\<close>

theorem valid_name_decomposes:
  assumes "name_sMIsValid s"
  shows "\<exists>g. MGetAddressText s = Some g \<and> group_sMIsValid g \<and> sMIsNameValid (MGetName s)
             \<and> sMRegister (MGetName s) g = s"
  using valid_name_has_valid_group [OF assms] by (auto simp: sMIsNameValid_iff)

theorem valid_name_decomposes_witness:
  "\<exists>g. MGetAddressText ''raw@q.w'' = Some g \<and> group_sMIsValid g
       \<and> sMIsNameValid (MGetName ''raw@q.w'') \<and> sMRegister (MGetName ''raw@q.w'') g = ''raw@q.w''"
  by (rule valid_name_decomposes) (simp add: name_sMIsValid_def NAME_SEP_def GROUP_SEP_def)

text \<open>
  a plain name registered in a group is taken apart into that name and that group, and
  changing the name keeps the group.
\<close>

theorem register_round_trip:
  assumes "sMIsNameValid n" "sMIsNameValid m" "group_sMIsValid g"
  shows "MGetName (sMRegister n g) = n \<and> MGetAddressText (sMRegister n g) = Some g
         \<and> MChangeName m (sMRegister n g) = sMRegister m g"
proof -
  have g: "NAME_SEP \<notin> set g" and n: "NAME_SEP \<notin> set n"
    using assms by (auto simp: group_sMIsValid_def sMIsNameValid_iff split: if_splits)
  then have "MChangeName m (sMRegister n g) = sMRegister m g"
    by (cases "g = []") (auto simp: MChangeName_def sMRegister_def)
  with g n show ?thesis by (simp add: MGetName_register MGetAddressText_register)
qed

theorem register_round_trip_witness:
  "MGetName (sMRegister ''raw'' ''q.w'') = ''raw''
   \<and> MGetAddressText (sMRegister ''raw'' ''q.w'') = Some ''q.w''
   \<and> MChangeName ''log'' (sMRegister ''raw'' ''q.w'') = sMRegister ''log'' ''q.w''"
  by (rule register_round_trip)
    (simp_all add: sMIsNameValid_def group_sMIsValid_def text_find_def NAME_SEP_def GROUP_SEP_def)

text \<open>
  The texts that \<open>CProgramGroup::sMIsValid\<close> accepts are exactly the texts of paths with
  non-empty levels without separators; \<open>MGetPath\<close> is inverse to \<open>MSet\<close> on them, and
  \<open>MRemoveLastPath\<close> undoes \<open>MAddPath\<close>.
\<close>

lemma text_find_last_Cons_append:
  "c \<notin> set p \<Longrightarrow> text_find_last c (g @ c # p) = Some (length g)"
  using text_find_append_Cons [of c "rev p" "rev g"] by (simp add: text_find_last_def)

lemma remove_added_path:
  assumes "g = [] \<or> g ! 0 \<noteq> GROUP_SEP" "p \<noteq> []" "GROUP_SEP \<notin> set p"
  shows "MRemoveLastPath (MAddPath p g) = Some g"
proof (cases "g = []")
  case True
  then show ?thesis using assms by (simp add: MRemoveLastPath_def MAddPath_def text_find_last_def)
next
  case False
  then show ?thesis
    using assms text_find_last_Cons_append [of GROUP_SEP p g]
    by (simp add: MRemoveLastPath_def MAddPath_def)
qed

lemma path_text_valid: "path_ok ps \<Longrightarrow> group_sMIsValid (group_MSet ps)"
proof (cases ps)
  case (Cons p qs)
  assume ok: "path_ok ps"
  then have p: "p \<noteq> []" "NAME_SEP \<notin> set p" "GROUP_SEP \<notin> set p" "path_ok qs"
    by (auto simp: Cons)
  have last: "path_ok xs \<Longrightarrow> xs \<noteq> [] \<Longrightarrow> last (path_tail xs) \<noteq> GROUP_SEP" for xs
    by (induction xs) (auto simp: last_append)
  have dots: "path_ok xs \<Longrightarrow> GROUP_SEP \<notin> set q \<Longrightarrow> q \<noteq> [] \<Longrightarrow>
      \<not> text_contains [GROUP_SEP, GROUP_SEP] (q @ path_tail xs)" for q xs
  proof (induction xs arbitrary: q)
    case Nil
    then show ?case by (auto simp: text_contains_iff)
  next
    case (Cons x xs)
    have "\<not> text_contains [GROUP_SEP, GROUP_SEP] (x @ path_tail xs)" using Cons by simp
    then have "\<not> text_contains [GROUP_SEP, GROUP_SEP] (GROUP_SEP # x @ path_tail xs)"
      using Cons.prems(1) by (cases x) auto
    moreover have "\<not> text_contains [GROUP_SEP, GROUP_SEP] t \<Longrightarrow> GROUP_SEP \<notin> set l \<Longrightarrow>
        \<not> text_contains [GROUP_SEP, GROUP_SEP] (l @ t)" for l t
      by (induction l) auto
    ultimately show ?case using Cons.prems by simp
  qed
  have "hd p \<noteq> GROUP_SEP" "hd p \<noteq> NAME_SEP" using p by (metis hd_in_set)+
  moreover have "NAME_SEP \<notin> set (p @ path_tail qs)" using path_text_no_sep p by simp
  moreover have "last (p @ path_tail qs) \<noteq> GROUP_SEP"
    using last [of qs] p by (cases "qs = []") (auto simp: last_append)
  moreover have "last (p @ path_tail qs) \<noteq> NAME_SEP"
    using calculation(3) p(1) by (intro last_no_char) auto
  ultimately show ?thesis
    using dots [of qs p] p ok by (simp add: Cons group_sMIsValid_def)
qed (simp add: group_sMIsValid_def)

theorem groups_are_paths:
  "(group_sMIsValid g \<longleftrightarrow> (\<exists>ps. path_ok ps \<and> g = group_MSet ps))
   \<and> (path_ok ps \<longrightarrow> MGetPath (group_MSet ps) = ps)
   \<and> (path_ok (ps @ [p]) \<longrightarrow> MRemoveLastPath (MAddPath p (group_MSet ps)) = Some (group_MSet ps))"
proof (intro conjI impI)
  show "group_sMIsValid g \<longleftrightarrow> (\<exists>ps. path_ok ps \<and> g = group_MSet ps)"
    using valid_group_is_path [of g] path_text_valid by metis
  show "MGetPath (group_MSet ps) = ps" if "path_ok ps" using that by (rule MGetPath_text)
  assume "path_ok (ps @ [p])"
  then have ok: "path_ok ps" and p: "p \<noteq> []" "GROUP_SEP \<notin> set p"
    by (auto simp: path_ok_def sMIsGroupNameValid_iff)
  have "group_MSet ps = [] \<or> group_MSet ps ! 0 \<noteq> GROUP_SEP"
    using ok by (cases ps) (auto simp: nth_append in_set_conv_nth)
  with p show "MRemoveLastPath (MAddPath p (group_MSet ps)) = Some (group_MSet ps)"
    by (intro remove_added_path)
qed

theorem groups_are_paths_witness:
  "group_sMIsValid ''q.w'' \<and> MGetPath (group_MSet [''q'', ''w'']) = [''q'', ''w'']
   \<and> MRemoveLastPath (MAddPath ''e'' (group_MSet [''q'', ''w''])) = Some (group_MSet [''q'', ''w''])"
  using groups_are_paths [of "''q.w''" "[''q'', ''w'']" "''e''"]
  by (simp add: path_ok_def sMIsGroupNameValid_def group_sMIsValid_def text_find_def
      NAME_SEP_def GROUP_SEP_def)

text \<open>
  C32: the depth \<open>sMCompare\<close> computes on the texts is the depth of the paths: names without
  group match with the greatest depth, a group matches the groups below it with one plus the
  number of levels between them, and anything else does not match.
\<close>

theorem compare_is_path_depth:
  assumes "sMIsNameValid n" "sMIsNameValid m" "path_ok ps" "path_ok qs"
  shows "sMCompare (sMRegister n (group_MSet ps)) (sMRegister m (group_MSet qs)) =
     (if n \<noteq> m \<or> n = [] \<and> (ps = [] \<or> qs = []) then 0
      else if qs = [] then (if ps = [] then 1 else UINT_MAX)
      else if prefix qs ps then 1 + (length ps - length qs) else 0)"
proof -
  note ns = assms(1,2) [unfolded sMIsNameValid_iff]
  note at = path_text_no_sep(2) [OF assms(3)] path_text_no_sep(2) [OF assms(4)]
  show ?thesis
  proof (cases "qs = []")
    case True
    show ?thesis
    proof (cases "m = []")
      case m: True
      then show ?thesis using True by (auto simp: sMRegister_def sMCompare_def)
    next
      case m: False
      have "sMRegister m (group_MSet qs) = m" using True by (simp add: sMRegister_def)
      then show ?thesis
        using True m sMCompare_no_group [of n m "group_MSet ps"] ns at assms(3) by simp
    qed
  next
    case qs: False
    show ?thesis
    proof (cases "ps = []")
      case True
      have "n \<noteq> (m @ NAME_SEP # group_MSet qs) @ r" for r using ns by auto
      then have "sMCompare n (m @ NAME_SEP # group_MSet qs) = 0" by (rule sMCompare_no_prefix)
      then show ?thesis using True qs assms by (simp add: sMRegister_def)
    next
      case False
      have "sMRegister l (group_MSet xs) = l @ NAME_SEP # group_MSet xs"
        if "path_ok xs" "xs \<noteq> []" for l xs
        using that by (simp add: sMRegister_def)
      then show ?thesis using sMCompare_groups [of n m ps qs] ns assms qs False by simp
    qed
  qed
qed

theorem compare_is_path_depth_witness:
  "sMCompare (sMRegister ''raw'' (group_MSet [''q'', ''w'', ''e'']))
             (sMRegister ''raw'' (group_MSet [''q''])) = 3"
  using compare_is_path_depth [of "''raw''" "''raw''" "[''q'', ''w'', ''e'']" "[''q'']"]
  by (simp add: sMIsNameValid_def path_ok_def sMIsGroupNameValid_def NAME_SEP_def GROUP_SEP_def)

text \<open>
  \<open>sMIsSubGroupOf\<close>, asked for a registered program or for a group, computes the same
  depth on the group, and every program is in the empty group.
\<close>

theorem sub_group_is_path_prefix:
  assumes "path_ok ps" "path_ok qs" "ps \<noteq> []" "sMIsNameValid n"
  shows "sMIsSubGroupOf (sMRegister n (group_MSet ps)) (group_MSet qs) =
           (if qs = [] then UINT_MAX else if prefix qs ps then 1 + (length ps - length qs) else 0)
       \<and> sMIsSubGroupOf (group_MSet ps) (group_MSet qs) =
           (if qs = [] then UINT_MAX else if prefix qs ps then 1 + (length ps - length qs) else 0)"
proof (cases "qs = []")
  case True
  then show ?thesis using assms by (auto simp: sMIsSubGroupOf_def sMRegister_def)
next
  case False
  then show ?thesis
    using sub_group_text [OF assms(1,2,3), of n "n @ [NAME_SEP]"]
      sub_group_text [OF assms(1,2,3), of n "[]"] assms
    by (simp add: sMRegister_def sMIsNameValid_iff)
qed

theorem sub_group_is_path_prefix_witness:
  "sMIsSubGroupOf (sMRegister ''raw'' (group_MSet [''q'', ''w''])) (group_MSet [''q'']) = 2"
  using sub_group_is_path_prefix [of "[''q'', ''w'']" "[''q'']" "''raw''"]
  by (simp add: sMIsNameValid_def path_ok_def sMIsGroupNameValid_def NAME_SEP_def GROUP_SEP_def)

end
