(* ===== verification/Route_Graph.thy ===== *)
theory Route_Graph
  imports Prelude
begin

text \<open>
  The graph of links between programs (\<open>CGraph.h/.cpp\<close>), from which the kernel takes the way
  of a message. \<open>FVertices\<close> maps a vertex to its outgoing edges with their latency,
  \<open>FPathes\<close> keeps the result of the search from a vertex until the graph changes. A signed
  overflow of \<open>latency_t\<close>, a failed \<open>CHECK\<close> and the dereference of an end iterator are
  \<open>None\<close>. The search is \<open>dijkstra_loop\<close>; that it ends is a theorem.
\<close>

definition INT_MAX :: int where "INT_MAX = 2147483647"

type_synonym vertexs_t = "(uuid, int) omap"

record path_info =
  FMinDistance :: "(uuid, int) omap"
  FPrevious :: "(uuid, uuid) omap"

record route_graph =
  FVertices :: "(uuid, vertexs_t) omap"
  FPathes :: "(uuid, path_info) omap"

definition empty_graph :: route_graph where
  "empty_graph = \<lparr>FVertices = [], FPathes = []\<rparr>"

section \<open>Operations\<close>

definition MResetCache :: "route_graph \<Rightarrow> route_graph" where
  "MResetCache g = g\<lparr>FPathes := []\<rparr>"

definition MReset :: "route_graph \<Rightarrow> route_graph" where
  "MReset g = MResetCache (g\<lparr>FVertices := []\<rparr>)"

text \<open>The loop of \<open>MAddNode\<close> that makes every target of an edge a vertex.\<close>

fun add_targets :: "vertexs_t \<Rightarrow> (uuid, vertexs_t) omap \<Rightarrow> (uuid, vertexs_t) omap option" where
  "add_targets [] vs = Some vs"
| "add_targets ((v, w) # es) vs =
     (if w < 0 then None
      else add_targets es (if om_has v vs then vs else om_insert v [] vs))"

definition insert_edges :: "vertexs_t \<Rightarrow> vertexs_t \<Rightarrow> vertexs_t" where
  "insert_edges es m = fold (\<lambda>(v, w). om_insert v w) es m"

definition MAddNode :: "uuid \<Rightarrow> vertexs_t \<Rightarrow> route_graph \<Rightarrow> route_graph option" where
  "MAddNode name edges g =
     map_option
       (\<lambda>vs. MResetCache
          (g\<lparr>FVertices :=
               om_set name (insert_edges edges (case om_get vs name of None \<Rightarrow> [] | Some m \<Rightarrow> m)) vs\<rparr>))
       (add_targets edges (FVertices g))"

definition MGetNode :: "uuid \<Rightarrow> route_graph \<Rightarrow> vertexs_t option" where
  "MGetNode name g = om_get (FVertices g) name"

definition MRemoveNode :: "uuid \<Rightarrow> route_graph \<Rightarrow> vertexs_t \<times> route_graph" where
  "MRemoveNode name g =
     (case om_get (FVertices g) name of
        None \<Rightarrow> ([], g)
      | Some es \<Rightarrow>
          (let swapped = om_set name [] (FVertices g);
               cut = map (\<lambda>(k, m). (k, om_erase name m)) swapped
           in (es, MResetCache (g\<lparr>FVertices := om_erase name cut\<rparr>))))"

definition MIsEnge :: "uuid \<Rightarrow> uuid \<Rightarrow> route_graph \<Rightarrow> bool" where
  "MIsEnge name edge g =
     (case om_get (FVertices g) name of None \<Rightarrow> False | Some m \<Rightarrow> om_has edge m)"

definition MIsVertex :: "uuid \<Rightarrow> route_graph \<Rightarrow> bool" where
  "MIsVertex name g = om_has name (FVertices g)"

text \<open>The state of the search: distances, predecessors and the queue.\<close>

record search =
  dist_of :: "(uuid, int) omap"
  prev_of :: "(uuid, uuid) omap"
  vertex_queue :: "(int \<times> uuid) list"

definition relax_edge :: "int \<Rightarrow> uuid \<Rightarrow> uuid \<times> int \<Rightarrow> search \<Rightarrow> search option" where
  "relax_edge dist u e s =
     (let v = fst e; weight = snd e; through = dist + weight; it = om_get (dist_of s) v
      in if through > INT_MAX \<or> through < 0 \<or> weight < 0 then None
         else if it = None \<or> through < the it
         then (let q = (case it of None \<Rightarrow> vertex_queue s | Some d \<Rightarrow> os_erase (d, v) (vertex_queue s));
                   ds = om_insert v through (dist_of s)
               in Some \<lparr>dist_of = ds, prev_of = om_set v u (prev_of s),
                        vertex_queue = os_insert (the (om_get ds v), v) q\<rparr>)
         else Some s)"

fun relax_edges :: "int \<Rightarrow> uuid \<Rightarrow> vertexs_t \<Rightarrow> search \<Rightarrow> search option" where
  "relax_edges dist u [] s = Some s"
| "relax_edges dist u (e # es) s = relax_edge dist u e s \<bind> relax_edges dist u es"

partial_function (option) dijkstra_loop ::
    "(uuid, vertexs_t) omap \<Rightarrow> search \<Rightarrow> search option" where
  "dijkstra_loop vs s =
     (case vertex_queue s of
        [] \<Rightarrow> Some s
      | (dist, u) # q \<Rightarrow>
          (case om_get vs u of
             None \<Rightarrow> None
           | Some ns \<Rightarrow> relax_edges dist u ns (s\<lparr>vertex_queue := q\<rparr>) \<bind> dijkstra_loop vs))"

declare dijkstra_loop.simps [code]

definition search_start :: "uuid \<Rightarrow> search" where
  "search_start source =
     \<lparr>dist_of = [(source, 0)], prev_of = [], vertex_queue = [(0, source)]\<rparr>"

definition MDijkstraComputePathsFor :: "uuid \<Rightarrow> route_graph \<Rightarrow> route_graph option" where
  "MDijkstraComputePathsFor source g =
     map_option
       (\<lambda>s. g\<lparr>FPathes := om_set source \<lparr>FMinDistance = dist_of s, FPrevious = prev_of s\<rparr> (FPathes g)\<rparr>)
       (dijkstra_loop (FVertices g) (search_start source))"

text \<open>The loop of \<open>MShortestPath\<close> back from the finish; it collects the path reversed.\<close>

partial_function (option) walk_back ::
    "(uuid, uuid) omap \<Rightarrow> uuid \<Rightarrow> uuid \<Rightarrow> uuid list option" where
  "walk_back prev start val =
     (case om_get prev val of
        None \<Rightarrow> Some []
      | Some next \<Rightarrow>
          if val = start then Some []
          else walk_back prev start next \<bind> (\<lambda>p. Some (val # p)))"

declare walk_back.simps [code]

definition MShortestPath :: "uuid \<Rightarrow> uuid \<Rightarrow> route_graph \<Rightarrow> (uuid list \<times> route_graph) option" where
  "MShortestPath start finish g =
     (case om_get (FPathes g) start of
        Some _ \<Rightarrow> Some g
      | None \<Rightarrow> MDijkstraComputePathsFor start g) \<bind>
     (\<lambda>g'. case om_get (FPathes g') start of
             None \<Rightarrow> Some ([], g')
           | Some info \<Rightarrow>
               map_option (\<lambda>p. (rev p, g')) (walk_back (FPrevious info) start finish))"

section \<open>What a graph promises\<close>

definition edge :: "route_graph \<Rightarrow> uuid \<Rightarrow> uuid \<Rightarrow> int option" where
  "edge g u v = (case om_get (FVertices g) u of None \<Rightarrow> None | Some m \<Rightarrow> om_get m v)"

text \<open>Ordered containers, edges between vertices only, and no negative latency.\<close>

definition vertices_ok :: "(uuid, vertexs_t) omap \<Rightarrow> bool" where
  "vertices_ok vs \<longleftrightarrow> om_ok vs \<and>
     (\<forall>(k, m)\<in>set vs. om_ok m \<and> (\<forall>(v, w)\<in>set m. 0 \<le> w \<and> om_has v vs))"

text \<open>A walk from a vertex, as the vertices after it, and its latency.\<close>

fun is_walk :: "route_graph \<Rightarrow> uuid \<Rightarrow> uuid list \<Rightarrow> bool" where
  "is_walk g u [] = True"
| "is_walk g u (v # vs) = (edge g u v \<noteq> None \<and> is_walk g v vs)"

fun walk_cost :: "route_graph \<Rightarrow> uuid \<Rightarrow> uuid list \<Rightarrow> int" where
  "walk_cost g u [] = 0"
| "walk_cost g u (v # vs) = the (edge g u v) + walk_cost g v vs"

definition reachable :: "route_graph \<Rightarrow> uuid \<Rightarrow> uuid \<Rightarrow> bool" where
  "reachable g s v \<longleftrightarrow> (\<exists>p. is_walk g s p \<and> last (s # p) = v)"

section \<open>Well-formed graphs\<close>

lemma vertices_okD:
  assumes "vertices_ok vs" "om_get vs u = Some m"
  shows "om_ok m" "om_get m v = Some w \<Longrightarrow> 0 \<le> w \<and> om_has v vs"
proof -
  have "(u, m) \<in> set vs" using assms by (auto simp: vertices_ok_def om_get_mem)
  then show "om_ok m" and "om_get m v = Some w \<Longrightarrow> 0 \<le> w \<and> om_has v vs"
    using assms(1) by (auto simp: vertices_ok_def dest!: map_of_SomeD)
qed

lemma vertices_okI:
  assumes "om_ok vs" "\<And>u m. om_get vs u = Some m \<Longrightarrow> om_ok m"
    "\<And>u m v w. om_get vs u = Some m \<Longrightarrow> om_get m v = Some w \<Longrightarrow> 0 \<le> w \<and> om_has v vs"
  shows "vertices_ok vs"
proof -
  have "om_ok m \<and> (\<forall>(v, w)\<in>set m. 0 \<le> w \<and> om_has v vs)" if "(u, m) \<in> set vs" for u m
  proof -
    have u: "om_get vs u = Some m" using that assms(1) by (simp add: om_get_mem)
    then have "om_ok m" using assms(2) by blast
    with assms(3) [OF u] show ?thesis by (auto simp flip: om_get_mem)
  qed
  with assms(1) show ?thesis unfolding vertices_ok_def by blast
qed

lemma edge_ok:
  "vertices_ok (FVertices g) \<Longrightarrow> edge g u v = Some w \<Longrightarrow>
     0 \<le> w \<and> om_has u (FVertices g) \<and> om_has v (FVertices g)"
  by (auto simp: edge_def om_has_def dest: vertices_okD split: option.splits)

lemma om_get_insert_edges:
  "om_get (insert_edges es m) v = (case om_get m v of Some w \<Rightarrow> Some w | None \<Rightarrow> om_get es v)"
proof (induction es arbitrary: m)
  case Nil
  then show ?case by (simp add: insert_edges_def split: option.splits)
next
  case (Cons e es)
  have "insert_edges (e # es) m = insert_edges es (om_insert (fst e) (snd e) m)"
    by (simp add: insert_edges_def split: prod.splits)
  with Cons show ?case by (auto simp: om_simps om_has_def split: option.splits)
qed

lemma om_ok_insert_edges: "om_ok m \<Longrightarrow> om_ok (insert_edges es m)"
  by (induction es arbitrary: m) (auto simp: insert_edges_def om_intros split: prod.splits)

lemma add_targets_get:
  "add_targets es vs = Some vs' \<Longrightarrow>
     om_get vs' u = (if om_get vs u = None \<and> om_has u es then Some [] else om_get vs u)"
  by (induction es vs rule: add_targets.induct)
    (auto simp: om_simps om_has_def split: if_splits)

lemma add_targets_ok: "add_targets es vs = Some vs' \<Longrightarrow> om_ok vs \<Longrightarrow> om_ok vs'"
  by (induction es vs rule: add_targets.induct) (auto simp: om_intros split: if_splits)

lemma add_targets_Some: "(\<exists>vs'. add_targets es vs = Some vs') \<longleftrightarrow> (\<forall>(v, w)\<in>set es. 0 \<le> w)"
  by (induction es vs rule: add_targets.induct) auto

lemma edge_MAddNode:
  assumes "MAddNode name es g = Some g'"
  shows "edge g' u v =
    (if u = name then (case edge g u v of Some w \<Rightarrow> Some w | None \<Rightarrow> om_get es v) else edge g u v)"
proof -
  obtain vs where vs: "add_targets es (FVertices g) = Some vs"
    and g': "FVertices g' = om_set name (insert_edges es
        (case om_get vs name of None \<Rightarrow> [] | Some m \<Rightarrow> m)) vs"
    using assms by (auto simp: MAddNode_def MResetCache_def)
  show ?thesis
    by (auto simp: edge_def g' om_simps add_targets_get [OF vs] om_get_insert_edges
        split: option.splits if_splits)
qed

lemma vertices_MAddNode:
  assumes "MAddNode name es g = Some g'"
  shows "om_has v (FVertices g') \<longleftrightarrow> v = name \<or> om_has v es \<or> om_has v (FVertices g)"
proof -
  obtain vs where vs: "add_targets es (FVertices g) = Some vs"
    and g': "FVertices g' = om_set name (insert_edges es
        (case om_get vs name of None \<Rightarrow> [] | Some m \<Rightarrow> m)) vs"
    using assms by (auto simp: MAddNode_def MResetCache_def)
  show ?thesis
    unfolding g' om_has_set by (auto simp: om_has_def add_targets_get [OF vs])
qed

lemma vertices_ok_iff:
  "vertices_ok (FVertices g) \<longleftrightarrow> om_ok (FVertices g)
     \<and> (\<forall>u m. om_get (FVertices g) u = Some m \<longrightarrow> om_ok m)
     \<and> (\<forall>u v w. edge g u v = Some w \<longrightarrow> 0 \<le> w \<and> om_has v (FVertices g))"
  (is "?l = ?r")
proof
  show "?l \<Longrightarrow> ?r" by (auto simp: vertices_okD edge_ok) (simp add: vertices_ok_def)
  assume r: ?r
  have "edge g u v = Some w" if "om_get (FVertices g) u = Some m" "om_get m v = Some w" for u m v w
    using that by (simp add: edge_def)
  with r show ?l by (intro vertices_okI) blast+
qed

lemma MAddNode_ok:
  assumes "vertices_ok (FVertices g)" "om_ok es" "MAddNode name es g = Some g'"
  shows "vertices_ok (FVertices g')"
proof -
  obtain vs where vs: "add_targets es (FVertices g) = Some vs"
    and g': "FVertices g' = om_set name (insert_edges es
        (case om_get vs name of None \<Rightarrow> [] | Some m \<Rightarrow> m)) vs"
    using assms by (auto simp: MAddNode_def MResetCache_def)
  have ok: "om_ok (FVertices g)" using assms(1) by (simp add: vertices_ok_def)
  have "om_ok m" if "om_get vs u = Some m" for u m
    using that vertices_okD(1) [OF assms(1)] by (auto simp: add_targets_get [OF vs] split: if_splits)
  then have "om_ok m" if "om_get (FVertices g') u = Some m" for u m
    using that by (auto simp: g' om_simps intro!: om_ok_insert_edges split: if_splits option.splits)
  moreover have "om_ok (FVertices g')"
    using add_targets_ok [OF vs ok] by (simp add: g' om_intros)
  moreover have "0 \<le> w" if "om_get es v = Some w" for v w
    using that vs add_targets_Some [of es "FVertices g"] by (auto dest!: map_of_SomeD)
  moreover have "0 \<le> w \<and> om_has v (FVertices g')" if "edge g' u v = Some w" for u v w
    using that edge_ok [OF assms(1)] calculation(3)
    by (auto simp: edge_MAddNode [OF assms(3)] vertices_MAddNode [OF assms(3)] om_has_def [of v es]
        split: if_splits option.splits)
  ultimately show ?thesis unfolding vertices_ok_iff by blast
qed

lemma edge_MRemoveNode:
  "MRemoveNode name g = (es, g') \<Longrightarrow>
     edge g' u v = (if u = name \<or> om_has name (FVertices g) \<and> v = name then None else edge g u v)"
  by (cases "om_get (FVertices g) name")
    (auto simp: MRemoveNode_def Let_def MResetCache_def edge_def om_simps om_has_def
      split: option.splits if_splits)

lemma vertices_MRemoveNode:
  "MRemoveNode name g = (es, g') \<Longrightarrow> om_has v (FVertices g') \<longleftrightarrow> v \<noteq> name \<and> om_has v (FVertices g)"
  by (cases "om_get (FVertices g) name")
    (auto simp: MRemoveNode_def Let_def MResetCache_def om_simps om_has_def split: if_splits)

lemma MRemoveNode_ok:
  assumes "vertices_ok (FVertices g)" "MRemoveNode name g = (es, g')"
  shows "vertices_ok (FVertices g')"
proof -
  have "om_ok (FVertices g')"
    using assms by (cases "om_get (FVertices g) name")
      (auto simp: MRemoveNode_def Let_def MResetCache_def vertices_ok_def om_intros)
  moreover have "om_ok m" if "om_get (FVertices g') u = Some m" for u m
    using that assms by (cases "om_get (FVertices g) name")
      (auto simp: MRemoveNode_def Let_def MResetCache_def om_simps vertices_okD om_intros
        split: if_splits)
  moreover have "0 \<le> w \<and> om_has v (FVertices g')" if "edge g' u v = Some w" for u v w
    using that edge_ok [OF assms(1)]
    by (auto simp: edge_MRemoveNode [OF assms(2)] vertices_MRemoveNode [OF assms(2)]
        split: if_splits)
  ultimately show ?thesis unfolding vertices_ok_iff by blast
qed

section \<open>The search\<close>

definition done_vertex :: "search \<Rightarrow> uuid \<Rightarrow> bool" where
  "done_vertex s v \<longleftrightarrow> (\<exists>d. om_get (dist_of s) v = Some d \<and> (d, v) \<notin> set (vertex_queue s))"

inductive chain :: "(uuid \<rightharpoonup> uuid) \<Rightarrow> uuid \<Rightarrow> uuid \<Rightarrow> bool" for prev src where
  chain_start: "chain prev src src"
| chain_step: "prev v = Some u \<Longrightarrow> v \<noteq> src \<Longrightarrow> chain prev src u \<Longrightarrow> chain prev src v"

lemma chain_update:
  "chain prev src x \<Longrightarrow> (\<And>a b. prev a = Some b \<Longrightarrow> b \<noteq> v) \<Longrightarrow> x \<noteq> v \<Longrightarrow>
     chain (prev(v \<mapsto> u)) src x"
  by (induction rule: chain.induct) (auto intro: chain.intros)

text \<open>
  The invariant of the search from \<open>src\<close>: \<open>W\<close> bounds the latencies, \<open>cur\<close> is the last
  distance taken from the queue and \<open>E\<close> are the edges examined so far.
\<close>

definition search_inv ::
    "route_graph \<Rightarrow> uuid \<Rightarrow> int \<Rightarrow> int \<Rightarrow> (uuid \<times> uuid) set \<Rightarrow> search \<Rightarrow> bool" where
  "search_inv g src W cur E s \<longleftrightarrow>
     om_ok (dist_of s) \<and> os_ok (vertex_queue s) \<and>
     om_get (dist_of s) src = Some 0 \<and>
     (\<forall>v. om_has v (prev_of s) \<longleftrightarrow> om_has v (dist_of s) \<and> v \<noteq> src) \<and>
     (\<forall>v d. om_get (dist_of s) v = Some d \<longrightarrow>
        0 \<le> d \<and> d \<le> W * (int (length (dist_of s)) - 1) \<and> om_has v (FVertices g)) \<and>
     (\<forall>(d, v)\<in>set (vertex_queue s). om_get (dist_of s) v = Some d \<and> cur \<le> d) \<and>
     (\<forall>v u. om_get (prev_of s) v = Some u \<longrightarrow> done_vertex s u \<and>
        (\<exists>du w dv. om_get (dist_of s) u = Some du \<and> edge g u v = Some w \<and>
           om_get (dist_of s) v = Some dv \<and> du + w \<le> dv)) \<and>
     (\<forall>(u, v)\<in>E. om_has v (dist_of s)) \<and>
     (\<forall>v. om_has v (dist_of s) \<longrightarrow> chain (om_get (prev_of s)) src v) \<and>
     (\<forall>v d. om_get (dist_of s) v = Some d \<longrightarrow> done_vertex s v \<longrightarrow> d \<le> cur)"

lemma search_invD:
  assumes "search_inv g src W cur E s"
  shows "om_get (dist_of s) src = Some 0"
    "om_has v (prev_of s) \<longleftrightarrow> om_has v (dist_of s) \<and> v \<noteq> src"
    "om_get (dist_of s) v = Some d \<Longrightarrow>
       0 \<le> d \<and> d \<le> W * (int (length (dist_of s)) - 1) \<and> om_has v (FVertices g)"
    "(d, v) \<in> set (vertex_queue s) \<Longrightarrow> om_get (dist_of s) v = Some d \<and> cur \<le> d"
    "om_get (prev_of s) v = Some u \<Longrightarrow> done_vertex s u \<and>
       (\<exists>du w dv. om_get (dist_of s) u = Some du \<and> edge g u v = Some w \<and>
          om_get (dist_of s) v = Some dv \<and> du + w \<le> dv)"
    "(u, v) \<in> E \<Longrightarrow> om_has v (dist_of s)"
    "om_has v (dist_of s) \<Longrightarrow> chain (om_get (prev_of s)) src v"
    "om_get (dist_of s) v = Some d \<Longrightarrow> done_vertex s v \<Longrightarrow> d \<le> cur"
    "om_ok (dist_of s)" "os_ok (vertex_queue s)"
  using assms unfolding search_inv_def by blast+

text \<open>All latencies are within \<open>W\<close> and no sum of them along vertices overflows.\<close>

definition graph_bounded :: "route_graph \<Rightarrow> int \<Rightarrow> bool" where
  "graph_bounded g W \<longleftrightarrow> 0 \<le> W \<and> vertices_ok (FVertices g) \<and>
     W * int (length (FVertices g)) \<le> INT_MAX \<and>
     (\<forall>(k, m)\<in>set (FVertices g). \<forall>(v, w)\<in>set m. w \<le> W)"

lemma graph_bounded_edge:
  "graph_bounded g W \<Longrightarrow> edge g u v = Some w \<Longrightarrow> 0 \<le> w \<and> w \<le> W"
  using edge_ok [of g u v w]
  by (auto simp: graph_bounded_def edge_def split: option.splits dest!: map_of_SomeD)

lemma length_om_set: "\<not> om_has k m \<Longrightarrow> length (om_set k v m) = Suc (length m)"
  by (induction m) (auto simp: om_has_iff)

lemma om_keys_le:
  assumes "om_ok m" "\<And>k. om_has k m \<Longrightarrow> om_has k n"
  shows "length m \<le> length n"
proof -
  have "length m = card (fst ` set m)"
    using om_ok_distinct [OF assms(1)] by (metis distinct_card length_map set_map)
  also have "\<dots> \<le> card (fst ` set n)"
    using assms(2) by (intro card_mono) (auto simp: om_has_iff)
  also have "\<dots> \<le> length n" by (metis card_length length_map set_map)
  finally show ?thesis .
qed

lemma search_inv_dist_le:
  assumes "search_inv g src W cur E s"
  shows "length (dist_of s) \<le> length (FVertices g)"
  using assms by (intro om_keys_le) (auto simp: search_inv_def om_has_def)

lemma os_insert_erase: "os_ok q \<Longrightarrow> x \<in> set q \<Longrightarrow> os_insert x (os_erase x q) = q"
  using os_ok_insert [OF os_ok_erase, of q x x] unfolding os_ok_def
  by (intro sorted_distinct_set_unique) auto

lemma length_os_insert: "x \<notin> set q \<Longrightarrow> length (os_insert x q) = Suc (length q)"
  by (simp add: os_insert_def insort_insert_key_def)

text \<open>The two ways an edge changes the search, and that a done vertex is not improved.\<close>

lemma not_done_improved:
  assumes inv: "search_inv g src W cur E s"
    and v: "om_get (dist_of s) v = Some dv" "cur + w < dv" "0 \<le> w" "0 \<le> cur"
  shows "(dv, v) \<in> set (vertex_queue s)" "v \<noteq> src"
proof -
  show "(dv, v) \<in> set (vertex_queue s)"
    using search_invD(8) [OF inv v(1)] v by (auto simp: done_vertex_def)
  show "v \<noteq> src" using search_invD(1) [OF inv] v by auto
qed

lemma relax_edge_same:
  assumes "search_inv g src W cur E s" "om_get (dist_of s) v = Some dv"
  shows "search_inv g src W cur (insert (u, v) E) s"
  using assms by (auto simp: search_inv_def om_has_def)

lemma done_other_queue:
  assumes "dist_of s' = dist_of s" "vertex_queue s' = vertex_queue s"
  shows "done_vertex s' = done_vertex s"
  using assms by (simp add: done_vertex_def fun_eq_iff)

lemma relax_edge_improve:
  assumes inv: "search_inv g src W cur E s" and u: "om_get (dist_of s) u = Some cur" "done_vertex s u"
    and v: "om_get (dist_of s) v = Some dv" "cur + w < dv" and e: "edge g u v = Some w" "0 \<le> w"
  shows "search_inv g src W cur (insert (u, v) E) (s\<lparr>prev_of := om_set v u (prev_of s)\<rparr>)"
proof -
  let ?s = "s\<lparr>prev_of := om_set v u (prev_of s)\<rparr>"
  have cur: "0 \<le> cur" using search_invD(3) [OF inv u(1)] by blast
  note q = not_done_improved [OF inv v e(2) cur]
  have dn: "done_vertex ?s = done_vertex s" by (rule done_other_queue) simp_all
  have nd: "\<not> done_vertex s v" using q v by (auto simp: done_vertex_def)
  then have "v \<noteq> u" using u by auto
  have nb: "b \<noteq> v" if "om_get (prev_of s) a = Some b" for a b
    using that inv nd by (auto simp: search_inv_def)
  have ch: "chain ((om_get (prev_of s))(v \<mapsto> u)) src x" if "om_has x (dist_of s)" "x \<noteq> v" for x
    using that inv nb by (intro chain_update) (auto simp: search_inv_def)
  have "om_has u (dist_of s)" using u by (simp add: om_has_def)
  then have "chain ((om_get (prev_of s))(v \<mapsto> u)) src u" using ch \<open>v \<noteq> u\<close> by blast
  then have "chain ((om_get (prev_of s))(v \<mapsto> u)) src x" if "om_has x (dist_of s)" for x
    using that ch q(2) by (cases "x = v") (auto intro!: chain_step [of _ v u])
  then have chain: "\<forall>x. om_has x (dist_of s) \<longrightarrow> chain ((om_get (prev_of s))(v \<mapsto> u)) src x"
    by blast
  have prev: "om_get (prev_of ?s) = (om_get (prev_of s))(v \<mapsto> u)"
    by (auto simp: om_simps)
  have pred: "\<forall>x y. ((om_get (prev_of s))(v \<mapsto> u)) x = Some y \<longrightarrow> done_vertex s y \<and>
      (\<exists>du w dv. om_get (dist_of s) y = Some du \<and> edge g y x = Some w \<and>
         om_get (dist_of s) x = Some dv \<and> du + w \<le> dv)"
  proof (intro allI impI)
    fix x y
    assume P: "((om_get (prev_of s))(v \<mapsto> u)) x = Some y"
    show "done_vertex s y \<and> (\<exists>du w dv. om_get (dist_of s) y = Some du \<and>
        edge g y x = Some w \<and> om_get (dist_of s) x = Some dv \<and> du + w \<le> dv)"
    proof (cases "x = v")
      case True
      then show ?thesis using P u v e by simp
    next
      case False
      then show ?thesis using P search_invD(5) [OF inv, of x y] by simp
    qed
  qed
  have hv: "om_has v (dist_of s)" using v by (simp add: om_has_def)
  have has: "\<forall>x. om_has x (om_set v u (prev_of s)) \<longleftrightarrow> om_has x (dist_of s) \<and> x \<noteq> src"
    using search_invD(2) [OF inv] hv q(2) by (auto simp: om_simps)
  have ex: "\<forall>(x, y)\<in>insert (u, v) E. om_has y (dist_of s)"
    using search_invD(6) [OF inv] hv by auto
  show ?thesis
    unfolding search_inv_def dn prev
    using chain pred has ex inv by (simp add: search_inv_def)
qed

lemma relax_edge_new:
  assumes inv: "search_inv g src W cur E s" and u: "om_get (dist_of s) u = Some cur" "done_vertex s u"
    and v: "om_get (dist_of s) v = None" and e: "edge g u v = Some w" "0 \<le> w" "w \<le> W"
    and g: "om_has v (FVertices g)"
    and s': "s' = \<lparr>dist_of = om_set v (cur + w) (dist_of s), prev_of = om_set v u (prev_of s),
           vertex_queue = os_insert (cur + w, v) (vertex_queue s)\<rparr>"
  shows "search_inv g src W cur (insert (u, v) E) s'" "done_vertex s' = done_vertex s"
proof -
  have vu: "v \<noteq> u" "v \<noteq> src" using u v inv by (auto simp: search_inv_def)
  have nh: "\<not> om_has v (dist_of s)" "\<not> om_has v (prev_of s)"
    using v inv by (auto simp: om_has_def search_inv_def)
  show dn: "done_vertex s' = done_vertex s"
    by (rule ext) (auto simp: s' done_vertex_def om_simps v)
  have len: "length (dist_of s') = Suc (length (dist_of s))"
    using nh by (simp add: s' length_om_set)
  have bound: "d \<le> W * int (length (dist_of s))" if "om_get (dist_of s) x = Some d" for x d
  proof -
    have "d \<le> W * (int (length (dist_of s)) - 1)" using that inv by (auto simp: search_inv_def)
    also have "\<dots> \<le> W * int (length (dist_of s))" using e by (simp add: algebra_simps)
    finally show ?thesis .
  qed
  have bv: "cur + w \<le> W * int (length (dist_of s))"
  proof -
    have "cur \<le> W * (int (length (dist_of s)) - 1)" using u inv by (auto simp: search_inv_def)
    then show ?thesis using e by (simp add: algebra_simps)
  qed
  have nb: "b \<noteq> v" if "om_get (prev_of s) a = Some b" for a b
    using search_invD(5) [OF inv that] v by auto
  have ch: "chain ((om_get (prev_of s))(v \<mapsto> u)) src x" if "om_has x (dist_of s)" "x \<noteq> v" for x
    using that inv nb by (intro chain_update) (auto simp: search_inv_def)
  have "om_has u (dist_of s)" using u by (simp add: om_has_def)
  then have "chain ((om_get (prev_of s))(v \<mapsto> u)) src u" using ch vu by blast
  then have chain: "chain ((om_get (prev_of s))(v \<mapsto> u)) src x"
    if "om_has x (dist_of s) \<or> x = v" for x
    using that ch vu by (cases "x = v") (auto intro: chain_step)
  have prev: "om_get (prev_of s') = (om_get (prev_of s))(v \<mapsto> u)"
    by (auto simp: s' om_simps)
  have cur: "0 \<le> cur" using u inv by (auto simp: search_inv_def)
  have get: "om_get (dist_of s') x = (if x = v then Some (cur + w) else om_get (dist_of s) x)"
    and has: "om_has x (dist_of s') \<longleftrightarrow> x = v \<or> om_has x (dist_of s)"
      "om_has x (prev_of s') \<longleftrightarrow> x = v \<or> om_has x (prev_of s)" for x
    by (simp_all add: s' om_simps)
  have pred: "done_vertex s y \<and> (\<exists>du k dv. om_get (dist_of s') y = Some du \<and>
      edge g y x = Some k \<and> om_get (dist_of s') x = Some dv \<and> du + k \<le> dv)"
    if "((om_get (prev_of s))(v \<mapsto> u)) x = Some y" for x y
  proof (cases "x = v")
    case True
    then show ?thesis using that u e vu by (simp add: get)
  next
    case False
    then have P: "om_get (prev_of s) x = Some y" using that by simp
    then show ?thesis using search_invD(5) [OF inv P] nb [OF P] False by (simp add: get)
  qed
  show "search_inv g src W cur (insert (u, v) E) s'"
    unfolding search_inv_def dn len prev
  proof (intro conjI)
    show "om_ok (dist_of s')" "os_ok (vertex_queue s')"
      using search_invD(9,10) [OF inv] by (auto simp: s' intro: om_intros)
    show "om_get (dist_of s') src = Some 0" using search_invD(1) [OF inv] vu by (simp add: get)
    show "\<forall>x. om_has x (prev_of s') \<longleftrightarrow> om_has x (dist_of s') \<and> x \<noteq> src"
      using search_invD(2) [OF inv] vu by (auto simp: has)
    show "\<forall>x d. om_get (dist_of s') x = Some d \<longrightarrow>
        0 \<le> d \<and> d \<le> W * (int (Suc (length (dist_of s))) - 1) \<and> om_has x (FVertices g)"
      using search_invD(3) [OF inv] bound bv cur e g by (auto simp: get)
    show "\<forall>(d, x)\<in>set (vertex_queue s'). om_get (dist_of s') x = Some d \<and> cur \<le> d"
      using search_invD(4) [OF inv] e v by (auto simp: s' om_simps)
    show "\<forall>x y. ((om_get (prev_of s))(v \<mapsto> u)) x = Some y \<longrightarrow> done_vertex s y \<and>
        (\<exists>du w dv. om_get (dist_of s') y = Some du \<and> edge g y x = Some w \<and>
           om_get (dist_of s') x = Some dv \<and> du + w \<le> dv)"
      using pred by blast
    show "\<forall>(x, y)\<in>insert (u, v) E. om_has y (dist_of s')"
      using search_invD(6) [OF inv] by (auto simp: has)
    show "\<forall>x. om_has x (dist_of s') \<longrightarrow> chain ((om_get (prev_of s))(v \<mapsto> u)) src x"
      using chain unfolding has by blast
    show "\<forall>x d. om_get (dist_of s') x = Some d \<longrightarrow> done_vertex s x \<longrightarrow> d \<le> cur"
      using search_invD(8) [OF inv] v by (auto simp: get done_vertex_def)
  qed
qed

text \<open>
  With one latency \<open>c\<close> on every edge the distances in the search lie within \<open>c\<close> of the last
  one taken from the queue, and no examined edge can improve one.
\<close>

definition spread :: "route_graph \<Rightarrow> int \<Rightarrow> (uuid \<times> uuid) set \<Rightarrow> search \<Rightarrow> bool" where
  "spread g cur E s \<longleftrightarrow>
     (\<forall>c. (\<forall>u v w. edge g u v = Some w \<longrightarrow> w = c) \<longrightarrow> 0 \<le> c \<longrightarrow>
        (\<forall>v d. om_get (dist_of s) v = Some d \<longrightarrow> d \<le> cur + c) \<and>
        (\<forall>(u, v)\<in>E. \<forall>du dv. om_get (dist_of s) u = Some du \<longrightarrow> om_get (dist_of s) v = Some dv \<longrightarrow>
           dv \<le> du + c))"

lemma spread_step:
  assumes sp: "spread g cur E s" and E: "\<And>x y. (x, y) \<in> E \<Longrightarrow> om_has x (dist_of s) \<and> om_has y (dist_of s)"
    and u: "om_get (dist_of s) u = Some cur" and e: "edge g u v = Some w"
    and D: "\<And>x. om_get (dist_of s') x =
        (if x = v \<and> om_get (dist_of s) v = None then Some (cur + w) else om_get (dist_of s) x)"
  shows "spread g cur (insert (u, v) E) s'"
  unfolding spread_def
proof (intro allI impI conjI)
  fix c assume c: "\<forall>u v w. edge g u v = Some w \<longrightarrow> w = c" "0 \<le> c"
  then have w: "w = c" using e by blast
  have 1: "d \<le> cur + c" if "om_get (dist_of s) x = Some d" for x d
    using sp c that unfolding spread_def by blast
  have 2: "dy \<le> dx + c"
    if "(x, y) \<in> E" "om_get (dist_of s) x = Some dx" "om_get (dist_of s) y = Some dy" for x y dx dy
    using sp c that unfolding spread_def by blast
  show "d \<le> cur + c" if "om_get (dist_of s') x = Some d" for x d
    using that 1 w by (auto simp: D split: if_splits)
  show "\<forall>(x, y)\<in>insert (u, v) E. \<forall>du dv. om_get (dist_of s') x = Some du \<longrightarrow>
      om_get (dist_of s') y = Some dv \<longrightarrow> dv \<le> du + c"
    using 1 2 w u E by (fastforce simp: D om_has_def split: if_splits)
qed

lemma relax_edge_step:
  assumes inv: "search_inv g src W cur E s" and g: "graph_bounded g W"
    and u: "om_get (dist_of s) u = Some cur" "done_vertex s u" and e: "edge g u v = Some w"
  shows "\<exists>s'. relax_edge cur u (v, w) s = Some s' \<and> search_inv g src W cur (insert (u, v) E) s'
     \<and> done_vertex s' = done_vertex s
     \<and> length (vertex_queue s') + length (dist_of s) = length (vertex_queue s) + length (dist_of s')
     \<and> (\<forall>x. om_get (dist_of s') x =
        (if x = v \<and> om_get (dist_of s) v = None then Some (cur + w) else om_get (dist_of s) x))"
proof -
  have w: "0 \<le> w" "w \<le> W" using graph_bounded_edge [OF g e] by auto
  have cur: "0 \<le> cur" "cur \<le> W * (int (length (dist_of s)) - 1)"
    using search_invD(3) [OF inv u(1)] by auto
  have "cur + w \<le> W * int (length (dist_of s))"
    using cur(2) w by (simp add: algebra_simps)
  also have "\<dots> \<le> W * int (length (FVertices g))"
    using search_inv_dist_le [OF inv] g by (intro mult_left_mono) (auto simp: graph_bounded_def)
  finally have max: "cur + w \<le> INT_MAX" using g by (simp add: graph_bounded_def)
  show ?thesis
  proof (cases "om_get (dist_of s) v")
    case None
    let ?s = "\<lparr>dist_of = om_set v (cur + w) (dist_of s), prev_of = om_set v u (prev_of s),
           vertex_queue = os_insert (cur + w, v) (vertex_queue s)\<rparr>"
    have nh: "\<not> om_has v (dist_of s)" using None by (simp add: om_has_def)
    have "relax_edge cur u (v, w) s = Some ?s"
      using None max w cur by (simp add: relax_edge_def Let_def om_insert_def nh om_get_set)
    moreover have "om_has v (FVertices g)"
      using edge_ok [OF _ e] g by (simp add: graph_bounded_def)
    note new = relax_edge_new [OF inv u None e w this refl]
    moreover have "(cur + w, v) \<notin> set (vertex_queue s)"
      using search_invD(4) [OF inv, of "cur + w" v] None by auto
    ultimately show ?thesis
      using None nh by (auto simp: length_os_insert length_om_set om_get_set)
  next
    case (Some dv)
    show ?thesis
    proof (cases "cur + w < dv")
      case True
      have q: "os_insert (dv, v) (os_erase (dv, v) (vertex_queue s)) = vertex_queue s"
        using not_done_improved(1) [OF inv Some True w(1) cur(1)] search_invD(10) [OF inv]
        by (intro os_insert_erase)
      have h: "om_has v (dist_of s)" using Some by (simp add: om_has_def)
      let ?s = "s\<lparr>prev_of := om_set v u (prev_of s)\<rparr>"
      have "relax_edge cur u (v, w) s = Some ?s"
        using Some True max w cur by (simp add: relax_edge_def Let_def om_insert_def h q)
      moreover have "done_vertex ?s = done_vertex s" by (rule done_other_queue) simp_all
      ultimately show ?thesis using relax_edge_improve [OF inv u Some True e w(1)] Some by simp
    next
      case False
      then have "relax_edge cur u (v, w) s = Some s"
        using Some max w cur by (simp add: relax_edge_def Let_def)
      then show ?thesis using relax_edge_same [OF inv Some] Some by simp
    qed
  qed
qed

text \<open>All edges of a vertex.\<close>

lemma relax_edges_step:
  assumes "search_inv g src W cur E s" "graph_bounded g W" "spread g cur E s"
    "\<forall>x\<in>fst ` E. om_has x (dist_of s)"
    "om_get (dist_of s) u = Some cur" "done_vertex s u"
    "\<forall>e\<in>set es. edge g u (fst e) = Some (snd e)"
  shows "\<exists>s'. relax_edges cur u es s = Some s' \<and> search_inv g src W cur (E \<union> {(u, v) | v. om_has v es}) s'
     \<and> done_vertex s' = done_vertex s \<and> spread g cur (E \<union> {(u, v) | v. om_has v es}) s'
     \<and> length (vertex_queue s') + length (dist_of s) = length (vertex_queue s) + length (dist_of s')"
  using assms
proof (induction es arbitrary: s E)
  case Nil
  then show ?case by (simp add: om_has_def)
next
  case (Cons e es)
  obtain v w where e: "e = (v, w)" by (cases e)
  have ed: "edge g u v = Some w" using Cons.prems(7) e by simp
  obtain s1 where s1: "relax_edge cur u (v, w) s = Some s1"
      "search_inv g src W cur (insert (u, v) E) s1" "done_vertex s1 = done_vertex s"
      "length (vertex_queue s1) + length (dist_of s) = length (vertex_queue s) + length (dist_of s1)"
    and D: "\<And>x. om_get (dist_of s1) x =
        (if x = v \<and> om_get (dist_of s) v = None then Some (cur + w) else om_get (dist_of s) x)"
    using relax_edge_step [OF Cons.prems(1,2,5,6) ed] by metis
  have sp: "spread g cur (insert (u, v) E) s1"
    using Cons.prems(4) search_invD(6) [OF Cons.prems(1)]
    by (intro spread_step [OF Cons.prems(3) _ Cons.prems(5) ed D]) force+
  have src: "\<forall>x\<in>fst ` insert (u, v) E. om_has x (dist_of s1)"
    using Cons.prems(4,5) by (auto simp: om_has_def D)
  have u: "om_get (dist_of s1) u = Some cur" using Cons.prems(5) by (auto simp: D)
  have set: "insert (u, v) E \<union> {(u, x) | x. om_has x es} = E \<union> {(u, x) | x. om_has x (e # es)}"
    by (auto simp: om_has_iff e)
  have dn: "done_vertex s1 u" using s1(3) Cons.prems(6) by simp
  have es: "\<forall>e\<in>set es. edge g u (fst e) = Some (snd e)" using Cons.prems(7) by simp
  show ?case
    using Cons.IH [OF s1(2) Cons.prems(2) sp src u dn es] s1 unfolding set by (auto simp: e)
qed

text \<open>The loop.\<close>

definition examined :: "route_graph \<Rightarrow> search \<Rightarrow> (uuid \<times> uuid) set" where
  "examined g s = {(u, v). done_vertex s u \<and> edge g u v \<noteq> None}"

definition loop_inv :: "route_graph \<Rightarrow> uuid \<Rightarrow> int \<Rightarrow> search \<Rightarrow> bool" where
  "loop_inv g src W s \<longleftrightarrow>
     (\<exists>cur. search_inv g src W cur (examined g s) s \<and> spread g cur (examined g s) s)"

lemma pop_search_inv:
  assumes inv: "search_inv g src W cur E s" and q: "vertex_queue s = (dist, u) # q"
    and s1: "s1 = s\<lparr>vertex_queue := q\<rparr>"
  shows "search_inv g src W dist E s1" "done_vertex s1 x \<longleftrightarrow> done_vertex s x \<or> x = u"
    "om_get (dist_of s1) u = Some dist" "cur \<le> dist"
proof -
  have D: "om_get (dist_of s) u = Some dist" and c: "cur \<le> dist"
    using search_invD(4) [OF inv, of dist u] q by auto
  have ok: "os_ok q" "\<And>y. y \<in> set q \<Longrightarrow> (dist, u) < y"
    using search_invD(10) [OF inv] by (auto simp: q os_ok_Cons)
  have nq: "(d, u) \<notin> set q" for d
    using search_invD(4) [OF inv, of d u] D ok(2) [of "(dist, u)"] q by auto
  have dn: "done_vertex s1 y \<longleftrightarrow> done_vertex s y \<or> y = u" for y
    using D nq by (auto simp: done_vertex_def s1 q)
  show "done_vertex s1 x \<longleftrightarrow> done_vertex s x \<or> x = u" by (rule dn)
  show "om_get (dist_of s1) u = Some dist" "cur \<le> dist" using D c by (simp_all add: s1)
  have Q: "\<forall>(d, v)\<in>set (vertex_queue s1). om_get (dist_of s1) v = Some d \<and> dist \<le> d"
    using search_invD(4) [OF inv] ok(2) by (fastforce simp: s1 q)
  have P: "\<forall>v u. om_get (prev_of s1) v = Some u \<longrightarrow> done_vertex s1 u \<and>
      (\<exists>du w dv. om_get (dist_of s1) u = Some du \<and> edge g u v = Some w \<and>
         om_get (dist_of s1) v = Some dv \<and> du + w \<le> dv)"
    using search_invD(5) [OF inv] by (auto simp: dn) (simp_all add: s1)
  have cur: "\<forall>v d. om_get (dist_of s1) v = Some d \<longrightarrow> done_vertex s1 v \<longrightarrow> d \<le> dist"
  proof (intro allI impI)
    fix v d
    assume v: "om_get (dist_of s1) v = Some d" "done_vertex s1 v"
    show "d \<le> dist"
    proof (cases "v = u")
      case True
      then show ?thesis using v D by (simp add: s1)
    next
      case False
      then show ?thesis using v dn search_invD(8) [OF inv, of v d] c by (simp add: s1)
    qed
  qed
  show "search_inv g src W dist E s1"
    unfolding search_inv_def
    using inv ok(1) Q P cur by (intro conjI) (simp_all add: search_inv_def s1)
qed

lemma spread_mono: "spread g cur E s \<Longrightarrow> cur \<le> dist \<Longrightarrow> dist_of s' = dist_of s \<Longrightarrow> spread g dist E s'"
  unfolding spread_def by fastforce

lemma loop_step:
  assumes inv: "loop_inv g src W s" and g: "graph_bounded g W"
    and q: "vertex_queue s = (dist, u) # q"
  shows "\<exists>ns s'. om_get (FVertices g) u = Some ns \<and>
     relax_edges dist u ns (s\<lparr>vertex_queue := q\<rparr>) = Some s' \<and> loop_inv g src W s' \<and>
     length (vertex_queue s') + length (dist_of s) < length (vertex_queue s) + length (dist_of s')"
proof -
  obtain cur where cur: "search_inv g src W cur (examined g s) s" "spread g cur (examined g s) s"
    using inv by (auto simp: loop_inv_def)
  let ?s1 = "s\<lparr>vertex_queue := q\<rparr>"
  note pop = pop_search_inv [OF cur(1) q refl]
  have "om_has u (FVertices g)" using search_invD(3) [OF pop(1) pop(3)] by blast
  then obtain ns where ns: "om_get (FVertices g) u = Some ns" by (auto simp: om_has_def)
  have "om_ok ns" using vertices_okD(1) [OF _ ns] g by (simp add: graph_bounded_def)
  then have e: "\<forall>e\<in>set ns. edge g u (fst e) = Some (snd e)"
    by (auto simp: edge_def ns om_get_mem)
  have x: "\<forall>x\<in>fst ` examined g s. om_has x (dist_of ?s1)"
    by (auto simp: examined_def done_vertex_def om_has_def)
  have u: "done_vertex ?s1 u" using pop(2) by simp
  obtain s' where s': "relax_edges dist u ns ?s1 = Some s'"
    and i: "search_inv g src W dist (examined g s \<union> {(u, v) | v. om_has v ns}) s'"
      "spread g dist (examined g s \<union> {(u, v) | v. om_has v ns}) s'"
    and d: "done_vertex s' = done_vertex ?s1"
    and l: "length (vertex_queue s') + length (dist_of ?s1) =
      length (vertex_queue ?s1) + length (dist_of s')"
    using relax_edges_step [OF pop(1) g spread_mono [OF cur(2) pop(4)] x pop(3) u e]
    by (auto simp del: search.simps)
  have "examined g s \<union> {(u, v) | v. om_has v ns} = examined g s'"
    using pop(2) by (auto simp: examined_def d om_has_def) (auto simp: edge_def ns)
  then have "loop_inv g src W s'" using i unfolding loop_inv_def by auto
  with ns s' l q show ?thesis by auto
qed

lemma loop_inv_dist_le: "loop_inv g src W s \<Longrightarrow> length (dist_of s) \<le> length (FVertices g)"
  using search_inv_dist_le by (auto simp: loop_inv_def)

lemma dijkstra_loop_total:
  assumes "loop_inv g src W s" "graph_bounded g W"
  shows "\<exists>s'. dijkstra_loop (FVertices g) s = Some s' \<and> loop_inv g src W s' \<and> vertex_queue s' = []"
  using assms
proof (induction "length (vertex_queue s) + (length (FVertices g) - length (dist_of s))"
    arbitrary: s rule: less_induct)
  case less
  show ?case
  proof (cases "vertex_queue s")
    case Nil
    then show ?thesis using less.prems by (simp add: dijkstra_loop.simps)
  next
    case (Cons p q)
    obtain dist u where p: "p = (dist, u)" by (cases p)
    obtain ns s' where s': "om_get (FVertices g) u = Some ns"
        "relax_edges dist u ns (s\<lparr>vertex_queue := q\<rparr>) = Some s'" "loop_inv g src W s'"
        "length (vertex_queue s') + length (dist_of s) < length (vertex_queue s) + length (dist_of s')"
      using loop_step [OF less.prems, of dist u q] Cons p by auto
    have "dijkstra_loop (FVertices g) s = dijkstra_loop (FVertices g) s'"
      using Cons p s' by (simp add: dijkstra_loop.simps [of _ s])
    moreover have "length (vertex_queue s') + (length (FVertices g) - length (dist_of s')) <
        length (vertex_queue s) + (length (FVertices g) - length (dist_of s))"
      using s'(4) loop_inv_dist_le [OF s'(3)] loop_inv_dist_le [OF less.prems(1)] by linarith
    ultimately show ?thesis using less.hyps s'(3) less.prems(2) by simp
  qed
qed

lemma loop_inv_start:
  assumes "om_has src (FVertices g)"
  shows "loop_inv g src W (search_start src)"
proof -
  have nd: "\<not> done_vertex (search_start src) v" for v
    by (simp add: done_vertex_def search_start_def)
  then have E: "examined g (search_start src) = {}" by (simp add: examined_def)
  have "search_inv g src W 0 {} (search_start src)"
    using assms unfolding search_inv_def search_start_def
    by (auto simp: om_ok_def os_ok_def om_has_def done_vertex_def intro: chain_start)
  moreover have "spread g 0 {} (search_start src)"
    by (auto simp: spread_def search_start_def)
  ultimately show ?thesis unfolding loop_inv_def E by blast
qed

section \<open>The path\<close>

lemma is_walk_append:
  "is_walk g u (p @ [v]) \<longleftrightarrow> is_walk g u p \<and> edge g (last (u # p)) v \<noteq> None"
  by (induction p arbitrary: u) auto

lemma walk_cost_append:
  "walk_cost g u (p @ [v]) = walk_cost g u p + the (edge g (last (u # p)) v)"
  by (induction p arbitrary: u) auto

lemma walk_back_start: "walk_back prev start start = Some []"
  by (simp add: walk_back.simps split: option.splits)

lemma walk_back_mem:
  "walk_back prev start v = Some p \<Longrightarrow> x \<in> set p \<Longrightarrow>
     x \<noteq> start \<and> (\<exists>q. walk_back prev start x = Some q \<and> length q \<le> length p)"
proof (induction p arbitrary: v)
  case (Cons y p)
  then obtain u where u: "om_get prev v = Some u" "v \<noteq> start" "y = v" "walk_back prev start u = Some p"
    by (subst (asm) (2) walk_back.simps)
      (auto split: option.splits if_splits simp: bind_eq_Some_conv)
  with Cons show ?case by (cases "x = v") fastforce+
qed simp

lemma walk_back_distinct: "walk_back prev start v = Some p \<Longrightarrow> distinct (start # p)"
proof (induction p arbitrary: v)
  case (Cons y p)
  then obtain u where u: "y = v" "walk_back prev start u = Some p" "v \<noteq> start"
    by (subst (asm) (2) walk_back.simps)
      (auto split: option.splits if_splits simp: bind_eq_Some_conv)
  have "v \<notin> set p"
    using walk_back_mem [OF u(2), of v] Cons.prems u(1) by auto
  with Cons.IH [OF u(2)] u show ?case by simp
qed simp

lemma walk_back_chain:
  assumes "search_inv g src W cur E s" "chain (om_get (prev_of s)) src v"
  shows "\<exists>p dv. walk_back (prev_of s) src v = Some p \<and> is_walk g src (rev p)
     \<and> last (src # rev p) = v \<and> om_get (dist_of s) v = Some dv \<and> walk_cost g src (rev p) \<le> dv"
  using assms(2)
proof (induction rule: chain.induct)
  case chain_start
  then show ?case using search_invD(1) [OF assms(1)] by (simp add: walk_back_start)
next
  case (chain_step v u)
  then obtain p du where p: "walk_back (prev_of s) src u = Some p" "is_walk g src (rev p)"
      "last (src # rev p) = u" "om_get (dist_of s) u = Some du" "walk_cost g src (rev p) \<le> du"
    by blast
  obtain w dv where w: "edge g u v = Some w" "om_get (dist_of s) v = Some dv" "du + w \<le> dv"
    using search_invD(5) [OF assms(1) chain_step(1)] p(4) by auto
  have "walk_back (prev_of s) src v = Some (v # p)"
    using chain_step p by (simp add: walk_back.simps [of _ _ v])
  moreover have "is_walk g src (rev (v # p))" "walk_cost g src (rev (v # p)) \<le> dv"
    using p w by (simp_all add: is_walk_append walk_cost_append del: last.simps)
  ultimately show ?case using w by auto
qed

lemma search_closed:
  assumes "loop_inv g src W s" "vertex_queue s = []" "is_walk g u p" "om_has u (dist_of s)"
  shows "om_has (last (u # p)) (dist_of s)"
  using assms(3,4)
proof (induction p arbitrary: u)
  case (Cons v p)
  obtain cur where i: "search_inv g src W cur (examined g s) s"
    using assms(1) by (auto simp: loop_inv_def)
  have "(u, v) \<in> examined g s"
    using Cons.prems assms(2) by (auto simp: examined_def done_vertex_def om_has_def)
  then have "om_has v (dist_of s)" by (rule search_invD(6) [OF i])
  with Cons show ?case by simp
qed simp

lemma search_reachable:
  assumes "loop_inv g src W s" "vertex_queue s = []"
  shows "om_has v (dist_of s) \<longleftrightarrow> reachable g src v"
proof
  obtain cur where i: "search_inv g src W cur (examined g s) s"
    using assms(1) by (auto simp: loop_inv_def)
  assume "om_has v (dist_of s)"
  with walk_back_chain [OF i search_invD(7) [OF i]] show "reachable g src v"
    unfolding reachable_def by blast
next
  obtain cur where i: "search_inv g src W cur (examined g s) s"
    using assms(1) by (auto simp: loop_inv_def)
  have "om_has src (dist_of s)" using search_invD(1) [OF i] by (simp add: om_has_def)
  moreover assume "reachable g src v"
  ultimately show "om_has v (dist_of s)"
    using search_closed [OF assms] unfolding reachable_def by blast
qed

lemma walk_back_result:
  assumes inv: "loop_inv g src W s" and q: "vertex_queue s = []"
  shows "\<exists>p. walk_back (prev_of s) src v = Some p \<and>
    (if v \<noteq> src \<and> reachable g src v
     then p \<noteq> [] \<and> hd p = v \<and> is_walk g src (rev p) \<and> distinct (src # p)
       \<and> walk_cost g src (rev p) \<le> the (om_get (dist_of s) v)
     else p = [])"
proof -
  obtain cur where i: "search_inv g src W cur (examined g s) s"
    using inv by (auto simp: loop_inv_def)
  show ?thesis
  proof (cases "v \<noteq> src \<and> reachable g src v")
    case True
    then have "om_has v (dist_of s)" using search_reachable [OF inv q] by simp
    then obtain p dv where p: "walk_back (prev_of s) src v = Some p" "is_walk g src (rev p)"
        "last (src # rev p) = v" "om_get (dist_of s) v = Some dv" "walk_cost g src (rev p) \<le> dv"
      using walk_back_chain [OF i search_invD(7) [OF i]] by blast
    then have "p \<noteq> []" using True by auto
    then have "hd p = v" using p(3) by (simp add: last_rev)
    then show ?thesis using True p \<open>p \<noteq> []\<close> walk_back_distinct [OF p(1)] by auto
  next
    case False
    then have "v = src \<or> om_get (prev_of s) v = None"
      using search_reachable [OF inv q, of v] search_invD(2) [OF i, of v]
      by (auto simp: om_has_def [of v "prev_of s"])
    then have "walk_back (prev_of s) src v = Some []"
      using walk_back_start by (auto simp: walk_back.simps [of _ _ v] split: option.splits)
    then show ?thesis using False by auto
  qed
qed

lemma uniform_distance_minimal:
  assumes inv: "loop_inv g src W s" and q: "vertex_queue s = []"
    and c: "\<forall>u v w. edge g u v = Some w \<longrightarrow> w = c" "0 \<le> c"
    and "is_walk g u p" "om_get (dist_of s) u = Some du" "om_get (dist_of s) (last (u # p)) = Some dv"
  shows "dv \<le> du + walk_cost g u p"
  using assms(5-)
proof (induction p arbitrary: u du)
  case (Cons v p)
  obtain cur where i: "search_inv g src W cur (examined g s) s" "spread g cur (examined g s) s"
    using inv by (auto simp: loop_inv_def)
  obtain w where w: "edge g u v = Some w" using Cons.prems by auto
  have e: "(u, v) \<in> examined g s"
    using Cons.prems q by (auto simp: examined_def done_vertex_def)
  then obtain d where d: "om_get (dist_of s) v = Some d"
    using search_invD(6) [OF i(1) e] by (auto simp: om_has_def)
  have "d \<le> du + c" using i(2) c e d Cons.prems(2) unfolding spread_def by blast
  moreover have "w = c" using c w by blast
  moreover have "dv \<le> d + walk_cost g v p" using Cons d by simp
  ultimately show ?case using w by simp
qed simp

section \<open>The graph as a component\<close>

text \<open>
  A kept result is the one the search computes on the present graph: the cache is coherent.
\<close>

definition graph_ok :: "route_graph \<Rightarrow> bool" where
  "graph_ok g \<longleftrightarrow> vertices_ok (FVertices g) \<and>
     (\<forall>(start, info)\<in>set (FPathes g). om_has start (FVertices g) \<and>
        map_option (\<lambda>s. \<lparr>FMinDistance = dist_of s, FPrevious = prev_of s\<rparr>)
          (dijkstra_loop (FVertices g) (search_start start)) = Some info)"

lemma graph_ok_reset: "vertices_ok (FVertices g) \<Longrightarrow> FPathes g = [] \<Longrightarrow> graph_ok g"
  by (simp add: graph_ok_def)

lemma MAddNode_total: "\<forall>(v, w)\<in>set es. 0 \<le> w \<Longrightarrow> \<exists>g'. MAddNode name es g = Some g'"
  using add_targets_Some [of es "FVertices g"] by (auto simp: MAddNode_def)

lemma MAddNode_graph_ok:
  assumes "graph_ok g" "om_ok es" "MAddNode name es g = Some g'"
  shows "graph_ok g'"
proof (rule graph_ok_reset)
  show "vertices_ok (FVertices g')"
    using MAddNode_ok [OF _ assms(2,3)] assms(1) by (simp add: graph_ok_def)
  show "FPathes g' = []" using assms(3) by (auto simp: MAddNode_def MResetCache_def)
qed

lemma MRemoveNode_graph_ok:
  assumes "graph_ok g" "MRemoveNode name g = (es, g')"
  shows "graph_ok g'"
proof (cases "om_get (FVertices g) name")
  case None
  then show ?thesis using assms by (simp add: MRemoveNode_def)
next
  case (Some m)
  show ?thesis
  proof (rule graph_ok_reset)
    show "vertices_ok (FVertices g')"
      using MRemoveNode_ok [OF _ assms(2)] assms(1) by (simp add: graph_ok_def)
    show "FPathes g' = []"
      using assms(2) Some by (auto simp: MRemoveNode_def MResetCache_def Let_def)
  qed
qed

lemma MShortestPath_step:
  assumes ok: "graph_ok g" and b: "graph_bounded g W" and s: "om_has start (FVertices g)"
  shows "\<exists>s p g'. loop_inv g start W s \<and> vertex_queue s = []
     \<and> walk_back (prev_of s) start finish = Some p
     \<and> MShortestPath start finish g = Some (rev p, g') \<and> FVertices g' = FVertices g \<and> graph_ok g'
     \<and> om_get (FPathes g') start = Some \<lparr>FMinDistance = dist_of s, FPrevious = prev_of s\<rparr>"
proof -
  obtain t where t: "dijkstra_loop (FVertices g) (search_start start) = Some t"
      "loop_inv g start W t" "vertex_queue t = []"
    using dijkstra_loop_total [OF loop_inv_start [OF s] b] by blast
  obtain p where p: "walk_back (prev_of t) start finish = Some p"
    using walk_back_result [OF t(2,3)] by blast
  let ?i = "\<lparr>FMinDistance = dist_of t, FPrevious = prev_of t\<rparr>"
  show ?thesis
  proof (cases "om_get (FPathes g) start")
    case (Some info)
    then have "info = ?i" using ok t(1) by (auto simp: graph_ok_def dest!: map_of_SomeD)
    then have "MShortestPath start finish g = Some (rev p, g)"
      using Some p by (simp add: MShortestPath_def)
    then show ?thesis using t p ok Some \<open>info = ?i\<close> by blast
  next
    case None
    let ?g = "g\<lparr>FPathes := om_set start ?i (FPathes g)\<rparr>"
    have "MShortestPath start finish g = Some (rev p, ?g)"
      using None p by (simp add: MShortestPath_def MDijkstraComputePathsFor_def t(1) om_simps)
    moreover have "graph_ok ?g"
      using ok s t(1) om_set_subset [of start ?i "FPathes g"] by (fastforce simp: graph_ok_def)
    ultimately show ?thesis using t p by (auto simp: om_simps)
  qed
qed

datatype graph_op = AddNode uuid vertexs_t | RemoveNode uuid | Reset | ShortestPath uuid uuid

fun graph_step :: "route_graph \<Rightarrow> graph_op \<Rightarrow> route_graph option" where
  "graph_step g (AddNode name es) = MAddNode name es g"
| "graph_step g (RemoveNode name) = Some (snd (MRemoveNode name g))"
| "graph_step g Reset = Some (MReset g)"
| "graph_step g (ShortestPath a b) = map_option snd (MShortestPath a b g)"

text \<open>
  What the kernel keeps to: latencies are values of \<open>uint16_t\<close>, and a path is asked for from
  a vertex of a graph of at most 32768 vertices.
\<close>

fun graph_allowed :: "route_graph \<Rightarrow> graph_op \<Rightarrow> bool" where
  "graph_allowed g (AddNode name es) \<longleftrightarrow> om_ok es \<and> (\<forall>(v, w)\<in>set es. 0 \<le> w \<and> w \<le> 65535)"
| "graph_allowed g (ShortestPath a b) \<longleftrightarrow> om_has a (FVertices g) \<and> int (length (FVertices g)) \<le> 32768"
| "graph_allowed g x = True"

definition latency16 :: "route_graph \<Rightarrow> bool" where
  "latency16 g \<longleftrightarrow> (\<forall>(k, m)\<in>set (FVertices g). \<forall>(v, w)\<in>set m. w \<le> 65535)"

lemma latency16_edge: "vertices_ok (FVertices g) \<Longrightarrow>
  latency16 g \<longleftrightarrow> (\<forall>u v w. edge g u v = Some w \<longrightarrow> w \<le> 65535)"
proof -
  assume ok: "vertices_ok (FVertices g)"
  have "edge g k v = Some w" if "(k, m) \<in> set (FVertices g)" "(v, w) \<in> set m" for k m v w
  proof -
    have "om_get (FVertices g) k = Some m" using ok that by (simp add: vertices_ok_def om_get_mem)
    with that vertices_okD(1) [OF ok this] show ?thesis by (simp add: edge_def om_get_mem)
  qed
  moreover have "\<exists>m. (u, m) \<in> set (FVertices g) \<and> (v, w) \<in> set m" if "edge g u v = Some w" for u v w
    using that by (auto simp: edge_def split: option.splits dest!: map_of_SomeD)
  ultimately show ?thesis unfolding latency16_def by fast
qed

lemma latency16_bounded:
  "graph_ok g \<Longrightarrow> latency16 g \<Longrightarrow> int (length (FVertices g)) \<le> 32768 \<Longrightarrow> graph_bounded g 65535"
  unfolding graph_bounded_def graph_ok_def latency16_def INT_MAX_def by simp

lemma graph_step_total:
  assumes "graph_ok g" "latency16 g" "graph_allowed g x"
  shows "\<exists>g'. graph_step g x = Some g' \<and> graph_ok g' \<and> latency16 g'"
proof (cases x)
  case (AddNode name es)
  then obtain g' where g': "MAddNode name es g = Some g'"
    using MAddNode_total [of es name g] assms(3) by auto
  then have ok: "graph_ok g'" using MAddNode_graph_ok assms AddNode by auto
  have es: "w \<le> 65535" if "om_get es v = Some w" for v w
    using that assms(3) AddNode by (auto dest!: map_of_SomeD)
  have g: "w \<le> 65535" if "edge g u v = Some w" for u v w
    using assms(1,2) latency16_edge [of g] that by (simp add: graph_ok_def)
  have "w \<le> 65535" if "edge g' u v = Some w" for u v w
    using that es g by (auto simp: edge_MAddNode [OF g'] split: if_splits option.splits)
  then have "latency16 g'" using ok latency16_edge [of g'] by (simp add: graph_ok_def)
  with g' ok AddNode show ?thesis by auto
next
  case (RemoveNode name)
  obtain es g' where g': "MRemoveNode name g = (es, g')" by fastforce
  have ok: "graph_ok g'" using MRemoveNode_graph_ok [OF assms(1) g'] .
  have g: "w \<le> 65535" if "edge g u v = Some w" for u v w
    using assms(1,2) latency16_edge [of g] that by (simp add: graph_ok_def)
  have "w \<le> 65535" if "edge g' u v = Some w" for u v w
    using that g by (auto simp: edge_MRemoveNode [OF g'] split: if_splits)
  then have "latency16 g'" using ok latency16_edge [of g'] by (simp add: graph_ok_def)
  with g' ok RemoveNode show ?thesis by auto
next
  case Reset
  then show ?thesis
    by (auto simp: MReset_def MResetCache_def graph_ok_def vertices_ok_def latency16_def)
next
  case (ShortestPath a b)
  then have "graph_bounded g 65535" "om_has a (FVertices g)"
    using assms latency16_bounded by simp_all
  then obtain p g' where "MShortestPath a b g = Some (p, g')" "FVertices g' = FVertices g" "graph_ok g'"
    using MShortestPath_step [OF assms(1), of 65535 a b] by blast
  then show ?thesis using ShortestPath assms(2) by (simp add: latency16_def)
qed

interpretation rg: operation_driven graph_step graph_allowed "\<lambda>g. graph_ok g \<and> latency16 g"
  by unfold_locales (use graph_step_total in fastforce)+

section \<open>The interface of a provider of ways\<close>

text \<open>
  What a client that looks for the way to a vertex relies on: the provider answers, keeps the
  graph, finds a way exactly when there is one, and the way begins with a neighbour from which
  the finish can be reached.
\<close>

locale path_provider =
  fixes path :: "uuid \<Rightarrow> uuid \<Rightarrow> 'g \<Rightarrow> (uuid list \<times> 'g) option"
    and can_reach :: "'g \<Rightarrow> uuid \<Rightarrow> uuid \<Rightarrow> bool"
    and neighbour :: "'g \<Rightarrow> uuid \<Rightarrow> uuid \<Rightarrow> bool"
    and ready :: "uuid \<Rightarrow> 'g \<Rightarrow> bool"
  assumes path_total: "ready a g \<Longrightarrow> \<exists>p g'. path a b g = Some (p, g')"
    and path_keeps: "ready a g \<Longrightarrow> path a b g = Some (p, g') \<Longrightarrow>
      ready a g' \<and> can_reach g' = can_reach g \<and> neighbour g' = neighbour g"
    and path_found: "ready a g \<Longrightarrow> path a b g = Some (p, g') \<Longrightarrow> p \<noteq> [] \<longleftrightarrow> a \<noteq> b \<and> can_reach g a b"
    and path_first: "ready a g \<Longrightarrow> path a b g = Some (p, g') \<Longrightarrow> p \<noteq> [] \<Longrightarrow>
      neighbour g a (hd p) \<and> can_reach g (hd p) b"
begin

lemma first_hop:
  assumes "ready a g"
  obtains p g' where "path a b g = Some (p, g')" "ready a g'" "can_reach g' = can_reach g" "neighbour g' = neighbour g"
    "p \<noteq> [] \<longleftrightarrow> a \<noteq> b \<and> can_reach g a b" "p \<noteq> [] \<Longrightarrow> neighbour g a (hd p) \<and> can_reach g (hd p) b"
  using path_total [OF assms, of b] path_keeps [OF assms, of b] path_found [OF assms, of b] path_first [OF assms, of b]
  by metis

end

definition search_ready :: "uuid \<Rightarrow> route_graph \<Rightarrow> bool" where
  "search_ready a g \<longleftrightarrow> graph_ok g \<and> latency16 g \<and> om_has a (FVertices g) \<and> int (length (FVertices g)) \<le> 32768"

lemma search_step:
  assumes "search_ready a g"
  obtains p g' where "MShortestPath a b g = Some (p, g')" "FVertices g' = FVertices g" "graph_ok g'"
    "p \<noteq> [] \<longleftrightarrow> a \<noteq> b \<and> reachable g a b" "p \<noteq> [] \<Longrightarrow> last p = b \<and> is_walk g a p"
proof -
  have g: "graph_ok g" "graph_bounded g 65535" "om_has a (FVertices g)"
    using assms latency16_bounded by (simp_all add: search_ready_def)
  obtain s p g' where s: "loop_inv g a 65535 s" "vertex_queue s = []" "walk_back (prev_of s) a b = Some p"
    "MShortestPath a b g = Some (rev p, g')" "FVertices g' = FVertices g" "graph_ok g'"
    using MShortestPath_step [OF g, of b] by blast
  have "if b \<noteq> a \<and> reachable g a b
      then p \<noteq> [] \<and> hd p = b \<and> is_walk g a (rev p) \<and> distinct (a # p)
        \<and> walk_cost g a (rev p) \<le> the (om_get (dist_of s) b)
      else p = []"
    using walk_back_result [OF s(1,2), of b] s(3) by auto
  then have "rev p \<noteq> [] \<longleftrightarrow> a \<noteq> b \<and> reachable g a b" "rev p \<noteq> [] \<Longrightarrow> last (rev p) = b \<and> is_walk g a (rev p)"
    by (auto simp: last_rev split: if_splits)
  with s that show thesis by blast
qed

lemma walk_splits:
  assumes "is_walk g a p" "p \<noteq> []"
  shows "edge g a (hd p) \<noteq> None \<and> reachable g (hd p) (last p)"
proof (cases p)
  case (Cons v vs)
  then have "is_walk g v vs" "edge g a v \<noteq> None" "last p = last (v # vs)" using assms by auto
  then show ?thesis unfolding Cons reachable_def list.sel by blast
qed (use assms in simp)

lemma same_vertices:
  assumes "FVertices g' = FVertices g"
  shows "edge g' = edge g" "reachable g' = reachable g"
proof -
  show e: "edge g' = edge g" using assms by (simp add: edge_def fun_eq_iff)
  have "is_walk g' u vs = is_walk g u vs" for u vs by (induction vs arbitrary: u) (simp_all add: e)
  then show "reachable g' = reachable g" by (simp add: reachable_def fun_eq_iff)
qed

interpretation rp: path_provider MShortestPath reachable "\<lambda>g u v. edge g u v \<noteq> None" search_ready
proof unfold_locales
  fix a b p and g g' :: route_graph
  assume ready: "search_ready a g"
  show "\<exists>p g'. MShortestPath a b g = Some (p, g')" using search_step [OF ready] by metis
  assume path: "MShortestPath a b g = Some (p, g')"
  have v: "FVertices g' = FVertices g" "graph_ok g'" and p: "p \<noteq> [] \<longleftrightarrow> a \<noteq> b \<and> reachable g a b"
    "p \<noteq> [] \<Longrightarrow> last p = b \<and> is_walk g a p"
    using search_step [OF ready, of b] path by (metis option.inject prod.inject)+
  show "search_ready a g' \<and> reachable g' = reachable g \<and> (\<lambda>u v. edge g' u v \<noteq> None) = (\<lambda>u v. edge g u v \<noteq> None)"
    using ready v same_vertices [OF v(1)] by (simp add: search_ready_def latency16_def)
  show "p \<noteq> [] \<longleftrightarrow> a \<noteq> b \<and> reachable g a b" by (rule p(1))
  assume "p \<noteq> []"
  then show "edge g a (hd p) \<noteq> None \<and> reachable g (hd p) b" using p(2) walk_splits by blast
qed

section \<open>Sample graphs\<close>

definition sample_graph :: route_graph where
  "sample_graph = \<lparr>FVertices = [(1, [(2, 10), (3, 1), (4, 5)]), (2, [(4, 1)]), (3, [(2, 1)]), (4, [])],
     FPathes = []\<rparr>"

definition even_graph :: route_graph where
  "even_graph = \<lparr>FVertices = [(1, [(2, 1), (3, 1)]), (2, [(4, 1)]), (3, [(2, 1)]), (4, [])],
     FPathes = []\<rparr>"

lemma sample_graph_ok:
  "graph_ok sample_graph" "graph_bounded sample_graph 10" "om_has 1 (FVertices sample_graph)"
  by code_simp+

lemma even_graph_ok:
  "graph_ok even_graph" "graph_bounded even_graph 1" "om_has 1 (FVertices even_graph)"
  by code_simp+

lemma even_graph_latency: "\<forall>u v w. edge even_graph u v = Some w \<longrightarrow> w = 1"
  by (auto simp: edge_def even_graph_def split: option.splits if_splits)

section \<open>Properties\<close>

text \<open>
  C29: the search ends without stopping the process and gives a path exactly when the finish is
  another vertex that can be reached; the path is a walk along edges of the graph, ends at the
  finish, visits no vertex twice, and costs at most the distance the search reports. The graph
  itself is unchanged and the cache stays coherent.
\<close>

theorem MShortestPath_correct:
  assumes "graph_ok g" "graph_bounded g W" "om_has start (FVertices g)"
  shows "\<exists>p g' info. MShortestPath start finish g = Some (p, g') \<and> FVertices g' = FVertices g
     \<and> graph_ok g' \<and> om_get (FPathes g') start = Some info \<and>
     (if finish \<noteq> start \<and> reachable g start finish
      then p \<noteq> [] \<and> last p = finish \<and> is_walk g start p \<and> distinct (start # p)
        \<and> walk_cost g start p \<le> the (om_get (FMinDistance info) finish)
      else p = [])"
proof -
  obtain s p g' where s: "loop_inv g start W s" "vertex_queue s = []"
      "walk_back (prev_of s) start finish = Some p"
      "MShortestPath start finish g = Some (rev p, g')" "FVertices g' = FVertices g" "graph_ok g'"
      "om_get (FPathes g') start = Some \<lparr>FMinDistance = dist_of s, FPrevious = prev_of s\<rparr>"
    using MShortestPath_step [OF assms, of finish] by blast
  have p: "if finish \<noteq> start \<and> reachable g start finish
      then p \<noteq> [] \<and> hd p = finish \<and> is_walk g start (rev p) \<and> distinct (start # p)
        \<and> walk_cost g start (rev p) \<le> the (om_get (dist_of s) finish)
      else p = []"
    using walk_back_result [OF s(1,2), of finish] s(3) by auto
  show ?thesis
  proof (cases "finish \<noteq> start \<and> reachable g start finish")
    case True
    then have "p \<noteq> []" "hd p = finish" "is_walk g start (rev p)" "distinct (start # rev p)"
      "walk_cost g start (rev p) \<le> the (om_get (dist_of s) finish)"
      using p by simp_all
    with True s(4-) show ?thesis by (fastforce simp: last_rev)
  next
    case False
    then have "p = []" using p by (simp only: if_False)
    with False s(4-) show ?thesis by auto
  qed
qed

theorem MShortestPath_correct_witness:
  "\<exists>p g' info. MShortestPath 1 4 sample_graph = Some (p, g')
     \<and> FVertices g' = FVertices sample_graph
     \<and> graph_ok g' \<and> om_get (FPathes g') 1 = Some info \<and>
     (if (4::uuid) \<noteq> 1 \<and> reachable sample_graph 1 4
      then p \<noteq> [] \<and> last p = 4 \<and> is_walk sample_graph 1 p \<and> distinct (1 # p)
        \<and> walk_cost sample_graph 1 p \<le> the (om_get (FMinDistance info) 4)
      else p = [])"
  by (rule MShortestPath_correct [OF sample_graph_ok])

text \<open>
  When all links have one latency, the path found is a shortest one: no walk between the
  two vertices costs less.
\<close>

theorem MShortestPath_uniform_optimal:
  assumes "graph_ok g" "graph_bounded g W" "om_has start (FVertices g)"
    and "\<forall>u v w. edge g u v = Some w \<longrightarrow> w = c" "0 \<le> c"
    and "MShortestPath start finish g = Some (p, g')" "p \<noteq> []"
    and "is_walk g start r" "last (start # r) = finish"
  shows "walk_cost g start p \<le> walk_cost g start r"
proof -
  obtain s q where s: "loop_inv g start W s" "vertex_queue s = []"
      "walk_back (prev_of s) start finish = Some q" "p = rev q"
    using MShortestPath_step [OF assms(1-3), of finish] assms(6) by auto
  obtain cur where i: "search_inv g start W cur (examined g s) s"
    using s(1) by (auto simp: loop_inv_def)
  have reach: "finish \<noteq> start \<and> reachable g start finish"
    using walk_back_result [OF s(1,2), of finish] s(3,4) assms(7) by (auto split: if_splits)
  then obtain d where d: "om_get (dist_of s) finish = Some d"
    using search_reachable [OF s(1,2), of finish] by (auto simp: om_has_def)
  have "walk_cost g start p \<le> d"
    using walk_back_result [OF s(1,2), of finish] s(3,4) reach d by auto
  also have "d \<le> 0 + walk_cost g start r"
    using uniform_distance_minimal [OF s(1,2) assms(4,5,8) search_invD(1) [OF i]] d assms(9) by auto
  finally show ?thesis by simp
qed

theorem MShortestPath_uniform_optimal_witness:
  "walk_cost even_graph 1 [2, 4] \<le> walk_cost even_graph 1 [3, 2, 4]"
proof -
  have p: "map_option fst (MShortestPath 1 4 even_graph) = Some [2, 4]" by code_simp
  then obtain g' where "MShortestPath 1 4 even_graph = Some ([2, 4], g')" by auto
  moreover have "is_walk even_graph 1 [3, 2, 4]" by code_simp
  ultimately show ?thesis
    by (intro MShortestPath_uniform_optimal [OF even_graph_ok even_graph_latency]) auto
qed

text \<open>
  with different latencies the path need not be a shortest one. The search leaves a
  distance as it was first found (\<open>insert\<close> does not overwrite), so from 1 to 4 it answers the
  direct edge of latency 5, although the walk over 3 and 2 takes 3.
\<close>

theorem MShortestPath_not_shortest:
  "map_option fst (MShortestPath 1 4 sample_graph) = Some [4]
   \<and> is_walk sample_graph 1 [3, 2, 4]
   \<and> walk_cost sample_graph 1 [3, 2, 4] < walk_cost sample_graph 1 [4]"
  by code_simp

text \<open>
  However the kernel adds and removes vertices, resets the graph and asks for paths, no
  operation stops the process, the graph stays well-formed and the kept results stay those of
  the present graph.
\<close>

theorem graph_run_safe:
  assumes "disciplined graph_step graph_allowed empty_graph xs"
  shows "\<exists>g. run_ops graph_step empty_graph xs = Some g \<and> graph_ok g \<and> latency16 g"
  using rg.run_total_inv [OF _ assms]
  by (simp add: graph_ok_def vertices_ok_def latency16_def empty_graph_def)

theorem graph_run_safe_witness:
  "\<exists>g. run_ops graph_step empty_graph
        [AddNode 1 [(2, 7)], AddNode 2 [(3, 1)], ShortestPath 1 3, RemoveNode 2, ShortestPath 1 3]
      = Some g \<and> graph_ok g \<and> latency16 g"
  by (rule graph_run_safe) code_simp

text \<open>
  Adding a vertex gives it the edges that it did not have and keeps every other edge, so
  the latency of a known link is not changed; it stops the process exactly when a latency is
  negative. Removing a vertex of the graph removes the edges from and to it and no others, and
  returns its edges.
\<close>

theorem graph_edges_after:
  assumes "graph_ok g" "om_ok es"
  shows "(MAddNode n es g = None \<longleftrightarrow> (\<exists>e\<in>set es. snd e < 0))
    \<and> (\<forall>g' u v. MAddNode n es g = Some g' \<longrightarrow> edge g' u v =
        (if u = n \<and> edge g u v = None then om_get es v else edge g u v))
    \<and> (\<forall>m g' u v. MRemoveNode n g = (m, g') \<longrightarrow>
        edge g' u v = (if u = n \<or> v = n then None else edge g u v)
        \<and> om_has v (FVertices g') = (v \<noteq> n \<and> om_has v (FVertices g))
        \<and> (om_has n (FVertices g) \<longrightarrow> om_get (FVertices g) n = Some m))"
proof (intro conjI allI impI)
  show "MAddNode n es g = None \<longleftrightarrow> (\<exists>e\<in>set es. snd e < 0)"
  proof -
    have "MAddNode n es g = None \<longleftrightarrow> \<not> (\<exists>vs. add_targets es (FVertices g) = Some vs)"
      by (simp add: MAddNode_def)
    also have "\<dots> \<longleftrightarrow> \<not> (\<forall>(v, w)\<in>set es. 0 \<le> w)" by (simp only: add_targets_Some)
    also have "\<dots> \<longleftrightarrow> (\<exists>e\<in>set es. snd e < 0)" by force
    finally show ?thesis .
  qed
  show "edge g' u v = (if u = n \<and> edge g u v = None then om_get es v else edge g u v)"
    if "MAddNode n es g = Some g'" for g' u v
    using edge_MAddNode [OF that] by (auto split: option.splits)
  fix m g' u v assume r: "MRemoveNode n g = (m, g')"
  have "edge g u v = None" if "\<not> om_has n (FVertices g)" "v = n"
    using that edge_ok [of g u v] assms(1) by (cases "edge g u v") (auto simp: graph_ok_def)
  then show "edge g' u v = (if u = n \<or> v = n then None else edge g u v)"
    by (auto simp: edge_MRemoveNode [OF r])
  show "om_has v (FVertices g') = (v \<noteq> n \<and> om_has v (FVertices g))"
    by (rule vertices_MRemoveNode [OF r])
  show "om_get (FVertices g) n = Some m" if "om_has n (FVertices g)"
    using that r by (auto simp: om_has_def MRemoveNode_def Let_def)
qed

theorem graph_edges_after_witness:
  "MAddNode 3 [(4, 2)] sample_graph \<noteq> None
   \<and> edge (the (MAddNode 3 [(4, 2)] sample_graph)) 3 4 = Some 2
   \<and> edge (snd (MRemoveNode 3 sample_graph)) 1 3 = None
   \<and> om_get (FVertices sample_graph) 3 = Some (fst (MRemoveNode 3 sample_graph))"
proof -
  note p = graph_edges_after [OF sample_graph_ok(1), of "[(4, 2)]" 3]
  have some: "MAddNode 3 [(4, 2)] sample_graph \<noteq> None" using p by (simp add: om_ok_def)
  then obtain g' where g': "MAddNode 3 [(4, 2)] sample_graph = Some g'" by blast
  have "edge sample_graph 3 4 = None" "om_has 3 (FVertices sample_graph)" by code_simp+
  moreover obtain m h where "MRemoveNode 3 sample_graph = (m, h)" by fastforce
  ultimately show ?thesis using p g' by (simp add: om_ok_def)
qed

end
