(* ===== verification/Descriptors.thy ===== *)
theory Descriptors
  imports Udt_Types
begin

text \<open>
  The table of connections (\<open>core/CDescriptors.h/.cpp\<close>). A connection is created as a number,
  opened when the program at its other end has introduced itself, and closed. \<open>FByUUIDs\<close> finds
  the connection of a program; it holds iterators into \<open>FDescriptors\<close>, here the number, and
  using one whose connection is gone is \<open>None\<close>. Every operation reports to
  \<open>CDataObject\<close>: the events it pushes are part of its result. A descriptor's information is its
  \<open>kernel_link\<close> part; the free-form \<open>FInfo\<close> is only shown to the user.
\<close>

type_synonym descriptor_info_t = kernel_link

datatype d_event =
    create_descriptor descriptor
  | open_descriptor descriptor descriptor_info_t
  | close_descriptor descriptor descriptor_info_t
  | destroy_descriptor descriptor

record descriptors =
  FLast :: int
  FDescriptors :: "(descriptor, descriptor_info_t option) omap"
  FByUUIDs :: "(uuid, descriptor) omap"

definition INVALID :: descriptor where "INVALID = - 1"

definition CDescriptors :: descriptors where
  "CDescriptors = \<lparr>FLast = 1, FDescriptors = [], FByUUIDs = []\<rparr>"

definition default_descriptor_info :: descriptor_info_t where
  "default_descriptor_info =
     \<lparr>FProgramm = default_program_id, FConnectTime = 0, FTypeLink = [], FLatency = - 1\<rparr>"

definition descriptor_info_eq :: "descriptor_info_t \<Rightarrow> descriptor_info_t \<Rightarrow> bool" where
  "descriptor_info_eq a b = program_id_eq (FProgramm a) (FProgramm b)"

section \<open>Operations\<close>

text \<open>\<open>++FLast\<close> overflows at the greatest \<open>int\<close>.\<close>

definition MGetFree :: "descriptors \<Rightarrow> (descriptor \<times> descriptors) option" where
  "MGetFree s =
     (if FLast s \<ge> 2147483647 then None
      else Some (FLast s + 1, s\<lparr>FLast := FLast s + 1\<rparr>))"

definition MCreate :: "descriptors \<Rightarrow> (descriptor \<times> d_event list \<times> descriptors) option" where
  "MCreate s =
     map_option
       (\<lambda>(new, t). (new, [create_descriptor new], t\<lparr>FDescriptors := om_set new None (FDescriptors t)\<rparr>))
       (MGetFree s)"

definition MOpenInfo ::
    "descriptor \<Rightarrow> descriptor_info_t \<Rightarrow> descriptors \<Rightarrow> d_event list \<times> descriptors" where
  "MOpenInfo aVal aInfo s =
     ([open_descriptor aVal aInfo],
      s\<lparr>FDescriptors := om_set aVal (Some aInfo) (FDescriptors s),
        FByUUIDs := om_set (link_uuid aInfo) aVal (FByUUIDs s)\<rparr>)"

definition MOpen ::
    "descriptor \<Rightarrow> descriptor_info_t \<Rightarrow> descriptors \<Rightarrow> bool \<times> d_event list \<times> descriptors" where
  "MOpen aVal aInfo s =
     (if \<not> om_has aVal (FDescriptors s) then (False, [], s) else (True, MOpenInfo aVal aInfo s))"

definition MCloseInfo ::
    "descriptor_info_t \<Rightarrow> descriptor \<Rightarrow> descriptors \<Rightarrow> d_event list \<times> descriptors" where
  "MCloseInfo info aVal s =
     ([close_descriptor aVal info], s\<lparr>FByUUIDs := om_erase (link_uuid info) (FByUUIDs s)\<rparr>)"

definition MClose :: "descriptor \<Rightarrow> descriptors \<Rightarrow> d_event list \<times> descriptors" where
  "MClose aVal s =
     (case om_get (FDescriptors s) aVal of
        None \<Rightarrow> ([], s)
      | Some info \<Rightarrow>
          (let t = s\<lparr>FDescriptors := om_erase aVal (FDescriptors s)\<rparr>;
               (ev, u) = (case info of None \<Rightarrow> ([], t) | Some i \<Rightarrow> MCloseInfo i aVal t)
           in (ev @ [destroy_descriptor aVal], u)))"

definition MIs :: "descriptor \<Rightarrow> descriptors \<Rightarrow> bool" where
  "MIs aVal s = om_has aVal (FDescriptors s)"

definition MIs_uuid :: "uuid \<Rightarrow> descriptors \<Rightarrow> bool" where
  "MIs_uuid aVal s = om_has aVal (FByUUIDs s)"

definition MGet_uuid :: "uuid \<Rightarrow> descriptors \<Rightarrow> descriptor option" where
  "MGet_uuid aVal s =
     (case om_get (FByUUIDs s) aVal of
        None \<Rightarrow> Some INVALID
      | Some d \<Rightarrow> if om_has d (FDescriptors s) then Some d else None)"

text \<open>A connection that is not open compares as the default information.\<close>

definition MGet_by_info :: "descriptor_info_t \<Rightarrow> descriptors \<Rightarrow> descriptor" where
  "MGet_by_info aVal s =
     (case find (\<lambda>(d, i). \<not> descriptor_info_eq aVal
                  (case i of None \<Rightarrow> default_descriptor_info | Some x \<Rightarrow> x)) (FDescriptors s) of
        None \<Rightarrow> INVALID
      | Some (d, _) \<Rightarrow> d)"

definition MGet_info :: "descriptor \<Rightarrow> descriptors \<Rightarrow> descriptor_info_t \<times> bool" where
  "MGet_info aVal s =
     (case om_get (FDescriptors s) aVal of
        Some (Some i) \<Rightarrow> (i, True)
      | _ \<Rightarrow> (default_descriptor_info, False))"

definition MIsInfo :: "descriptor \<Rightarrow> descriptors \<Rightarrow> bool" where
  "MIsInfo aVal s = (case om_get (FDescriptors s) aVal of Some (Some _) \<Rightarrow> True | _ \<Rightarrow> False)"

definition MIsCustomer :: "descriptor \<Rightarrow> descriptors \<Rightarrow> bool" where
  "MIsCustomer aVal s =
     (case om_get (FDescriptors s) aVal of
        Some (Some i) \<Rightarrow> FType (FProgramm i) = E_CONSUMER
      | _ \<Rightarrow> False)"

definition MGetAll :: "descriptors \<Rightarrow> (descriptor, descriptor_info_t option) omap" where
  "MGetAll s = FDescriptors s"

definition MGetAll_of ::
    "eProgramType \<Rightarrow> descriptors \<Rightarrow> (descriptor, descriptor_info_t option) omap" where
  "MGetAll_of aType s =
     filter (\<lambda>(d, i). case i of Some x \<Rightarrow> FType (FProgramm x) = aType | None \<Rightarrow> False) (FDescriptors s)"

definition sMIsValid :: "descriptor \<Rightarrow> bool" where
  "sMIsValid aVal \<longleftrightarrow> 0 \<le> aVal"

section \<open>Invariant\<close>

text \<open>
  The numbers given out are those between the minimal one and \<open>FLast\<close>, and \<open>FByUUIDs\<close> is exactly the inverse
  of the programs of the open connections.
\<close>

definition descriptors_ok :: "descriptors \<Rightarrow> bool" where
  "descriptors_ok s \<longleftrightarrow> 1 \<le> FLast s \<and> om_ok (FDescriptors s) \<and> om_ok (FByUUIDs s)
     \<and> (\<forall>(d, i)\<in>set (FDescriptors s). 1 < d \<and> d \<le> FLast s
          \<and> (case i of None \<Rightarrow> True | Some x \<Rightarrow> om_get (FByUUIDs s) (link_uuid x) = Some d))
     \<and> (\<forall>(u, d)\<in>set (FByUUIDs s).
          case om_get (FDescriptors s) d of Some (Some x) \<Rightarrow> link_uuid x = u | _ \<Rightarrow> False)"

lemma descriptors_ok_iff:
  "descriptors_ok s \<longleftrightarrow> 1 \<le> FLast s \<and> om_ok (FDescriptors s) \<and> om_ok (FByUUIDs s)
     \<and> (\<forall>d. om_has d (FDescriptors s) \<longrightarrow> 1 < d \<and> d \<le> FLast s)
     \<and> (\<forall>u d. om_get (FByUUIDs s) u = Some d \<longleftrightarrow>
          (\<exists>x. om_get (FDescriptors s) d = Some (Some x) \<and> link_uuid x = u))"
  (is "?l \<longleftrightarrow> ?r")
proof
  assume l: ?l
  then have ok: "om_ok (FDescriptors s)" "om_ok (FByUUIDs s)" by (auto simp: descriptors_ok_def)
  have 1: "1 < d \<and> d \<le> FLast s \<and> (case i of None \<Rightarrow> True | Some x \<Rightarrow> om_get (FByUUIDs s) (link_uuid x) = Some d)"
    if "om_get (FDescriptors s) d = Some i" for d i
    using l map_of_SomeD [OF that] by (auto simp: descriptors_ok_def)
  have 2: "case om_get (FDescriptors s) d of Some (Some x) \<Rightarrow> link_uuid x = u | _ \<Rightarrow> False"
    if "om_get (FByUUIDs s) u = Some d" for u d
    using l map_of_SomeD [OF that] by (auto simp: descriptors_ok_def)
  have "om_get (FByUUIDs s) u = Some d \<longleftrightarrow>
      (\<exists>x. om_get (FDescriptors s) d = Some (Some x) \<and> link_uuid x = u)" for u d
    using 1 [of d "Some _"] 2 [of u d] by (auto split: option.splits)
  moreover have "1 < d \<and> d \<le> FLast s" if "om_has d (FDescriptors s)" for d
    using that 1 by (auto simp: om_has_def)
  ultimately show ?r using l by (auto simp: descriptors_ok_def)
next
  assume r: ?r
  have "1 < d \<and> d \<le> FLast s \<and> (case i of None \<Rightarrow> True | Some x \<Rightarrow> om_get (FByUUIDs s) (link_uuid x) = Some d)"
    if "(d, i) \<in> set (FDescriptors s)" for d i
    using r that by (auto simp flip: om_get_mem simp: om_has_def split: option.splits)
  moreover have "case om_get (FDescriptors s) d of Some (Some x) \<Rightarrow> link_uuid x = u | _ \<Rightarrow> False"
    if "(u, d) \<in> set (FByUUIDs s)" for u d
    using r that by (auto simp flip: om_get_mem)
  ultimately show ?l using r unfolding descriptors_ok_def by blast
qed

lemma CDescriptors_ok: "descriptors_ok CDescriptors"
  by (simp add: descriptors_ok_def CDescriptors_def)

lemma MCreate_ok:
  assumes "descriptors_ok s" "MCreate s = Some (new, ev, t)"
  shows "descriptors_ok t \<and> new = FLast s + 1 \<and> FLast t = new \<and> \<not> om_has new (FDescriptors s)
     \<and> om_get (FDescriptors t) = (om_get (FDescriptors s))(new \<mapsto> None) \<and> FByUUIDs t = FByUUIDs s"
proof -
  have t: "new = FLast s + 1" "t = s\<lparr>FLast := new, FDescriptors := om_set new None (FDescriptors s)\<rparr>"
    using assms(2) by (auto simp: MCreate_def MGetFree_def split: if_splits)
  have fresh: "om_get (FDescriptors s) new = None"
    using assms(1) t(1) by (fastforce simp: descriptors_ok_iff om_has_def)
  have "descriptors_ok t"
    using assms(1) t(1) fresh unfolding descriptors_ok_iff t(2)
    by (auto simp: om_simps om_intros)
  with t fresh show ?thesis by (auto simp: om_simps om_has_def)
qed

text \<open>What the kernel keeps to when it opens: a created connection, and a program that has none.\<close>

definition open_allowed :: "descriptor \<Rightarrow> descriptor_info_t \<Rightarrow> descriptors \<Rightarrow> bool" where
  "open_allowed d i s \<longleftrightarrow> \<not> MIsInfo d s \<and> \<not> MIs_uuid (link_uuid i) s"

lemma MOpen_ok:
  assumes "descriptors_ok s" "open_allowed d i s" "MOpen d i s = (r, ev, t)"
  shows "descriptors_ok t"
proof (cases "om_has d (FDescriptors s)")
  case False
  then show ?thesis using assms by (simp add: MOpen_def)
next
  case True
  then have t: "t = s\<lparr>FDescriptors := om_set d (Some i) (FDescriptors s),
      FByUUIDs := om_set (link_uuid i) d (FByUUIDs s)\<rparr>"
    using assms(3) by (simp add: MOpen_def MOpenInfo_def)
  have n: "om_get (FDescriptors s) d \<noteq> Some (Some x)" "om_get (FByUUIDs s) (link_uuid i) = None" for x
    using assms(2) by (auto simp: open_allowed_def MIsInfo_def MIs_uuid_def om_has_def)
  then have "link_uuid x \<noteq> link_uuid i" if "om_get (FDescriptors s) e = Some (Some x)" for e x
    using that assms(1) unfolding descriptors_ok_iff by (metis option.distinct(1))
  then show ?thesis
    using assms(1) n True unfolding descriptors_ok_iff t by (auto simp: om_simps om_intros)
qed

lemma MClose_ok:
  assumes "descriptors_ok s" "MClose d s = (ev, t)"
  shows "descriptors_ok t"
proof (cases "om_get (FDescriptors s) d")
  case None
  then show ?thesis using assms by (simp add: MClose_def)
next
  case (Some info)
  show ?thesis
  proof (cases info)
    case None
    then have "t = s\<lparr>FDescriptors := om_erase d (FDescriptors s)\<rparr>"
      using assms(2) Some by (simp add: MClose_def)
    then show ?thesis
      using assms(1) Some None unfolding descriptors_ok_iff by (auto simp: om_simps om_intros)
  next
    case (Some i)
    then have t: "t = s\<lparr>FDescriptors := om_erase d (FDescriptors s),
        FByUUIDs := om_erase (link_uuid i) (FByUUIDs s)\<rparr>"
      using assms(2) \<open>om_get (FDescriptors s) d = Some info\<close>
      by (simp add: MClose_def MCloseInfo_def)
    have u: "om_get (FByUUIDs s) (link_uuid i) = Some d"
      using assms(1) Some \<open>om_get (FDescriptors s) d = Some info\<close> by (auto simp: descriptors_ok_iff)
    have "e = d" if "om_get (FDescriptors s) e = Some (Some x)" "link_uuid x = link_uuid i" for e x
      using that u assms(1) unfolding descriptors_ok_iff by (metis option.inject)
    then show ?thesis
      unfolding descriptors_ok_iff t
      using assms(1) u unfolding descriptors_ok_iff by (auto simp: om_simps om_intros)
  qed
qed

lemma MGet_uuid_ok:
  assumes "descriptors_ok s"
  shows "MGet_uuid u s = Some (case om_get (FByUUIDs s) u of None \<Rightarrow> INVALID | Some d \<Rightarrow> d)"
proof (cases "om_get (FByUUIDs s) u")
  case None
  then show ?thesis by (simp add: MGet_uuid_def)
next
  case (Some d)
  then obtain x where "om_get (FDescriptors s) d = Some (Some x)"
    using assms unfolding descriptors_ok_iff by blast
  with Some show ?thesis by (simp add: MGet_uuid_def om_has_def)
qed

lemma MClose_tables:
  assumes "MClose d s = (ev, t)"
  shows "om_get (FDescriptors t) e = (if e = d then None else om_get (FDescriptors s) e)"
    "om_get (FByUUIDs t) u = (case om_get (FDescriptors s) d of
       Some (Some i) \<Rightarrow> if link_uuid i = u then None else om_get (FByUUIDs s) u
     | _ \<Rightarrow> om_get (FByUUIDs s) u)"
proof -
  show "om_get (FDescriptors t) e = (if e = d then None else om_get (FDescriptors s) e)"
    using assms by (cases "om_get (FDescriptors s) d")
      (auto simp: MClose_def MCloseInfo_def Let_def om_simps split: option.splits)
  show "om_get (FByUUIDs t) u = (case om_get (FDescriptors s) d of
       Some (Some i) \<Rightarrow> if link_uuid i = u then None else om_get (FByUUIDs s) u
     | _ \<Rightarrow> om_get (FByUUIDs s) u)"
    using assms by (cases "om_get (FDescriptors s) d")
      (auto simp: MClose_def MCloseInfo_def Let_def om_simps split: option.splits)
qed

lemma MClose_events:
  "fst (MClose d s) =
     (if MIsInfo d s then [close_descriptor d (fst (MGet_info d s)), destroy_descriptor d]
      else if MIs d s then [destroy_descriptor d] else [])"
  by (cases "om_get (FDescriptors s) d")
    (auto simp: MClose_def MCloseInfo_def Let_def MIsInfo_def MIs_def MGet_info_def om_has_def
      split: option.splits)

section \<open>The table as a component\<close>

datatype d_op = OpCreate | OpOpen descriptor descriptor_info_t | OpClose descriptor

fun d_step :: "descriptors \<Rightarrow> d_op \<Rightarrow> descriptors option" where
  "d_step s OpCreate = map_option (snd \<circ> snd) (MCreate s)"
| "d_step s (OpOpen d i) = Some (snd (snd (MOpen d i s)))"
| "d_step s (OpClose d) = Some (snd (MClose d s))"

fun d_allowed :: "descriptors \<Rightarrow> d_op \<Rightarrow> bool" where
  "d_allowed s OpCreate \<longleftrightarrow> FLast s < 2147483647"
| "d_allowed s (OpOpen d i) \<longleftrightarrow> open_allowed d i s"
| "d_allowed s (OpClose d) \<longleftrightarrow> True"

lemma d_step_ok:
  assumes "descriptors_ok s" "d_allowed s x"
  shows "\<exists>t. d_step s x = Some t \<and> descriptors_ok t"
proof (cases x)
  case OpCreate
  then obtain r where "MCreate s = Some r" using assms(2) by (auto simp: MCreate_def MGetFree_def)
  then show ?thesis
    using MCreate_ok [OF assms(1), of "fst r" "fst (snd r)" "snd (snd r)"] OpCreate by simp
next
  case (OpOpen d i)
  then show ?thesis
    using MOpen_ok [OF assms(1), of d i "fst (MOpen d i s)" "fst (snd (MOpen d i s))"] assms(2) by simp
next
  case (OpClose d)
  then show ?thesis using MClose_ok [OF assms(1), of d "fst (MClose d s)"] by simp
qed

interpretation ds: operation_driven d_step d_allowed descriptors_ok
  by unfold_locales (use d_step_ok in fastforce)+

text \<open>
  What holds even when a program is opened on a second connection: no connection is opened twice,
  and whatever \<open>FByUUIDs\<close> names is an open connection of the program.
\<close>

fun opened_once :: "descriptors \<Rightarrow> d_op \<Rightarrow> bool" where
  "opened_once s OpCreate \<longleftrightarrow> FLast s < 2147483647"
| "opened_once s (OpOpen d i) \<longleftrightarrow> \<not> MIsInfo d s"
| "opened_once s (OpClose d) \<longleftrightarrow> True"

definition names_open :: "descriptors \<Rightarrow> bool" where
  "names_open s \<longleftrightarrow> (\<forall>d. om_has d (FDescriptors s) \<longrightarrow> 1 < d \<and> d \<le> FLast s) \<and> 1 \<le> FLast s
     \<and> (\<forall>u d. om_get (FByUUIDs s) u = Some d \<longrightarrow> (\<exists>x. om_get (FDescriptors s) d = Some (Some x) \<and> link_uuid x = u))"

lemma names_open_step:
  assumes "names_open s" "opened_once s x"
  shows "\<exists>t. d_step s x = Some t \<and> names_open t"
proof (cases x)
  case OpCreate
  then have t: "d_step s x = Some (s\<lparr>FLast := FLast s + 1, FDescriptors := om_set (FLast s + 1) None (FDescriptors s)\<rparr>)"
    using assms(2) by (simp add: MCreate_def MGetFree_def)
  have "\<not> om_has (FLast s + 1) (FDescriptors s)" using assms(1) by (fastforce simp: names_open_def)
  then show ?thesis using assms(1) unfolding t by (fastforce simp: names_open_def om_simps om_has_def)
next
  case (OpOpen d i)
  have "names_open (snd (snd (MOpen d i s)))"
    using assms unfolding OpOpen by (fastforce simp: names_open_def MOpen_def MOpenInfo_def MIsInfo_def om_simps om_has_def)
  then show ?thesis using OpOpen by simp
next
  case (OpClose d)
  obtain ev t where c: "MClose d s = (ev, t)" by fastforce
  have "FLast t = FLast s"
    using c by (auto simp: MClose_def MCloseInfo_def Let_def split: option.splits)
  moreover have "\<exists>x. om_get (FDescriptors t) e = Some (Some x) \<and> link_uuid x = u" if "om_get (FByUUIDs t) u = Some e" for u e
  proof -
    have u: "om_get (FByUUIDs s) u = Some e" using that unfolding MClose_tables(2) [OF c] by (simp split: option.splits if_splits)
    then obtain x where x: "om_get (FDescriptors s) e = Some (Some x)" "link_uuid x = u"
      using assms(1) unfolding names_open_def by blast
    then have "e \<noteq> d" using that unfolding MClose_tables(2) [OF c] by auto
    then show ?thesis using x MClose_tables(1) [OF c] by simp
  qed
  ultimately have "names_open t" using assms(1) MClose_tables(1) [OF c] by (auto simp: names_open_def om_has_def split: if_splits)
  then show ?thesis using OpClose c by simp
qed

interpretation dn: operation_driven d_step opened_once names_open
  by unfold_locales (use names_open_step in fastforce)+

section \<open>Properties\<close>

definition sample_info :: "uuid \<Rightarrow> descriptor_info_t" where
  "sample_info u = default_descriptor_info
     \<lparr>FProgramm := default_program_id\<lparr>FId := id_of_uuid u, FType := E_CONSUMER\<rparr>\<rparr>"



text \<open>
  A created connection gets a number that no connection of the table has, greater than
  every number given before, and leaves every other connection as it was; the number is
  announced by the one event pushed.
\<close>

theorem created_descriptor_is_fresh:
  assumes "descriptors_ok s" "FLast s < 2147483647"
  shows "\<exists>new t. MCreate s = Some (new, [create_descriptor new], t) \<and> \<not> MIs new s \<and> MIs new t
     \<and> \<not> MIsInfo new t \<and> (\<forall>d. MIs d s \<longrightarrow> d < new \<and> MGet_info d t = MGet_info d s)"
proof -
  obtain new t where n: "MCreate s = Some (new, [create_descriptor new], t)"
    using assms(2) by (auto simp: MCreate_def MGetFree_def)
  note c = MCreate_ok [OF assms(1) n]
  have "d < new \<and> MGet_info d t = MGet_info d s" if "MIs d s" for d
    using that c assms(1) by (force simp: MIs_def descriptors_ok_iff MGet_info_def)
  with n c show ?thesis by (auto simp: MIs_def MIsInfo_def om_has_def)
qed

theorem created_descriptor_is_fresh_witness:
  "\<exists>new t. MCreate CDescriptors = Some (new, [create_descriptor new], t)
     \<and> \<not> MIs new CDescriptors \<and> MIs new t \<and> \<not> MIsInfo new t
     \<and> (\<forall>d. MIs d CDescriptors \<longrightarrow> d < new \<and> MGet_info d t = MGet_info d CDescriptors)"
  by (rule created_descriptor_is_fresh [OF CDescriptors_ok]) (simp add: CDescriptors_def)

text \<open>
  closing a connection reports the close of an open one before its destruction, reports
  nothing for an unknown one, removes exactly this connection and the program it was open for,
  and leaves every other look-up as it was.
\<close>

theorem close_removes_one:
  assumes "descriptors_ok s"
  shows "case MClose d s of (ev, t) \<Rightarrow>
     ev = (if MIsInfo d s then [close_descriptor d (fst (MGet_info d s)), destroy_descriptor d]
           else if MIs d s then [destroy_descriptor d] else [])
     \<and> \<not> MIs d t \<and> (\<forall>e. e \<noteq> d \<longrightarrow> MIs e t = MIs e s \<and> MGet_info e t = MGet_info e s)
     \<and> (\<forall>u. MGet_uuid u t = (if MGet_uuid u s = Some d then Some INVALID else MGet_uuid u s))"
proof -
  obtain ev t where c: "MClose d s = (ev, t)" by fastforce
  have ok: "descriptors_ok t" using MClose_ok [OF assms c] .
  have D: "om_get (FDescriptors t) e = (if e = d then None else om_get (FDescriptors s) e)" for e
    using MClose_tables(1) [OF c] .
  have "om_get (FByUUIDs s) u = Some d \<longleftrightarrow> (case om_get (FDescriptors s) d of
      Some (Some i) \<Rightarrow> link_uuid i = u | _ \<Rightarrow> False)" for u
    using assms by (auto simp: descriptors_ok_iff split: option.splits)
  then have U: "om_get (FByUUIDs t) u = (if om_get (FByUUIDs s) u = Some d then None else om_get (FByUUIDs s) u)" for u
    using MClose_tables(2) [OF c, of u] by (simp split: option.splits)
  have "MGet_uuid u t = (if MGet_uuid u s = Some d then Some INVALID else MGet_uuid u s)" for u
    unfolding MGet_uuid_ok [OF ok] MGet_uuid_ok [OF assms] U by (simp split: option.splits)
  moreover have "MIs e t = MIs e s \<and> MGet_info e t = MGet_info e s" if "e \<noteq> d" for e
    using that by (simp add: MIs_def om_has_def MGet_info_def D)
  moreover have "\<not> MIs d t" by (simp add: MIs_def om_has_def D)
  ultimately show ?thesis using MClose_events [of d s] c by simp
qed

theorem close_removes_one_witness:
  "case MClose 2 CDescriptors of (ev, t) \<Rightarrow> ev = [] \<and> \<not> MIs 2 t"
  using close_removes_one [OF CDescriptors_ok, of 2]
  by (simp add: MIsInfo_def MIs_def CDescriptors_def om_has_def split: prod.splits)

text \<open>
  The look-up by information answers a connection whose program is another one: with
  connections 2 and 3 open for the programs 7 and 8, it answers 3 when it is asked for 7.
\<close>

theorem lookup_by_info_inverted:
  "map_option (\<lambda>s. (MGet_by_info (sample_info 7) s, MGet_uuid 7 s))
     (run_ops d_step CDescriptors
        [OpCreate, OpCreate, OpOpen 2 (sample_info 7), OpOpen 3 (sample_info 8)])
   = Some (3, Some 2)"
  by code_simp

text \<open>
  When a program is opened on a second connection before its first one is closed, closing
  the first takes the program out of the look-up although the second is still open.
\<close>

lemma reopened_program_lost:
  "map_option (\<lambda>s. (MIs_uuid 7 s, MGet_uuid 7 s, snd (MGet_info 3 s), link_uuid (fst (MGet_info 3 s))))
     (run_ops d_step CDescriptors
        [OpCreate, OpCreate, OpOpen 2 (sample_info 7), OpOpen 3 (sample_info 7), OpClose 2])
   = Some (False, Some INVALID, True, 7)"
  by code_simp

end
