(* ===== verification/Packet_Divisor.thy ===== *)
theory Packet_Divisor
  imports Descriptors
begin

text \<open>
  Splitting and merging of messages for channels with a size limit
  (\<open>services/CPacketDivisor.h/.cpp\<close>). \<open>FLimitsInfo\<close> holds the limits of the channels,
  \<open>FMergeOp\<close> the messages being put together, one for each sender and channel. The code is
  compiled with \<open>NO_MERGE_THREAD\<close>: merging is done by the caller and no operation is queued.
  A part's number and coefficient are cut to sixteen bits, as the casts of the code do; the
  loop counter \<open>unsigned i\<close> does not wrap for buffers below \<open>2\<^sup>3\<^sup>2\<close> bytes.
\<close>

record merge_operation_t =
  FBufForMerge :: buffer
  FMergedPackets :: user_datas_t
  FNewPackets :: user_datas_t
  FIsWorking :: bool
  FFor :: user_data_info_t
  FDescriptor :: descriptor
  FSplitLevel :: "(16 word, split_packet_t) omap"
  FMergeError :: error_type
  FIsMerged :: bool

type_synonym merge_key = "uuid \<times> descriptor"

record packet_divisor =
  FLimitsInfo :: "(descriptor, split_info) omap"
  FMergeOp :: "(merge_key, merge_operation_t) omap"

definition CPacketDivisor :: packet_divisor where
  "CPacketDivisor = \<lparr>FLimitsInfo = [], FMergeOp = []\<rparr>"

section \<open>Limits\<close>

definition MSetLimitsFor :: "descriptor \<Rightarrow> split_info \<Rightarrow> packet_divisor \<Rightarrow> packet_divisor" where
  "MSetLimitsFor aFor aWhat s = s\<lparr>FLimitsInfo := om_set aFor aWhat (FLimitsInfo s)\<rparr>"

definition MGetLimitsFor :: "descriptor \<Rightarrow> packet_divisor \<Rightarrow> split_info \<times> bool" where
  "MGetLimitsFor aFor s =
     (case om_get (FLimitsInfo s) aFor of
        None \<Rightarrow> (default_split_info, False)
      | Some i \<Rightarrow> (i, True))"

definition MRemoveLimitsFor :: "descriptor \<Rightarrow> packet_divisor \<Rightarrow> bool \<times> packet_divisor" where
  "MRemoveLimitsFor aFor s =
     (om_has aFor (FLimitsInfo s), s\<lparr>FLimitsInfo := om_erase aFor (FLimitsInfo s)\<rparr>)"

section \<open>Splitting\<close>

definition split_part_count :: "nat \<Rightarrow> nat \<Rightarrow> nat" where
  "split_part_count full part =
     (let num = (if full mod part = 0 then full div part else full div part + 1)
      in if num mod 2 = 0 then num else num + 1)"

definition with_split :: "split_packet_t \<Rightarrow> user_data_info_t \<Rightarrow> user_data_info_t" where
  "with_split sp i = i\<lparr>FSplit := sp\<rparr>"

definition split_part :: "user_data_t \<Rightarrow> nat \<Rightarrow> nat \<Rightarrow> nat \<Rightarrow> user_data_t" where
  "split_part d n part i =
     (let sp = FSplit (FDataId d);
          first = FCounter sp * of_nat n - of_nat n + 1;
          is_end = (i = n - 1)
      in \<lparr>FDataId = with_split
            \<lparr>FIsLast = (if is_end then FIsLast sp else False),
             FCounter = first + of_nat i,
             FCoefficient = FCoefficient sp * of_nat n\<rparr> (FDataId d),
          FData = (if is_end then drop (part * i) (FData d)
                   else take part (drop (part * i) (FData d)))\<rparr>)"

definition MSplit :: "user_data_t \<Rightarrow> nat \<Rightarrow> (nat \<times> user_datas_t) option" where
  "MSplit h aPartSize =
     (let full = length (FData h);
          part = (if aPartSize \<ge> full then full - 1 else aPartSize)
      in if full = 0 \<or> part = 0 then None
         else (let n = split_part_count full part; valid_part = full div n
               in Some (valid_part, map (split_part h n valid_part) [0..<n])))"

section \<open>Merging one message\<close>

definition merge_operation ::
    "user_data_info_t \<Rightarrow> descriptor \<Rightarrow> merge_operation_t option" where
  "merge_operation aFor aDesc =
     (let m = \<lparr>FBufForMerge = [], FMergedPackets = [], FNewPackets = [], FIsWorking = False,
               FFor = aFor, FDescriptor = aDesc, FSplitLevel = [], FMergeError = E_NO_ERROR,
               FIsMerged = False\<rparr>
      in if FCounter (FSplit aFor) \<noteq> 1 then Some (m\<lparr>FMergeError := E_PACKET_LOST\<rparr>)
         else if FIsLast (FSplit aFor) then None
         else Some m)"

definition MCheckingSequence :: "user_data_t \<Rightarrow> merge_operation_t \<Rightarrow> merge_operation_t option" where
  "MCheckingSequence d m =
     (let sp = FSplit (FDataId d); level = om_get (FSplitLevel m) (FCoefficient sp)
      in case level of
           None \<Rightarrow> Some (m\<lparr>FSplitLevel := om_set (FCoefficient sp) sp (FSplitLevel m)\<rparr>)
         | Some l \<Rightarrow>
             if unat (FCounter l) + 1 \<noteq> unat (FCounter sp)
             then (if MIsSplited sp
                   then Some (m\<lparr>FMergeError := E_PACKET_LOST,
                                FSplitLevel := om_set (FCoefficient sp) sp (FSplitLevel m)\<rparr>)
                   else None)
             else Some (m\<lparr>FSplitLevel := om_set (FCoefficient sp) sp (FSplitLevel m)\<rparr>))"

definition MMergePacket :: "user_data_t \<Rightarrow> merge_operation_t \<Rightarrow> (bool \<times> merge_operation_t) option" where
  "MMergePacket aWhat m =
     (if FBufForMerge m = [] \<and> FCounter (FSplit (FDataId aWhat)) \<noteq> 1 then None
      else Some (FIsLast (FSplit (FDataId aWhat)),
                 m\<lparr>FBufForMerge := FBufForMerge m @ FData aWhat\<rparr>))"

definition MCreatePacket :: "merge_operation_t \<Rightarrow> user_data_t option \<times> merge_operation_t" where
  "MCreatePacket m =
     (if FBufForMerge m \<noteq> []
      then (Some \<lparr>FDataId = with_split no_split (FFor m), FData = FBufForMerge m\<rparr>,
            m\<lparr>FBufForMerge := []\<rparr>)
      else (None, m))"

text \<open>The loop of \<open>MMerging\<close>: each part moves from the new ones to the merged ones.\<close>

fun merging_loop ::
    "user_datas_t \<Rightarrow> bool \<Rightarrow> merge_operation_t \<Rightarrow> (bool \<times> merge_operation_t) option" where
  "merging_loop [] is_last m = Some (is_last, m\<lparr>FNewPackets := []\<rparr>)"
| "merging_loop (d # ds) is_last m =
     (if is_last then Some (is_last, m\<lparr>FNewPackets := d # ds\<rparr>)
      else MCheckingSequence d m \<bind> (\<lambda>m1. MMergePacket d m1 \<bind> (\<lambda>(l, m2).
             merging_loop ds l (m2\<lparr>FMergedPackets := FMergedPackets m2 @ [d]\<rparr>))))"

definition MMerging :: "merge_operation_t \<Rightarrow> (user_datas_t \<times> merge_operation_t) option" where
  "MMerging m =
     (if FNewPackets m = [] then None
      else merging_loop (FNewPackets m) False m \<bind> (\<lambda>(is_last, m1).
        if \<not> is_last then Some ([], m1)
        else if FNewPackets m1 \<noteq> [] then None
        else (case MCreatePacket m1 of
                (None, m2) \<Rightarrow> Some ([], m2\<lparr>FMergeError := E_MERGE_ERROR\<rparr>)
              | (Some p, m2) \<Rightarrow>
                  let m3 = m2\<lparr>FIsMerged := True\<rparr>
                  in Some (if FMergeError m3 = E_NO_ERROR then [p] else [], m3))))"

definition MHasToBeRemoved :: "merge_operation_t \<Rightarrow> bool" where
  "MHasToBeRemoved m \<longleftrightarrow> FIsMerged m \<or> FMergeError m \<noteq> E_NO_ERROR"

text \<open>The parts left over, the messages put together, and the operation.\<close>

definition op_MMerge ::
    "user_datas_t \<Rightarrow> merge_operation_t \<Rightarrow> (user_datas_t \<times> user_datas_t \<times> merge_operation_t) option" where
  "op_MMerge aVal m =
     (let (rest, m1) =
            (if FPacketNumber (FFor m) \<noteq> FPacketNumber (FDataId (hd aVal))
             then (aVal, if FMergeError m = E_NO_ERROR then m\<lparr>FMergeError := E_PACKET_LOST\<rparr> else m)
             else ([], m\<lparr>FNewPackets := FNewPackets m @ aVal\<rparr>))
      in if FMergeError m1 \<noteq> E_NO_ERROR then Some (rest, [], m1)
         else map_option (\<lambda>(out, m2). (rest, out, m2)) (MMerging m1))"

section \<open>Merging for a channel\<close>

record merge_result =
  ops :: "(merge_key, merge_operation_t) omap"
  sent :: user_datas_t
  fails :: user_datas_t
  non_sent :: "fail_send_t list"

definition merge_fail :: "merge_operation_t \<Rightarrow> fail_send_t" where
  "merge_fail m = fail_MSetError (FMergeError m) (fail_of_info (FFor m))"

text \<open>One round of the loop of \<open>MMerge\<close>: what is left to merge and the result so far.\<close>

definition merge_round ::
    "merge_key \<Rightarrow> user_datas_t \<Rightarrow> merge_result \<Rightarrow> (user_datas_t \<times> merge_result) option" where
  "merge_round key merging r =
     (case om_get (ops r) key of
        Some m \<Rightarrow> Some m
      | None \<Rightarrow> merge_operation (FDataId (hd merging)) (snd key)) \<bind> (\<lambda>m.
     op_MMerge merging m \<bind> (\<lambda>(rest, out, m1).
       let failed = FMergeError m1 \<noteq> E_NO_ERROR;
           m2 = (if failed then m1\<lparr>FMergedPackets := [], FNewPackets := []\<rparr> else m1)
       in Some (rest,
            r\<lparr>ops := (if MHasToBeRemoved m2 then om_erase key (ops r) else om_set key m2 (ops r)),
              sent := sent r @ out,
              fails := (if failed then fails r @ FMergedPackets m1 @ FNewPackets m1 else fails r),
              non_sent := (if failed then non_sent r @ [merge_fail m1] else non_sent r)\<rparr>)))"

partial_function (option) merge_rounds ::
    "merge_key \<Rightarrow> user_datas_t \<Rightarrow> merge_result \<Rightarrow> merge_result option" where
  "merge_rounds key merging r =
     (if merging = [] then Some r
      else merge_round key merging r \<bind> (\<lambda>(rest, r1). merge_rounds key rest r1))"

declare merge_rounds.simps [code]

definition same_packet :: "user_data_t \<Rightarrow> user_data_t \<Rightarrow> bool" where
  "same_packet a b \<longleftrightarrow> FPacketNumber (FDataId a) = FPacketNumber (FDataId b)
     \<and> FUuid (FFrom (FRouting (FDataId a))) = FUuid (FFrom (FRouting (FDataId b)))"

definition MMerge ::
    "descriptor \<Rightarrow> user_datas_t \<Rightarrow> merge_result \<Rightarrow> (user_datas_t \<times> merge_result) option" where
  "MMerge aFor aWhat r =
     (case aWhat of
        [] \<Rightarrow> None
      | d # ds \<Rightarrow>
          let more = takeWhile (same_packet d) ds; rest = dropWhile (same_packet d) ds
          in if \<not> sMIsValid aFor \<or> \<not> list_all (\<lambda>x. MIsSplited (FSplit (FDataId x))) more then None
             else map_option (\<lambda>r1. (rest, r1))
                    (merge_rounds (FUuid (FFrom (FRouting (FDataId d))), aFor) (d # more) r))"

section \<open>The decision\<close>

definition too_large :: "user_data_t \<Rightarrow> fail_send_t" where
  "too_large d = fail_MSetError E_DATA_TOO_LARGE (fail_of_info (FDataId d))"

definition fits :: "split_info \<Rightarrow> user_data_t \<Rightarrow> bool" where
  "fits i d \<longleftrightarrow> FMaxSize i = 0 \<or> FMaxSize i \<ge> MDataSize i d"

lemma MMerge_rest_less:
  "MMerge aFor aWhat r = Some (rest, r1) \<Longrightarrow> length rest < length aWhat"
  by (cases aWhat) (auto simp: MMerge_def Let_def length_dropWhile_le le_imp_less_Suc split: if_splits)

text \<open>The loop of \<open>MSplitOrMergeIfNeed\<close> over the messages for one channel.\<close>

function divide_loop ::
    "split_info \<Rightarrow> descriptor \<Rightarrow> user_datas_t \<Rightarrow> merge_result \<Rightarrow> merge_result option" where
  "divide_loop info aFor [] r = Some r"
| "divide_loop info aFor (d # ds) r =
     (if MGetFlag (FMtuType info) CAN_NOT_SPLIT
      then (if MIsSplited (FSplit (FDataId d))
            then (case MMerge aFor (d # ds) r of
                    None \<Rightarrow> None
                  | Some (rest, r1) \<Rightarrow> divide_loop info aFor rest r1)
            else if fits info d
            then divide_loop info aFor ds (r\<lparr>sent := sent r @ [d]\<rparr>)
            else divide_loop info aFor ds
                   (r\<lparr>non_sent := non_sent r @ [too_large d], fails := fails r @ [d]\<rparr>))
      else if \<not> MGetFlag (FMtuType info) LIMITED
      then divide_loop info aFor ds (r\<lparr>sent := sent r @ [d]\<rparr>)
      else if fits info d
      then divide_loop info aFor ds (r\<lparr>sent := sent r @ [d]\<rparr>)
      else (case MSplit d (FMaxSize info) of
              None \<Rightarrow> None
            | Some (_, parts) \<Rightarrow> divide_loop info aFor ds (r\<lparr>sent := sent r @ parts\<rparr>)))"
  by pat_completeness auto
termination
  by (relation "measure (\<lambda>(info, aFor, ds, r). length ds)") (auto dest: MMerge_rest_less)

text \<open>
  The messages to send, the messages that cannot be sent (what \<open>aWhat\<close> holds afterwards), the
  errors to report and the next state.
\<close>

definition MSplitOrMergeIfNeed ::
    "descriptor \<Rightarrow> user_datas_t \<Rightarrow> packet_divisor
       \<Rightarrow> (user_datas_t \<times> user_datas_t \<times> fail_send_t list \<times> packet_divisor) option" where
  "MSplitOrMergeIfNeed aFor aWhat s =
     (case om_get (FLimitsInfo s) aFor of
        None \<Rightarrow> Some (aWhat, [], [], s)
      | Some info \<Rightarrow>
          map_option (\<lambda>r. (sent r, fails r, non_sent r, s\<lparr>FMergeOp := ops r\<rparr>))
            (divide_loop info aFor aWhat \<lparr>ops = FMergeOp s, sent = [], fails = [], non_sent = []\<rparr>))"

section \<open>Splitting conserves the data\<close>

lemma split_part_count_bounds:
  assumes "1 \<le> part" "part < full"
  shows "even (split_part_count full part)" "2 \<le> split_part_count full part"
    "full \<le> split_part_count full part * part"
    "2 \<le> part \<Longrightarrow> split_part_count full part \<le> full"
proof -
  define num where "num = (if full mod part = 0 then full div part else full div part + 1)"
  have n: "split_part_count full part = (if num mod 2 = 0 then num else num + 1)"
    by (simp add: split_part_count_def num_def)
  have dm: "full = full div part * part + full mod part" by simp
  have mod: "full mod part < part" using assms by simp
  have num: "full \<le> num * part"
  proof (cases "full mod part = 0")
    case True
    then show ?thesis using dm by (simp add: num_def)
  next
    case False
    then have "num * part = full div part * part + part" by (simp add: num_def)
    then show ?thesis using dm mod by linarith
  qed
  have d1: "1 \<le> full div part" using assms by (simp add: Suc_le_eq div_greater_zero_iff)
  have "num \<noteq> 1" using num assms by auto
  then have "2 \<le> num" using d1 by (auto simp: num_def)
  then show "even (split_part_count full part)" "2 \<le> split_part_count full part"
    by (auto simp: n)
  have "num * part \<le> split_part_count full part * part" by (auto simp: n)
  with num show "full \<le> split_part_count full part * part" by linarith
  assume p: "2 \<le> part"
  have "full div part \<le> full div 2" using p by (simp add: div_le_mono2)
  then have le: "num \<le> full div 2 + (if full mod part = 0 then 0 else 1)"
    by (auto simp: num_def)
  show "split_part_count full part \<le> full"
  proof (cases "full = 3")
    case True
    then have "part = 2" using assms p by simp
    then show ?thesis using True by (simp add: split_part_count_def)
  next
    case False
    then show ?thesis using le assms p unfolding n by (auto split: if_splits)
  qed
qed

lemma concat_chunks: "concat (map (\<lambda>i. take v (drop (v * i) xs)) [0..<k]) = take (v * k) xs"
  by (induction k) (simp_all add: take_add add.commute [of v])

lemma split_part_data:
  "FData (split_part d n v i) =
     (if i = n - 1 then drop (v * i) (FData d) else take v (drop (v * i) (FData d)))"
  by (simp add: split_part_def Let_def)

lemma split_part_info:
  "FDataId (split_part d n v i) = with_split (FSplit (FDataId (split_part d n v i))) (FDataId d)"
  by (simp add: split_part_def Let_def with_split_def)

lemma concat_parts:
  assumes "0 < n"
  shows "concat (map (FData \<circ> split_part d n v) [0..<n]) = FData d"
proof -
  obtain m where m: "n = Suc m" using assms by (cases n) auto
  have "map (FData \<circ> split_part d n v) [0..<m] = map (\<lambda>i. take v (drop (v * i) (FData d))) [0..<m]"
    by (rule map_cong) (auto simp: split_part_data m)
  then have "concat (map (FData \<circ> split_part d n v) [0..<m]) = take (v * m) (FData d)"
    using concat_chunks [of v "FData d" m] by (simp only:)
  then show ?thesis by (simp add: m split_part_data)
qed

lemma concat_parts_prefix:
  assumes "k < n"
  shows "concat (map (FData \<circ> split_part d n v) [0..<k]) = take (v * k) (FData d)"
proof -
  have "map (FData \<circ> split_part d n v) [0..<k] = map (\<lambda>i. take v (drop (v * i) (FData d))) [0..<k]"
    using assms by (intro map_cong) (auto simp: split_part_data)
  then show ?thesis using concat_chunks [of v "FData d" k] by (simp only:)
qed

lemma MSplit_unfold:
  assumes "1 \<le> aPartSize" "aPartSize < length (FData d)"
  shows "MSplit d aPartSize =
     (let n = split_part_count (length (FData d)) aPartSize; v = length (FData d) div n
      in Some (v, map (split_part d n v) [0..<n]))"
  using assms by (auto simp: MSplit_def Let_def)

section \<open>Merging the parts of a message\<close>

text \<open>
  The parts of an undivided message \<open>d\<close> in \<open>n\<close> pieces of \<open>v\<close> bytes, and the operation after
  the first \<open>k\<close> of them.
\<close>

definition parts_of :: "user_data_t \<Rightarrow> nat \<Rightarrow> nat \<Rightarrow> user_datas_t" where
  "parts_of d n v = map (split_part d n v) [0..<n]"

definition whole_message :: "user_data_t \<Rightarrow> nat \<Rightarrow> nat \<Rightarrow> bool" where
  "whole_message d n v \<longleftrightarrow> FSplit (FDataId d) = no_split \<and> 2 \<le> n \<and> n < 65536 \<and> 1 \<le> v
     \<and> v * n \<le> length (FData d)"

definition op_after :: "user_data_t \<Rightarrow> nat \<Rightarrow> nat \<Rightarrow> descriptor \<Rightarrow> nat \<Rightarrow> user_datas_t \<Rightarrow> merge_operation_t" where
  "op_after d n v desc k new =
     \<lparr>FBufForMerge = concat (map FData (take k (parts_of d n v))),
      FMergedPackets = take k (parts_of d n v), FNewPackets = new, FIsWorking = False,
      FFor = FDataId (split_part d n v 0), FDescriptor = desc,
      FSplitLevel = (if k = 0 then [] else [(of_nat n, FSplit (FDataId (split_part d n v (k - 1))))]),
      FMergeError = E_NO_ERROR, FIsMerged = False\<rparr>"

lemma split_of_part:
  assumes "whole_message d n v" "k < n"
  shows "FSplit (FDataId (split_part d n v k)) =
     \<lparr>FIsLast = (k = n - 1), FCounter = of_nat (Suc k), FCoefficient = of_nat n\<rparr>"
  using assms by (simp add: whole_message_def split_part_def Let_def with_split_def no_split_def)

lemma unat_small: "k < 65536 \<Longrightarrow> unat (of_nat k :: 16 word) = k"
  by (simp add: unat_of_nat)

lemma of_nat_16_eq_1: "k < 65536 \<Longrightarrow> (of_nat k :: 16 word) = 1 \<longleftrightarrow> k = 1"
  by (metis unat_small unat_1 of_nat_1)

lemma part_is_split:
  assumes "whole_message d n v" "k < n"
  shows "MIsSplited (FSplit (FDataId (split_part d n v k)))"
  using assms of_nat_16_eq_1 [of n] by (auto simp: MIsSplited_def split_of_part whole_message_def)

lemma take_Suc_parts: "k < n \<Longrightarrow> take (Suc k) (parts_of d n v) = take k (parts_of d n v) @ [split_part d n v k]"
  by (simp add: parts_of_def take_map take_upt)

lemma buf_not_empty:
  assumes "whole_message d n v" "0 < k" "k < n"
  shows "concat (map FData (take k (parts_of d n v))) \<noteq> []"
proof -
  have "0 < v * n" "v * n \<le> length (FData d)" using assms by (auto simp: whole_message_def)
  then have "take (v * k) (FData d) \<noteq> []" using assms by (auto simp: whole_message_def)
  moreover have "concat (map FData (take k (parts_of d n v))) = take (v * k) (FData d)"
    using concat_parts_prefix [OF assms(3), of d v] assms(3)
    by (simp add: parts_of_def take_map take_upt)
  ultimately show ?thesis by simp
qed

lemma merge_next_part:
  assumes w: "whole_message d n v" and k: "k < n"
  shows "merging_loop (split_part d n v k # ds) False (op_after d n v desc k new) =
     merging_loop ds (k = n - 1) (op_after d n v desc (Suc k) new)"
proof -
  let ?p = "split_part d n v k" and ?m = "op_after d n v desc k new"
  note sp = split_of_part [OF w k]
  have level: "k \<noteq> 0 \<Longrightarrow> FCounter (FSplit (FDataId (split_part d n v (k - Suc 0)))) = of_nat k"
    using split_of_part [OF w, of "k - 1"] k by auto
  have n: "Suc k < 65536" using w k by (auto simp: whole_message_def)
  have "MCheckingSequence ?p ?m = Some (?m\<lparr>FSplitLevel := [(of_nat n, FSplit (FDataId ?p))]\<rparr>)"
  proof (cases "k = 0")
    case True
    then show ?thesis using sp by (simp add: MCheckingSequence_def op_after_def Let_def)
  next
    case False
    have "unat (of_nat (Suc k) :: 16 word) = Suc k" "unat (of_nat k :: 16 word) = k"
      using n by (auto intro: unat_small simp del: of_nat_Suc)
    with False show ?thesis
      by (simp add: MCheckingSequence_def op_after_def level sp Let_def del: of_nat_Suc)
  qed
  moreover have "MMergePacket ?p (?m\<lparr>FSplitLevel := [(of_nat n, FSplit (FDataId ?p))]\<rparr>) =
      Some (k = n - 1, ?m\<lparr>FSplitLevel := [(of_nat n, FSplit (FDataId ?p))],
        FBufForMerge := FBufForMerge ?m @ FData ?p\<rparr>)"
    using buf_not_empty [OF w, of k] k sp
    by (cases "k = 0") (simp_all add: MMergePacket_def op_after_def)
  ultimately show ?thesis
    using k by (simp add: op_after_def take_Suc_parts)
qed

lemma merge_batch:
  assumes w: "whole_message d n v"
  shows "j \<le> n \<Longrightarrow> k < j \<Longrightarrow>
     merging_loop (map (split_part d n v) [k..<j]) False (op_after d n v desc k new) =
       Some (j = n, op_after d n v desc j [])"
proof (induction "j - k" arbitrary: k)
  case (Suc x)
  have c: "[k..<j] = k # [Suc k..<j]" using Suc.prems by (simp add: upt_conv_Cons)
  have k: "k < n" using Suc.prems by simp
  show ?case
  proof (cases "Suc k = j")
    case True
    then show ?thesis
      using c k merge_next_part [OF w k, of "[]" desc new] by (auto simp: op_after_def)
  next
    case False
    then have "k \<noteq> n - 1" using Suc.prems by auto
    with False show ?thesis
      using Suc.hyps(1) [of "Suc k"] Suc.hyps(2) Suc.prems c merge_next_part [OF w k] by simp
  qed
qed simp

definition merged_op :: "user_data_t \<Rightarrow> nat \<Rightarrow> nat \<Rightarrow> descriptor \<Rightarrow> merge_operation_t" where
  "merged_op d n v desc = (op_after d n v desc n [])\<lparr>FBufForMerge := [], FIsMerged := True\<rparr>"

lemma part_number: "FPacketNumber (FDataId (split_part d n v i)) = FPacketNumber (FDataId d)"
  by (subst split_part_info) (simp add: with_split_def)

lemma same_packet_parts: "same_packet (split_part d n v i) (split_part d n v j)"
  unfolding same_packet_def by (subst (1 2 3 4) split_part_info) (simp add: with_split_def)

lemma with_split_id: "with_split (FSplit i) i = i"
  by (simp add: with_split_def)

lemma merged_message:
  assumes w: "whole_message d n v"
  shows "MCreatePacket (op_after d n v desc n []) =
     (Some d, (op_after d n v desc n [])\<lparr>FBufForMerge := []\<rparr>)"
proof -
  have n: "0 < n" using w by (simp add: whole_message_def)
  have "with_split no_split (FDataId (split_part d n v 0)) = with_split no_split (FDataId d)"
    by (subst split_part_info) (simp add: with_split_def)
  also have "\<dots> = FDataId d" using w with_split_id [of "FDataId d"] by (simp add: whole_message_def)
  finally have i: "with_split no_split (FDataId (split_part d n v 0)) = FDataId d" .
  have b: "concat (map FData (parts_of d n v)) = FData d"
    using concat_parts [OF n, of d v] by (simp add: parts_of_def comp_def)
  have "FData d \<noteq> []" using w by (auto simp: whole_message_def)
  with i b show ?thesis by (simp add: MCreatePacket_def op_after_def parts_of_def)
qed

lemma op_after_fields [simp]:
  "FNewPackets (op_after d n v desc k new) = new"
  "FMergeError (op_after d n v desc k new) = E_NO_ERROR"
  "\<not> FIsMerged (op_after d n v desc k new)"
  "FPacketNumber (FFor (op_after d n v desc k new)) = FPacketNumber (FDataId d)"
  by (simp_all add: op_after_def part_number)

lemma op_merge_batch:
  assumes w: "whole_message d n v" and j: "j \<le> n" "k < j"
  shows "op_MMerge (map (split_part d n v) [k..<j]) (op_after d n v desc k []) =
     Some ([], if j = n then [d] else [], if j = n then merged_op d n v desc else op_after d n v desc j [])"
proof -
  let ?b = "map (split_part d n v) [k..<j]"
  have hd: "FPacketNumber (FDataId (hd ?b)) = FPacketNumber (FDataId d)"
    using j by (simp add: upt_conv_Cons part_number)
  have new: "(op_after d n v desc k [])\<lparr>FNewPackets := ?b\<rparr> = op_after d n v desc k ?b"
    by (simp add: op_after_def)
  have ne: "FNewPackets (op_after d n v desc k ?b) \<noteq> []" using j by (simp add: op_after_def)
  have "MMerging (op_after d n v desc k ?b) =
      Some (if j = n then [d] else [], if j = n then merged_op d n v desc else op_after d n v desc j [])"
    using merge_batch [OF w j, of desc ?b] ne merged_message [OF w, of desc]
    by (simp add: MMerging_def merged_op_def)
  then show ?thesis
    using hd new by (simp add: op_MMerge_def)
qed

text \<open>The result after \<open>k\<close> parts, started from \<open>r\<close>.\<close>

definition result_after ::
    "user_data_t \<Rightarrow> nat \<Rightarrow> nat \<Rightarrow> merge_key \<Rightarrow> nat \<Rightarrow> merge_result \<Rightarrow> merge_result" where
  "result_after d n v key k r =
     (if k = 0 then r
      else if k = n then r\<lparr>sent := sent r @ [d]\<rparr>
      else r\<lparr>ops := om_set key (op_after d n v (snd key) k []) (ops r)\<rparr>)"

lemma om_set_twice: "om_ok m \<Longrightarrow> om_set k b (om_set k a m) = om_set k b m"
  by (rule om_eqI) (auto simp: om_simps om_intros)

lemma om_erase_set: "om_ok m \<Longrightarrow> om_get m k = None \<Longrightarrow> om_erase k (om_set k a m) = m"
  by (rule om_eqI) (auto simp: om_simps om_intros)

lemma om_erase_none: "om_ok m \<Longrightarrow> om_get m k = None \<Longrightarrow> om_erase k m = m"
  by (rule om_eqI) (auto simp: om_simps om_intros)

lemma first_operation:
  assumes "whole_message d n v"
  shows "merge_operation (FDataId (split_part d n v 0)) desc = Some (op_after d n v desc 0 [])"
proof -
  have "0 < n" "n \<noteq> 1" using assms by (auto simp: whole_message_def)
  then show ?thesis
    using split_of_part [OF assms, of 0] by (simp add: merge_operation_def op_after_def)
qed

lemma merge_round_batch:
  assumes w: "whole_message d n v" and j: "j \<le> n" "k < j"
    and r: "om_ok (ops r)" "om_get (ops r) key = None"
  shows "merge_round key (map (split_part d n v) [k..<j]) (result_after d n v key k r) =
     Some ([], result_after d n v key j r)"
proof -
  let ?b = "map (split_part d n v) [k..<j]" and ?op = "op_after d n v (snd key)"
  have k: "k \<noteq> n" using j by simp
  have op: "(case om_get (ops (result_after d n v key k r)) key of Some m \<Rightarrow> Some m
      | None \<Rightarrow> merge_operation (FDataId (hd ?b)) (snd key)) = Some (?op k [])"
  proof (cases "k = 0")
    case True
    then have "hd ?b = split_part d n v 0" using j by (simp add: upt_conv_Cons)
    then show ?thesis using True r first_operation [OF w] by (simp add: result_after_def)
  next
    case False
    then show ?thesis using k by (simp add: result_after_def om_simps)
  qed
  have 1: "FMergeError (?op j []) = E_NO_ERROR" "FMergeError (merged_op d n v (snd key)) = E_NO_ERROR"
    "\<not> MHasToBeRemoved (?op j [])" "MHasToBeRemoved (merged_op d n v (snd key))"
    by (simp_all add: op_after_def merged_op_def MHasToBeRemoved_def)
  show ?thesis
    unfolding merge_round_def op
    using op_merge_batch [OF w j, of "snd key"] r k j(2) 1
    by (cases "j = n"; cases "k = 0")
      (simp_all add: result_after_def om_set_twice om_erase_set om_erase_none Let_def)
qed

lemma MMerge_batch:
  assumes w: "whole_message d n v" and j: "j \<le> n" "k < j"
    and r: "om_ok (ops r)" "om_get (ops r) key = None"
    and key: "key = (FUuid (FFrom (FRouting (FDataId d))), aFor)" "sMIsValid aFor"
  shows "MMerge aFor (map (split_part d n v) [k..<j]) (result_after d n v key k r) =
     Some ([], result_after d n v key j r)"
proof -
  let ?p = "split_part d n v"
  have b: "map ?p [k..<j] = ?p k # map ?p [Suc k..<j]" using j by (simp add: upt_conv_Cons)
  have tw: "takeWhile (same_packet (?p k)) (map ?p [Suc k..<j]) = map ?p [Suc k..<j]"
    "dropWhile (same_packet (?p k)) (map ?p [Suc k..<j]) = []"
    using same_packet_parts by (auto simp: takeWhile_eq_all_conv dropWhile_eq_Nil_conv)
  have sp: "list_all (\<lambda>x. MIsSplited (FSplit (FDataId x))) (map ?p [Suc k..<j])"
    using part_is_split [OF w] j by (auto simp: list_all_iff)
  have snd_uuid: "FUuid (FFrom (FRouting (FDataId (?p k)))) = FUuid (FFrom (FRouting (FDataId d)))"
    by (subst split_part_info) (simp add: with_split_def)
  have "merge_rounds key (map ?p [k..<j]) (result_after d n v key k r) = Some (result_after d n v key j r)"
    using merge_round_batch [OF w j r] j by (simp add: merge_rounds.simps)
  then show ?thesis
    unfolding b using sp snd_uuid key by (simp add: MMerge_def Let_def tw)
qed

text \<open>A message that arrives in several runs of parts.\<close>

fun feed :: "descriptor \<Rightarrow> user_datas_t list \<Rightarrow> merge_result \<Rightarrow> merge_result option" where
  "feed aFor [] r = Some r"
| "feed aFor (b # bs) r =
     MMerge aFor b r \<bind> (\<lambda>(rest, r1). if rest = [] then feed aFor bs r1 else None)"

lemma feed_parts:
  assumes w: "whole_message d n v"
    and r: "om_ok (ops r)" "om_get (ops r) key = None"
    and key: "key = (FUuid (FFrom (FRouting (FDataId d))), aFor)" "sMIsValid aFor"
  shows "k \<le> n \<Longrightarrow> concat bs = map (split_part d n v) [k..<n] \<Longrightarrow> [] \<notin> set bs \<Longrightarrow>
     feed aFor bs (result_after d n v key k r) = Some (result_after d n v key n r)"
proof (induction bs arbitrary: k)
  case Nil
  then have "k = n" using w by (auto simp: whole_message_def)
  then show ?case by simp
next
  case (Cons b bs)
  let ?p = "split_part d n v" and ?j = "k + length b"
  have len: "length b + length (concat bs) = n - k"
    using arg_cong [OF Cons.prems(2), of length] by simp
  then have j: "?j \<le> n" "k < ?j" using Cons.prems by (auto simp: Suc_le_eq)
  have up: "[k..<n] = [k..<?j] @ [?j..<n]" using upt_add_eq_append [of k ?j "n - ?j"] j by simp
  have "b @ concat bs = map ?p [k..<?j] @ map ?p [?j..<n]" using Cons.prems(2) up by simp
  then have b: "b = map ?p [k..<?j]" "concat bs = map ?p [?j..<n]"
    by (simp_all add: append_eq_append_conv)
  have "MMerge aFor b (result_after d n v key k r) = Some ([], result_after d n v key ?j r)"
    using MMerge_batch [OF w j r key] b(1) by simp
  then show ?case using Cons.IH [OF j(1) b(2)] Cons.prems(3) by simp
qed

lemma MSplit_whole:
  assumes "FSplit (FDataId d) = no_split" "2 \<le> part" "part < length (FData d)"
    "split_part_count (length (FData d)) part < 65536"
  shows "\<exists>n v. MSplit d part = Some (v, parts_of d n v) \<and> whole_message d n v"
proof -
  let ?n = "split_part_count (length (FData d)) part"
  have n: "2 \<le> ?n" "?n \<le> length (FData d)"
    using split_part_count_bounds [of part "length (FData d)"] assms by auto
  then have "1 \<le> length (FData d) div ?n" by (simp add: Suc_le_eq div_greater_zero_iff)
  then have "whole_message d ?n (length (FData d) div ?n)"
    using assms n by (simp add: whole_message_def)
  moreover have "MSplit d part =
      Some (length (FData d) div ?n, parts_of d ?n (length (FData d) div ?n))"
    using MSplit_unfold [of part d] assms by (simp add: parts_of_def Let_def)
  ultimately show ?thesis by blast
qed

section \<open>The loop over the messages of a channel\<close>

lemma divide_loop_limited:
  assumes "MGetFlag (FMtuType info) LIMITED" "\<not> MGetFlag (FMtuType info) CAN_NOT_SPLIT"
    "\<forall>d\<in>set ds. \<not> fits info d \<longrightarrow> 2 \<le> length (FData d)"
  shows "\<exists>out. divide_loop info aFor ds r = Some (r\<lparr>sent := sent r @ out\<rparr>)
     \<and> concat (map FData out) = concat (map FData ds)
     \<and> (\<forall>x\<in>set out. \<exists>d\<in>set ds. \<exists>sp. FDataId x = with_split sp (FDataId d))"
  using assms(3)
proof (induction ds arbitrary: r)
  case Nil
  then show ?case by (intro exI [of _ "[]"]) simp
next
  case (Cons d ds)
  have "\<exists>ps. divide_loop info aFor (d # ds) r = divide_loop info aFor ds (r\<lparr>sent := sent r @ ps\<rparr>)
      \<and> concat (map FData ps) = FData d
      \<and> (\<forall>x\<in>set ps. \<exists>sp. FDataId x = with_split sp (FDataId d))"
  proof (cases "fits info d")
    case True
    then show ?thesis using assms(1,2) with_split_id [of "FDataId d"]
      by (intro exI [of _ "[d]"]) (auto intro: exI [of _ "FSplit (FDataId d)"])
  next
    case False
    let ?full = "length (FData d)"
    let ?part = "if FMaxSize info \<ge> ?full then ?full - 1 else FMaxSize info"
    let ?n = "split_part_count ?full ?part"
    have l: "2 \<le> ?full" using Cons.prems False by simp
    then have part: "1 \<le> ?part" "?part < ?full"
      using False by (auto simp: fits_def)
    have n: "0 < ?n" using split_part_count_bounds(2) [OF part] by simp
    have "MSplit d (FMaxSize info) = Some (?full div ?n, map (split_part d ?n (?full div ?n)) [0..<?n])"
      using part l by (auto simp: MSplit_def Let_def)
    moreover have "concat (map FData (map (split_part d ?n (?full div ?n)) [0..<?n])) = FData d"
      using concat_parts [OF n, of d "?full div ?n"] by (simp add: comp_def)
    moreover have "\<exists>sp. FDataId x = with_split sp (FDataId d)"
      if "x \<in> set (map (split_part d ?n (?full div ?n)) [0..<?n])" for x
      using that split_part_info by fastforce
    ultimately show ?thesis
      using assms(1,2) False by (intro exI [of _ "map (split_part d ?n (?full div ?n)) [0..<?n]"]) auto
  qed
  then obtain ps where ps: "divide_loop info aFor (d # ds) r = divide_loop info aFor ds (r\<lparr>sent := sent r @ ps\<rparr>)"
      "concat (map FData ps) = FData d" "\<forall>x\<in>set ps. \<exists>sp. FDataId x = with_split sp (FDataId d)"
    by blast
  obtain out where out: "divide_loop info aFor ds (r\<lparr>sent := sent r @ ps\<rparr>) =
        Some (r\<lparr>sent := sent r @ ps @ out\<rparr>)" "concat (map FData out) = concat (map FData ds)"
      "\<forall>x\<in>set out. \<exists>d\<in>set ds. \<exists>sp. FDataId x = with_split sp (FDataId d)"
    using Cons.IH [of "r\<lparr>sent := sent r @ ps\<rparr>"] Cons.prems by auto
  show ?case using ps out by (intro exI [of _ "ps @ out"]) auto
qed

lemma divide_loop_whole:
  assumes "MGetFlag (FMtuType info) CAN_NOT_SPLIT" "\<forall>d\<in>set ds. \<not> MIsSplited (FSplit (FDataId d))"
  shows "divide_loop info aFor ds r =
     Some (r\<lparr>sent := sent r @ filter (fits info) ds,
       fails := fails r @ filter (\<lambda>d. \<not> fits info d) ds,
       non_sent := non_sent r @ map too_large (filter (\<lambda>d. \<not> fits info d) ds)\<rparr>)"
  using assms(2) by (induction ds arbitrary: r) (simp_all add: assms(1))

lemma divide_loop_merge:
  assumes w: "whole_message d n v" and f: "MGetFlag (FMtuType info) CAN_NOT_SPLIT" "sMIsValid aFor"
    and r: "om_ok (ops r)" "om_get (ops r) (FUuid (FFrom (FRouting (FDataId d))), aFor) = None"
  shows "divide_loop info aFor (parts_of d n v) r = Some (r\<lparr>sent := sent r @ [d]\<rparr>)"
proof -
  let ?key = "(FUuid (FFrom (FRouting (FDataId d))), aFor)"
  have n: "0 < n" using w by (simp add: whole_message_def)
  have p: "parts_of d n v = split_part d n v 0 # map (split_part d n v) [Suc 0..<n]"
    using n by (simp add: parts_of_def upt_conv_Cons)
  have m: "MMerge aFor (parts_of d n v) r = Some ([], r\<lparr>sent := sent r @ [d]\<rparr>)"
    using MMerge_batch [OF w le_refl n r refl f(2)] n by (simp add: parts_of_def result_after_def)
  show ?thesis
    using part_is_split [OF w n] f m unfolding p by simp
qed

lemma divide_loop_split:
  assumes "MGetFlag (FMtuType info) LIMITED" "\<not> MGetFlag (FMtuType info) CAN_NOT_SPLIT"
    "\<not> fits info d" "MSplit d (FMaxSize info) = Some (v, parts)"
  shows "divide_loop info aFor [d] r = Some (r\<lparr>sent := sent r @ parts\<rparr>)"
  using assms by simp

section \<open>Sample messages\<close>

definition sample_data_info :: user_data_info_t where
  "sample_data_info = \<lparr>FPacketNumber = 5, FDataProtocol = RAW_PROTOCOL_NAME, FDataOffset = 0,
     FEventsList = [], FDestination = [2], FRegistrators = [],
     FRouting = \<lparr>FRoute = [], FFrom = id_of_uuid 1\<rparr>, FSplit = no_split,
     FEndian = E_SHARE_ENDIAN, FDataWhat = no_header\<rparr>"

definition sample_message :: "nat \<Rightarrow> user_data_t" where
  "sample_message k = \<lparr>FDataId = sample_data_info, FData = map of_nat [0..<k]\<rparr>"

definition limited_channel :: "nat \<Rightarrow> split_info" where
  "limited_channel k = \<lparr>FMtuType = LIMITED, FMaxSize = k, pMCalculate = None\<rparr>"

definition whole_channel :: "nat \<Rightarrow> split_info" where
  "whole_channel k = \<lparr>FMtuType = CAN_NOT_SPLIT, FMaxSize = k, pMCalculate = None\<rparr>"

definition no_result :: merge_result where
  "no_result = \<lparr>ops = [], sent = [], fails = [], non_sent = []\<rparr>"

lemma sample_message_simps [simp]:
  "FSplit (FDataId (sample_message k)) = no_split" "length (FData (sample_message k)) = k"
  "FUuid (FFrom (FRouting (FDataId (sample_message k)))) = 1"
  by (simp_all add: sample_message_def sample_data_info_def id_of_uuid_def)

lemma channel_flags [simp]:
  "MGetFlag (FMtuType (limited_channel k)) LIMITED"
  "\<not> MGetFlag (FMtuType (limited_channel k)) CAN_NOT_SPLIT"
  "MGetFlag (FMtuType (whole_channel k)) CAN_NOT_SPLIT"
  by (simp_all add: limited_channel_def whole_channel_def flag_defs)

section \<open>Properties\<close>

text \<open>
  splitting a message gives an even number of parts whose data, in their order, is the
  data of the message. Every part but the last has one size, at most the size asked for; the
  last one takes the rest. The parts keep everything of the message's information but the
  splitting, and are numbered one after the other.
\<close>

theorem split_conserves:
  assumes "1 \<le> part" "part < length (FData d)"
  shows "\<exists>v ps. MSplit d part = Some (v, ps) \<and> concat (map FData ps) = FData d
     \<and> even (length ps) \<and> 2 \<le> length ps \<and> v \<le> part
     \<and> (\<forall>i < length ps - 1. length (FData (ps ! i)) = v)
     \<and> length (FData (last ps)) = v + length (FData d) mod length ps
     \<and> (\<forall>i < length ps. FDataId (ps ! i) = with_split
          \<lparr>FIsLast = (i = length ps - 1 \<and> FIsLast (FSplit (FDataId d))),
           FCounter = (FCounter (FSplit (FDataId d)) - 1) * of_nat (length ps) + 1 + of_nat i,
           FCoefficient = FCoefficient (FSplit (FDataId d)) * of_nat (length ps)\<rparr> (FDataId d))"
proof -
  let ?full = "length (FData d)"
  let ?n = "split_part_count ?full part"
  let ?v = "?full div ?n"
  let ?ps = "map (split_part d ?n ?v) [0..<?n]"
  note b = split_part_count_bounds [OF assms]
  have n: "0 < ?n" using b(2) by simp
  have s: "MSplit d part = Some (?v, ?ps)" using MSplit_unfold [OF assms] by (simp add: Let_def)
  have "?v \<le> ?n * part div ?n" using b(3) by (rule div_le_mono)
  then have v: "?v \<le> part" using n by simp
  have last: "last ?ps = split_part d ?n ?v (?n - 1)" using n by (simp add: last_map)
  have split: "?full = ?v * (?n - 1) + ?v + ?full mod ?n"
    using n by (metis add.commute div_mult_mod_eq mult.commute mult_Suc Suc_pred' One_nat_def)
  have part_len: "length (FData (split_part d ?n ?v i)) = ?v" if "i < ?n - 1" for i
  proof -
    have "?v * Suc i \<le> ?v * (?n - 1)" using that by (intro mult_le_mono2) simp
    then have "?v * i + ?v \<le> ?full" using split by (simp add: algebra_simps)
    then show ?thesis using that by (simp add: split_part_data)
  qed
  have info: "FDataId (split_part d ?n ?v i) = with_split
      \<lparr>FIsLast = (i = ?n - 1 \<and> FIsLast (FSplit (FDataId d))),
       FCounter = (FCounter (FSplit (FDataId d)) - 1) * of_nat ?n + 1 + of_nat i,
       FCoefficient = FCoefficient (FSplit (FDataId d)) * of_nat ?n\<rparr> (FDataId d)" for i
    by (simp add: split_part_def Let_def algebra_simps)
  have "length (FData (last ?ps)) = ?v + ?full mod ?n"
    unfolding last using split by (simp add: split_part_data)
  then show ?thesis
    using s v b(1,2) part_len info concat_parts [OF n, of d ?v] by (auto simp: comp_def)
qed

theorem split_conserves_witness:
  "\<exists>v ps. MSplit (sample_message 7) 2 = Some (v, ps)
     \<and> concat (map FData ps) = FData (sample_message 7) \<and> even (length ps)"
  using split_conserves [of 2 "sample_message 7"] by auto

text \<open>
  C12: merging is the inverse of splitting. However the parts of an undivided message arrive,
  in runs of one or more parts, the channel gives the message exactly as it was sent, exactly
  once, when the last part has come; it reports no error, and it keeps nothing of the message.
  The parts must have at least one byte, which a limit of at least two bytes ensures, and be
  fewer than 65536.
\<close>

theorem split_merge_round_trip:
  assumes "FSplit (FDataId d) = no_split" "2 \<le> part" "part < length (FData d)"
    "split_part_count (length (FData d)) part < 65536"
    and "om_ok (ops r)" "om_get (ops r) (FUuid (FFrom (FRouting (FDataId d))), aFor) = None"
    and "sMIsValid aFor" "MSplit d part = Some (v, ps)" "concat bs = ps" "[] \<notin> set bs"
  shows "feed aFor bs r = Some (r\<lparr>sent := sent r @ [d]\<rparr>)"
proof -
  obtain n w where n: "MSplit d part = Some (w, parts_of d n w)" "whole_message d n w"
    using MSplit_whole [OF assms(1-4)] by blast
  have "n \<noteq> 0" using n(2) by (auto simp: whole_message_def)
  then show ?thesis
    using feed_parts [OF n(2) assms(5,6) refl assms(7), of 0 bs] n(1) assms(8-)
    by (simp add: result_after_def parts_of_def)
qed

theorem split_merge_round_trip_witness:
  "feed 3 (map (\<lambda>x. [x]) (snd (the (MSplit (sample_message 7) 2)))) no_result
     = Some (no_result\<lparr>sent := [sample_message 7]\<rparr>)"
proof -
  obtain v ps where s: "MSplit (sample_message 7) 2 = Some (v, ps)"
    using MSplit_whole [of "sample_message 7" 2] by (auto simp: split_part_count_def)
  have c: "concat (map (\<lambda>x. [x]) ps) = ps" by (induction ps) auto
  show ?thesis
    using split_merge_round_trip [of "sample_message 7" 2 no_result 3 v ps "map (\<lambda>x. [x]) ps"] s c
    by (auto simp: split_part_count_def no_result_def sMIsValid_def)
qed

text \<open>
  C30: end to end, a message that is too large for the limited channel of one kernel leaves it
  in parts, and the channel of another kernel that takes whole messages only, given these parts,
  delivers the message as it was; both kernels report nothing and keep their state.
\<close>

theorem divided_and_restored:
  assumes "om_get (FLimitsInfo s) a = Some li" "MGetFlag (FMtuType li) LIMITED"
    "\<not> MGetFlag (FMtuType li) CAN_NOT_SPLIT" "\<not> fits li d"
    and "om_get (FLimitsInfo t) b = Some wi" "MGetFlag (FMtuType wi) CAN_NOT_SPLIT" "sMIsValid b"
    and "om_ok (FMergeOp t)" "om_get (FMergeOp t) (FUuid (FFrom (FRouting (FDataId d))), b) = None"
    and "FSplit (FDataId d) = no_split" "2 \<le> FMaxSize li" "FMaxSize li < length (FData d)"
    "split_part_count (length (FData d)) (FMaxSize li) < 65536"
  shows "\<exists>ps. MSplitOrMergeIfNeed a [d] s = Some (ps, [], [], s)
     \<and> (\<forall>p\<in>set ps. MIsSplited (FSplit (FDataId p)))
     \<and> MSplitOrMergeIfNeed b ps t = Some ([d], [], [], t)"
proof -
  obtain n v where n: "MSplit d (FMaxSize li) = Some (v, parts_of d n v)" "whole_message d n v"
    using MSplit_whole [OF assms(10-13)] by blast
  have "MSplitOrMergeIfNeed a [d] s = Some (parts_of d n v, [], [], s)"
    using divide_loop_split [OF assms(2,3,4) n(1)] assms(1) by (simp add: MSplitOrMergeIfNeed_def)
  moreover have "MSplitOrMergeIfNeed b (parts_of d n v) t = Some ([d], [], [], t)"
    using divide_loop_merge [OF n(2) assms(6,7), of "\<lparr>ops = FMergeOp t, sent = [], fails = [], non_sent = []\<rparr>"]
      assms(5,8,9) by (simp add: MSplitOrMergeIfNeed_def)
  moreover have "MIsSplited (FSplit (FDataId p))" if "p \<in> set (parts_of d n v)" for p
    using that part_is_split [OF n(2)] by (auto simp: parts_of_def)
  ultimately show ?thesis by blast
qed

theorem divided_and_restored_witness:
  "\<exists>ps. MSplitOrMergeIfNeed 2 [sample_message 7] (MSetLimitsFor 2 (limited_channel 2) CPacketDivisor)
       = Some (ps, [], [], MSetLimitsFor 2 (limited_channel 2) CPacketDivisor)
     \<and> (\<forall>p\<in>set ps. MIsSplited (FSplit (FDataId p)))
     \<and> MSplitOrMergeIfNeed 3 ps (MSetLimitsFor 3 (whole_channel 0) CPacketDivisor)
       = Some ([sample_message 7], [], [], MSetLimitsFor 3 (whole_channel 0) CPacketDivisor)"
  by (rule divided_and_restored [of _ _ "limited_channel 2" _ _ _ "whole_channel 0"])
    (simp_all add: MSetLimitsFor_def CPacketDivisor_def om_simps fits_def MDataSize_def sMIsValid_def
      split_part_count_def, simp_all add: limited_channel_def)

text \<open>
  a limited channel loses nothing: the data of what it sends is the data of the messages it
  was given, in their order, every part carries the information of its message, and nothing is
  reported. The one demand is that a message that does not fit has at least two bytes.
\<close>

theorem limited_channel_conserves:
  assumes "om_get (FLimitsInfo s) a = Some li" "MGetFlag (FMtuType li) LIMITED"
    "\<not> MGetFlag (FMtuType li) CAN_NOT_SPLIT"
    "\<forall>d\<in>set ds. \<not> fits li d \<longrightarrow> 2 \<le> length (FData d)"
  shows "\<exists>out. MSplitOrMergeIfNeed a ds s = Some (out, [], [], s)
     \<and> concat (map FData out) = concat (map FData ds)
     \<and> (\<forall>x\<in>set out. \<exists>d\<in>set ds. \<exists>sp. FDataId x = with_split sp (FDataId d))"
proof -
  obtain out where "divide_loop li a ds \<lparr>ops = FMergeOp s, sent = [], fails = [], non_sent = []\<rparr> =
      Some \<lparr>ops = FMergeOp s, sent = out, fails = [], non_sent = []\<rparr>"
      "concat (map FData out) = concat (map FData ds)"
      "\<forall>x\<in>set out. \<exists>d\<in>set ds. \<exists>sp. FDataId x = with_split sp (FDataId d)"
    using divide_loop_limited [OF assms(2-4), of a "\<lparr>ops = FMergeOp s, sent = [], fails = [], non_sent = []\<rparr>"]
    by auto
  then show ?thesis using assms(1) by (auto simp: MSplitOrMergeIfNeed_def)
qed

theorem limited_channel_conserves_witness:
  "\<exists>out. MSplitOrMergeIfNeed 2 [sample_message 7, sample_message 1]
         (MSetLimitsFor 2 (limited_channel 2) CPacketDivisor)
       = Some (out, [], [], MSetLimitsFor 2 (limited_channel 2) CPacketDivisor)
     \<and> concat (map FData out) = concat (map FData [sample_message 7, sample_message 1])"
  using limited_channel_conserves [of "MSetLimitsFor 2 (limited_channel 2) CPacketDivisor" 2
      "limited_channel 2" "[sample_message 7, sample_message 1]"]
  by (auto simp: MSetLimitsFor_def CPacketDivisor_def fits_def limited_channel_def MDataSize_def
      flag_defs)

text \<open>
  a channel without limits, or with neither flag set, sends every message as it is. A
  channel that takes whole messages only sends those that fit, in their order, and gives back
  every other one with the error \<open>E_DATA_TOO_LARGE\<close>.
\<close>

lemma too_large_error: "FError (too_large d) = E_DATA_TOO_LARGE"
  by (simp add: too_large_def fail_MSetError_def fail_of_info_def code_inner_error_def
      MSetFlag_def E_NO_ERROR_def user_data_info_t.defs fail_send_t.defs)

lemma divide_loop_free:
  "\<not> MGetFlag (FMtuType i) CAN_NOT_SPLIT \<Longrightarrow> \<not> MGetFlag (FMtuType i) LIMITED \<Longrightarrow>
     divide_loop i a ds r = Some (r\<lparr>sent := sent r @ ds\<rparr>)"
  by (induction ds arbitrary: r) simp_all

theorem whole_messages_partition:
  assumes "\<forall>d\<in>set ds. \<not> MIsSplited (FSplit (FDataId d))"
    "\<forall>i. om_get (FLimitsInfo s) a = Some i \<longrightarrow>
       MGetFlag (FMtuType i) CAN_NOT_SPLIT \<or> \<not> MGetFlag (FMtuType i) LIMITED"
  shows "MSplitOrMergeIfNeed a ds s =
     (let ok = (\<lambda>d. case om_get (FLimitsInfo s) a of
                  None \<Rightarrow> True
                | Some i \<Rightarrow> MGetFlag (FMtuType i) CAN_NOT_SPLIT \<longrightarrow> fits i d);
          bad = filter (\<lambda>d. \<not> ok d) ds
      in Some (filter ok ds, bad, map too_large bad, s))
    \<and> (\<forall>d. FError (too_large d) = E_DATA_TOO_LARGE)"
proof (cases "om_get (FLimitsInfo s) a")
  case None
  then show ?thesis by (simp add: MSplitOrMergeIfNeed_def too_large_error Let_def)
next
  case (Some i)
  show ?thesis
  proof (cases "MGetFlag (FMtuType i) CAN_NOT_SPLIT")
    case True
    then show ?thesis
      using divide_loop_whole [OF True assms(1)] Some
      by (simp add: MSplitOrMergeIfNeed_def too_large_error Let_def)
  next
    case False
    then show ?thesis
      using divide_loop_free [OF False] assms(2) Some
      by (simp add: MSplitOrMergeIfNeed_def too_large_error Let_def)
  qed
qed

theorem whole_messages_partition_witness:
  "MSplitOrMergeIfNeed 3 [sample_message 7, sample_message 1]
      (MSetLimitsFor 3 (whole_channel 2) CPacketDivisor)
   = Some ([sample_message 1], [sample_message 7], [too_large (sample_message 7)],
       MSetLimitsFor 3 (whole_channel 2) CPacketDivisor)"
  using whole_messages_partition [of "[sample_message 7, sample_message 1]"
      "MSetLimitsFor 3 (whole_channel 2) CPacketDivisor" 3]
  by (simp add: MSetLimitsFor_def CPacketDivisor_def om_simps fits_def MDataSize_def Let_def
      MIsSplited_def no_split_def whole_channel_def flag_defs)

text \<open>An operation that has merged parts of a message, the last of them with the numbers \<open>l\<close>.\<close>

definition collecting :: "merge_operation_t \<Rightarrow> split_packet_t \<Rightarrow> bool" where
  "collecting m l \<longleftrightarrow> FMergeError m = E_NO_ERROR \<and> FNewPackets m = [] \<and> FBufForMerge m \<noteq> []
     \<and> om_get (FSplitLevel m) (FCoefficient l) = Some l"

definition counters :: "user_datas_t \<Rightarrow> nat list" where
  "counters ws = map (\<lambda>x. unat (FCounter (FSplit (FDataId x)))) ws"

definition next_counters :: "split_packet_t \<Rightarrow> user_datas_t \<Rightarrow> nat list" where
  "next_counters l ws = [unat (FCounter l) + 1..<unat (FCounter l) + 1 + length ws]"

lemma next_counters_Cons:
  "counters (d # ws) = next_counters l (d # ws) \<longleftrightarrow>
     unat (FCounter l) + 1 = unat (FCounter (FSplit (FDataId d))) \<and> counters ws = next_counters (FSplit (FDataId d)) ws"
  by (cases "unat (FCounter (FSplit (FDataId d))) = unat (FCounter l) + 1")
    (auto simp: counters_def next_counters_def upt_conv_Cons simp del: upt_Suc)

lemma merging_run:
  assumes "\<forall>x\<in>set ws. FCoefficient (FSplit (FDataId x)) = FCoefficient l \<and> MIsSplited (FSplit (FDataId x))"
    "\<forall>x\<in>set (butlast ws). \<not> FIsLast (FSplit (FDataId x))"
    "om_get (FSplitLevel m) (FCoefficient l) = Some l" "FBufForMerge m \<noteq> []"
  shows "\<exists>lv. merging_loop ws False m = Some (ws \<noteq> [] \<and> FIsLast (FSplit (FDataId (last ws))),
    m\<lparr>FBufForMerge := FBufForMerge m @ concat (map FData ws), FMergedPackets := FMergedPackets m @ ws, FNewPackets := [],
      FSplitLevel := lv, FMergeError := if counters ws = next_counters l ws then FMergeError m else E_PACKET_LOST\<rparr>)"
  using assms
proof (induction ws arbitrary: m l)
  case Nil
  then show ?case by (intro exI [of _ "FSplitLevel m"]) (simp add: counters_def next_counters_def)
next
  case (Cons d ws)
  let ?l = "FSplit (FDataId d)" and ?lv = "om_set (FCoefficient l) (FSplit (FDataId d)) (FSplitLevel m)"
  let ?e = "if unat (FCounter l) + 1 = unat (FCounter ?l) then FMergeError m else E_PACKET_LOST"
  let ?m = "m\<lparr>FBufForMerge := FBufForMerge m @ FData d, FMergedPackets := FMergedPackets m @ [d], FSplitLevel := ?lv, FMergeError := ?e\<rparr>"
  have d: "FCoefficient ?l = FCoefficient l" "MIsSplited ?l" using Cons.prems(1) by simp_all
  have step: "merging_loop (d # ws) False m = merging_loop ws (FIsLast ?l) ?m"
    using d Cons.prems(3,4) by (cases m) (simp add: MCheckingSequence_def MMergePacket_def Let_def)
  show ?case
  proof (cases "ws = []")
    case True
    then show ?thesis unfolding step
      by (intro exI [of _ ?lv]) (simp add: next_counters_Cons, simp add: counters_def next_counters_def)
  next
    case False
    then have "\<not> FIsLast ?l" using Cons.prems(2) by simp
    moreover have "\<exists>lv. merging_loop ws False ?m = Some (ws \<noteq> [] \<and> FIsLast (FSplit (FDataId (last ws))),
      ?m\<lparr>FBufForMerge := FBufForMerge ?m @ concat (map FData ws), FMergedPackets := FMergedPackets ?m @ ws, FNewPackets := [],
        FSplitLevel := lv, FMergeError := if counters ws = next_counters ?l ws then FMergeError ?m else E_PACKET_LOST\<rparr>)"
      using Cons.prems False d by (intro Cons.IH) (auto simp: om_simps)
    ultimately show ?thesis unfolding step using False by (auto simp: next_counters_Cons)
  qed
qed

text \<open>
  C38: lost parts are reported. A message is put together on a channel from runs of parts, all with
  the same coefficient and only the last of them marked as last. (1) When a message starts on a
  channel that still waits for parts of an older one of the same sender, the older one is
  dropped from the table, its parts are given back and it is reported with \<open>E_PACKET_LOST\<close>, and the
  new message is handled as if the older had never been there. (2) When the first part of a message
  is missing, every part of the run is given back, the loss is reported once, and the table
  is unchanged. (3) When parts have been merged and a run comes, then the run is accepted exactly
  when its parts are numbered on without a gap: nothing is given back or reported, and the message is
  complete with the last part. With a gap anywhere in the run all parts so far and the run are given
  back, the loss is reported once, nothing of the message is sent, and it is dropped from the table.
\<close>

lemma MMerge_Cons:
  assumes "sMIsValid aFor" "list_all (\<lambda>x. MIsSplited (FSplit (FDataId x))) (takeWhile (same_packet d) ds)"
  shows "MMerge aFor (d # ds) r = map_option (\<lambda>r1. (dropWhile (same_packet d) ds, r1))
     (merge_rounds (FUuid (FFrom (FRouting (FDataId d))), aFor) (d # takeWhile (same_packet d) ds) r)"
  using assms by (simp add: MMerge_def Let_def)

lemma merge_all_at_once: "ws \<noteq> [] \<Longrightarrow> merge_round key ws r = Some ([], r1) \<Longrightarrow> merge_rounds key ws r = Some r1"
  by (simp add: merge_rounds.simps [of key ws] merge_rounds.simps [of key "[]"])

lemma E_PACKET_LOST_nonzero [simp]: "E_PACKET_LOST \<noteq> E_NO_ERROR"
  by (simp add: error_codes)

theorem lost_parts_reported:
  assumes valid: "sMIsValid aFor"
    and split: "list_all (\<lambda>x. MIsSplited (FSplit (FDataId x))) (takeWhile (same_packet d) ds)"
    and key: "key = (FUuid (FFrom (FRouting (FDataId d))), aFor)" and ws: "ws = d # takeWhile (same_packet d) ds"
  shows "(\<forall>m. om_get (ops r) key = Some m \<and> FMergeError m = E_NO_ERROR
            \<and> FPacketNumber (FFor m) \<noteq> FPacketNumber (FDataId d) \<longrightarrow>
          MMerge aFor (d # ds) r = MMerge aFor (d # ds)
            (r\<lparr>ops := om_erase key (ops r), fails := fails r @ FMergedPackets m @ FNewPackets m,
               non_sent := non_sent r @ [fail_MSetError E_PACKET_LOST (fail_of_info (FFor m))]\<rparr>))
     \<and> (om_ok (ops r) \<and> om_get (ops r) key = None \<and> FCounter (FSplit (FDataId d)) \<noteq> 1 \<longrightarrow>
          MMerge aFor (d # ds) r = Some (dropWhile (same_packet d) ds,
            r\<lparr>fails := fails r @ ws,
              non_sent := non_sent r @ [fail_MSetError E_PACKET_LOST (fail_of_info (FDataId d))]\<rparr>))
     \<and> (\<forall>m l. om_get (ops r) key = Some m \<and> collecting m l \<and> FPacketNumber (FFor m) = FPacketNumber (FDataId d)
            \<and> MIsSplited (FSplit (FDataId d)) \<and> (\<forall>x\<in>set ws. FCoefficient (FSplit (FDataId x)) = FCoefficient l)
            \<and> (\<forall>x\<in>set (butlast ws). \<not> FIsLast (FSplit (FDataId x))) \<longrightarrow>
          (\<exists>r1. MMerge aFor (d # ds) r = Some (dropWhile (same_packet d) ds, r1)
            \<and> (if counters ws = next_counters l ws
               then fails r1 = fails r \<and> non_sent r1 = non_sent r \<and> sent r1 = sent r @
                 (if FIsLast (FSplit (FDataId (last ws)))
                  then [\<lparr>FDataId = with_split no_split (FFor m), FData = FBufForMerge m @ concat (map FData ws)\<rparr>] else [])
               else r1 = r\<lparr>ops := om_erase key (ops r), fails := fails r @ FMergedPackets m @ ws,
                 non_sent := non_sent r @ [fail_MSetError E_PACKET_LOST (fail_of_info (FFor m))]\<rparr>)))"
proof (intro conjI allI impI)
  fix m
  assume m: "om_get (ops r) key = Some m \<and> FMergeError m = E_NO_ERROR
            \<and> FPacketNumber (FFor m) \<noteq> FPacketNumber (FDataId d)"
  let ?r = "r\<lparr>ops := om_erase key (ops r), fails := fails r @ FMergedPackets m @ FNewPackets m,
               non_sent := non_sent r @ [fail_MSetError E_PACKET_LOST (fail_of_info (FFor m))]\<rparr>"
  have "merge_round key ws r = Some (ws, ?r)"
    using m by (simp add: ws merge_round_def op_MMerge_def merge_fail_def MHasToBeRemoved_def)
  then have "merge_rounds key ws r = merge_rounds key ws ?r"
    by (subst merge_rounds.simps) (simp add: ws)
  then show "MMerge aFor (d # ds) r = MMerge aFor (d # ds) ?r"
    using MMerge_Cons [OF valid split] key ws by simp
next
  assume m: "om_ok (ops r) \<and> om_get (ops r) key = None \<and> FCounter (FSplit (FDataId d)) \<noteq> 1"
  let ?r = "r\<lparr>fails := fails r @ ws, non_sent := non_sent r @ [fail_MSetError E_PACKET_LOST (fail_of_info (FDataId d))]\<rparr>"
  have "merge_round key ws r = Some ([], ?r)"
    using m by (simp add: ws merge_round_def merge_operation_def op_MMerge_def merge_fail_def
        MHasToBeRemoved_def om_erase_none)
  then show "MMerge aFor (d # ds) r = Some (dropWhile (same_packet d) ds, ?r)"
    using merge_all_at_once MMerge_Cons [OF valid split] key ws by simp
next
  fix m l
  assume m: "om_get (ops r) key = Some m \<and> collecting m l \<and> FPacketNumber (FFor m) = FPacketNumber (FDataId d)
            \<and> MIsSplited (FSplit (FDataId d)) \<and> (\<forall>x\<in>set ws. FCoefficient (FSplit (FDataId x)) = FCoefficient l)
            \<and> (\<forall>x\<in>set (butlast ws). \<not> FIsLast (FSplit (FDataId x)))"
  let ?ok = "counters ws = next_counters l ws"
  obtain lv where "merging_loop ws False (m\<lparr>FNewPackets := ws\<rparr>) = Some (FIsLast (FSplit (FDataId (last ws))),
    m\<lparr>FBufForMerge := FBufForMerge m @ concat (map FData ws), FMergedPackets := FMergedPackets m @ ws, FNewPackets := [],
      FSplitLevel := lv, FMergeError := if ?ok then E_NO_ERROR else E_PACKET_LOST\<rparr>)"
    using merging_run [of ws l "m\<lparr>FNewPackets := ws\<rparr>"] m split
    by (cases m) (auto simp: ws collecting_def list_all_iff simp del: merging_loop.simps)
  then have "\<exists>r1. merge_round key ws r = Some ([], r1)
      \<and> (if ?ok then fails r1 = fails r \<and> non_sent r1 = non_sent r \<and> sent r1 = sent r @
                 (if FIsLast (FSplit (FDataId (last ws)))
                  then [\<lparr>FDataId = with_split no_split (FFor m), FData = FBufForMerge m @ concat (map FData ws)\<rparr>] else [])
         else r1 = r\<lparr>ops := om_erase key (ops r), fails := fails r @ FMergedPackets m @ ws,
                 non_sent := non_sent r @ [fail_MSetError E_PACKET_LOST (fail_of_info (FFor m))]\<rparr>)"
    using m by (cases ?ok; cases "FIsLast (FSplit (FDataId (last ws)))")
      (simp_all add: ws merge_round_def op_MMerge_def collecting_def MMerging_def MCreatePacket_def merge_fail_def MHasToBeRemoved_def)
  then show "\<exists>r1. MMerge aFor (d # ds) r = Some (dropWhile (same_packet d) ds, r1)
      \<and> (if ?ok then fails r1 = fails r \<and> non_sent r1 = non_sent r \<and> sent r1 = sent r @
                 (if FIsLast (FSplit (FDataId (last ws)))
                  then [\<lparr>FDataId = with_split no_split (FFor m), FData = FBufForMerge m @ concat (map FData ws)\<rparr>] else [])
         else r1 = r\<lparr>ops := om_erase key (ops r), fails := fails r @ FMergedPackets m @ ws,
                 non_sent := non_sent r @ [fail_MSetError E_PACKET_LOST (fail_of_info (FFor m))]\<rparr>)"
    using merge_all_at_once MMerge_Cons [OF valid split] key ws by auto
qed

text \<open>Of four parts the first one has come; then the third comes.\<close>

definition first_part_merged :: merge_result where
  "first_part_merged = snd (the (MMerge 3 [split_part (sample_message 7) 4 1 0] no_result))"

theorem lost_parts_reported_witness:
  "MMerge 3 [split_part (sample_message 7) 4 1 2] first_part_merged =
     Some ([], no_result\<lparr>fails := [split_part (sample_message 7) 4 1 0, split_part (sample_message 7) 4 1 2],
       non_sent := [fail_MSetError E_PACKET_LOST (fail_of_info (FDataId (split_part (sample_message 7) 4 1 0)))]\<rparr>)"
proof -
  let ?d = "split_part (sample_message 7) 4 1 2" and ?a = "split_part (sample_message 7) 4 1 0"
  let ?key = "(FUuid (FFrom (FRouting (FDataId ?d))), 3 :: descriptor)"
  have "map_option (\<lambda>m. collecting m (FSplit (FDataId ?a)) \<and> FMergedPackets m = [?a]) (om_get (ops first_part_merged) ?key) = Some True"
    by code_simp
  then obtain m where m: "om_get (ops first_part_merged) ?key = Some m" "collecting m (FSplit (FDataId ?a))" "FMergedPackets m = [?a]" by auto
  have "map_option (\<lambda>m. (FPacketNumber (FFor m), fail_of_info (FFor m))) (om_get (ops first_part_merged) ?key)
      = Some (FPacketNumber (FDataId ?d), fail_of_info (FDataId ?a))" by code_simp
  then have f: "FPacketNumber (FFor m) = FPacketNumber (FDataId ?d)" "fail_of_info (FFor m) = fail_of_info (FDataId ?a)" using m(1) by auto
  have r: "om_erase ?key (ops first_part_merged) = []" "fails first_part_merged = []" "non_sent first_part_merged = []" "sent first_part_merged = []"
    by code_simp+
  have d: "MIsSplited (FSplit (FDataId ?d))" "FCoefficient (FSplit (FDataId ?d)) = FCoefficient (FSplit (FDataId ?a))"
    "counters [?d] \<noteq> next_counters (FSplit (FDataId ?a)) [?d]" "sMIsValid (3 :: descriptor)" by code_simp+
  have "first_part_merged\<lparr>ops := [], fails := x, non_sent := y\<rparr> = no_result\<lparr>fails := x, non_sent := y\<rparr>" for x y
    using r(4) by (simp add: no_result_def)
  then show ?thesis
    using lost_parts_reported [OF d(4), of ?d "[]" ?key "[?d]" first_part_merged] m f r d by auto
qed

text \<open>
  The last part is not bound by the limit: seven bytes for a channel of two bytes leave as three
  parts of one byte and one of four.
\<close>

lemma last_part_exceeds_limit:
  "map_option (map (length \<circ> FData) \<circ> snd) (MSplit (sample_message 7) 2) = Some [1, 1, 1, 4]"
  by code_simp

text \<open>
  With a limit of one byte the parts can be empty, and merging them stops the process, since
  the second part finds the buffer as empty as the first. A message of one byte that does not
  fit (its size is computed with a header) is divided by zero.
\<close>

lemma empty_parts_stop:
  "map_option (map (length \<circ> FData) \<circ> snd) (MSplit (sample_message 3) 1) = Some [0, 0, 0, 3]
   \<and> MMerge 3 (snd (the (MSplit (sample_message 3) 1))) no_result = None
   \<and> MSplit (sample_message 1) 1 = None"
  by code_simp

end
