(* ===== verification/Msg_Handlers.thy ===== *)
theory Msg_Handlers
  imports Udt_Types
begin

text \<open>
  The handlers one receiver has for one message (\<open>CRequiredDG::msg_handlers_t\<close> of
  \<open>services/CRequiredDG.h/.cpp\<close>): two vectors kept in step, the handlers and their
  priorities, ordered by priority (a smaller number is called earlier), the number of handlers
  that are not registrators, and the version the receiver asked for. \<open>std::lower_bound\<close> on the
  ordered priorities is the first position whose value is not below the one sought.
\<close>

record msg_handlers_t =
  FNumberOfRealHandlers :: int
  FMsgVersion :: version_t
  FHandlers :: "handler_id list"
  FPriorities :: "32 word list"

definition no_handlers :: msg_handlers_t where
  "no_handlers = \<lparr>FNumberOfRealHandlers = 0, FMsgVersion = no_version, FHandlers = [], FPriorities = []\<rparr>"

definition vec_find :: "'a \<Rightarrow> 'a list \<Rightarrow> nat" where
  "vec_find x xs = length (takeWhile (\<lambda>y. y \<noteq> x) xs)"

definition vec_erase :: "nat \<Rightarrow> 'a list \<Rightarrow> 'a list" where
  "vec_erase i xs = take i xs @ drop (Suc i) xs"

definition vec_insert :: "nat \<Rightarrow> 'a \<Rightarrow> 'a list \<Rightarrow> 'a list" where
  "vec_insert i x xs = take i xs @ x # drop i xs"

definition lower_bound :: "'a::linorder \<Rightarrow> 'a list \<Rightarrow> nat" where
  "lower_bound x xs = length (takeWhile (\<lambda>y. y < x) xs)"

definition insert_handler :: "demand_dg_t \<Rightarrow> msg_handlers_t \<Rightarrow> msg_handlers_t" where
  "insert_handler w h =
     (let i = lower_bound (FHandlerPriority w) (FPriorities h)
      in h\<lparr>FPriorities := vec_insert i (FHandlerPriority w) (FPriorities h),
           FHandlers := vec_insert i (FHandler w) (FHandlers h)\<rparr>)"

definition erase_handler :: "nat \<Rightarrow> msg_handlers_t \<Rightarrow> msg_handlers_t" where
  "erase_handler i h =
     h\<lparr>FPriorities := vec_erase i (FPriorities h), FHandlers := vec_erase i (FHandlers h)\<rparr>"

definition MAddHandler :: "demand_dg_t \<Rightarrow> msg_handlers_t \<Rightarrow> bool \<times> msg_handlers_t" where
  "MAddHandler w h =
     (let i = vec_find (FHandler w) (FHandlers h);
          h1 = (if i < length (FHandlers h)
                then (if FHandlerPriority w < FPriorities h ! i
                      then insert_handler w (erase_handler i h)
                      else h)
                else insert_handler w h);
          h2 = (if MIsExist (FVersion (FWhat w)) then h1\<lparr>FMsgVersion := FVersion (FWhat w)\<rparr> else h1)
      in if \<not> MIsRegistrator w
         then (let h3 = h2\<lparr>FNumberOfRealHandlers := FNumberOfRealHandlers h2 + 1\<rparr>
               in (FNumberOfRealHandlers h3 = 1, h3))
         else (False, h2))"

definition MRemoveHandler :: "demand_dg_t \<Rightarrow> msg_handlers_t \<Rightarrow> (bool \<times> msg_handlers_t) option" where
  "MRemoveHandler w h =
     (if \<not> MIsRegistrator w \<and> FNumberOfRealHandlers h \<le> 0 then None
      else
        (let h1 = (if MIsRegistrator w then h
                   else h\<lparr>FNumberOfRealHandlers := FNumberOfRealHandlers h - 1\<rparr>);
             last_real = (\<not> MIsRegistrator w \<and> FNumberOfRealHandlers h1 = 0);
             i = vec_find (FHandler w) (FHandlers h1)
         in Some (last_real, if i < length (FHandlers h1) then erase_handler i h1 else h1)))"

definition MIsRegistrarExist :: "msg_handlers_t \<Rightarrow> bool" where
  "MIsRegistrarExist h \<longleftrightarrow> FHandlers h \<noteq> [] \<and> FNumberOfRealHandlers h \<noteq> int (length (FHandlers h))"

definition MIsOnlyRealHandlers :: "msg_handlers_t \<Rightarrow> bool" where
  "MIsOnlyRealHandlers h \<longleftrightarrow> FNumberOfRealHandlers h = int (length (FHandlers h))"

definition MIsOnlyNonRealHandlers :: "msg_handlers_t \<Rightarrow> bool" where
  "MIsOnlyNonRealHandlers h \<longleftrightarrow> FNumberOfRealHandlers h = 0"

section \<open>Invariant\<close>

definition handlers_ok :: "msg_handlers_t \<Rightarrow> bool" where
  "handlers_ok h \<longleftrightarrow> length (FPriorities h) = length (FHandlers h) \<and> sorted (FPriorities h)
     \<and> distinct (FHandlers h) \<and> 0 \<le> FNumberOfRealHandlers h"

lemma no_handlers_ok: "handlers_ok no_handlers"
  by (simp add: handlers_ok_def no_handlers_def)

lemma vec_find_less: "vec_find x xs < length xs \<longleftrightarrow> x \<in> set xs"
  unfolding vec_find_def by (induction xs) auto

lemma vec_find_nth: "x \<in> set xs \<Longrightarrow> xs ! vec_find x xs = x"
  unfolding vec_find_def by (induction xs) auto

lemma vec_erase_length: "i < length xs \<Longrightarrow> length (vec_erase i xs) = length xs - 1"
  by (simp add: vec_erase_def)

lemma vec_insert_length: "i \<le> length xs \<Longrightarrow> length (vec_insert i x xs) = Suc (length xs)"
  by (simp add: vec_insert_def)

lemma lower_bound_le: "lower_bound x xs \<le> length xs"
  by (simp add: lower_bound_def length_takeWhile_le)

lemma set_vec_insert: "set (vec_insert i x xs) = insert x (set xs)"
  unfolding vec_insert_def by (metis append_take_drop_id list.simps(15) set_append Un_insert_right)

lemma vec_erase_find: "distinct xs \<Longrightarrow> vec_erase (vec_find x xs) xs = filter (\<lambda>y. y \<noteq> x) xs"
proof (induction xs)
  case (Cons y ys)
  have "filter (\<lambda>z. z \<noteq> y) ys = ys" using Cons.prems by (intro filter_True) auto
  with Cons show ?case by (auto simp: vec_erase_def vec_find_def)
qed (simp add: vec_erase_def vec_find_def)

lemma vec_insert_lower_bound:
  "sorted ps \<Longrightarrow> vec_insert (lower_bound p ps) p ps = filter (\<lambda>x. x < p) ps @ p # filter (\<lambda>x. \<not> x < p) ps"
proof (induction ps)
  case (Cons q ps)
  have "filter (\<lambda>x. x < p) ps = [] \<and> filter (\<lambda>x. \<not> x < p) ps = ps" if "\<not> q < p"
    using that Cons.prems by (auto simp: filter_empty_conv intro!: filter_True)
  with Cons show ?case by (auto simp: vec_insert_def lower_bound_def)
qed (simp add: vec_insert_def lower_bound_def)

lemma sorted_insert_lower_bound: "sorted ps \<Longrightarrow> sorted (vec_insert (lower_bound p ps) p ps)"
  unfolding vec_insert_lower_bound
  by (auto simp: sorted_append sorted_filter [of "\<lambda>x. x", simplified])

lemma sorted_vec_erase: "sorted xs \<Longrightarrow> sorted (vec_erase i xs)"
  unfolding vec_erase_def
proof (induction xs arbitrary: i)
  case (Cons x xs)
  then show ?case by (cases i) (auto dest: in_set_takeD in_set_dropD)
qed simp

lemma insert_handler_ok:
  assumes "handlers_ok h" "FHandler w \<notin> set (FHandlers h)"
  shows "handlers_ok (insert_handler w h)"
proof -
  let ?i = "lower_bound (FHandlerPriority w) (FPriorities h)"
  have i: "?i \<le> length (FHandlers h)"
    using assms(1) lower_bound_le [of "FHandlerPriority w" "FPriorities h"] by (simp add: handlers_ok_def)
  have "distinct (vec_insert ?i (FHandler w) (FHandlers h))"
    using assms unfolding vec_insert_def
    by (auto simp: handlers_ok_def set_take_disj_set_drop_if_distinct dest: in_set_takeD in_set_dropD)
  then show ?thesis
    using assms(1) i sorted_insert_lower_bound [of "FPriorities h" "FHandlerPriority w"]
    by (simp add: handlers_ok_def insert_handler_def Let_def vec_insert_length lower_bound_le)
qed

lemma erase_handler_ok:
  assumes "handlers_ok h" "i < length (FHandlers h)"
  shows "handlers_ok (erase_handler i h)"
proof -
  have "distinct (vec_erase i (FHandlers h))"
    using assms(1) set_take_disj_set_drop_if_distinct [of "FHandlers h" i "Suc i"]
    by (auto simp: handlers_ok_def vec_erase_def)
  then show ?thesis
    using assms sorted_vec_erase [of "FPriorities h" i] by (simp add: handlers_ok_def erase_handler_def vec_erase_length)
qed

lemma insert_handler_set: "set (FHandlers (insert_handler w h)) = insert (FHandler w) (set (FHandlers h))"
  by (simp add: insert_handler_def Let_def set_vec_insert)

lemma erase_handler_set:
  "handlers_ok h \<Longrightarrow> set (FHandlers (erase_handler (vec_find x (FHandlers h)) h)) = set (FHandlers h) - {x}"
  by (auto simp: erase_handler_def handlers_ok_def vec_erase_find)

lemma handler_updates [simp]:
  "FNumberOfRealHandlers (insert_handler w h) = FNumberOfRealHandlers h"
  "FNumberOfRealHandlers (erase_handler i h) = FNumberOfRealHandlers h"
  "FMsgVersion (insert_handler w h) = FMsgVersion h"
  "FMsgVersion (erase_handler i h) = FMsgVersion h"
  by (simp_all add: insert_handler_def erase_handler_def Let_def)

lemma handlers_ok_other [simp]:
  "handlers_ok (h\<lparr>FMsgVersion := v\<rparr>) = handlers_ok h"
  "0 \<le> n \<Longrightarrow> handlers_ok h \<Longrightarrow> handlers_ok (h\<lparr>FNumberOfRealHandlers := n\<rparr>)"
  by (simp_all add: handlers_ok_def)

lemma MAddHandler_ok:
  assumes "handlers_ok h" "MAddHandler w h = (r, t)"
  shows "handlers_ok t" "set (FHandlers t) = insert (FHandler w) (set (FHandlers h))"
    "FNumberOfRealHandlers t = FNumberOfRealHandlers h + (if MIsRegistrator w then 0 else 1)"
    "r \<longleftrightarrow> \<not> MIsRegistrator w \<and> FNumberOfRealHandlers h = 0"
    "FMsgVersion t = (if MIsExist (FVersion (FWhat w)) then FVersion (FWhat w) else FMsgVersion h)"
proof -
  let ?i = "vec_find (FHandler w) (FHandlers h)"
  define h1 where "h1 = (if ?i < length (FHandlers h)
      then (if FHandlerPriority w < FPriorities h ! ?i then insert_handler w (erase_handler ?i h) else h)
      else insert_handler w h)"
  have h1: "handlers_ok h1 \<and> set (FHandlers h1) = insert (FHandler w) (set (FHandlers h))
      \<and> FNumberOfRealHandlers h1 = FNumberOfRealHandlers h \<and> FMsgVersion h1 = FMsgVersion h"
  proof (cases "FHandler w \<in> set (FHandlers h)")
    case True
    have "handlers_ok (insert_handler w (erase_handler ?i h))"
      using True assms(1) by (intro insert_handler_ok erase_handler_ok)
        (auto simp: erase_handler_set vec_find_less)
    then show ?thesis
      using True assms(1)
      by (auto simp: h1_def vec_find_less insert_handler_set erase_handler_set)
  next
    case False
    then show ?thesis
      using assms(1) insert_handler_ok [OF assms(1) False]
      by (simp add: h1_def vec_find_less insert_handler_set)
  qed
  have n: "0 \<le> FNumberOfRealHandlers h" using assms(1) by (simp add: handlers_ok_def)
  have t: "(r, t) = (let h2 = (if MIsExist (FVersion (FWhat w)) then h1\<lparr>FMsgVersion := FVersion (FWhat w)\<rparr> else h1)
      in if \<not> MIsRegistrator w
         then (let h3 = h2\<lparr>FNumberOfRealHandlers := FNumberOfRealHandlers h2 + 1\<rparr>
               in (FNumberOfRealHandlers h3 = 1, h3))
         else (False, h2))"
    using assms(2) unfolding MAddHandler_def h1_def Let_def by simp
  show "handlers_ok t" "set (FHandlers t) = insert (FHandler w) (set (FHandlers h))"
    "FNumberOfRealHandlers t = FNumberOfRealHandlers h + (if MIsRegistrator w then 0 else 1)"
    "r \<longleftrightarrow> \<not> MIsRegistrator w \<and> FNumberOfRealHandlers h = 0"
    "FMsgVersion t = (if MIsExist (FVersion (FWhat w)) then FVersion (FWhat w) else FMsgVersion h)"
    using t h1 n by (auto simp: Let_def split: if_splits)
qed

lemma MRemoveHandler_ok:
  assumes "handlers_ok h" "MRemoveHandler w h = Some (r, t)"
  shows "handlers_ok t" "FHandlers t = filter (\<lambda>x. x \<noteq> FHandler w) (FHandlers h)"
    "FNumberOfRealHandlers t = FNumberOfRealHandlers h - (if MIsRegistrator w then 0 else 1)"
    "r \<longleftrightarrow> \<not> MIsRegistrator w \<and> FNumberOfRealHandlers h = 1" "FMsgVersion t = FMsgVersion h"
proof -
  let ?i = "vec_find (FHandler w) (FHandlers h)"
  define h1 where "h1 = (if MIsRegistrator w then h
      else h\<lparr>FNumberOfRealHandlers := FNumberOfRealHandlers h - 1\<rparr>)"
  have fit: "MIsRegistrator w \<or> 0 < FNumberOfRealHandlers h"
    using assms(2) by (auto simp: MRemoveHandler_def split: if_splits)
  have h1: "handlers_ok h1" "FHandlers h1 = FHandlers h" "FMsgVersion h1 = FMsgVersion h"
    "FNumberOfRealHandlers h1 = FNumberOfRealHandlers h - (if MIsRegistrator w then 0 else 1)"
    using fit assms(1) by (auto simp: h1_def)
  have t: "r = (\<not> MIsRegistrator w \<and> FNumberOfRealHandlers h1 = 0)"
    "t = (if ?i < length (FHandlers h) then erase_handler ?i h1 else h1)"
    using assms(2) h1(2) unfolding MRemoveHandler_def h1_def [symmetric] Let_def
    by (auto split: if_splits)
  have d: "distinct (FHandlers h)" using assms(1) by (simp add: handlers_ok_def)
  have "FHandlers (erase_handler ?i h1) = filter (\<lambda>x. x \<noteq> FHandler w) (FHandlers h)"
    using d by (simp add: erase_handler_def h1(2) vec_erase_find)
  moreover have "filter (\<lambda>x. x \<noteq> FHandler w) (FHandlers h) = FHandlers h" if "FHandler w \<notin> set (FHandlers h)"
    using that by (intro filter_True) auto
  ultimately show "FHandlers t = filter (\<lambda>x. x \<noteq> FHandler w) (FHandlers h)"
    using h1(2) by (auto simp: t(2) vec_find_less)
  show "handlers_ok t" using h1 erase_handler_ok [OF h1(1)] by (auto simp: t(2))
  show "FNumberOfRealHandlers t = FNumberOfRealHandlers h - (if MIsRegistrator w then 0 else 1)"
    "r \<longleftrightarrow> \<not> MIsRegistrator w \<and> FNumberOfRealHandlers h = 1" "FMsgVersion t = FMsgVersion h"
    using h1 by (auto simp: t)
qed

lemma remove_after_add:
  assumes "handlers_ok h" "FHandler w \<notin> set (FHandlers h)" "MAddHandler w h = (r, t)"
  shows "\<exists>u. MRemoveHandler w t = Some (r, u) \<and> handlers_ok u \<and> FHandlers u = FHandlers h
     \<and> FNumberOfRealHandlers u = FNumberOfRealHandlers h"
proof -
  note a = MAddHandler_ok [OF assms(1,3)]
  have n: "0 \<le> FNumberOfRealHandlers h" using assms(1) by (simp add: handlers_ok_def)
  have "MRemoveHandler w t \<noteq> None" using a(3) n by (simp add: MRemoveHandler_def Let_def)
  then obtain q u where u: "MRemoveHandler w t = Some (q, u)" by auto
  note d = MRemoveHandler_ok [OF a(1) u]
  have "filter (\<lambda>x. x \<noteq> FHandler w) (FHandlers h) = FHandlers h"
    using assms(2) by (intro filter_True) auto
  moreover have "FHandlers t = vec_insert (lower_bound (FHandlerPriority w) (FPriorities h))
      (FHandler w) (FHandlers h)"
    using assms(2,3) by (auto simp: MAddHandler_def Let_def insert_handler_def vec_find_less split: if_splits)
  moreover have "filter P (vec_insert i x xs) = filter P xs" if "\<not> P x" for P i x and xs :: "handler_id list"
    using that by (simp add: vec_insert_def) (metis append_take_drop_id filter_append)
  ultimately have "FHandlers u = FHandlers h" using d(2) by simp
  then show ?thesis using u d a by auto
qed

section \<open>Properties\<close>

definition sample_demand :: "handler_id \<Rightarrow> 32 word \<Rightarrow> demand_dg_t" where
  "sample_demand h p = \<lparr>FHandlerPriority = p,
     FWhat = \<lparr>FVersion = no_version, FMessageHeader = 9\<rparr>, FNameFrom = ''sensor'',
     FUUIDFrom = None, FProtocol = RAW_PROTOCOL_NAME, FHandler = h, FFlags = 0\<rparr>"

text \<open>
  adding a handler keeps the handlers distinct and in the order of their priorities. A new
  handler comes before those of its own priority and after those with a smaller one; a handler
  that is there is moved only to a smaller priority. The answer says whether it is the first
  handler that is not a registrator.
\<close>

theorem add_handler_in_order:
  assumes "handlers_ok h" "MAddHandler w h = (r, t)"
  shows "handlers_ok t \<and> set (FHandlers t) = insert (FHandler w) (set (FHandlers h))
     \<and> (r \<longleftrightarrow> \<not> MIsRegistrator w \<and> FNumberOfRealHandlers h = 0)
     \<and> (FHandler w \<notin> set (FHandlers h) \<longrightarrow>
          (let k = length (filter (\<lambda>p. p < FHandlerPriority w) (FPriorities h))
           in FHandlers t = take k (FHandlers h) @ FHandler w # drop k (FHandlers h)
              \<and> FPriorities t = take k (FPriorities h) @ FHandlerPriority w # drop k (FPriorities h)))
     \<and> (FHandler w \<in> set (FHandlers h)
          \<and> FPriorities h ! vec_find (FHandler w) (FHandlers h) \<le> FHandlerPriority w \<longrightarrow>
          FHandlers t = FHandlers h \<and> FPriorities t = FPriorities h)"
proof (intro conjI impI)
  show "handlers_ok t" "set (FHandlers t) = insert (FHandler w) (set (FHandlers h))"
    "r \<longleftrightarrow> \<not> MIsRegistrator w \<and> FNumberOfRealHandlers h = 0"
    using MAddHandler_ok [OF assms] by auto
  have lb: "lower_bound (FHandlerPriority w) (FPriorities h) =
      length (filter (\<lambda>p. p < FHandlerPriority w) (FPriorities h))"
  proof -
    have "takeWhile (\<lambda>x. x < p) ps = filter (\<lambda>x. x < p) ps" if "sorted ps" for p and ps :: "32 word list"
      using that
    proof (induction ps)
      case (Cons a ps)
      have "filter (\<lambda>x. x < p) ps = []" if "\<not> a < p"
        using that Cons.prems by (auto simp: filter_empty_conv dest: order.strict_trans1)
      with Cons show ?case by simp
    qed simp
    then show ?thesis using assms(1) by (simp add: handlers_ok_def lower_bound_def)
  qed
  show "let k = length (filter (\<lambda>p. p < FHandlerPriority w) (FPriorities h))
       in FHandlers t = take k (FHandlers h) @ FHandler w # drop k (FHandlers h)
          \<and> FPriorities t = take k (FPriorities h) @ FHandlerPriority w # drop k (FPriorities h)"
    if "FHandler w \<notin> set (FHandlers h)"
    using that assms(2)
    by (auto simp: MAddHandler_def Let_def insert_handler_def lb vec_insert_def vec_find_less
        split: if_splits)
  show "FHandlers t = FHandlers h" "FPriorities t = FPriorities h"
    if "FHandler w \<in> set (FHandlers h)
      \<and> FPriorities h ! vec_find (FHandler w) (FHandlers h) \<le> FHandlerPriority w"
    using that assms(2) by (auto simp: MAddHandler_def Let_def vec_find_less split: if_splits)
qed

theorem add_handler_in_order_witness:
  "handlers_ok (snd (MAddHandler (sample_demand 4 3) no_handlers))
   \<and> FHandlers (snd (MAddHandler (sample_demand 4 3) no_handlers)) = [4]"
proof -
  obtain r t where t: "MAddHandler (sample_demand 4 3) no_handlers = (r, t)" by fastforce
  show ?thesis
    using add_handler_in_order [OF no_handlers_ok t] t
    by (simp add: no_handlers_def sample_demand_def)
qed

text \<open>
  removing a handler undoes adding it: with a handler that was not there, the handlers,
  their order and the number of real ones are again as before, and the removal reports the last
  real handler exactly when the addition reported the first.
\<close>

theorem remove_undoes_add:
  assumes "handlers_ok h" "FHandler w \<notin> set (FHandlers h)" "MAddHandler w h = (r, t)"
  shows "\<exists>u. MRemoveHandler w t = Some (r, u) \<and> handlers_ok u \<and> FHandlers u = FHandlers h
     \<and> FNumberOfRealHandlers u = FNumberOfRealHandlers h"
  using assms by (rule remove_after_add)

theorem remove_undoes_add_witness:
  "\<exists>u. MRemoveHandler (sample_demand 4 3) (snd (MAddHandler (sample_demand 4 3) no_handlers))
       = Some (fst (MAddHandler (sample_demand 4 3) no_handlers), u)
     \<and> handlers_ok u \<and> FHandlers u = FHandlers no_handlers
     \<and> FNumberOfRealHandlers u = FNumberOfRealHandlers no_handlers"
  by (rule remove_undoes_add [OF no_handlers_ok]) (simp_all add: no_handlers_def)

text \<open>
  A handler that is added twice is counted twice but listed once, so that removing it once
  leaves a count without a handler.
\<close>

lemma added_twice_removed_once:
  "map_option (\<lambda>(r, u). (r, FHandlers u, FNumberOfRealHandlers u))
     (MRemoveHandler (sample_demand 4 3)
       (snd (MAddHandler (sample_demand 4 3) (snd (MAddHandler (sample_demand 4 3) no_handlers)))))
   = Some (False, [], 1)"
  by code_simp

end
