(* ===== verification/Subscriptions.thy ===== *)
theory Subscriptions
  imports Msg_Handlers Program_Names
begin

text \<open>
  Who receives what (\<open>CRequiredDG\<close> of \<open>services/CRequiredDG.h/.cpp\<close>). A program demands
  messages by protocol, header and the name of their senders; the kernel keeps, for every
  sender, protocol and header, the receivers with their handlers. Demands change with
  \<open>MSetDemandsDGFor\<close>, programs come and go with \<open>MAddClient\<close> and \<open>MRemoveClient\<close>. A demand
  for a message is a demand for the messages derived from it; a demand may ask for the
  nearest senders only.

  The parsers of the protocols are modules that the kernel loads; \<open>parsers\<close> finds the one of a
  protocol. The keys of \<open>FExpected\<close> are the eight header bytes, which is what the map compares.
  Match depths of type \<open>unsigned\<close> are natural numbers. A failed \<open>CHECK\<close> is \<open>None\<close>.
\<close>

section \<open>Parsers of protocols\<close>

record obtained_dg_t =
  FObtained :: required_header_t
  FErrorCode :: "8 word"
  FBegin :: nat
  FEnd :: nat

record ext_parser =
  MParserData :: "buffer \<Rightarrow> uuid \<Rightarrow> obtained_dg_t list"
  swap_header :: "required_header_t \<Rightarrow> required_header_t option"
  swap_message :: "required_header_t \<Rightarrow> buffer \<Rightarrow> buffer option"
  MDataOffset :: "required_header_t \<Rightarrow> nat"

type_synonym parsers = "ctext \<Rightarrow> ext_parser option"

definition sMSwapHeaderEndian :: "parsers \<Rightarrow> ctext \<Rightarrow> required_header_t \<Rightarrow> required_header_t option" where
  "sMSwapHeaderEndian ps aProtocol h = ps aProtocol \<bind> (\<lambda>p. swap_header p h)"

definition sMSwapMessageEndian ::
    "parsers \<Rightarrow> ctext \<Rightarrow> required_header_t \<Rightarrow> buffer \<Rightarrow> buffer option" where
  "sMSwapMessageEndian ps aProtocol h b = ps aProtocol \<bind> (\<lambda>p. swap_message p h b)"

definition MGetValidHeader :: "parsers \<Rightarrow> demand_dg_t \<Rightarrow> demand_dg_t option" where
  "MGetValidHeader ps w =
     (if MIsValidEndian w then Some w
      else map_option (\<lambda>h. MSwitchEndianFlag (w\<lparr>FWhat := h\<rparr>)) (sMSwapHeaderEndian ps (FProtocol w) (FWhat w)))"

section \<open>State\<close>

record receivers_t =
  FReceivers :: "(uuid, msg_handlers_t) omap"
  FNumberOfRealReceivers :: "32 word"

type_synonym expecting = "(64 word, receivers_t) omap"

record data_routing_t =
  FBufferedData :: buffer
  FExpected :: expecting

text \<open>A message derived from another one, with its distance (0 is a direct heir).\<close>

record inheritance_msg_header_t =
  FProtcol :: ctext
  FHeader :: required_header_t
  FDepth :: "32 word"

record msg_family_t =
  FBaseMessages :: "inheritance_msg_header_t list"
  FSubMessages :: "inheritance_msg_header_t list"

type_synonym msg_inheritance_tree_t = "(64 word, required_header_t \<times> msg_family_t) omap"
type_synonym msg_inheritances_t = "(ctext, msg_inheritance_tree_t) omap"

record required_dg =
  FWhatIsSendingBy :: "(uuid, (ctext, data_routing_t) omap) omap"
  FDGs :: demand_dgs_for_t
  FIds :: "(uuid, id_t) omap"
  FMsgID :: "16 word"
  FMsgsGenealogy :: msg_inheritances_t
  FNearestInfo :: "(uuid, (handler_id, nat) omap) omap"

definition CRequiredDG :: required_dg where
  "CRequiredDG = \<lparr>FWhatIsSendingBy = [], FDGs = [], FIds = [], FMsgID = 0, FMsgsGenealogy = [],
     FNearestInfo = []\<rparr>"

text \<open>An operation under way: the state, the new subscriptions and the ended ones.\<close>

record sub_run =
  dg :: required_dg
  sub_new :: demand_dgs_for_t
  sub_old :: demand_dgs_for_t

definition get_or :: "'v \<Rightarrow> ('k, 'v) omap \<Rightarrow> 'k \<Rightarrow> 'v" where
  "get_or v m k = (case om_get m k of None \<Rightarrow> v | Some x \<Rightarrow> x)"

definition push_demand :: "uuid \<Rightarrow> demand_dg_t \<Rightarrow> demand_dgs_for_t \<Rightarrow> demand_dgs_for_t" where
  "push_demand u d m = om_set u (get_or [] m u @ [d]) m"

definition no_routing :: data_routing_t where
  "no_routing = \<lparr>FBufferedData = [], FExpected = []\<rparr>"

definition no_receivers :: receivers_t where
  "no_receivers = \<lparr>FReceivers = [], FNumberOfRealReceivers = 0\<rparr>"

definition routing_of :: "uuid \<Rightarrow> ctext \<Rightarrow> required_dg \<Rightarrow> data_routing_t" where
  "routing_of u p s = get_or no_routing (get_or [] (FWhatIsSendingBy s) u) p"

definition set_routing :: "uuid \<Rightarrow> ctext \<Rightarrow> data_routing_t \<Rightarrow> required_dg \<Rightarrow> required_dg" where
  "set_routing u p r s =
     s\<lparr>FWhatIsSendingBy := om_set u (om_set p r (get_or [] (FWhatIsSendingBy s) u)) (FWhatIsSendingBy s)\<rparr>"

definition MGetOrCreateExpectedListFor :: "uuid \<Rightarrow> ctext \<Rightarrow> required_dg \<Rightarrow> required_dg" where
  "MGetOrCreateExpectedListFor u p s = set_routing u p (routing_of u p s) s"

section \<open>Receivers of one message\<close>

definition MGetUUIDsOfReceivers :: "expecting \<Rightarrow> required_header_t \<Rightarrow> receivers_t" where
  "MGetUUIDsOfReceivers m h = get_or no_receivers m (FMessageHeader h)"

definition register_receiver :: "demand_dg_t \<Rightarrow> uuid \<Rightarrow> expecting \<Rightarrow> bool \<times> expecting" where
  "register_receiver w to m =
     (let r = MGetUUIDsOfReceivers m (FWhat w);
          n = (if MIsRegistrator w then FNumberOfRealReceivers r else FNumberOfRealReceivers r + 1);
          (first, h) = MAddHandler w (get_or no_handlers (FReceivers r) to)
      in (first, om_set (FMessageHeader (FWhat w))
                   \<lparr>FReceivers = om_set to h (FReceivers r), FNumberOfRealReceivers = n\<rparr> m))"

definition unregister_receiver :: "demand_dg_t \<Rightarrow> uuid \<Rightarrow> expecting \<Rightarrow> (bool \<times> expecting) option" where
  "unregister_receiver w to m =
     (let key = FMessageHeader (FWhat w)
      in case om_get m key of
           None \<Rightarrow> Some (False, m)
         | Some r \<Rightarrow>
             (case om_get (FReceivers r) to of
                None \<Rightarrow> Some (False, m)
              | Some h \<Rightarrow>
                  map_option (\<lambda>(last, h1).
                     let n = (if MIsRegistrator w then FNumberOfRealReceivers r
                              else FNumberOfRealReceivers r - 1);
                         rs = (if FHandlers h1 = [] then om_erase to (FReceivers r)
                               else om_set to h1 (FReceivers r))
                     in (last, if rs = [] then om_erase key m
                               else om_set key \<lparr>FReceivers = rs, FNumberOfRealReceivers = n\<rparr> m))
                   (MRemoveHandler w h)))"

text \<open>
  \<open>MRegisteringReceiverForMsg\<close> and its inverse, on the list of the sender and the protocol of
  the demand. \<open>inform\<close> says whether the caller gave lists for the changes.
\<close>

definition MRegisteringReceiverForMsg ::
    "bool \<Rightarrow> demand_dg_t \<Rightarrow> uuid \<Rightarrow> uuid \<Rightarrow> sub_run \<Rightarrow> bool \<times> sub_run" where
  "MRegisteringReceiverForMsg inform w src to st =
     (let s = MGetOrCreateExpectedListFor src (FProtocol w) (dg st);
          r = routing_of src (FProtocol w) s;
          (first, m) = register_receiver w to (FExpected r);
          st1 = st\<lparr>dg := set_routing src (FProtocol w) (r\<lparr>FExpected := m\<rparr>) s\<rparr>
      in (first, if first \<and> inform
                 then st1\<lparr>sub_new := push_demand src (w\<lparr>FUUIDFrom := Some to\<rparr>) (sub_new st1)\<rparr>
                 else st1))"

definition MUnRegisteringReceiverForMsg ::
    "bool \<Rightarrow> demand_dg_t \<Rightarrow> uuid \<Rightarrow> uuid \<Rightarrow> sub_run \<Rightarrow> (bool \<times> sub_run) option" where
  "MUnRegisteringReceiverForMsg inform w src to st =
     (let s = MGetOrCreateExpectedListFor src (FProtocol w) (dg st);
          r = routing_of src (FProtocol w) s
      in map_option (\<lambda>(last, m).
           let st1 = st\<lparr>dg := set_routing src (FProtocol w) (r\<lparr>FExpected := m\<rparr>) s\<rparr>
           in (last, if last \<and> inform
                     then st1\<lparr>sub_old := push_demand src (w\<lparr>FUUIDFrom := Some to\<rparr>) (sub_old st1)\<rparr>
                     else st1))
         (unregister_receiver w to (FExpected r)))"

section \<open>Derived messages\<close>

definition sMGetMessageChildren ::
    "ctext \<Rightarrow> required_header_t \<Rightarrow> msg_inheritances_t \<Rightarrow> inheritance_msg_header_t list" where
  "sMGetMessageChildren p h g =
     (case om_get g p of
        None \<Rightarrow> []
      | Some tree \<Rightarrow>
          (case om_get tree (FMessageHeader h) of
             None \<Rightarrow> []
           | Some (key, fam) \<Rightarrow>
               if MIsExist (FVersion h) \<and> \<not> MIsCompatibleWith (FVersion key) (FVersion h) then []
               else FSubMessages fam))"

definition MGetMessageChildren ::
    "ctext \<Rightarrow> required_header_t \<Rightarrow> required_dg \<Rightarrow> inheritance_msg_header_t list" where
  "MGetMessageChildren p h s = sMGetMessageChildren p h (FMsgsGenealogy s)"

definition MGetMessageParents ::
    "ctext \<Rightarrow> required_header_t \<Rightarrow> required_dg \<Rightarrow> inheritance_msg_header_t list" where
  "MGetMessageParents p h s =
     (case om_get (FMsgsGenealogy s) p of
        None \<Rightarrow> []
      | Some tree \<Rightarrow>
          (case om_get tree (FMessageHeader h) of None \<Rightarrow> [] | Some (key, fam) \<Rightarrow> FBaseMessages fam))"

definition MGetChildDemand :: "demand_dg_t \<Rightarrow> inheritance_msg_header_t \<Rightarrow> demand_dg_t" where
  "MGetChildDemand w c =
     w\<lparr>FFlags := MSetFlag E_AS_INHERITANCE True (FFlags w), FWhat := FHeader c,
       FHandlerPriority := FHandlerPriority w + FDepth c + 1, FProtocol := FProtcol c\<rparr>"

fun include_children ::
    "bool \<Rightarrow> uuid \<Rightarrow> uuid \<Rightarrow> demand_dg_t \<Rightarrow> inheritance_msg_header_t list \<Rightarrow> nat \<Rightarrow> sub_run \<Rightarrow> nat \<times> sub_run" where
  "include_children inform src to w [] n st = (n, st)"
| "include_children inform src to w (c # cs) n st =
     (let (b, st1) = MRegisteringReceiverForMsg inform (MGetChildDemand w c) src to st
      in include_children inform src to w cs (if b then n + 1 else n) st1)"

definition MIncludeMessageChildren ::
    "bool \<Rightarrow> uuid \<Rightarrow> uuid \<Rightarrow> demand_dg_t \<Rightarrow> sub_run \<Rightarrow> nat \<times> sub_run" where
  "MIncludeMessageChildren inform src to w st =
     include_children inform src to w (MGetMessageChildren (FProtocol w) (FWhat w) (dg st)) 0 st"

fun uninclude_children ::
    "bool \<Rightarrow> uuid \<Rightarrow> uuid \<Rightarrow> demand_dg_t \<Rightarrow> inheritance_msg_header_t list \<Rightarrow> nat \<Rightarrow> sub_run
       \<Rightarrow> (nat \<times> sub_run) option" where
  "uninclude_children inform src to w [] n st = Some (n, st)"
| "uninclude_children inform src to w (c # cs) n st =
     MUnRegisteringReceiverForMsg inform (MGetChildDemand w c) src to st \<bind> (\<lambda>(b, st1).
       uninclude_children inform src to w cs (if b then n + 1 else n) st1)"

definition MUnincludeMessageChildren ::
    "bool \<Rightarrow> uuid \<Rightarrow> uuid \<Rightarrow> demand_dg_t \<Rightarrow> sub_run \<Rightarrow> (nat \<times> sub_run) option" where
  "MUnincludeMessageChildren inform src to w st =
     uninclude_children inform src to w (MGetMessageChildren (FProtocol w) (FWhat w) (dg st)) 0 st"

definition MSendPacketFromTo ::
    "parsers \<Rightarrow> bool \<Rightarrow> uuid \<Rightarrow> uuid \<Rightarrow> demand_dg_t \<Rightarrow> sub_run \<Rightarrow> bool \<times> sub_run" where
  "MSendPacketFromTo ps inform src to w st =
     (let st0 = st\<lparr>dg := MGetOrCreateExpectedListFor src (FProtocol w) (dg st)\<rparr>
      in case MGetValidHeader ps w of
           None \<Rightarrow> (False, st0)
         | Some m \<Rightarrow>
             (let (b, st1) = MRegisteringReceiverForMsg inform m src to st0;
                  (n, st2) = MIncludeMessageChildren inform src to m st1
              in ((if b then 1 else 0) + n > (0::nat), st2)))"

definition MUnSendPacketFromTo ::
    "parsers \<Rightarrow> bool \<Rightarrow> uuid \<Rightarrow> uuid \<Rightarrow> demand_dg_t \<Rightarrow> sub_run \<Rightarrow> (bool \<times> sub_run) option" where
  "MUnSendPacketFromTo ps inform src to w st =
     (let st0 = st\<lparr>dg := MGetOrCreateExpectedListFor src (FProtocol w) (dg st)\<rparr>
      in case MGetValidHeader ps w of
           None \<Rightarrow> Some (False, st0)
         | Some m \<Rightarrow>
             MUnRegisteringReceiverForMsg inform m src to st0 \<bind> (\<lambda>(b, st1).
             MUnincludeMessageChildren inform src to m st1 \<bind> (\<lambda>(n, st2).
               Some ((if b then 1 else 0) + n > (0::nat), st2))))"

section \<open>Programs by name\<close>

text \<open>\<open>MGetAddress\<close> of a name, as the text of the group.\<close>

definition MDoesIdConformTo :: "id_t \<Rightarrow> string \<Rightarrow> bool \<Rightarrow> nat option" where
  "MDoesIdConformTo aTestId aReqExp isInvertGroup =
     (if isInvertGroup
      then do {
        old_group \<leftarrow> MGetAddressText (FName aTestId);
        req_group \<leftarrow> MGetAddressText aReqExp;
        let new_req_exp = sMRegister (MGetName (MGetName aReqExp)) old_group;
        let new_name = sMRegister (MGetName (MGetName (FName aTestId))) req_group;
        (if MIsName aReqExp then Some (MIsForMe new_req_exp new_name)
         else MGetAddressText new_req_exp \<bind> (\<lambda>g. Some (MIsSubGroupOf g new_name)))
      }
      else if MIsName aReqExp then Some (MIsForMe aReqExp (FName aTestId))
      else MGetAddressText aReqExp \<bind> (\<lambda>g. Some (MIsSubGroupOf g (FName aTestId))))"

type_synonym unique_uuids_t = "(uuid, nat) omap"

fun uuids_loop :: "string \<Rightarrow> bool \<Rightarrow> (uuid \<times> id_t) list \<Rightarrow> unique_uuids_t \<Rightarrow> unique_uuids_t option" where
  "uuids_loop aName ivt [] res = Some res"
| "uuids_loop aName ivt (e # es) res =
     MDoesIdConformTo (snd e) aName ivt \<bind> (\<lambda>v.
       uuids_loop aName ivt es (if v \<noteq> 0 then om_set (FUuid (snd e)) v res else res))"

definition MGetUUIDFor :: "string \<Rightarrow> bool \<Rightarrow> required_dg \<Rightarrow> unique_uuids_t option" where
  "MGetUUIDFor aName ivt s = uuids_loop aName ivt (FIds s) []"

definition MGetOnlyNearestUUIDFor :: "unique_uuids_t \<Rightarrow> unique_uuids_t" where
  "MGetOnlyNearestUUIDFor m =
     (case m of
        [] \<Rightarrow> []
      | e # es \<Rightarrow> (let least = fold min (map snd es) (snd e) in filter (\<lambda>x. snd x = least) m))"

definition MGetIdBy :: "uuid \<Rightarrow> required_dg \<Rightarrow> id_t" where
  "MGetIdBy u s = get_or (id_of_uuid 0) (FIds s) u"

definition MGetDemandFor :: "uuid \<Rightarrow> required_dg \<Rightarrow> demand_dgs_t" where
  "MGetDemandFor u s = get_or [] (FDGs s) u"

section \<open>Demands of a program\<close>

definition nearest_of :: "uuid \<Rightarrow> handler_id \<Rightarrow> required_dg \<Rightarrow> nat" where
  "nearest_of u h s = get_or 0 (get_or [] (FNearestInfo s) u) h"

definition set_nearest :: "uuid \<Rightarrow> handler_id \<Rightarrow> nat \<Rightarrow> required_dg \<Rightarrow> required_dg" where
  "set_nearest u h n s =
     s\<lparr>FNearestInfo := om_set u (om_set h n (get_or [] (FNearestInfo s) u)) (FNearestInfo s)\<rparr>"

definition erase_nearest :: "uuid \<Rightarrow> handler_id \<Rightarrow> required_dg \<Rightarrow> required_dg" where
  "erase_nearest u h s =
     s\<lparr>FNearestInfo := om_set u (om_erase h (get_or [] (FNearestInfo s) u)) (FNearestInfo s)\<rparr>"

definition is_nearest :: "demand_dg_t \<Rightarrow> bool" where
  "is_nearest w = MGetFlag (FFlags w) E_NEAREST"

definition is_invert :: "demand_dg_t \<Rightarrow> bool" where
  "is_invert w = MGetFlag (FFlags w) E_INVERT_GROUP"

fun send_all :: "parsers \<Rightarrow> uuid list \<Rightarrow> uuid \<Rightarrow> demand_dg_t \<Rightarrow> sub_run \<Rightarrow> sub_run" where
  "send_all ps [] to w st = st"
| "send_all ps (u # us) to w st = send_all ps us to w (snd (MSendPacketFromTo ps True u to w st))"

fun unsend_all :: "parsers \<Rightarrow> uuid list \<Rightarrow> uuid \<Rightarrow> demand_dg_t \<Rightarrow> sub_run \<Rightarrow> sub_run option" where
  "unsend_all ps [] to w st = Some st"
| "unsend_all ps (u # us) to w st =
     MUnSendPacketFromTo ps True u to w st \<bind> (\<lambda>(_, st1). unsend_all ps us to w st1)"

fun MAddSendersOfMsgFor :: "parsers \<Rightarrow> uuid \<Rightarrow> demand_dgs_t \<Rightarrow> sub_run \<Rightarrow> sub_run option" where
  "MAddSendersOfMsgFor ps aFor [] st = Some st"
| "MAddSendersOfMsgFor ps aFor (w # ws) st = do {
     all \<leftarrow> MGetUUIDFor (FNameFrom w) (is_invert w) (dg st);
     let us = (if is_nearest w then MGetOnlyNearestUUIDFor all else all);
     let st1 = (if is_nearest w
                then st\<lparr>dg := set_nearest aFor (FHandler w)
                          (case us of [] \<Rightarrow> UINT_MAX | u # _ \<Rightarrow> snd u) (dg st)\<rparr>
                else st);
     MAddSendersOfMsgFor ps aFor ws (send_all ps (map fst us) aFor w st1)
   }"

fun MRemoveSendersOfMsgFor :: "parsers \<Rightarrow> uuid \<Rightarrow> demand_dgs_t \<Rightarrow> sub_run \<Rightarrow> sub_run option" where
  "MRemoveSendersOfMsgFor ps aTo [] st = Some st"
| "MRemoveSendersOfMsgFor ps aTo (w # ws) st = do {
     all \<leftarrow> MGetUUIDFor (FNameFrom w) (is_invert w) (dg st);
     let us = (if is_nearest w then MGetOnlyNearestUUIDFor all else all);
     let st1 = (if is_nearest w then st\<lparr>dg := erase_nearest aTo (FHandler w) (dg st)\<rparr> else st);
     st2 \<leftarrow> unsend_all ps (map fst us) aTo w st1;
     MRemoveSendersOfMsgFor ps aTo ws st2
   }"

text \<open>
  \<open>MGetDiffDemandsDG\<close> walks the new demands from their end; each takes the last of the old ones
  that is equal to it. \<open>remove_last\<close> is that step on the old demands.
\<close>

definition remove_last :: "demand_dg_t \<Rightarrow> demand_dgs_t \<Rightarrow> demand_dgs_t option" where
  "remove_last d old =
     (let i = length (takeWhile (\<lambda>o'. \<not> demand_eq o' d) (rev old))
      in if i < length old then Some (vec_erase (length old - 1 - i) old) else None)"

fun diff_loop :: "demand_dgs_t \<Rightarrow> demand_dgs_t \<Rightarrow> demand_dgs_t \<Rightarrow> demand_dgs_t \<times> demand_dgs_t" where
  "diff_loop [] old added = (old, added)"
| "diff_loop (d # rest) old added =
     (case remove_last d old of
        Some old1 \<Rightarrow> diff_loop rest old1 added
      | None \<Rightarrow> diff_loop rest old (d # added))"

text \<open>The demands that are gone and those that are new.\<close>

definition MGetDiffDemandsDG ::
    "uuid \<Rightarrow> demand_dgs_t \<Rightarrow> required_dg \<Rightarrow> demand_dgs_t \<times> demand_dgs_t" where
  "MGetDiffDemandsDG aFor aNew s =
     (case om_get (FDGs s) aFor of
        None \<Rightarrow> ([], aNew)
      | Some old \<Rightarrow> diff_loop (rev aNew) old [])"

definition start_run :: "required_dg \<Rightarrow> sub_run" where
  "start_run s = \<lparr>dg = s, sub_new = [], sub_old = []\<rparr>"

definition MRemoveAllSendersOfMsgsFor :: "parsers \<Rightarrow> uuid \<Rightarrow> sub_run \<Rightarrow> sub_run option" where
  "MRemoveAllSendersOfMsgsFor ps u st =
     (case om_get (FDGs (dg st)) u of
        None \<Rightarrow> Some st
      | Some old \<Rightarrow>
          MRemoveSendersOfMsgFor ps u old
            (st\<lparr>dg := (dg st)\<lparr>FDGs := om_erase u (FDGs (dg st))\<rparr>\<rparr>))"

definition MSetDemandsDGFor :: "parsers \<Rightarrow> id_t \<Rightarrow> demand_dgs_t \<Rightarrow> required_dg \<Rightarrow> sub_run option" where
  "MSetDemandsDGFor ps aFor aReqDgs s =
     (let u = FUuid aFor
      in if aReqDgs = [] then MRemoveAllSendersOfMsgsFor ps u (start_run s)
         else (let (removed, added) = MGetDiffDemandsDG u aReqDgs s;
                   st = start_run (s\<lparr>FDGs := om_set u aReqDgs (FDGs s)\<rparr>)
               in MRemoveSendersOfMsgFor ps u removed st \<bind> MAddSendersOfMsgFor ps u added))"

section \<open>Nearest senders\<close>

record way_info_t =
  way_from :: uuid
  way_for :: uuid
  way_what :: demand_dg_t
  way_distance :: nat

definition ways_from ::
    "uuid list \<Rightarrow> way_info_t \<Rightarrow> nat \<Rightarrow> way_info_t list" where
  "ways_from us w n = map (\<lambda>u. w\<lparr>way_from := u, way_distance := n\<rparr>) us"

text \<open>
  One round of the loop of \<open>MRemoveSenderIfNeed\<close>: whether the added sender is kept, the senders
  to disconnect for it, and the state. Reading \<open>FNearestInfo\<close> with \<open>operator[]\<close> makes an entry.
\<close>

definition remove_sender_step ::
    "way_info_t \<Rightarrow> required_dg \<Rightarrow> (bool \<times> way_info_t list \<times> required_dg) option" where
  "remove_sender_step w s =
     (let what = way_what w; cur = nearest_of (way_for w) (FHandler what) s
      in if \<not> is_nearest what then Some (True, [], s)
         else if way_distance w > cur
         then Some (False, [], set_nearest (way_for w) (FHandler what) cur s)
         else if way_distance w < cur
         then map_option (\<lambda>all.
                (True, ways_from (map fst (MGetOnlyNearestUUIDFor all)) w cur,
                 set_nearest (way_for w) (FHandler what) (way_distance w) s))
                (MGetUUIDFor (FNameFrom what) (is_invert what) s)
         else Some (True, [], set_nearest (way_for w) (FHandler what) cur s))"

fun MRemoveSenderIfNeed ::
    "way_info_t list \<Rightarrow> required_dg \<Rightarrow> (way_info_t list \<times> way_info_t list \<times> required_dg) option" where
  "MRemoveSenderIfNeed [] s = Some ([], [], s)"
| "MRemoveSenderIfNeed (w # ws) s =
     remove_sender_step w s \<bind> (\<lambda>(keep, gone, s1).
     MRemoveSenderIfNeed ws s1 \<bind> (\<lambda>(a, r, t).
       Some (if keep then w # a else a, gone @ r, t)))"

text \<open>One round of the loop of \<open>MAddSenderIfNeed\<close>: the senders to connect, and the state.\<close>

definition add_sender_step ::
    "uuid \<Rightarrow> way_info_t \<Rightarrow> required_dg \<Rightarrow> (way_info_t list \<times> required_dg) option" where
  "add_sender_step src w s =
     (let what = way_what w; cur = nearest_of (way_for w) (FHandler what) s;
          s1 = set_nearest (way_for w) (FHandler what) cur s
      in if \<not> is_nearest what then Some ([], s)
         else if way_distance w < cur then None
         else if way_distance w \<noteq> cur then Some ([], s1)
         else map_option (\<lambda>all.
                case MGetOnlyNearestUUIDFor (om_erase src all) of
                  [] \<Rightarrow> ([], s1)
                | u # us \<Rightarrow>
                    if snd u = cur then ([], s1)
                    else (ways_from (map fst (u # us)) w (snd u),
                          set_nearest (way_for w) (FHandler what) (snd u) s1))
              (MGetUUIDFor (FNameFrom what) (is_invert what) s1))"

fun MAddSenderIfNeed ::
    "uuid \<Rightarrow> way_info_t list \<Rightarrow> required_dg \<Rightarrow> (way_info_t list \<times> required_dg) option" where
  "MAddSenderIfNeed src [] s = Some ([], s)"
| "MAddSenderIfNeed src (w # ws) s =
     add_sender_step src w s \<bind> (\<lambda>(new, s1).
     MAddSenderIfNeed src ws s1 \<bind> (\<lambda>(a, t). Some (new @ a, t)))"

text \<open>\<open>MTakeIntoAccountOnlyNearestSendersIfNeed\<close> with both lists given.\<close>

definition MTakeIntoAccountOnlyNearestSendersIfNeed ::
    "uuid \<Rightarrow> way_info_t list \<Rightarrow> way_info_t list \<Rightarrow> required_dg
       \<Rightarrow> (way_info_t list \<times> way_info_t list \<times> required_dg) option" where
  "MTakeIntoAccountOnlyNearestSendersIfNeed src added removed s =
     MRemoveSenderIfNeed added s \<bind> (\<lambda>(added1, new_removed, s1).
     MAddSenderIfNeed src removed s1 \<bind> (\<lambda>(new_added, s2).
       Some (added1 @ new_added, removed @ new_removed, s2)))"

fun unsend_ways :: "parsers \<Rightarrow> way_info_t list \<Rightarrow> sub_run \<Rightarrow> sub_run option" where
  "unsend_ways ps [] st = Some st"
| "unsend_ways ps (w # ws) st =
     MUnSendPacketFromTo ps (\<not> MIsRegistrator (way_what w)) (way_from w) (way_for w) (way_what w) st
       \<bind> (\<lambda>(_, st1). unsend_ways ps ws st1)"

fun send_ways :: "parsers \<Rightarrow> way_info_t list \<Rightarrow> sub_run \<Rightarrow> sub_run" where
  "send_ways ps [] st = st"
| "send_ways ps (w # ws) st =
     send_ways ps ws (snd (MSendPacketFromTo ps (\<not> MIsRegistrator (way_what w)) (way_from w)
       (way_for w) (way_what w) st))"

definition MUpdateSendInfoFor ::
    "parsers \<Rightarrow> way_info_t list \<Rightarrow> way_info_t list \<Rightarrow> sub_run \<Rightarrow> sub_run option" where
  "MUpdateSendInfoFor ps aAdd aRemove st = map_option (send_ways ps aAdd) (unsend_ways ps aRemove st)"

section \<open>Programs come and go\<close>

fun ways_of_demands ::
    "id_t \<Rightarrow> uuid \<Rightarrow> demand_dgs_t \<Rightarrow> bool \<Rightarrow> way_info_t list option" where
  "ways_of_demands aFrom to [] all = Some []"
| "ways_of_demands aFrom to (d # ds) all =
     MDoesIdConformTo aFrom (FNameFrom d) (is_invert d) \<bind> (\<lambda>n.
       map_option (\<lambda>r. if all \<or> n \<noteq> 0
         then \<lparr>way_from = FUuid aFrom, way_for = to, way_what = d, way_distance = n\<rparr> # r else r)
       (ways_of_demands aFrom to ds all))"

fun ways_of_all :: "id_t \<Rightarrow> (uuid \<times> demand_dgs_t) list \<Rightarrow> bool \<Rightarrow> way_info_t list option" where
  "ways_of_all aFrom [] all = Some []"
| "ways_of_all aFrom (e # es) all =
     ways_of_demands aFrom (fst e) (snd e) all \<bind> (\<lambda>r.
       map_option (\<lambda>q. r @ q) (ways_of_all aFrom es all))"

definition MGetListOfReceiversOfMsgsFrom :: "id_t \<Rightarrow> required_dg \<Rightarrow> way_info_t list option" where
  "MGetListOfReceiversOfMsgsFrom aFrom s = ways_of_all aFrom (FDGs s) False"

definition MGetDistance :: "id_t \<Rightarrow> demand_dgs_for_t \<Rightarrow> way_info_t list option" where
  "MGetDistance aFrom aFor = ways_of_all aFrom aFor True"

definition MAddReceiversOfMsgsFrom :: "parsers \<Rightarrow> id_t \<Rightarrow> sub_run \<Rightarrow> sub_run option" where
  "MAddReceiversOfMsgsFrom ps aFrom st =
     MGetListOfReceiversOfMsgsFrom aFrom (dg st) \<bind> (\<lambda>new.
     MTakeIntoAccountOnlyNearestSendersIfNeed (FUuid aFrom) new [] (dg st) \<bind> (\<lambda>(a, r, s).
       MUpdateSendInfoFor ps a r (st\<lparr>dg := s\<rparr>)))"

definition MAddClient :: "parsers \<Rightarrow> id_t \<Rightarrow> required_dg \<Rightarrow> sub_run option" where
  "MAddClient ps aId s =
     MAddReceiversOfMsgsFrom ps aId (start_run s) \<bind> (\<lambda>st.
       if om_has (FUuid aId) (FIds (dg st)) then None
       else Some (st\<lparr>dg := (dg st)\<lparr>FIds := om_insert (FUuid aId) aId (FIds (dg st))\<rparr>\<rparr>))"

definition sMGetDemandsByHandlers :: "msg_handlers_t \<Rightarrow> demand_dgs_t \<Rightarrow> demand_dgs_t" where
  "sMGetDemandsByHandlers h ds = List.map_filter (\<lambda>i. find (\<lambda>d. FHandler d = i) ds) (FHandlers h)"

definition sent_to_receivers ::
    "required_dg \<Rightarrow> receivers_t \<Rightarrow> demand_dgs_for_t \<times> nat \<Rightarrow> demand_dgs_for_t \<times> nat" where
  "sent_to_receivers s r acc =
     fold (\<lambda>(u, h) (m, n).
        let found = sMGetDemandsByHandlers h (MGetDemandFor u s)
        in (om_set u (get_or [] m u @ found) m, n + length found)) (FReceivers r) acc"

definition MGetWhatMsgSentFrom :: "uuid \<Rightarrow> required_dg \<Rightarrow> demand_dgs_for_t \<times> nat" where
  "MGetWhatMsgSentFrom u s =
     fold (\<lambda>(p, r) acc. fold (\<lambda>(h, rs) acc. sent_to_receivers s rs acc) (FExpected r) acc)
       (get_or [] (FWhatIsSendingBy s) u) ([], 0)"

definition MRemoveAllReceiversForMsgsFrom :: "parsers \<Rightarrow> id_t \<Rightarrow> sub_run \<Rightarrow> sub_run option" where
  "MRemoveAllReceiversForMsgsFrom ps aFrom st =
     (let (what, amount) = MGetWhatMsgSentFrom (FUuid aFrom) (dg st)
      in (if amount \<noteq> 0
          then MGetDistance aFrom what \<bind> (\<lambda>removed.
               MTakeIntoAccountOnlyNearestSendersIfNeed (FUuid aFrom) [] removed (dg st) \<bind>
               (\<lambda>(a, r, s). MUpdateSendInfoFor ps a r (st\<lparr>dg := s\<rparr>)))
          else Some st) \<bind>
         (\<lambda>st1. Some (st1\<lparr>dg := (dg st1)
            \<lparr>FWhatIsSendingBy := om_erase (FUuid aFrom) (FWhatIsSendingBy (dg st1))\<rparr>\<rparr>)))"

definition MRemoveClient :: "parsers \<Rightarrow> uuid \<Rightarrow> required_dg \<Rightarrow> sub_run option" where
  "MRemoveClient ps u s =
     (let i = MGetIdBy u s
      in if \<not> id_MIsValid i then Some (start_run s)
         else MRemoveAllSendersOfMsgsFor ps (FUuid i) (start_run s) \<bind>
              MRemoveAllReceiversForMsgsFrom ps i \<bind> (\<lambda>st.
                if \<not> om_has (FUuid i) (FIds (dg st)) then None
                else Some (st\<lparr>dg := (dg st)\<lparr>FIds := om_erase (FUuid i) (FIds (dg st))\<rparr>\<rparr>)))"

section \<open>Look-ups after an update\<close>

named_theorems table_simps \<open>the table after an update of the state\<close>

lemma get_or_set [table_simps]: "get_or v (om_set k x m) j = (if j = k then x else get_or v m j)"
  by (simp add: get_or_def om_get_set)

lemma get_or_erase [table_simps]: "get_or v (om_erase k m) j = (if j = k then v else get_or v m j)"
  by (simp add: get_or_def om_get_erase)

lemma get_or_Nil [simp]: "get_or v [] k = v"
  by (simp add: get_or_def)

lemma routing_of_set [table_simps]:
  "routing_of u p (set_routing v q r s) = (if u = v \<and> p = q then r else routing_of u p s)"
  by (auto simp: routing_of_def set_routing_def get_or_set)

lemma routing_of_create [table_simps]:
  "routing_of u p (MGetOrCreateExpectedListFor v q s) = routing_of u p s"
  by (auto simp: MGetOrCreateExpectedListFor_def routing_of_set)

lemma set_routing_rest [simp]:
  "FDGs (set_routing u p r s) = FDGs s" "FIds (set_routing u p r s) = FIds s"
  "FMsgsGenealogy (set_routing u p r s) = FMsgsGenealogy s"
  "FNearestInfo (set_routing u p r s) = FNearestInfo s" "FMsgID (set_routing u p r s) = FMsgID s"
  by (simp_all add: set_routing_def)

end
