(* ===== verification/Subscription_Table.thy ===== *)
theory Subscription_Table
  imports Subscriptions
begin

text \<open>
  The table of receivers that \<open>CRequiredDG\<close> keeps, seen as a function: the handlers that a
  receiver has for a message of a sender. The operations of \<open>Subscriptions\<close> refine updates of
  this function, and the demands and the known programs determine it.
\<close>

section \<open>The table\<close>

definition handlers_in :: "expecting \<Rightarrow> 64 word \<Rightarrow> uuid \<Rightarrow> msg_handlers_t" where
  "handlers_in m k to = get_or no_handlers (FReceivers (get_or no_receivers m k)) to"

definition handlers_at :: "required_dg \<Rightarrow> uuid \<Rightarrow> ctext \<Rightarrow> 64 word \<Rightarrow> uuid \<Rightarrow> msg_handlers_t" where
  "handlers_at s src p k to = handlers_in (FExpected (routing_of src p s)) k to"

text \<open>A property of every value of an ordered map.\<close>

definition om_all :: "('v \<Rightarrow> bool) \<Rightarrow> ('k, 'v) omap \<Rightarrow> bool" where
  "om_all P m \<longleftrightarrow> (\<forall>e\<in>set m. P (snd e))"

text \<open>No empty entry is kept, and the handlers of every entry are in order.\<close>

definition receivers_ok :: "receivers_t \<Rightarrow> bool" where
  "receivers_ok r \<longleftrightarrow> om_ok (FReceivers r)
     \<and> om_all (\<lambda>h. handlers_ok h \<and> FHandlers h \<noteq> []) (FReceivers r)"

definition expected_ok :: "expecting \<Rightarrow> bool" where
  "expected_ok m \<longleftrightarrow> om_ok m \<and> om_all (\<lambda>r. receivers_ok r \<and> FReceivers r \<noteq> []) m"

definition protocols_ok :: "(ctext, data_routing_t) omap \<Rightarrow> bool" where
  "protocols_ok m \<longleftrightarrow> om_ok m \<and> om_all (\<lambda>r. expected_ok (FExpected r)) m"

definition tables_ok :: "required_dg \<Rightarrow> bool" where
  "tables_ok s \<longleftrightarrow> om_ok (FWhatIsSendingBy s) \<and> om_all protocols_ok (FWhatIsSendingBy s)"

subsection \<open>Look-ups\<close>

lemma om_all_Nil [simp]: "om_all P []"
  by (simp add: om_all_def)

lemma om_all_get: "om_all P m \<Longrightarrow> om_get m k = Some v \<Longrightarrow> P v"
  unfolding om_all_def by (drule map_of_SomeD) force

lemma om_all_get_or: "om_all P m \<Longrightarrow> P v \<Longrightarrow> P (get_or v m k)"
  by (auto simp: get_or_def dest: om_all_get split: option.splits)

lemma om_all_set [om_intros]: "om_all P m \<Longrightarrow> P v \<Longrightarrow> om_all P (om_set k v m)"
  using om_set_subset [of k v m] by (fastforce simp: om_all_def)

lemma om_all_erase [om_intros]: "om_all P m \<Longrightarrow> om_all P (om_erase k m)"
  by (simp add: om_all_def om_erase_def)

lemma om_erase_Nil: "om_erase k m = [] \<longleftrightarrow> (\<forall>j. j \<noteq> k \<longrightarrow> om_get m j = None)"
  by (auto simp: om_erase_def filter_empty_conv map_of_eq_None_iff)

lemma no_entries_ok [simp]:
  "expected_ok []" "protocols_ok []" "receivers_ok no_receivers" "expected_ok (FExpected no_routing)"
  by (simp_all add: expected_ok_def protocols_ok_def receivers_ok_def no_receivers_def no_routing_def)

lemma protocols_of_ok: "tables_ok s \<Longrightarrow> protocols_ok (get_or [] (FWhatIsSendingBy s) u)"
  unfolding tables_ok_def by (rule om_all_get_or) auto

lemma routing_expected_ok: "tables_ok s \<Longrightarrow> expected_ok (FExpected (routing_of u p s))"
  unfolding routing_of_def using protocols_of_ok [of s u]
  by (intro om_all_get_or [where P = "\<lambda>r. expected_ok (FExpected r)"]) (simp_all add: protocols_ok_def)

lemma tables_ok_set_routing:
  assumes "tables_ok s" "expected_ok (FExpected r)"
  shows "tables_ok (set_routing u p r s)"
proof -
  have "protocols_ok (om_set p r (get_or [] (FWhatIsSendingBy s) u))"
    using assms protocols_of_ok [of s u] unfolding protocols_ok_def by (intro conjI om_intros) auto
  then show ?thesis
    using assms(1) unfolding tables_ok_def set_routing_def by (simp add: om_intros)
qed

lemma tables_ok_create: "tables_ok s \<Longrightarrow> tables_ok (MGetOrCreateExpectedListFor u p s)"
  by (simp add: MGetOrCreateExpectedListFor_def tables_ok_set_routing routing_expected_ok)

text \<open>The other parts of the state are left alone.\<close>

lemma create_rest [simp]:
  "FDGs (MGetOrCreateExpectedListFor u p s) = FDGs s" "FIds (MGetOrCreateExpectedListFor u p s) = FIds s"
  "FMsgsGenealogy (MGetOrCreateExpectedListFor u p s) = FMsgsGenealogy s"
  "FNearestInfo (MGetOrCreateExpectedListFor u p s) = FNearestInfo s"
  "FMsgID (MGetOrCreateExpectedListFor u p s) = FMsgID s"
  by (simp_all add: MGetOrCreateExpectedListFor_def)

subsection \<open>One list of receivers\<close>

lemma receivers_of_ok: "expected_ok m \<Longrightarrow> receivers_ok (get_or no_receivers m k)"
  unfolding expected_ok_def by (rule om_all_get_or [where P = receivers_ok])
    (auto simp: om_all_def)

lemma handlers_of_ok: "receivers_ok r \<Longrightarrow> handlers_ok (get_or no_handlers (FReceivers r) to)"
  unfolding receivers_ok_def by (rule om_all_get_or [where P = handlers_ok])
    (auto simp: om_all_def no_handlers_ok)

lemma handlers_in_ok: "expected_ok m \<Longrightarrow> handlers_ok (handlers_in m k to)"
  unfolding handlers_in_def by (intro handlers_of_ok receivers_of_ok)

lemma receiver_present:
  "receivers_ok r \<Longrightarrow> FHandlers (get_or no_handlers (FReceivers r) to) = [] \<longleftrightarrow> om_get (FReceivers r) to = None"
  by (auto simp: receivers_ok_def get_or_def no_handlers_def dest: om_all_get split: option.splits)

lemma handlers_in_present:
  "expected_ok m \<Longrightarrow> FHandlers (handlers_in m k to) = [] \<longleftrightarrow>
     om_get (FReceivers (get_or no_receivers m k)) to = None"
  unfolding handlers_in_def by (intro receiver_present receivers_of_ok)

lemma MAddHandler_nonempty: "handlers_ok h \<Longrightarrow> FHandlers (snd (MAddHandler w h)) \<noteq> []"
  using MAddHandler_ok(2) [of h w "fst (MAddHandler w h)" "snd (MAddHandler w h)"] by force

lemma register_receiver_handlers [table_simps]:
  "handlers_in (snd (register_receiver w to m)) k u =
     (if k = FMessageHeader (FWhat w) \<and> u = to then snd (MAddHandler w (handlers_in m k u))
      else handlers_in m k u)"
  "fst (register_receiver w to m) = fst (MAddHandler w (handlers_in m (FMessageHeader (FWhat w)) to))"
  by (auto simp: register_receiver_def handlers_in_def MGetUUIDsOfReceivers_def Let_def get_or_set
      split: prod.splits)

lemma register_receiver_ok:
  assumes "expected_ok m"
  shows "expected_ok (snd (register_receiver w to m))"
proof -
  let ?r = "get_or no_receivers m (FMessageHeader (FWhat w))"
  let ?h = "snd (MAddHandler w (get_or no_handlers (FReceivers ?r) to))"
  have r: "receivers_ok ?r" using assms by (rule receivers_of_ok)
  have "handlers_ok ?h \<and> FHandlers ?h \<noteq> []"
    using handlers_of_ok [OF r] MAddHandler_ok(1) [OF _ prod.collapse [symmetric]] MAddHandler_nonempty
    by blast
  then have "receivers_ok \<lparr>FReceivers = om_set to ?h (FReceivers ?r), FNumberOfRealReceivers = n\<rparr>" for n
    using r by (simp add: receivers_ok_def om_intros)
  then show ?thesis
    using assms unfolding register_receiver_def expected_ok_def MGetUUIDsOfReceivers_def Let_def
    by (simp add: split_beta om_intros)
qed

lemma unregister_absent:
  assumes "expected_ok m" "FHandlers (handlers_in m (FMessageHeader (FWhat w)) to) = []"
  shows "unregister_receiver w to m = Some (False, m)"
  using assms by (simp add: handlers_in_present unregister_receiver_def get_or_def split: option.splits)

text \<open>What is left of the receivers when the handlers of one become \<open>h\<close>.\<close>

definition put_handlers :: "uuid \<Rightarrow> msg_handlers_t \<Rightarrow> (uuid, msg_handlers_t) omap \<Rightarrow> (uuid, msg_handlers_t) omap" where
  "put_handlers to h rs = (if FHandlers h = [] then om_erase to rs else om_set to h rs)"

definition or_none :: "msg_handlers_t \<Rightarrow> msg_handlers_t" where
  "or_none h = (if FHandlers h = [] then no_handlers else h)"

lemma put_handlers_get:
  "get_or no_handlers (put_handlers to h rs) u = (if u = to then or_none h else get_or no_handlers rs u)"
  by (simp add: put_handlers_def or_none_def table_simps)

lemma put_handlers_ok:
  "receivers_ok r \<Longrightarrow> handlers_ok h \<Longrightarrow>
     receivers_ok \<lparr>FReceivers = put_handlers to h (FReceivers r), FNumberOfRealReceivers = n\<rparr>"
  by (simp add: receivers_ok_def put_handlers_def om_intros)

lemma unregister_present:
  fixes w m to
  defines "k \<equiv> FMessageHeader (FWhat w)"
  assumes ok: "expected_ok m" and some: "FHandlers (handlers_in m k to) \<noteq> []"
    and rm: "MRemoveHandler w (handlers_in m k to) = Some (l, h)"
  shows "\<exists>t. unregister_receiver w to m = Some (l, t) \<and> expected_ok t
    \<and> (\<forall>j u. handlers_in t j u = (if j = k \<and> u = to then or_none h else handlers_in m j u))"
proof -
  let ?r = "get_or no_receivers m k"
  have h: "handlers_in m k to = get_or no_handlers (FReceivers ?r) to" by (simp add: handlers_in_def)
  obtain x where x: "om_get (FReceivers ?r) to = Some x"
    using some handlers_in_present [OF ok] by (cases "om_get (FReceivers ?r) to") auto
  then have r: "om_get m k = Some ?r" and hx: "handlers_in m k to = x"
    by (auto simp: get_or_def no_receivers_def handlers_in_def split: option.splits)
  define rs where "rs = put_handlers to h (FReceivers ?r)"
  define n where "n = (if MIsRegistrator w then FNumberOfRealReceivers ?r else FNumberOfRealReceivers ?r - 1)"
  define t where "t = (if rs = [] then om_erase k m
      else om_set k \<lparr>FReceivers = rs, FNumberOfRealReceivers = n\<rparr> m)"
  have t: "unregister_receiver w to m = Some (l, t)"
    using r x rm unfolding unregister_receiver_def k_def [symmetric] hx t_def rs_def n_def put_handlers_def
    by (simp add: Let_def)
  have hok: "handlers_ok h" using MRemoveHandler_ok(1) [OF handlers_in_ok [OF ok] rm] .
  have "receivers_ok \<lparr>FReceivers = rs, FNumberOfRealReceivers = n\<rparr>"
    unfolding rs_def by (intro put_handlers_ok receivers_of_ok ok hok)
  then have "expected_ok t" using ok unfolding t_def expected_ok_def by (simp add: om_intros)
  moreover have "handlers_in t j u = (if j = k \<and> u = to then or_none h else handlers_in m j u)" for j u
  proof -
    have "handlers_in t j u = (if j = k then get_or no_handlers rs u else handlers_in m j u)"
      by (auto simp: t_def handlers_in_def table_simps no_receivers_def)
    then show ?thesis by (simp add: rs_def put_handlers_get handlers_in_def)
  qed
  ultimately show ?thesis using t by blast
qed

section \<open>Changes of the table\<close>

text \<open>Two states that differ at most in the table.\<close>

definition same_rest :: "required_dg \<Rightarrow> required_dg \<Rightarrow> bool" where
  "same_rest s t \<longleftrightarrow> FDGs t = FDGs s \<and> FIds t = FIds s \<and> FMsgID t = FMsgID s
     \<and> FMsgsGenealogy t = FMsgsGenealogy s \<and> FNearestInfo t = FNearestInfo s"

lemma same_rest_refl [simp]: "same_rest s s"
  by (simp add: same_rest_def)

lemma same_rest_trans: "same_rest s t \<Longrightarrow> same_rest t u \<Longrightarrow> same_rest s u"
  by (simp add: same_rest_def)

lemma create_table [table_simps]:
  "handlers_at (MGetOrCreateExpectedListFor u p s) = handlers_at s"
  by (intro ext) (simp add: handlers_at_def routing_of_create)

lemma create_same_rest [simp]: "same_rest s (MGetOrCreateExpectedListFor u p s)"
  by (simp add: same_rest_def)

type_synonym slot = "uuid \<times> ctext \<times> 64 word \<times> uuid"

text \<open>The place in the table that a demand of \<open>to\<close> has at the sender \<open>src\<close>.\<close>

definition slot_of :: "uuid \<Rightarrow> uuid \<Rightarrow> demand_dg_t \<Rightarrow> slot" where
  "slot_of src to w = (src, FProtocol w, FMessageHeader (FWhat w), to)"

definition table :: "required_dg \<Rightarrow> slot \<Rightarrow> msg_handlers_t" where
  "table s = (\<lambda>(src, p, k, to). handlers_at s src p k to)"

lemma table_create [table_simps]: "table (MGetOrCreateExpectedListFor u p s) = table s"
  by (simp add: table_def create_table)

lemma table_set_routing:
  assumes "\<And>k u. handlers_in (FExpected r) k u =
      (if (k, u) = (FMessageHeader (FWhat w), to) then h else handlers_at s src (FProtocol w) k u)"
  shows "table (set_routing src (FProtocol w) r s) = (table s)(slot_of src to w := h)"
  using assms
  by (auto simp: fun_eq_iff table_def slot_of_def handlers_at_def routing_of_set)

lemma table_ok: "tables_ok s \<Longrightarrow> handlers_ok (table s x)"
  by (auto simp: table_def handlers_at_def routing_expected_ok handlers_in_ok split: prod.splits)

lemma register_table:
  assumes "tables_ok (dg st)" "MRegisteringReceiverForMsg inform w src to st = (b, st')"
  shows "tables_ok (dg st') \<and> same_rest (dg st) (dg st')
    \<and> table (dg st') = (table (dg st))(slot_of src to w := snd (MAddHandler w (table (dg st) (slot_of src to w))))
    \<and> b = fst (MAddHandler w (table (dg st) (slot_of src to w)))
    \<and> sub_old st' = sub_old st
    \<and> sub_new st' = (if b \<and> inform then push_demand src (w\<lparr>FUUIDFrom := Some to\<rparr>) (sub_new st) else sub_new st)"
proof -
  let ?s = "MGetOrCreateExpectedListFor src (FProtocol w) (dg st)"
  let ?r = "routing_of src (FProtocol w) ?s"
  let ?m = "register_receiver w to (FExpected ?r)"
  let ?t = "set_routing src (FProtocol w) (?r\<lparr>FExpected := snd ?m\<rparr>) ?s"
  have ok: "tables_ok ?s" using assms(1) by (rule tables_ok_create)
  have dg: "dg st' = ?t" and b: "b = fst ?m"
    and news: "sub_old st' = sub_old st"
      "sub_new st' = (if b \<and> inform then push_demand src (w\<lparr>FUUIDFrom := Some to\<rparr>) (sub_new st) else sub_new st)"
    using assms(2) unfolding MRegisteringReceiverForMsg_def Let_def
    by (auto split: prod.splits if_splits)
  have "expected_ok (snd ?m)" by (intro register_receiver_ok routing_expected_ok ok)
  then have "tables_ok ?t" using ok by (simp add: tables_ok_set_routing)
  moreover have "same_rest (dg st) ?t" by (simp add: same_rest_def)
  moreover have "table ?t = (table ?s)(slot_of src to w := snd (MAddHandler w (table ?s (slot_of src to w))))"
    by (rule table_set_routing) (auto simp: register_receiver_handlers handlers_at_def table_def slot_of_def)
  moreover have "fst ?m = fst (MAddHandler w (table (dg st) (slot_of src to w)))"
    by (simp add: register_receiver_handlers table_def slot_of_def handlers_at_def table_simps)
  ultimately show ?thesis using dg b news by (simp add: table_create)
qed

lemma unregister_result:
  assumes "unregister_receiver w to (FExpected (routing_of src (FProtocol w) (dg st))) = Some (l, m)"
  shows "\<exists>st'. MUnRegisteringReceiverForMsg inform w src to st = Some (l, st')
    \<and> dg st' = set_routing src (FProtocol w)
        ((routing_of src (FProtocol w) (dg st))\<lparr>FExpected := m\<rparr>) (MGetOrCreateExpectedListFor src (FProtocol w) (dg st))
    \<and> sub_new st' = sub_new st
    \<and> sub_old st' = (if l \<and> inform then push_demand src (w\<lparr>FUUIDFrom := Some to\<rparr>) (sub_old st) else sub_old st)"
  using assms by (simp add: MUnRegisteringReceiverForMsg_def Let_def routing_of_create)

lemma unregister_table_absent:
  assumes "tables_ok (dg st)" "FHandlers (table (dg st) (slot_of src to w)) = []"
  shows "\<exists>st'. MUnRegisteringReceiverForMsg inform w src to st = Some (False, st')
    \<and> tables_ok (dg st') \<and> same_rest (dg st) (dg st') \<and> table (dg st') = table (dg st)
    \<and> sub_new st' = sub_new st \<and> sub_old st' = sub_old st"
proof -
  let ?r = "routing_of src (FProtocol w) (dg st)"
  let ?s = "MGetOrCreateExpectedListFor src (FProtocol w) (dg st)"
  have "unregister_receiver w to (FExpected ?r) = Some (False, FExpected ?r)"
    using assms by (intro unregister_absent routing_expected_ok) (auto simp: table_def slot_of_def handlers_at_def)
  from unregister_result [OF this, of inform] obtain st' where
    st': "MUnRegisteringReceiverForMsg inform w src to st = Some (False, st')"
      "dg st' = set_routing src (FProtocol w) ?r ?s" "sub_new st' = sub_new st" "sub_old st' = sub_old st"
    by auto
  have "table (set_routing src (FProtocol w) ?r ?s) = (table ?s)(slot_of src to w := table ?s (slot_of src to w))"
    by (rule table_set_routing) (auto simp: handlers_at_def routing_of_create table_def slot_of_def)
  then have "table (dg st') = table (dg st)" using st'(2) by (simp add: table_create)
  moreover have "tables_ok (dg st')"
    using st'(2) assms(1) by (simp add: tables_ok_set_routing tables_ok_create routing_expected_ok)
  ultimately show ?thesis using st' by (simp add: same_rest_def)
qed

lemma unregister_table_present:
  assumes "tables_ok (dg st)" "FHandlers (table (dg st) (slot_of src to w)) \<noteq> []"
    "MRemoveHandler w (table (dg st) (slot_of src to w)) = Some (l, h)"
  shows "\<exists>st'. MUnRegisteringReceiverForMsg inform w src to st = Some (l, st')
    \<and> tables_ok (dg st') \<and> same_rest (dg st) (dg st')
    \<and> table (dg st') = (table (dg st))(slot_of src to w := or_none h)
    \<and> sub_new st' = sub_new st
    \<and> sub_old st' = (if l \<and> inform then push_demand src (w\<lparr>FUUIDFrom := Some to\<rparr>) (sub_old st) else sub_old st)"
proof -
  let ?r = "routing_of src (FProtocol w) (dg st)"
  let ?s = "MGetOrCreateExpectedListFor src (FProtocol w) (dg st)"
  have slot: "table (dg st) (slot_of src to w) = handlers_in (FExpected ?r) (FMessageHeader (FWhat w)) to"
    by (simp add: table_def slot_of_def handlers_at_def)
  obtain m where m: "unregister_receiver w to (FExpected ?r) = Some (l, m)" "expected_ok m"
    "\<And>j u. handlers_in m j u = (if j = FMessageHeader (FWhat w) \<and> u = to then or_none h
        else handlers_in (FExpected ?r) j u)"
    using unregister_present [OF routing_expected_ok [OF assms(1)] assms(2,3) [unfolded slot]] by blast
  from unregister_result [OF m(1), of inform] obtain st' where
    st': "MUnRegisteringReceiverForMsg inform w src to st = Some (l, st')"
      "dg st' = set_routing src (FProtocol w) (?r\<lparr>FExpected := m\<rparr>) ?s" "sub_new st' = sub_new st"
      "sub_old st' = (if l \<and> inform then push_demand src (w\<lparr>FUUIDFrom := Some to\<rparr>) (sub_old st) else sub_old st)"
    by auto
  have "table (set_routing src (FProtocol w) (?r\<lparr>FExpected := m\<rparr>) ?s) = (table ?s)(slot_of src to w := or_none h)"
    by (rule table_set_routing) (simp add: m(3) handlers_at_def routing_of_create)
  then have "table (dg st') = (table (dg st))(slot_of src to w := or_none h)"
    using st'(2) by (simp add: table_create)
  moreover have "tables_ok (dg st')"
    using st'(2) assms(1) m(2) by (simp add: tables_ok_set_routing tables_ok_create)
  ultimately show ?thesis using st' by (simp add: same_rest_def)
qed

subsection \<open>The count of real handlers\<close>

text \<open>
  \<open>FNumberOfRealReceivers\<close> of a message counts the real handlers of all its receivers, as a word of 32 bits.
\<close>

definition real_handlers :: "receivers_t \<Rightarrow> int" where
  "real_handlers r = sum_list (map (FNumberOfRealHandlers \<circ> snd) (FReceivers r))"

definition counted_in :: "expecting \<Rightarrow> bool" where
  "counted_in m \<longleftrightarrow> (\<forall>k. FNumberOfRealReceivers (get_or no_receivers m k) = of_int (real_handlers (get_or no_receivers m k)))"

definition counted :: "required_dg \<Rightarrow> bool" where
  "counted s \<longleftrightarrow> (\<forall>src p. counted_in (FExpected (routing_of src p s)))"

lemma sum_om_set:
  fixes f :: "'v \<Rightarrow> int"
  assumes "om_ok m"
  shows "sum_list (map (f \<circ> snd) (om_set k v m)) =
    sum_list (map (f \<circ> snd) m) + f v - (case om_get m k of None \<Rightarrow> 0 | Some w \<Rightarrow> f w)"
  using assms
proof (induction m)
  case (Cons e m)
  have "om_get m k = None" if "\<not> fst e < k"
    using Cons.prems that by (force simp: om_ok_Cons map_of_eq_None_iff)
  then show ?case using Cons by (cases e) (auto simp: om_ok_Cons)
qed simp

lemma sum_om_erase:
  fixes f :: "'v \<Rightarrow> int"
  assumes "om_ok m"
  shows "sum_list (map (f \<circ> snd) (om_erase k m)) =
    sum_list (map (f \<circ> snd) m) - (case om_get m k of None \<Rightarrow> 0 | Some w \<Rightarrow> f w)"
  using assms
proof (induction m)
  case (Cons e m)
  have "om_get m (fst e) = None" using Cons.prems by (force simp: om_ok_Cons map_of_eq_None_iff)
  then show ?case using Cons by (cases e) (auto simp: om_ok_Cons om_erase_def)
qed (simp add: om_erase_def)

lemma counted_set: "counted_in m \<Longrightarrow> FNumberOfRealReceivers r = of_int (real_handlers r) \<Longrightarrow> counted_in (om_set k r m)"
  by (simp add: counted_in_def get_or_set)

lemma counted_erase: "counted_in m \<Longrightarrow> counted_in (om_erase k m)"
  by (simp add: counted_in_def get_or_erase) (simp add: no_receivers_def real_handlers_def)

lemma register_receiver_counted:
  assumes "expected_ok m" "counted_in m"
  shows "counted_in (snd (register_receiver w to m))"
proof -
  let ?r = "get_or no_receivers m (FMessageHeader (FWhat w))"
  let ?h = "get_or no_handlers (FReceivers ?r) to"
  have r: "receivers_ok ?r" using assms(1) by (rule receivers_of_ok)
  have n: "FNumberOfRealHandlers (snd (MAddHandler w ?h)) = FNumberOfRealHandlers ?h + (if MIsRegistrator w then 0 else 1)"
    using MAddHandler_ok(3) [OF handlers_of_ok [OF r] prod.collapse [symmetric]] .
  have "(case om_get (FReceivers ?r) to of None \<Rightarrow> 0 | Some x \<Rightarrow> FNumberOfRealHandlers x) = FNumberOfRealHandlers ?h"
    by (simp add: get_or_def no_handlers_def split: option.splits)
  then have "real_handlers \<lparr>FReceivers = om_set to (snd (MAddHandler w ?h)) (FReceivers ?r), FNumberOfRealReceivers = x\<rparr>
      = real_handlers ?r + (if MIsRegistrator w then 0 else 1)" for x
    using r n by (simp add: real_handlers_def receivers_ok_def sum_om_set)
  moreover have "FNumberOfRealReceivers ?r = of_int (real_handlers ?r)" using assms(2) by (simp add: counted_in_def)
  ultimately show ?thesis using assms(2)
    by (simp add: register_receiver_def MGetUUIDsOfReceivers_def Let_def split_beta counted_set)
qed

lemma unregister_receiver_counted:
  assumes ok: "expected_ok m" "counted_in m" and un: "unregister_receiver w to m = Some (l, t)"
    and none: "\<And>x h. MRemoveHandler w (handlers_in m (FMessageHeader (FWhat w)) to) = Some (x, h) \<Longrightarrow> FHandlers h = [] \<Longrightarrow> FNumberOfRealHandlers h = 0"
  shows "counted_in t"
proof -
  let ?k = "FMessageHeader (FWhat w)"
  let ?r = "get_or no_receivers m ?k"
  show ?thesis
  proof (cases "om_get (FReceivers ?r) to")
    case None
    then have "t = m" using un by (auto simp: unregister_receiver_def get_or_def Let_def split: option.splits)
    then show ?thesis using ok by simp
  next
    case (Some x)
    then have r: "om_get m ?k = Some ?r" and x: "handlers_in m ?k to = x"
      by (auto simp: get_or_def no_receivers_def handlers_in_def split: option.splits)
    obtain h where h: "MRemoveHandler w x = Some (l, h)"
      using un r Some by (auto simp: unregister_receiver_def Let_def split: option.splits)
    let ?rs = "put_handlers to h (FReceivers ?r)"
    let ?n = "if MIsRegistrator w then FNumberOfRealReceivers ?r else FNumberOfRealReceivers ?r - 1"
    have t: "t = (if ?rs = [] then om_erase ?k m else om_set ?k \<lparr>FReceivers = ?rs, FNumberOfRealReceivers = ?n\<rparr> m)"
      using un r Some h unfolding unregister_receiver_def put_handlers_def by (simp add: Let_def)
    have rok: "receivers_ok ?r" using ok(1) by (rule receivers_of_ok)
    have n: "FNumberOfRealHandlers h = FNumberOfRealHandlers x - (if MIsRegistrator w then 0 else 1)"
      using MRemoveHandler_ok(3) [OF _ h] handlers_in_ok [OF ok(1), of ?k to] x by simp
    have "FHandlers h = [] \<Longrightarrow> FNumberOfRealHandlers h = 0" using none h x by simp
    then have "real_handlers \<lparr>FReceivers = ?rs, FNumberOfRealReceivers = y\<rparr> = real_handlers ?r - (if MIsRegistrator w then 0 else 1)" for y
      using rok Some n by (auto simp: real_handlers_def receivers_ok_def put_handlers_def sum_om_set sum_om_erase)
    moreover have "FNumberOfRealReceivers ?r = of_int (real_handlers ?r)" using ok(2) by (simp add: counted_in_def)
    ultimately show ?thesis using ok(2) by (simp add: t counted_set counted_erase)
  qed
qed

lemma counted_set_routing: "counted s \<Longrightarrow> counted_in (FExpected r) \<Longrightarrow> counted (set_routing src p r s)"
  by (simp add: counted_def routing_of_set)

lemma counted_create: "counted (MGetOrCreateExpectedListFor src p s) = counted s"
  by (simp add: counted_def routing_of_create)

lemma register_counted:
  assumes "tables_ok (dg st)" "counted (dg st)"
  shows "counted (dg (snd (MRegisteringReceiverForMsg inform w src to st)))"
proof -
  let ?s = "MGetOrCreateExpectedListFor src (FProtocol w) (dg st)"
  let ?r = "routing_of src (FProtocol w) ?s"
  have "dg (snd (MRegisteringReceiverForMsg inform w src to st))
      = set_routing src (FProtocol w) (?r\<lparr>FExpected := snd (register_receiver w to (FExpected ?r))\<rparr>) ?s"
    unfolding MRegisteringReceiverForMsg_def Let_def by (auto split: prod.splits if_splits)
  moreover have "counted_in (snd (register_receiver w to (FExpected ?r)))"
    using assms by (intro register_receiver_counted routing_expected_ok tables_ok_create) (simp_all add: counted_def routing_of_create)
  ultimately show ?thesis using assms(2) by (simp add: counted_set_routing counted_create)
qed

lemma unregister_counted:
  assumes "tables_ok (dg st)" "counted (dg st)" "MUnRegisteringReceiverForMsg inform w src to st = Some (l, st')"
    and "\<And>x h. MRemoveHandler w (table (dg st) (slot_of src to w)) = Some (x, h) \<Longrightarrow> FHandlers h = [] \<Longrightarrow> FNumberOfRealHandlers h = 0"
  shows "counted (dg st')"
proof -
  let ?r = "routing_of src (FProtocol w) (dg st)"
  obtain m where m: "unregister_receiver w to (FExpected ?r) = Some (l, m)"
    using assms(3) by (auto simp: MUnRegisteringReceiverForMsg_def Let_def routing_of_create bind_eq_Some_conv split: prod.splits)
  have slot: "table (dg st) (slot_of src to w) = handlers_in (FExpected ?r) (FMessageHeader (FWhat w)) to"
    by (simp add: table_def slot_of_def handlers_at_def)
  have "counted_in m"
    using assms(2,4) by (intro unregister_receiver_counted [OF routing_expected_ok [OF assms(1)] _ m]) (auto simp: counted_def slot)
  moreover have "dg st' = set_routing src (FProtocol w) (?r\<lparr>FExpected := m\<rparr>) (MGetOrCreateExpectedListFor src (FProtocol w) (dg st))"
    using unregister_result [OF m, of inform] assms(3) by auto
  ultimately show ?thesis using assms(2) by (simp add: counted_set_routing counted_create)
qed

section \<open>What a slot holds\<close>

text \<open>
  The handlers of a slot are those of a set of demands with distinct handlers, and the number
  of real handlers is the number of the demands that are not registrators.
\<close>

definition slot_holds :: "msg_handlers_t \<Rightarrow> demand_dg_t set \<Rightarrow> bool" where
  "slot_holds h W \<longleftrightarrow> finite W \<and> inj_on FHandler W \<and> set (FHandlers h) = FHandler ` W
     \<and> FNumberOfRealHandlers h = int (card {d \<in> W. \<not> MIsRegistrator d})"

definition copy_of :: "demand_dg_t \<Rightarrow> demand_dg_t \<Rightarrow> bool" where
  "copy_of d c \<longleftrightarrow> FHandler c = FHandler d \<and> MIsRegistrator c = MIsRegistrator d"

lemma slot_holds_empty: "slot_holds no_handlers {}"
  by (simp add: slot_holds_def no_handlers_def)

lemma slot_add:
  assumes "handlers_ok h" "slot_holds h W" "copy_of d c" "FHandler d \<notin> FHandler ` W"
  shows "slot_holds (snd (MAddHandler c h)) (insert d W)"
proof -
  note a = MAddHandler_ok [OF assms(1) prod.collapse [symmetric], of c]
  have "d \<notin> W" using assms(4) by auto
  then have "{x \<in> insert d W. \<not> MIsRegistrator x} =
      (if MIsRegistrator d then {x \<in> W. \<not> MIsRegistrator x} else insert d {x \<in> W. \<not> MIsRegistrator x})"
    by auto
  with \<open>d \<notin> W\<close> have "card {x \<in> insert d W. \<not> MIsRegistrator x} =
      card {x \<in> W. \<not> MIsRegistrator x} + (if MIsRegistrator d then 0 else 1)"
    using assms(2) by (simp add: slot_holds_def)
  moreover have "inj_on FHandler (insert d W)"
    using assms(2,4) by (auto simp: slot_holds_def)
  ultimately show ?thesis
    using a(2,3) assms(2,3) by (simp add: slot_holds_def copy_of_def)
qed

lemma slot_del:
  assumes "handlers_ok h" "slot_holds h W" "copy_of d c" "d \<in> W"
  shows "\<exists>l t. MRemoveHandler c h = Some (l, t) \<and> slot_holds (or_none t) (W - {d})
    \<and> (FHandlers t = [] \<longrightarrow> FNumberOfRealHandlers t = 0)"
proof -
  have fin: "finite {x \<in> W. \<not> MIsRegistrator x}" and inj: "inj_on FHandler W"
    using assms(2) by (auto simp: slot_holds_def)
  have "0 < FNumberOfRealHandlers h" if "\<not> MIsRegistrator d"
    using that assms(2,4) card_gt_0_iff [of "{x \<in> W. \<not> MIsRegistrator x}"] fin by (auto simp: slot_holds_def)
  then have "MRemoveHandler c h \<noteq> None"
    using assms(3) by (auto simp: MRemoveHandler_def copy_of_def Let_def)
  then obtain l t where t: "MRemoveHandler c h = Some (l, t)" by auto
  note r = MRemoveHandler_ok [OF assms(1) t]
  have "{x \<in> W - {d}. \<not> MIsRegistrator x} = {x \<in> W. \<not> MIsRegistrator x} - {d}" by auto
  then have "int (card {x \<in> W - {d}. \<not> MIsRegistrator x}) = FNumberOfRealHandlers t"
    using r(3) assms(2-4) fin \<open>\<not> MIsRegistrator d \<Longrightarrow> 0 < FNumberOfRealHandlers h\<close>
    by (auto simp: card_Diff_singleton_if slot_holds_def copy_of_def)
  moreover have "set (FHandlers t) = FHandler ` (W - {d})"
    using r(2) assms(2-4) inj_on_image_set_diff [OF inj, of W "{d}"]
    by (auto simp: slot_holds_def copy_of_def)
  ultimately have "slot_holds t (W - {d})"
    using assms(2) inj by (simp add: slot_holds_def inj_on_diff)
  then have "slot_holds (or_none t) (W - {d})" "FHandlers t = [] \<longrightarrow> FNumberOfRealHandlers t = 0"
    using slot_holds_empty by (auto simp: or_none_def slot_holds_def)
  then show ?thesis using t by blast
qed

section \<open>A demand and the messages derived from it\<close>

lemma MGetFlag_bit: "MGetFlag f (push_bit n 1) = bit f n"
  by (simp add: MGetFlag_def push_bit_of_1 and_exp_eq_0_iff_not_bit)

lemma MSetFlag_other: "m \<noteq> n \<Longrightarrow> bit (MSetFlag (push_bit m 1) b f) n = bit f n"
  by (auto simp: MSetFlag_def bit_simps dest: bit_imp_le_length)

lemma flags_keep_registrator:
  "MGetFlag (MSetFlag E_AS_INHERITANCE True f) E_REGISTRATOR = MGetFlag f E_REGISTRATOR"
  "MGetFlag (MSetFlag E_IS_BIG_ENDIAN b f) E_REGISTRATOR = MGetFlag f E_REGISTRATOR"
  unfolding E_REGISTRATOR_def E_AS_INHERITANCE_def E_IS_BIG_ENDIAN_def
  by (simp_all only: MGetFlag_bit MSetFlag_other)

lemma valid_header_copy: "MGetValidHeader ps d = Some m \<Longrightarrow> copy_of d m"
  by (auto simp: MGetValidHeader_def copy_of_def MIsRegistrator_def MSwitchEndianFlag_def
      flags_keep_registrator split: if_splits)

lemma child_copy: "copy_of d m \<Longrightarrow> copy_of d (MGetChildDemand m c)"
  by (simp add: copy_of_def MGetChildDemand_def MIsRegistrator_def flags_keep_registrator)

text \<open>The demands that the table gets for one demand: its message and the derived ones.\<close>

definition copies :: "parsers \<Rightarrow> msg_inheritances_t \<Rightarrow> demand_dg_t \<Rightarrow> demand_dgs_t" where
  "copies ps g d = (case MGetValidHeader ps d of
      None \<Rightarrow> []
    | Some m \<Rightarrow> m # map (MGetChildDemand m) (sMGetMessageChildren (FProtocol m) (FWhat m) g))"

lemma copies_copy: "c \<in> set (copies ps g d) \<Longrightarrow> copy_of d c"
  by (auto simp: copies_def valid_header_copy child_copy split: option.splits)

fun register_all :: "bool \<Rightarrow> uuid \<Rightarrow> uuid \<Rightarrow> demand_dgs_t \<Rightarrow> sub_run \<Rightarrow> sub_run" where
  "register_all inform src to [] st = st"
| "register_all inform src to (c # cs) st =
     register_all inform src to cs (snd (MRegisteringReceiverForMsg inform c src to st))"

fun unregister_all :: "bool \<Rightarrow> uuid \<Rightarrow> uuid \<Rightarrow> demand_dgs_t \<Rightarrow> sub_run \<Rightarrow> sub_run option" where
  "unregister_all inform src to [] st = Some st"
| "unregister_all inform src to (c # cs) st =
     MUnRegisteringReceiverForMsg inform c src to st \<bind> (\<lambda>(b, st1). unregister_all inform src to cs st1)"

lemma include_is_register_all:
  "snd (include_children inform src to w cs n st) = register_all inform src to (map (MGetChildDemand w) cs) st"
  by (induction cs arbitrary: n st) (simp_all add: split_beta)

lemma uninclude_is_unregister_all:
  "map_option snd (uninclude_children inform src to w cs n st)
     = unregister_all inform src to (map (MGetChildDemand w) cs) st"
proof (induction cs arbitrary: n st)
  case (Cons c cs)
  then show ?case
    by (cases "MUnRegisteringReceiverForMsg inform (MGetChildDemand w c) src to st") auto
qed simp

definition slots :: "uuid \<Rightarrow> uuid \<Rightarrow> demand_dgs_t \<Rightarrow> slot set" where
  "slots src to cs = slot_of src to ` set cs"

lemma slots_simps [simp]:
  "slots src to [] = {}" "slots src to (c # cs) = insert (slot_of src to c) (slots src to cs)"
  by (simp_all add: slots_def)

text \<open>The demands of the slots in \<open>X\<close> with and without one more.\<close>

definition plus_demand :: "demand_dg_t \<Rightarrow> slot set \<Rightarrow> (slot \<Rightarrow> demand_dg_t set) \<Rightarrow> slot \<Rightarrow> demand_dg_t set" where
  "plus_demand d X W x = (if x \<in> X then insert d (W x) else W x)"

definition minus_demand :: "demand_dg_t \<Rightarrow> slot set \<Rightarrow> (slot \<Rightarrow> demand_dg_t set) \<Rightarrow> slot \<Rightarrow> demand_dg_t set" where
  "minus_demand d X W x = (if x \<in> X then W x - {d} else W x)"

lemma change_demand_simps:
  "plus_demand d {} W = W" "plus_demand d X (plus_demand d {a} W) = plus_demand d (insert a X) W"
  "minus_demand d {} W = W" "minus_demand d X (minus_demand d {a} W) = minus_demand d (insert a X) W"
  by (auto simp: plus_demand_def minus_demand_def fun_eq_iff)

definition all_hold :: "required_dg \<Rightarrow> (slot \<Rightarrow> demand_dg_t set) \<Rightarrow> bool" where
  "all_hold s W \<longleftrightarrow> tables_ok s \<and> counted s \<and> (\<forall>x. slot_holds (table s x) (W x))"

text \<open>
  What senders are told: the messages that a receiver now has a real handler for, and those that it
  has none for any more. The code notes both while it changes the table.
\<close>

definition told :: "demand_dgs_for_t \<Rightarrow> uuid \<Rightarrow> (ctext \<times> 64 word \<times> uuid option) set" where
  "told m src = (\<lambda>w. (FProtocol w, FMessageHeader (FWhat w), FUUIDFrom w)) ` set (get_or [] m src)"

definition has_real :: "required_dg \<Rightarrow> slot \<Rightarrow> bool" where
  "has_real s x \<longleftrightarrow> FNumberOfRealHandlers (table s x) \<noteq> 0"

definition gains_told :: "sub_run \<Rightarrow> sub_run \<Rightarrow> bool" where
  "gains_told st t \<longleftrightarrow> sub_old t = sub_old st \<and> (\<forall>x. has_real (dg st) x \<longrightarrow> has_real (dg t) x)
     \<and> (\<forall>src. told (sub_new t) src = told (sub_new st) src
          \<union> {(p, k, Some to) |p k to. \<not> has_real (dg st) (src, p, k, to) \<and> has_real (dg t) (src, p, k, to)})"

definition losses_told :: "sub_run \<Rightarrow> sub_run \<Rightarrow> bool" where
  "losses_told st t \<longleftrightarrow> sub_new t = sub_new st \<and> (\<forall>x. has_real (dg t) x \<longrightarrow> has_real (dg st) x)
     \<and> (\<forall>src. told (sub_old t) src = told (sub_old st) src
          \<union> {(p, k, Some to) |p k to. has_real (dg st) (src, p, k, to) \<and> \<not> has_real (dg t) (src, p, k, to)})"

lemma told_push:
  "told (push_demand u w m) src = (if src = u then insert (FProtocol w, FMessageHeader (FWhat w), FUUIDFrom w) (told m src) else told m src)"
  by (auto simp: told_def push_demand_def get_or_set)

lemma told_nil [simp]: "told [] src = {}"
  by (simp add: told_def get_or_def)

lemma told_same: "sub_old t = sub_old st \<Longrightarrow> sub_new t = sub_new st \<Longrightarrow> table (dg t) = table (dg st) \<Longrightarrow> gains_told st t \<and> losses_told st t"
  by (simp add: gains_told_def losses_told_def has_real_def)

lemma gains_told_trans: "gains_told r s \<Longrightarrow> gains_told s t \<Longrightarrow> gains_told r t"
  unfolding gains_told_def by (elim conjE, intro conjI) (simp_all, blast)

lemma losses_told_trans: "losses_told r s \<Longrightarrow> losses_told s t \<Longrightarrow> losses_told r t"
  unfolding losses_told_def by (elim conjE, intro conjI) (simp_all, blast)

lemma register_told:
  fixes w src to
  assumes "tables_ok (dg st)"
  defines "t \<equiv> snd (MRegisteringReceiverForMsg True w src to st)"
  shows "tables_ok (dg t) \<and> gains_told st t"
proof -
  let ?x = "slot_of src to w" and ?h = "table (dg st) (slot_of src to w)"
  note r = register_table [OF assms(1) prod.collapse [symmetric], of True w src to, folded t_def]
  note a = MAddHandler_ok [OF table_ok [OF assms(1)] prod.collapse [symmetric], of w ?x]
  have pos: "0 \<le> FNumberOfRealHandlers ?h" using table_ok [OF assms(1), of ?x] by (simp add: handlers_ok_def)
  have tab: "has_real (dg t) x \<longleftrightarrow> (if x = ?x then \<not> MIsRegistrator w \<or> has_real (dg st) x else has_real (dg st) x)" for x
    using r a(3) pos by (auto simp: has_real_def)
  have new: "sub_new t = (if \<not> MIsRegistrator w \<and> \<not> has_real (dg st) ?x then push_demand src (w\<lparr>FUUIDFrom := Some to\<rparr>) (sub_new st) else sub_new st)"
    using r a(4) by (simp add: has_real_def)
  have "told (sub_new t) v = told (sub_new st) v
      \<union> {(p, k, Some u) |p k u. \<not> has_real (dg st) (v, p, k, u) \<and> has_real (dg t) (v, p, k, u)}" for v
    unfolding new tab by (auto simp: told_push slot_of_def)
  then show ?thesis using r tab by (simp add: gains_told_def)
qed

lemma register_holds:
  assumes "all_hold (dg st) W" "copy_of d c" "FHandler d \<notin> FHandler ` W (slot_of src to c)"
  shows "all_hold (dg (snd (MRegisteringReceiverForMsg inform c src to st))) (plus_demand d {slot_of src to c} W)"
    "same_rest (dg st) (dg (snd (MRegisteringReceiverForMsg inform c src to st)))"
proof -
  have ok: "tables_ok (dg st)" and cnt: "counted (dg st)" and h: "\<And>x. slot_holds (table (dg st) x) (W x)"
    using assms(1) by (auto simp: all_hold_def)
  note r = register_table [OF ok prod.collapse [symmetric], of inform c src to]
  show "same_rest (dg st) (dg (snd (MRegisteringReceiverForMsg inform c src to st)))" using r by blast
  show "all_hold (dg (snd (MRegisteringReceiverForMsg inform c src to st))) (plus_demand d {slot_of src to c} W)"
    using r h slot_add [OF table_ok [OF ok] h assms(2,3)] register_counted [OF ok cnt] by (simp add: all_hold_def plus_demand_def)
qed

lemma unregister_holds:
  assumes "all_hold (dg st) W" "copy_of d c" "d \<in> W (slot_of src to c)"
  shows "\<exists>l st'. MUnRegisteringReceiverForMsg inform c src to st = Some (l, st')
    \<and> all_hold (dg st') (minus_demand d {slot_of src to c} W) \<and> same_rest (dg st) (dg st') \<and> (inform \<longrightarrow> losses_told st st')"
proof -
  let ?x = "slot_of src to c"
  have ok: "tables_ok (dg st)" and cnt: "counted (dg st)" and h: "\<And>x. slot_holds (table (dg st) x) (W x)"
    using assms(1) by (auto simp: all_hold_def)
  obtain l t where t: "MRemoveHandler c (table (dg st) ?x) = Some (l, t)" "slot_holds (or_none t) (W ?x - {d})"
    "FHandlers t = [] \<longrightarrow> FNumberOfRealHandlers t = 0"
    using slot_del [OF table_ok [OF ok] h assms(2,3)] by auto
  have "FHandlers (table (dg st) ?x) \<noteq> []" using h [of ?x] assms(3) by (auto simp: slot_holds_def)
  then obtain st' where st': "MUnRegisteringReceiverForMsg inform c src to st = Some (l, st')"
    "tables_ok (dg st')" "same_rest (dg st) (dg st')" "table (dg st') = (table (dg st))(?x := or_none t)"
    and old: "sub_new st' = sub_new st"
      "sub_old st' = (if l \<and> inform then push_demand src (c\<lparr>FUUIDFrom := Some to\<rparr>) (sub_old st) else sub_old st)"
    using unregister_table_present [OF ok _ t(1)] by blast
  have "counted (dg st')" using t(1,3) by (intro unregister_counted [OF ok cnt st'(1)]) auto
  moreover have "losses_told st st'" if inform
  proof -
    have n: "FNumberOfRealHandlers (or_none t) = FNumberOfRealHandlers (table (dg st) ?x) - (if MIsRegistrator c then 0 else 1)"
      using MRemoveHandler_ok(3) [OF table_ok [OF ok] t(1)] t(3) by (auto simp: or_none_def no_handlers_def)
    have "l \<longleftrightarrow> has_real (dg st) ?x \<and> \<not> has_real (dg st') ?x" "has_real (dg st') ?x \<longrightarrow> has_real (dg st) ?x"
      using t(1) n st'(4) by (auto simp: has_real_def MRemoveHandler_def Let_def or_none_def split: if_splits)
    moreover have "has_real (dg st') x = has_real (dg st) x" if "x \<noteq> ?x" for x using that st'(4) by (simp add: has_real_def)
    ultimately show ?thesis using that old by (auto simp: losses_told_def told_push slot_of_def) metis+
  qed
  ultimately show ?thesis using st' t(2) h by (simp add: all_hold_def minus_demand_def)
qed

lemma slots_fresh: "distinct (map (slot_of src to) (c # cs)) \<Longrightarrow> x \<in> slots src to cs \<Longrightarrow> x \<noteq> slot_of src to c"
proof -
  assume "distinct (map (slot_of src to) (c # cs))" and x: "x \<in> slots src to cs"
  then have "slot_of src to c \<notin> slots src to cs" by (simp add: slots_def)
  with x show ?thesis by metis
qed

lemma register_all_table:
  assumes "all_hold (dg st) W" "distinct (map (slot_of src to) cs)" "\<And>c. c \<in> set cs \<Longrightarrow> copy_of d c"
    "\<And>x. x \<in> slots src to cs \<Longrightarrow> FHandler d \<notin> FHandler ` W x"
  shows "all_hold (dg (register_all inform src to cs st)) (plus_demand d (slots src to cs) W)
    \<and> same_rest (dg st) (dg (register_all inform src to cs st))"
  using assms
proof (induction cs arbitrary: st W)
  case Nil
  then show ?case by (simp add: change_demand_simps)
next
  case (Cons c cs)
  let ?st = "snd (MRegisteringReceiverForMsg inform c src to st)"
  let ?W = "plus_demand d {slot_of src to c} W"
  have "FHandler d \<notin> FHandler ` W (slot_of src to c)" "copy_of d c"
    using Cons.prems by auto
  note r = register_holds [OF Cons.prems(1) this(2,1), of inform]
  have "FHandler d \<notin> FHandler ` ?W x" if "x \<in> slots src to cs" for x
    using slots_fresh [OF Cons.prems(2) that] that Cons.prems(4) [of x] by (simp add: plus_demand_def)
  then have "all_hold (dg (register_all inform src to cs ?st)) (plus_demand d (slots src to cs) ?W)
      \<and> same_rest (dg ?st) (dg (register_all inform src to cs ?st))"
    using r(1) Cons.prems(2,3) by (intro Cons.IH) simp_all
  then show ?case using same_rest_trans [OF r(2)] by (simp add: change_demand_simps)
qed

lemma unregister_all_table:
  assumes "all_hold (dg st) W" "distinct (map (slot_of src to) cs)" "\<And>c. c \<in> set cs \<Longrightarrow> copy_of d c"
    "\<And>x. x \<in> slots src to cs \<Longrightarrow> d \<in> W x"
  shows "\<exists>st'. unregister_all inform src to cs st = Some st'
    \<and> all_hold (dg st') (minus_demand d (slots src to cs) W) \<and> same_rest (dg st) (dg st') \<and> (inform \<longrightarrow> losses_told st st')"
  using assms
proof (induction cs arbitrary: st W)
  case Nil
  then show ?case by (simp add: change_demand_simps told_same)
next
  case (Cons c cs)
  let ?W = "minus_demand d {slot_of src to c} W"
  have "copy_of d c" "d \<in> W (slot_of src to c)" using Cons.prems by auto
  from unregister_holds [OF Cons.prems(1) this, of inform] obtain l st1 where
    st1: "MUnRegisteringReceiverForMsg inform c src to st = Some (l, st1)" "all_hold (dg st1) ?W"
      "same_rest (dg st) (dg st1)" "inform \<longrightarrow> losses_told st st1"
    by blast
  have "d \<in> ?W x" if "x \<in> slots src to cs" for x
    using slots_fresh [OF Cons.prems(2) that] that Cons.prems(4) [of x] by (simp add: minus_demand_def)
  then have "\<exists>st'. unregister_all inform src to cs st1 = Some st'
      \<and> all_hold (dg st') (minus_demand d (slots src to cs) ?W) \<and> same_rest (dg st1) (dg st') \<and> (inform \<longrightarrow> losses_told st1 st')"
    using st1(2) Cons.prems(2,3) by (intro Cons.IH) simp_all
  then show ?case using st1(1,4) same_rest_trans [OF st1(3)] losses_told_trans by (auto simp: change_demand_simps)
qed

subsection \<open>Sending and no longer sending\<close>

lemma register_genealogy:
  "FMsgsGenealogy (dg (snd (MRegisteringReceiverForMsg inform w src to st))) = FMsgsGenealogy (dg st)"
  by (simp add: MRegisteringReceiverForMsg_def Let_def split_beta)

lemma unregister_genealogy:
  "MUnRegisteringReceiverForMsg inform w src to st = Some (b, st') \<Longrightarrow>
     FMsgsGenealogy (dg st') = FMsgsGenealogy (dg st)"
  by (auto simp: MUnRegisteringReceiverForMsg_def Let_def)

abbreviation with_list :: "uuid \<Rightarrow> demand_dg_t \<Rightarrow> sub_run \<Rightarrow> sub_run" where
  "with_list src w st \<equiv> st\<lparr>dg := MGetOrCreateExpectedListFor src (FProtocol w) (dg st)\<rparr>"

lemma send_is_register_all:
  "snd (MSendPacketFromTo ps inform src to w st)
     = register_all inform src to (copies ps (FMsgsGenealogy (dg st)) w) (with_list src w st)"
proof (cases "MGetValidHeader ps w")
  case None
  then show ?thesis by (simp add: MSendPacketFromTo_def copies_def)
next
  case (Some m)
  have "FMsgsGenealogy (dg (snd (MRegisteringReceiverForMsg inform m src to (with_list src w st))))
      = FMsgsGenealogy (dg st)"
    by (simp add: register_genealogy)
  with Some show ?thesis
    by (simp add: MSendPacketFromTo_def copies_def Let_def split_beta MIncludeMessageChildren_def
        MGetMessageChildren_def include_is_register_all)
qed

lemma unsend_is_unregister_all:
  "map_option snd (MUnSendPacketFromTo ps inform src to w st)
     = unregister_all inform src to (copies ps (FMsgsGenealogy (dg st)) w) (with_list src w st)"
proof (cases "MGetValidHeader ps w")
  case None
  then show ?thesis by (simp add: MUnSendPacketFromTo_def copies_def)
next
  case m: (Some m)
  show ?thesis
  proof (cases "MUnRegisteringReceiverForMsg inform m src to (with_list src w st)")
    case None
    with m show ?thesis by (simp add: MUnSendPacketFromTo_def copies_def)
  next
    case (Some r)
    obtain b st1 where r: "r = (b, st1)" by (cases r)
    have "FMsgsGenealogy (dg st1) = FMsgsGenealogy (dg st)"
      using unregister_genealogy [OF Some [unfolded r]] by simp
    then have "unregister_all inform src to (copies ps (FMsgsGenealogy (dg st)) w) (with_list src w st)
        = map_option snd (MUnincludeMessageChildren inform src to m st1)"
      using m Some r by (simp add: copies_def uninclude_is_unregister_all MUnincludeMessageChildren_def
          MGetMessageChildren_def)
    moreover have "MUnSendPacketFromTo ps inform src to w st
        = MUnincludeMessageChildren inform src to m st1 \<bind> (\<lambda>(n, st2). Some ((if b then 1 else 0) + n > (0::nat), st2))"
      using m Some r by (simp add: MUnSendPacketFromTo_def)
    ultimately show ?thesis
      by (cases "MUnincludeMessageChildren inform src to m st1") (simp_all add: split_beta)
  qed
qed

text \<open>
  The links that are live: a sender, a receiver and a demand of the receiver. They determine the
  demands of every slot.
\<close>

type_synonym link = "uuid \<times> uuid \<times> demand_dg_t"

definition wants :: "parsers \<Rightarrow> msg_inheritances_t \<Rightarrow> link set \<Rightarrow> slot \<Rightarrow> demand_dg_t set" where
  "wants ps g L = (\<lambda>(src, p, k, to).
     {d. (src, to, d) \<in> L \<and> (src, p, k, to) \<in> slots src to (copies ps g d)})"

lemma wants_insert:
  "wants ps g (insert (src, to, d) L) = plus_demand d (slots src to (copies ps g d)) (wants ps g L)"
  by (auto simp: wants_def plus_demand_def fun_eq_iff slots_def slot_of_def)

lemma wants_remove:
  "wants ps g (L - {(src, to, d)}) = minus_demand d (slots src to (copies ps g d)) (wants ps g L)"
  by (auto simp: wants_def minus_demand_def fun_eq_iff slots_def slot_of_def)

definition table_for :: "parsers \<Rightarrow> required_dg \<Rightarrow> link set \<Rightarrow> bool" where
  "table_for ps s L \<longleftrightarrow> all_hold s (wants ps (FMsgsGenealogy s) L)"

text \<open>The messages of a demand and those derived from it are different ones.\<close>

definition demand_fits :: "parsers \<Rightarrow> msg_inheritances_t \<Rightarrow> demand_dg_t \<Rightarrow> bool" where
  "demand_fits ps g d \<longleftrightarrow> distinct (map (\<lambda>c. (FProtocol c, FMessageHeader (FWhat c))) (copies ps g d))"

lemma demand_fits_slots: "demand_fits ps g d \<Longrightarrow> distinct (map (slot_of src to) (copies ps g d))"
  by (auto simp: demand_fits_def distinct_map inj_on_def slot_of_def)

lemma all_hold_create: "all_hold s W \<Longrightarrow> all_hold (MGetOrCreateExpectedListFor u p s) W"
  by (simp add: all_hold_def table_create tables_ok_create counted_create)

lemma send_links:
  assumes "table_for ps (dg st) L" "demand_fits ps (FMsgsGenealogy (dg st)) d"
    "\<And>e. (src, to, e) \<in> L \<Longrightarrow> FHandler e \<noteq> FHandler d"
  shows "table_for ps (dg (snd (MSendPacketFromTo ps inform src to d st))) (insert (src, to, d) L)
    \<and> same_rest (dg st) (dg (snd (MSendPacketFromTo ps inform src to d st)))"
proof -
  let ?cs = "copies ps (FMsgsGenealogy (dg st)) d"
  let ?t = "register_all inform src to ?cs (with_list src d st)"
  have "all_hold (dg (with_list src d st)) (wants ps (FMsgsGenealogy (dg st)) L)"
    using assms(1) by (simp add: table_for_def all_hold_create)
  moreover have "FHandler d \<notin> FHandler ` wants ps (FMsgsGenealogy (dg st)) L x" if "x \<in> slots src to ?cs" for x
    using that assms(3) unfolding wants_def slots_def slot_of_def by fastforce
  ultimately have "all_hold (dg ?t) (wants ps (FMsgsGenealogy (dg st)) (insert (src, to, d) L))
      \<and> same_rest (dg (with_list src d st)) (dg ?t)"
    unfolding wants_insert using demand_fits_slots [OF assms(2)] copies_copy
    by (intro register_all_table) blast+
  then show ?thesis unfolding send_is_register_all table_for_def by (simp add: same_rest_def)
qed

lemma unsend_links:
  assumes "table_for ps (dg st) L" "demand_fits ps (FMsgsGenealogy (dg st)) d" "(src, to, d) \<in> L"
  shows "\<exists>b st'. MUnSendPacketFromTo ps inform src to d st = Some (b, st')
    \<and> table_for ps (dg st') (L - {(src, to, d)}) \<and> same_rest (dg st) (dg st') \<and> (inform \<longrightarrow> losses_told st st')"
proof -
  let ?cs = "copies ps (FMsgsGenealogy (dg st)) d"
  have "all_hold (dg (with_list src d st)) (wants ps (FMsgsGenealogy (dg st)) L)"
    using assms(1) by (simp add: table_for_def all_hold_create)
  moreover have "d \<in> wants ps (FMsgsGenealogy (dg st)) L x" if "x \<in> slots src to ?cs" for x
    using that assms(3) by (auto simp: wants_def slots_def slot_of_def)
  ultimately have "\<exists>t. unregister_all inform src to ?cs (with_list src d st) = Some t
      \<and> all_hold (dg t) (wants ps (FMsgsGenealogy (dg st)) (L - {(src, to, d)}))
      \<and> same_rest (dg (with_list src d st)) (dg t) \<and> (inform \<longrightarrow> losses_told (with_list src d st) t)"
    unfolding wants_remove using demand_fits_slots [OF assms(2)] copies_copy
    by (intro unregister_all_table) blast+
  then obtain t where t: "unregister_all inform src to ?cs (with_list src d st) = Some t"
    "all_hold (dg t) (wants ps (FMsgsGenealogy (dg st)) (L - {(src, to, d)}))"
    "same_rest (dg (with_list src d st)) (dg t)" "inform \<longrightarrow> losses_told (with_list src d st) t" by blast
  then obtain b where "MUnSendPacketFromTo ps inform src to d st = Some (b, t)"
    using unsend_is_unregister_all [of ps inform src to d st] by auto
  moreover have "losses_told st (with_list src d st)" using told_same [of "with_list src d st" st] by (simp add: table_create)
  ultimately show ?thesis using t(2-4) losses_told_trans by (auto simp: table_for_def same_rest_def)
qed

section \<open>Programs by name\<close>

text \<open>A text that splits into a plain name and a group.\<close>

definition name_text_ok :: "string \<Rightarrow> bool" where
  "name_text_ok t \<longleftrightarrow> (case MGetAddressText t of None \<Rightarrow> False | Some g \<Rightarrow> NAME_SEP \<notin> set g)"

lemma MGetName_no_sep [simp]: "NAME_SEP \<notin> set (MGetName t)"
  by (auto simp: MGetName_def text_find_def takeWhile_eq_take [symmetric] dest: set_takeWhileD split: option.splits)

lemma conform_total:
  assumes "name_text_ok (FName i)" "name_text_ok n"
  shows "\<exists>v. MDoesIdConformTo i n b = Some v"
proof -
  obtain g h where gh: "MGetAddressText (FName i) = Some g" "NAME_SEP \<notin> set g"
    "MGetAddressText n = Some h" "NAME_SEP \<notin> set h"
    using assms by (auto simp: name_text_ok_def split: option.splits)
  have "MGetAddressText (sMRegister (MGetName (MGetName n)) g) = Some g"
    using gh by (intro MGetAddressText_register) simp_all
  with gh show ?thesis by (simp add: MDoesIdConformTo_def Let_def)
qed

text \<open>The depth with which a program matches a demand; 0 is no match.\<close>

definition depth_of :: "id_t \<Rightarrow> demand_dg_t \<Rightarrow> nat" where
  "depth_of i d = (case MDoesIdConformTo i (FNameFrom d) (is_invert d) of None \<Rightarrow> 0 | Some v \<Rightarrow> v)"

definition id_ok :: "uuid \<Rightarrow> id_t \<Rightarrow> bool" where
  "id_ok u i \<longleftrightarrow> FUuid i = u \<and> u \<noteq> 0 \<and> name_text_ok (FName i)"

definition ids_ok :: "(uuid, id_t) omap \<Rightarrow> bool" where
  "ids_ok ids \<longleftrightarrow> om_ok ids \<and> (\<forall>e\<in>set ids. id_ok (fst e) (snd e))"

lemma conform_depth:
  "id_ok u i \<Longrightarrow> name_text_ok (FNameFrom d) \<Longrightarrow>
     MDoesIdConformTo i (FNameFrom d) (is_invert d) = Some (depth_of i d)"
  using conform_total [of i "FNameFrom d" "is_invert d"] by (auto simp: depth_of_def id_ok_def)

lemma uuids_loop_depth:
  assumes "\<forall>e\<in>set es. id_ok (fst e) (snd e)" "distinct (map fst es)" "name_text_ok (FNameFrom d)"
  shows "\<exists>r. uuids_loop (FNameFrom d) (is_invert d) es res = Some r \<and> (om_ok res \<longrightarrow> om_ok r)
    \<and> (\<forall>u. om_get r u = (case om_get es u of
         Some i \<Rightarrow> if depth_of i d \<noteq> 0 then Some (depth_of i d) else om_get res u
       | None \<Rightarrow> om_get res u))"
  using assms
proof (induction es arbitrary: res)
  case Nil
  then show ?case by simp
next
  case (Cons e es)
  let ?v = "depth_of (snd e) d"
  let ?res = "if ?v \<noteq> 0 then om_set (FUuid (snd e)) ?v res else res"
  have e: "id_ok (fst e) (snd e)" "om_get es (fst e) = None"
    using Cons.prems by (auto simp: map_of_eq_None_iff)
  obtain r where r: "uuids_loop (FNameFrom d) (is_invert d) es ?res = Some r" "om_ok ?res \<longrightarrow> om_ok r"
    "\<And>u. om_get r u = (case om_get es u of
         Some i \<Rightarrow> if depth_of i d \<noteq> 0 then Some (depth_of i d) else om_get ?res u
       | None \<Rightarrow> om_get ?res u)"
    using Cons.IH [of ?res] Cons.prems by auto
  have "uuids_loop (FNameFrom d) (is_invert d) (e # es) res = Some r"
    using r(1) conform_depth [OF e(1) Cons.prems(3)] by simp
  moreover have "om_ok res \<longrightarrow> om_ok r" using r(2) by (simp add: om_intros)
  moreover have "om_get r u = (case om_get (e # es) u of
         Some i \<Rightarrow> if depth_of i d \<noteq> 0 then Some (depth_of i d) else om_get res u
       | None \<Rightarrow> om_get res u)" for u
    using e r(3) [of u] by (cases e) (auto simp: om_simps id_ok_def split: option.splits)
  ultimately show ?case by blast
qed

text \<open>The programs that match a demand.\<close>

definition senders :: "(uuid, id_t) omap \<Rightarrow> demand_dg_t \<Rightarrow> uuid set" where
  "senders ids d = {u. \<exists>i. om_get ids u = Some i \<and> depth_of i d \<noteq> 0}"

lemma get_uuids:
  assumes "ids_ok (FIds s)" "name_text_ok (FNameFrom d)"
  shows "\<exists>r. MGetUUIDFor (FNameFrom d) (is_invert d) s = Some r \<and> om_ok r
    \<and> (\<forall>u v. om_get r u = Some v \<longleftrightarrow> (\<exists>i. om_get (FIds s) u = Some i \<and> depth_of i d = v \<and> v \<noteq> 0))
    \<and> distinct (map fst r) \<and> set (map fst r) = senders (FIds s) d"
proof -
  obtain r where r: "MGetUUIDFor (FNameFrom d) (is_invert d) s = Some r" "om_ok r"
    "\<And>u. om_get r u = (case om_get (FIds s) u of
         Some i \<Rightarrow> if depth_of i d \<noteq> 0 then Some (depth_of i d) else om_get [] u
       | None \<Rightarrow> om_get [] u)"
    using uuids_loop_depth [of "FIds s" d "[]"] assms om_ok_distinct [of "FIds s"]
    by (auto simp: ids_ok_def MGetUUIDFor_def)
  have "set (map fst r) = {u. om_get r u \<noteq> None}"
    by (auto simp: map_of_eq_None_iff)
  also have "\<dots> = senders (FIds s) d"
    using r(3) by (auto simp: senders_def split: option.splits)
  finally show ?thesis using r om_ok_distinct [OF r(2)] by (auto split: option.splits)
qed

section \<open>Demands and programs come and go\<close>

definition demand_ok :: "parsers \<Rightarrow> msg_inheritances_t \<Rightarrow> demand_dg_t \<Rightarrow> bool" where
  "demand_ok ps g d \<longleftrightarrow> name_text_ok (FNameFrom d) \<and> \<not> is_nearest d \<and> demand_fits ps g d"

definition demands_ok :: "parsers \<Rightarrow> msg_inheritances_t \<Rightarrow> demand_dgs_t \<Rightarrow> bool" where
  "demands_ok ps g ds \<longleftrightarrow> distinct (map FHandler ds) \<and> (\<forall>d\<in>set ds. demand_ok ps g d)"

lemma send_all_links:
  assumes "table_for ps (dg st) L" "demand_fits ps (FMsgsGenealogy (dg st)) d" "distinct us"
    "\<And>u e. u \<in> set us \<Longrightarrow> (u, to, e) \<in> L \<Longrightarrow> FHandler e \<noteq> FHandler d"
  shows "table_for ps (dg (send_all ps us to d st)) (L \<union> {(u, to, d) |u. u \<in> set us})
    \<and> same_rest (dg st) (dg (send_all ps us to d st))"
  using assms
proof (induction us arbitrary: st L)
  case Nil
  then show ?case by simp
next
  case (Cons u us)
  let ?st = "snd (MSendPacketFromTo ps True u to d st)"
  have s: "table_for ps (dg ?st) (insert (u, to, d) L) \<and> same_rest (dg st) (dg ?st)"
    using Cons.prems by (intro send_links) auto
  have "table_for ps (dg (send_all ps us to d ?st)) (insert (u, to, d) L \<union> {(u, to, d) |u. u \<in> set us})
      \<and> same_rest (dg ?st) (dg (send_all ps us to d ?st))"
    using s Cons.prems by (intro Cons.IH) (auto simp: same_rest_def)
  moreover have "insert (u, to, d) L \<union> {(u, to, d) |u. u \<in> set us} = L \<union> {(v, to, d) |v. v \<in> set (u # us)}"
    by auto
  ultimately show ?case using s same_rest_trans by auto
qed

lemma unsend_all_links:
  assumes "table_for ps (dg st) L" "demand_fits ps (FMsgsGenealogy (dg st)) d" "distinct us"
    "\<And>u. u \<in> set us \<Longrightarrow> (u, to, d) \<in> L"
  shows "\<exists>st'. unsend_all ps us to d st = Some st'
    \<and> table_for ps (dg st') (L - {(u, to, d) |u. u \<in> set us}) \<and> same_rest (dg st) (dg st') \<and> losses_told st st'"
  using assms
proof (induction us arbitrary: st L)
  case Nil
  then show ?case by (simp add: told_same)
next
  case (Cons u us)
  obtain b st1 where st1: "MUnSendPacketFromTo ps True u to d st = Some (b, st1)"
    "table_for ps (dg st1) (L - {(u, to, d)})" "same_rest (dg st) (dg st1)" "losses_told st st1"
    using unsend_links [OF Cons.prems(1,2), of u to True] Cons.prems(4) by auto
  obtain st' where st': "unsend_all ps us to d st1 = Some st'"
    "table_for ps (dg st') (L - {(u, to, d)} - {(u, to, d) |u. u \<in> set us})" "same_rest (dg st1) (dg st')" "losses_told st1 st'"
  proof -
    have "\<exists>st'. unsend_all ps us to d st1 = Some st'
        \<and> table_for ps (dg st') (L - {(u, to, d)} - {(u, to, d) |u. u \<in> set us}) \<and> same_rest (dg st1) (dg st') \<and> losses_told st1 st'"
      using st1 Cons.prems by (intro Cons.IH) (auto simp: same_rest_def)
    then show ?thesis using that by blast
  qed
  moreover have "L - {(u, to, d)} - {(u, to, d) |u. u \<in> set us} = L - {(v, to, d) |v. v \<in> set (u # us)}"
    by auto
  ultimately show ?case using st1 same_rest_trans losses_told_trans by auto
qed

text \<open>The links of one receiver for some of its demands.\<close>

definition links_for :: "(uuid, id_t) omap \<Rightarrow> uuid \<Rightarrow> demand_dg_t set \<Rightarrow> link set" where
  "links_for ids to D = {(u, to', d). to' = to \<and> d \<in> D \<and> u \<in> senders ids d}"

lemma links_for_empty [simp]: "links_for ids to {} = {}"
  by (auto simp: links_for_def)

lemma links_for_insert:
  "links_for ids to (insert d D) = {(u, to, d) |u. u \<in> senders ids d} \<union> links_for ids to D"
  by (auto simp: links_for_def)

lemma add_senders_links:
  assumes "table_for ps (dg st) L" "ids_ok (FIds (dg st))"
    "\<forall>d\<in>set ws. demand_ok ps (FMsgsGenealogy (dg st)) d" "distinct (map FHandler ws)"
    "\<And>u e. (u, to, e) \<in> L \<Longrightarrow> FHandler e \<notin> FHandler ` set ws"
  shows "\<exists>st'. MAddSendersOfMsgFor ps to ws st = Some st'
    \<and> table_for ps (dg st') (L \<union> links_for (FIds (dg st)) to (set ws)) \<and> same_rest (dg st) (dg st')"
  using assms
proof (induction ws arbitrary: st L)
  case Nil
  then show ?case by simp
next
  case (Cons d ws)
  have d: "demand_ok ps (FMsgsGenealogy (dg st)) d" using Cons.prems by simp
  obtain r where r: "MGetUUIDFor (FNameFrom d) (is_invert d) (dg st) = Some r"
    "distinct (map fst r)" "set (map fst r) = senders (FIds (dg st)) d"
    using get_uuids [OF Cons.prems(2), of d] d unfolding demand_ok_def by blast
  let ?st = "send_all ps (map fst r) to d st" and ?L = "L \<union> {(u, to, d) |u. u \<in> set (map fst r)}"
  have old: "FHandler e \<noteq> FHandler d \<and> FHandler e \<notin> FHandler ` set ws" if "(u, to, e) \<in> L" for u e
    using Cons.prems(5) [OF that] by simp
  have s: "table_for ps (dg ?st) ?L \<and> same_rest (dg st) (dg ?st)"
    using Cons.prems(1) d r(2) old by (intro send_all_links) (simp_all add: demand_ok_def)
  then have rest: "FIds (dg ?st) = FIds (dg st)" "FMsgsGenealogy (dg ?st) = FMsgsGenealogy (dg st)"
    by (auto simp: same_rest_def)
  have "FHandler d \<notin> FHandler ` set ws" using Cons.prems(4) by simp
  then have fresh: "FHandler e \<notin> FHandler ` set ws" if "(u, to, e) \<in> ?L" for u e
    using that old [of u e] by blast
  have "\<exists>st'. MAddSendersOfMsgFor ps to ws ?st = Some st'
      \<and> table_for ps (dg st') (?L \<union> links_for (FIds (dg ?st)) to (set ws)) \<and> same_rest (dg ?st) (dg st')"
  proof (rule Cons.IH)
    show "table_for ps (dg ?st) ?L" using s by blast
    show "ids_ok (FIds (dg ?st))" using Cons.prems(2) rest by simp
    show "\<forall>d\<in>set ws. demand_ok ps (FMsgsGenealogy (dg ?st)) d" using Cons.prems(3) rest by simp
    show "distinct (map FHandler ws)" using Cons.prems(4) by simp
  qed (rule fresh)
  then obtain st' where st': "MAddSendersOfMsgFor ps to ws ?st = Some st'"
    "table_for ps (dg st') (?L \<union> links_for (FIds (dg st)) to (set ws))" "same_rest (dg ?st) (dg st')"
    unfolding rest by blast
  have "?L \<union> links_for (FIds (dg st)) to (set ws) = L \<union> links_for (FIds (dg st)) to (set (d # ws))"
    unfolding r(3) list.set(2) links_for_insert by (simp add: Un_assoc)
  moreover have "MAddSendersOfMsgFor ps to (d # ws) st = Some st'"
    using r(1) d st'(1) by (simp add: demand_ok_def Let_def)
  moreover have "same_rest (dg st) (dg st')" using s st'(3) same_rest_trans by blast
  ultimately show ?case using st'(2) by auto
qed

lemma remove_senders_links:
  assumes "table_for ps (dg st) L" "ids_ok (FIds (dg st))"
    "\<forall>d\<in>set ws. demand_ok ps (FMsgsGenealogy (dg st)) d" "distinct ws"
    "links_for (FIds (dg st)) to (set ws) \<subseteq> L"
  shows "\<exists>st'. MRemoveSendersOfMsgFor ps to ws st = Some st'
    \<and> table_for ps (dg st') (L - links_for (FIds (dg st)) to (set ws)) \<and> same_rest (dg st) (dg st') \<and> losses_told st st'"
  using assms
proof (induction ws arbitrary: st L)
  case Nil
  then show ?case by (simp add: told_same)
next
  case (Cons d ws)
  have d: "demand_ok ps (FMsgsGenealogy (dg st)) d" using Cons.prems by simp
  obtain r where r: "MGetUUIDFor (FNameFrom d) (is_invert d) (dg st) = Some r"
    "distinct (map fst r)" "set (map fst r) = senders (FIds (dg st)) d"
    using get_uuids [OF Cons.prems(2), of d] d unfolding demand_ok_def by blast
  let ?L = "L - {(u, to, d) |u. u \<in> set (map fst r)}"
  have sub: "{(u, to, d) |u. u \<in> set (map fst r)} \<subseteq> L"
    using Cons.prems(5) unfolding list.set(2) links_for_insert r(3) by blast
  have "\<exists>st1. unsend_all ps (map fst r) to d st = Some st1 \<and> table_for ps (dg st1) ?L \<and> same_rest (dg st) (dg st1) \<and> losses_told st st1"
    using Cons.prems(1) d r(2) sub by (intro unsend_all_links) (auto simp: demand_ok_def)
  then obtain st1 where s: "unsend_all ps (map fst r) to d st = Some st1" "table_for ps (dg st1) ?L"
    "same_rest (dg st) (dg st1)" "losses_told st st1" by blast
  then have rest: "FIds (dg st1) = FIds (dg st)" "FMsgsGenealogy (dg st1) = FMsgsGenealogy (dg st)"
    by (auto simp: same_rest_def)
  have "links_for (FIds (dg st)) to (set ws) \<subseteq> ?L"
    using Cons.prems(4,5) by (auto simp: links_for_def)
  then have "\<exists>st'. MRemoveSendersOfMsgFor ps to ws st1 = Some st'
      \<and> table_for ps (dg st') (?L - links_for (FIds (dg st1)) to (set ws)) \<and> same_rest (dg st1) (dg st') \<and> losses_told st1 st'"
    using s Cons.prems(2-4) rest by (intro Cons.IH) simp_all
  then obtain st' where st': "MRemoveSendersOfMsgFor ps to ws st1 = Some st'"
    "table_for ps (dg st') (?L - links_for (FIds (dg st)) to (set ws))" "same_rest (dg st1) (dg st')" "losses_told st1 st'"
    unfolding rest by blast
  have "?L - links_for (FIds (dg st)) to (set ws) = L - links_for (FIds (dg st)) to (set (d # ws))"
    unfolding r(3) list.set(2) links_for_insert by blast
  moreover have "MRemoveSendersOfMsgFor ps to (d # ws) st = Some st'"
    using r(1) d s(1) st'(1) by (simp add: demand_ok_def Let_def)
  moreover have "same_rest (dg st) (dg st')" using s(3) st'(3) by (rule same_rest_trans)
  moreover have "losses_told st st'" using s(4) st'(4) by (rule losses_told_trans)
  ultimately show ?case using st'(2) by auto
qed

text \<open>Whatever is added, the senders are told of it.\<close>

lemma send_told:
  assumes "tables_ok (dg st)"
  shows "tables_ok (dg (snd (MSendPacketFromTo ps True src to w st))) \<and> gains_told st (snd (MSendPacketFromTo ps True src to w st))"
proof -
  have all: "tables_ok (dg t) \<Longrightarrow> tables_ok (dg (register_all True src to cs t)) \<and> gains_told t (register_all True src to cs t)" for cs t
  proof (induction cs arbitrary: t)
    case (Cons c cs)
    then show ?case using register_told [OF Cons.prems, of c src to] Cons.IH gains_told_trans by fastforce
  qed (simp add: told_same)
  have "gains_told st (with_list src w st)" using told_same [of "with_list src w st" st] by (simp add: table_create)
  then show ?thesis
    using all [of "with_list src w st"] assms tables_ok_create gains_told_trans unfolding send_is_register_all by fastforce
qed

lemma send_all_told:
  "tables_ok (dg st) \<Longrightarrow> tables_ok (dg (send_all ps us to w st)) \<and> gains_told st (send_all ps us to w st)"
proof (induction us arbitrary: st)
  case (Cons u us)
  then show ?case using send_told [OF Cons.prems, of ps u to w] gains_told_trans by fastforce
qed (simp add: told_same)

lemma add_senders_told:
  "MAddSendersOfMsgFor ps to ws st = Some st' \<Longrightarrow> tables_ok (dg st) \<Longrightarrow> gains_told st st'"
proof (induction ws arbitrary: st)
  case (Cons w ws)
  then obtain us st1 where st1: "MAddSendersOfMsgFor ps to ws (send_all ps us to w st1) = Some st'"
    "sub_old st1 = sub_old st" "sub_new st1 = sub_new st" "FWhatIsSendingBy (dg st1) = FWhatIsSendingBy (dg st)"
    by (fastforce simp: bind_eq_Some_conv Let_def set_nearest_def split: if_splits)
  have "routing_of u q (dg st1) = routing_of u q (dg st)" for u q using st1(4) by (simp add: routing_of_def)
  then have t: "table (dg st1) = table (dg st)" by (simp add: table_def handlers_at_def)
  moreover have "tables_ok (dg st1)" using Cons.prems(2) st1(4) by (simp add: tables_ok_def)
  ultimately show ?case
    using Cons.IH [OF st1(1)] send_all_told [of st1 ps us to w] told_same [OF st1(2,3) t] gains_told_trans by blast
qed (simp add: told_same)

subsection \<open>A program changes its demands\<close>

definition all_links :: "required_dg \<Rightarrow> link set" where
  "all_links s = {(u, to, d). d \<in> set (MGetDemandFor to s) \<and> u \<in> senders (FIds s) d}"

definition subs_ok :: "parsers \<Rightarrow> required_dg \<Rightarrow> bool" where
  "subs_ok ps s \<longleftrightarrow> ids_ok (FIds s) \<and> om_ok (FDGs s)
     \<and> om_all (demands_ok ps (FMsgsGenealogy s)) (FDGs s) \<and> table_for ps s (all_links s)"

lemma demands_of_ok: "subs_ok ps s \<Longrightarrow> demands_ok ps (FMsgsGenealogy s) (MGetDemandFor u s)"
  unfolding subs_ok_def MGetDemandFor_def
  by (intro om_all_get_or [where P = "demands_ok ps (FMsgsGenealogy s)"]) (simp_all add: demands_ok_def)

lemma links_of_receiver: "(u, to, d) \<in> all_links s \<longleftrightarrow> (u, to, d) \<in> links_for (FIds s) to (set (MGetDemandFor to s))"
  by (simp add: all_links_def links_for_def)

text \<open>Demands that the comparison of the code takes for one are one.\<close>

definition same_demands :: "demand_dgs_t \<Rightarrow> demand_dgs_t \<Rightarrow> bool" where
  "same_demands new old \<longleftrightarrow> (\<forall>d\<in>set new. \<forall>e\<in>set old. demand_eq e d \<longrightarrow> e = d)"

lemma demand_eq_refl [simp]: "demand_eq d d"
  by (simp add: demand_eq_def demand_MIsEqual_def)

lemma vec_erase_last:
  assumes "distinct xs" "i < length xs"
  shows "set (vec_erase i xs) = set xs - {xs ! i}" "distinct (vec_erase i xs)"
proof -
  have xs: "xs = take i xs @ xs ! i # drop (Suc i) xs" using assms(2) by (rule id_take_nth_drop)
  have "distinct (take i xs @ xs ! i # drop (Suc i) xs)" using assms(1) xs by metis
  then have d: "xs ! i \<notin> set (vec_erase i xs)" "distinct (vec_erase i xs)"
    by (auto simp: vec_erase_def)
  have "set xs = insert (xs ! i) (set (vec_erase i xs))"
    using arg_cong [OF xs, of set] by (simp add: vec_erase_def)
  with d show "set (vec_erase i xs) = set xs - {xs ! i}" "distinct (vec_erase i xs)" by auto
qed

lemma remove_last_exact:
  assumes "distinct old" "\<forall>e\<in>set old. demand_eq e d \<longrightarrow> e = d"
  shows "d \<notin> set old \<Longrightarrow> remove_last d old = None"
    "d \<in> set old \<Longrightarrow> \<exists>r. remove_last d old = Some r \<and> set r = set old - {d} \<and> distinct r"
proof -
  let ?i = "length (takeWhile (\<lambda>e. \<not> demand_eq e d) (rev old))"
  have lt: "?i < length old \<longleftrightarrow> d \<in> set old"
  proof
    assume "?i < length old"
    then have "demand_eq (rev old ! ?i) d" using nth_length_takeWhile [of "\<lambda>e. \<not> demand_eq e d" "rev old"] by simp
    moreover have "rev old ! ?i \<in> set old" using \<open>?i < length old\<close> by (metis length_rev nth_mem set_rev)
    ultimately show "d \<in> set old" using assms(2) by auto
  next
    assume "d \<in> set old"
    then have "takeWhile (\<lambda>e. \<not> demand_eq e d) (rev old) \<noteq> rev old"
      by (metis demand_eq_refl set_rev set_takeWhileD)
    then have "?i \<noteq> length old"
      by (metis length_rev takeWhile_eq_take take_all_iff order_refl)
    then show "?i < length old" using length_takeWhile_le [of "\<lambda>e. \<not> demand_eq e d" "rev old"] by simp
  qed
  show "remove_last d old = None" if "d \<notin> set old" using that lt by (simp add: remove_last_def Let_def)
  assume d: "d \<in> set old"
  then have i: "?i < length old" using lt by simp
  let ?j = "length old - 1 - ?i"
  have j: "?j < length old" "old ! ?j = rev old ! ?i" using i by (simp_all add: rev_nth)
  have "demand_eq (old ! ?j) d"
    using nth_length_takeWhile [of "\<lambda>e. \<not> demand_eq e d" "rev old"] i j(2) by simp
  then have "old ! ?j = d" using assms(2) j(1) nth_mem by blast
  then show "\<exists>r. remove_last d old = Some r \<and> set r = set old - {d} \<and> distinct r"
    using i vec_erase_last [OF assms(1) j(1)] by (simp add: remove_last_def Let_def)
qed

lemma diff_loop_exact:
  assumes "distinct old" "distinct new" "same_demands new old"
    "diff_loop new old added = (r, a)"
  shows "set r = set old - set new \<and> distinct r \<and> set a = set added \<union> (set new - set old)
    \<and> (distinct added \<and> set added \<inter> set new = {} \<longrightarrow> distinct a)"
  using assms
proof (induction new arbitrary: old added)
  case Nil
  then show ?case by simp
next
  case (Cons d new)
  have same: "\<forall>e\<in>set old. demand_eq e d \<longrightarrow> e = d" using Cons.prems(3) by (simp add: same_demands_def)
  show ?case
  proof (cases "d \<in> set old")
    case True
    then obtain q where q: "remove_last d old = Some q" "set q = set old - {d}" "distinct q"
      using remove_last_exact(2) [OF Cons.prems(1) same] by blast
    have "set r = set q - set new \<and> distinct r \<and> set a = set added \<union> (set new - set q)
        \<and> (distinct added \<and> set added \<inter> set new = {} \<longrightarrow> distinct a)"
      using Cons.prems q by (intro Cons.IH) (auto simp: same_demands_def)
    then show ?thesis using True q(2) Cons.prems(2) by auto
  next
    case False
    then have "remove_last d old = None" using remove_last_exact(1) [OF Cons.prems(1) same] by blast
    then have "set r = set old - set new \<and> distinct r \<and> set a = set (d # added) \<union> (set new - set old)
        \<and> (distinct (d # added) \<and> set (d # added) \<inter> set new = {} \<longrightarrow> distinct a)"
      using Cons.prems by (intro Cons.IH) (auto simp: same_demands_def)
    then show ?thesis using False Cons.prems(2) by auto
  qed
qed

lemma table_for_other [simp]:
  "table_for ps (s\<lparr>FDGs := x\<rparr>) L = table_for ps s L" "table_for ps (s\<lparr>FIds := y\<rparr>) L = table_for ps s L"
  "table_for ps (s\<lparr>FNearestInfo := z\<rparr>) L = table_for ps s L"
  by (simp_all add: table_for_def all_hold_def tables_ok_def counted_def table_def handlers_at_def routing_of_def)

lemma distinct_handlers: "distinct (map FHandler ds) \<Longrightarrow> distinct ds"
  by (simp add: distinct_map)

lemma diff_demands:
  assumes "demands_ok ps g (MGetDemandFor u s)" "demands_ok ps g new" "same_demands new (MGetDemandFor u s)"
    "MGetDiffDemandsDG u new s = (removed, added)"
  shows "set removed = set (MGetDemandFor u s) - set new" "distinct removed"
    "set added = set new - set (MGetDemandFor u s)" "distinct (map FHandler added)"
proof -
  have dist: "distinct (MGetDemandFor u s)" "distinct new"
    using assms(1,2) by (auto simp: demands_ok_def distinct_handlers)
  have "set removed = set (MGetDemandFor u s) - set new \<and> distinct removed
      \<and> set added = set new - set (MGetDemandFor u s) \<and> distinct added"
  proof (cases "om_get (FDGs s) u")
    case None
    then show ?thesis using assms(4) dist by (auto simp: MGetDiffDemandsDG_def MGetDemandFor_def get_or_def)
  next
    case (Some old)
    then have old: "MGetDemandFor u s = old" by (simp add: MGetDemandFor_def get_or_def)
    have "same_demands (rev new) old" using assms(3) old by (simp add: same_demands_def)
    then show ?thesis
      using diff_loop_exact [of old "rev new" "[]" removed added] assms(4) dist Some old
      by (simp add: MGetDiffDemandsDG_def)
  qed
  moreover have "inj_on FHandler (set new)" using assms(2) by (simp add: demands_ok_def distinct_map)
  ultimately show "set removed = set (MGetDemandFor u s) - set new" "distinct removed"
    "set added = set new - set (MGetDemandFor u s)" "distinct (map FHandler added)"
    by (auto simp: distinct_map inj_on_subset)
qed

lemma demands_after_set:
  "MGetDemandFor to (s\<lparr>FDGs := om_set u new (FDGs s)\<rparr>) = (if to = u then new else MGetDemandFor to s)"
  by (simp add: MGetDemandFor_def get_or_set)

lemma demands_after_erase:
  "MGetDemandFor to (s\<lparr>FDGs := om_erase u (FDGs s)\<rparr>) = (if to = u then [] else MGetDemandFor to s)"
  by (simp add: MGetDemandFor_def get_or_erase)

lemma subs_ok_rest:
  assumes "same_rest s t" "ids_ok (FIds s)" "om_ok (FDGs s)" "om_all (demands_ok ps (FMsgsGenealogy s)) (FDGs s)"
    "table_for ps t (all_links s)"
  shows "subs_ok ps t"
  using assms by (simp add: subs_ok_def same_rest_def all_links_def MGetDemandFor_def)

lemma remove_demands_links:
  assumes "subs_ok ps s" "sub = MGetDemandFor u s"
  shows "all_links (s\<lparr>FDGs := om_erase u (FDGs s)\<rparr>) = all_links s - links_for (FIds s) u (set sub)"
    "links_for (FIds s) u (set sub) \<subseteq> all_links s"
  using assms by (auto simp: all_links_def links_for_def demands_after_erase split: if_splits)

text \<open>Some of the demands of a receiver are real and bring it a message of a sender.\<close>

definition serves :: "parsers \<Rightarrow> required_dg \<Rightarrow> demand_dg_t set \<Rightarrow> uuid \<Rightarrow> ctext \<Rightarrow> 64 word \<Rightarrow> bool" where
  "serves ps s D src p k \<longleftrightarrow> (\<exists>d\<in>D. \<not> MIsRegistrator d \<and> src \<in> senders (FIds s) d
     \<and> (p, k) \<in> (\<lambda>c. (FProtocol c, FMessageHeader (FWhat c))) ` set (copies ps (FMsgsGenealogy s) d))"

lemma serves_empty [simp]: "\<not> serves ps s {} src p k"
  by (simp add: serves_def)

lemma has_real_serves:
  assumes "table_for ps t L" "FIds t = FIds s" "FMsgsGenealogy t = FMsgsGenealogy s"
    "\<And>d. (src, to, d) \<in> L \<longleftrightarrow> d \<in> D \<and> src \<in> senders (FIds s) d"
  shows "has_real t (src, p, k, to) \<longleftrightarrow> serves ps s D src p k"
proof -
  let ?W = "wants ps (FMsgsGenealogy t) L (src, p, k, to)"
  have "slot_holds (table t (src, p, k, to)) ?W" using assms(1) by (simp add: table_for_def all_hold_def)
  then have "has_real t (src, p, k, to) \<longleftrightarrow> {d \<in> ?W. \<not> MIsRegistrator d} \<noteq> {}"
    by (auto simp: has_real_def slot_holds_def)
  also have "\<dots> \<longleftrightarrow> serves ps s D src p k"
    using assms(2-4) by (auto simp: serves_def wants_def slots_def slot_of_def image_iff)
  finally show ?thesis .
qed

lemma remove_all_senders_ok:
  assumes "subs_ok ps (dg st)"
  shows "\<exists>st'. MRemoveAllSendersOfMsgsFor ps u st = Some st' \<and> subs_ok ps (dg st') \<and> losses_told st st'
    \<and> same_rest ((dg st)\<lparr>FDGs := om_erase u (FDGs (dg st))\<rparr>) (dg st')"
proof (cases "om_get (FDGs (dg st)) u")
  case None
  then have "om_erase u (FDGs (dg st)) = FDGs (dg st)"
    unfolding om_erase_def by (intro filter_True) (auto simp: map_of_eq_None_iff)
  then show ?thesis using None assms by (simp add: MRemoveAllSendersOfMsgsFor_def same_rest_def told_same)
next
  case (Some old)
  then have old: "old = MGetDemandFor u (dg st)" by (simp add: MGetDemandFor_def get_or_def)
  let ?s = "(dg st)\<lparr>FDGs := om_erase u (FDGs (dg st))\<rparr>"
  note l = remove_demands_links [OF assms old]
  have "demands_ok ps (FMsgsGenealogy (dg st)) old" using demands_of_ok [OF assms] old by simp
  then have "\<exists>st'. MRemoveSendersOfMsgFor ps u old (st\<lparr>dg := ?s\<rparr>) = Some st'
      \<and> table_for ps (dg st') (all_links (dg st) - links_for (FIds (dg (st\<lparr>dg := ?s\<rparr>))) u (set old))
      \<and> same_rest (dg (st\<lparr>dg := ?s\<rparr>)) (dg st') \<and> losses_told (st\<lparr>dg := ?s\<rparr>) st'"
    using assms l(2) by (intro remove_senders_links) (simp_all add: subs_ok_def demands_ok_def distinct_handlers)
  then obtain st' where st': "MRemoveSendersOfMsgFor ps u old (st\<lparr>dg := ?s\<rparr>) = Some st'"
    "table_for ps (dg st') (all_links ?s)" "same_rest ?s (dg st')" "losses_told (st\<lparr>dg := ?s\<rparr>) st'"
    unfolding l(1) by auto
  have "table ?s = table (dg st)" by (simp add: table_def handlers_at_def routing_of_def)
  then have told: "losses_told st st'" using told_same [of "st\<lparr>dg := ?s\<rparr>" st] losses_told_trans [OF _ st'(4)] by simp
  have "subs_ok ps (dg st')"
    using assms by (intro subs_ok_rest [OF st'(3) _ _ _ st'(2)]) (simp_all add: subs_ok_def om_intros)
  then show ?thesis using st' told Some by (simp add: MRemoveAllSendersOfMsgsFor_def)
qed

lemma set_demands_ok:
  assumes "subs_ok ps s" "demands_ok ps (FMsgsGenealogy s) new" "same_demands new (MGetDemandFor (FUuid i) s)"
  defines "old \<equiv> MGetDemandFor (FUuid i) s"
  shows "\<exists>st. MSetDemandsDGFor ps i new s = Some st \<and> subs_ok ps (dg st)
    \<and> FIds (dg st) = FIds s \<and> FMsgsGenealogy (dg st) = FMsgsGenealogy s
    \<and> (\<forall>to. MGetDemandFor to (dg st) = (if to = FUuid i then new else MGetDemandFor to s))
    \<and> (\<forall>src. told (sub_new st) src = {(p, k, Some (FUuid i)) |p k.
         serves ps s (set new) src p k \<and> \<not> serves ps s (set new \<inter> set old) src p k})
    \<and> (\<forall>src. told (sub_old st) src = {(p, k, Some (FUuid i)) |p k.
         serves ps s (set old) src p k \<and> \<not> serves ps s (set new \<inter> set old) src p k})"
proof -
  let ?u = "FUuid i" and ?g = "FMsgsGenealogy s" and ?ids = "FIds s"
  have before: "has_real s (src, p, k, to) \<longleftrightarrow> serves ps s (set (MGetDemandFor to s)) src p k" for src p k to
    using assms(1) by (intro has_real_serves [of _ _ "all_links s"]) (auto simp: subs_ok_def all_links_def)
  have after: "has_real (dg st) (src, p, k, to) \<longleftrightarrow> serves ps s (set (if to = ?u then new else MGetDemandFor to s)) src p k"
    if "subs_ok ps (dg st)" "FIds (dg st) = ?ids" "FMsgsGenealogy (dg st) = ?g"
      "\<And>to. MGetDemandFor to (dg st) = (if to = ?u then new else MGetDemandFor to s)" for st src p k to
    using that by (intro has_real_serves [of _ _ "all_links (dg st)"]) (simp_all add: subs_ok_def all_links_def)
  show ?thesis
  proof (cases "new = []")
    case True
    obtain st where st: "MRemoveAllSendersOfMsgsFor ps ?u (start_run s) = Some st" "subs_ok ps (dg st)"
      "same_rest (s\<lparr>FDGs := om_erase ?u (FDGs s)\<rparr>) (dg st)" "losses_told (start_run s) st"
      using remove_all_senders_ok [of ps "start_run s"] assms(1) by (auto simp: start_run_def)
    have demands: "MGetDemandFor to (dg st) = (if to = ?u then new else MGetDemandFor to s)" for to
      using st(3) True by (simp add: MGetDemandFor_def same_rest_def get_or_erase)
    note real = after [OF st(2) _ _ demands]
    have "told (sub_old st) src = {(p, k, Some ?u) |p k. serves ps s (set old) src p k}" for src
      using st(3,4) True unfolding losses_told_def by (auto simp: start_run_def before real same_rest_def old_def)
    then show ?thesis using st True demands
      by (auto simp: MSetDemandsDGFor_def same_rest_def losses_told_def start_run_def)
  next
    case False
    let ?s = "s\<lparr>FDGs := om_set ?u new (FDGs s)\<rparr>"
    obtain removed added where ra: "MGetDiffDemandsDG ?u new s = (removed, added)" by fastforce
    note ok = demands_of_ok [OF assms(1), of ?u, folded old_def]
    note d = diff_demands [OF ok [unfolded old_def] assms(2,3) ra, folded old_def]
    have ids: "ids_ok ?ids" using assms(1) by (simp add: subs_ok_def)
    have rem: "\<forall>d\<in>set removed. demand_ok ps ?g d" "links_for ?ids ?u (set removed) \<subseteq> all_links s"
      using ok d(1) by (auto simp: demands_ok_def links_for_def all_links_def old_def)
    obtain st1 where st1: "MRemoveSendersOfMsgFor ps ?u removed (start_run ?s) = Some st1"
      "table_for ps (dg st1) (all_links s - links_for ?ids ?u (set removed))" "same_rest ?s (dg st1)" "losses_told (start_run ?s) st1"
      using remove_senders_links [of ps "start_run ?s" "all_links s" removed ?u] assms(1) rem d(2) ids
      by (auto simp: start_run_def subs_ok_def)
    then have rest: "FIds (dg st1) = ?ids" "FMsgsGenealogy (dg st1) = ?g" by (auto simp: same_rest_def)
    have inj: "inj_on FHandler (set new)" using assms(2) by (simp add: demands_ok_def distinct_map)
    have fresh: "FHandler e \<notin> FHandler ` set added"
      if "(v, ?u, e) \<in> all_links s - links_for ?ids ?u (set removed)" for v e
    proof -
      have "e \<in> set new \<inter> set old" using that d(1) by (auto simp: all_links_def links_for_def old_def)
      then show ?thesis using inj d(3) by (auto simp: inj_on_def)
    qed
    have new_links: "all_links s - links_for ?ids ?u (set removed) \<union> links_for ?ids ?u (set added) = all_links ?s"
      using d(1,3) by (auto simp: all_links_def links_for_def demands_after_set old_def split: if_splits)
    have "\<exists>st2. MAddSendersOfMsgFor ps ?u added st1 = Some st2
        \<and> table_for ps (dg st2) (all_links s - links_for ?ids ?u (set removed) \<union> links_for (FIds (dg st1)) ?u (set added))
        \<and> same_rest (dg st1) (dg st2)"
      using st1(2) ids rest d(3,4) assms(2) fresh by (intro add_senders_links) (auto simp: demands_ok_def)
    then obtain st2 where st2: "MAddSendersOfMsgFor ps ?u added st1 = Some st2"
      "table_for ps (dg st2) (all_links ?s)" "same_rest ?s (dg st2)"
      unfolding rest new_links using same_rest_trans [OF st1(3)] by blast
    have st2_ok: "subs_ok ps (dg st2)"
      using assms(1,2) by (intro subs_ok_rest [OF st2(3) _ _ _ st2(2)]) (simp_all add: subs_ok_def om_intros)
    have demands: "MGetDemandFor to (dg st2) = (if to = ?u then new else MGetDemandFor to s)" for to
      using st2(3) by (simp add: MGetDemandFor_def same_rest_def get_or_set)
    have between: "has_real (dg st1) (src, p, k, to) \<longleftrightarrow>
        serves ps s (if to = ?u then set new \<inter> set old else set (MGetDemandFor to s)) src p k" for src p k to
      using d(1) rest by (intro has_real_serves [OF st1(2)]) (auto simp: all_links_def links_for_def old_def split: if_splits)
    have "has_real ?s = has_real s" by (simp add: has_real_def [abs_def] table_def handlers_at_def routing_of_def)
    note real = before between after [OF st2_ok _ _ demands] this
    have "gains_told st1 st2" using add_senders_told [OF st2(1)] st1(2) by (simp add: table_for_def all_hold_def)
    then have told: "told (sub_new st2) src = {(p, k, Some ?u) |p k. serves ps s (set new) src p k \<and> \<not> serves ps s (set new \<inter> set old) src p k}"
      "told (sub_old st2) src = {(p, k, Some ?u) |p k. serves ps s (set old) src p k \<and> \<not> serves ps s (set new \<inter> set old) src p k}" for src
      using st1(4) st2(3) unfolding gains_told_def losses_told_def same_rest_def
      by (auto simp: real start_run_def old_def [symmetric] split: if_splits)
    have "MSetDemandsDGFor ps i new s = Some st2" using False ra st1(1) st2(1) by (simp add: MSetDemandsDGFor_def Let_def)
    then show ?thesis using st2(3) st2_ok demands told by (auto simp: same_rest_def)
  qed
qed

subsection \<open>A program comes\<close>

definition link_of :: "way_info_t \<Rightarrow> link" where
  "link_of w = (way_from w, way_for w, way_what w)"

definition handler_key :: "way_info_t \<Rightarrow> uuid \<times> uuid \<times> handler_id" where
  "handler_key w = (way_from w, way_for w, FHandler (way_what w))"

definition way_of :: "id_t \<Rightarrow> uuid \<Rightarrow> demand_dg_t \<Rightarrow> way_info_t" where
  "way_of i to d = \<lparr>way_from = FUuid i, way_for = to, way_what = d, way_distance = depth_of i d\<rparr>"

lemma link_of_way: "link_of (way_of i to d) = (FUuid i, to, d)"
  by (simp add: link_of_def way_of_def)

definition ways_list :: "id_t \<Rightarrow> (uuid \<times> demand_dgs_t) list \<Rightarrow> bool \<Rightarrow> way_info_t list" where
  "ways_list i es all =
     concat (map (\<lambda>(to, ds). map (way_of i to) (filter (\<lambda>d. all \<or> depth_of i d \<noteq> 0) ds)) es)"

lemma ways_of_demands_list:
  assumes "id_ok u i" "\<forall>d\<in>set ds. name_text_ok (FNameFrom d)"
  shows "ways_of_demands i to ds all = Some (map (way_of i to) (filter (\<lambda>d. all \<or> depth_of i d \<noteq> 0) ds))"
  using assms(2) by (induction ds) (auto simp: conform_depth [OF assms(1)] way_of_def)

lemma ways_of_all_list:
  assumes "id_ok u i" "\<forall>e\<in>set es. \<forall>d\<in>set (snd e). name_text_ok (FNameFrom d)"
  shows "ways_of_all i es all = Some (ways_list i es all)"
  using assms(2) by (induction es) (auto simp: ways_list_def ways_of_demands_list [OF assms(1)])

lemma ways_list_set:
  "link_of ` set (ways_list i es all)
     = {(u, to, d). u = FUuid i \<and> (all \<or> depth_of i d \<noteq> 0) \<and> (\<exists>ds. (to, ds) \<in> set es \<and> d \<in> set ds)}"
  by (induction es) (auto simp: ways_list_def image_Un image_image link_of_way)

lemma ways_list_distinct:
  assumes "distinct (map fst es)" "\<forall>e\<in>set es. distinct (map FHandler (snd e))"
  shows "distinct (map handler_key (ways_list i es all))"
  using assms
proof (induction es)
  case Nil
  then show ?case by (simp add: ways_list_def)
next
  case (Cons e es)
  obtain to ds where e: "e = (to, ds)" by (cases e)
  let ?ws = "map (way_of i to) (filter (\<lambda>d. all \<or> depth_of i d \<noteq> 0) ds)"
  have split: "ways_list i (e # es) all = ?ws @ ways_list i es all" by (simp add: ways_list_def e)
  have "distinct (map handler_key ?ws)"
    using Cons.prems(2) by (auto simp: e distinct_map handler_key_def way_of_def inj_on_def)
  moreover have "way_for w \<in> fst ` set es" if "w \<in> set (ways_list i es all)" for w
    using that by (force simp: ways_list_def way_of_def)
  then have "handler_key ` set ?ws \<inter> handler_key ` set (ways_list i es all) = {}"
    using Cons.prems(1) by (auto simp: e handler_key_def way_of_def)
  moreover have "distinct (map handler_key (ways_list i es all))" using Cons by simp
  ultimately show ?case unfolding split map_append distinct_append set_map by blast
qed

lemma no_nearest_senders:
  assumes "\<forall>w\<in>set added. \<not> is_nearest (way_what w)" "\<forall>w\<in>set removed. \<not> is_nearest (way_what w)"
  shows "MTakeIntoAccountOnlyNearestSendersIfNeed src added removed s = Some (added, removed, s)"
proof -
  have "MRemoveSenderIfNeed added s = Some (added, [], s)"
    using assms(1) by (induction added) (simp_all add: remove_sender_step_def Let_def)
  moreover have "MAddSenderIfNeed src removed s = Some ([], s)"
    using assms(2) by (induction removed) (simp_all add: add_sender_step_def Let_def)
  ultimately show ?thesis by (simp add: MTakeIntoAccountOnlyNearestSendersIfNeed_def)
qed

lemma send_ways_links:
  assumes "table_for ps (dg st) L" "\<forall>w\<in>set ws. demand_fits ps (FMsgsGenealogy (dg st)) (way_what w)"
    "distinct (map handler_key ws)"
    "\<And>u to e. (u, to, e) \<in> L \<Longrightarrow> (u, to, FHandler e) \<notin> handler_key ` set ws"
  shows "table_for ps (dg (send_ways ps ws st)) (L \<union> link_of ` set ws)
    \<and> same_rest (dg st) (dg (send_ways ps ws st))"
  using assms
proof (induction ws arbitrary: st L)
  case Nil
  then show ?case by simp
next
  case (Cons w ws)
  let ?st = "snd (MSendPacketFromTo ps (\<not> MIsRegistrator (way_what w)) (way_from w) (way_for w) (way_what w) st)"
  have s: "table_for ps (dg ?st) (insert (link_of w) L) \<and> same_rest (dg st) (dg ?st)"
    unfolding link_of_def using Cons.prems(1,2) Cons.prems(4) [of "way_from w" "way_for w"]
    by (intro send_links) (auto simp: handler_key_def)
  have fresh: "(u, to, FHandler e) \<notin> handler_key ` set ws" if "(u, to, e) \<in> insert (link_of w) L" for u to e
  proof -
    have "handler_key w \<notin> handler_key ` set ws" using Cons.prems(3) by simp
    then show ?thesis
      using that Cons.prems(4) [of u to e] by (auto simp: link_of_def handler_key_def [of w])
  qed
  have "table_for ps (dg (send_ways ps ws ?st)) (insert (link_of w) L \<union> link_of ` set ws)
      \<and> same_rest (dg ?st) (dg (send_ways ps ws ?st))"
  proof (rule Cons.IH)
    show "table_for ps (dg ?st) (insert (link_of w) L)" using s by blast
    show "\<forall>w\<in>set ws. demand_fits ps (FMsgsGenealogy (dg ?st)) (way_what w)"
      using s Cons.prems(2) by (simp add: same_rest_def)
    show "distinct (map handler_key ws)" using Cons.prems(3) by simp
  qed (rule fresh)
  then show ?case using s same_rest_trans by auto
qed

lemma unsend_ways_links:
  assumes "table_for ps (dg st) L" "\<forall>w\<in>set ws. demand_fits ps (FMsgsGenealogy (dg st)) (way_what w)"
    "distinct (map link_of ws)" "link_of ` set ws \<subseteq> L"
  shows "\<exists>st'. unsend_ways ps ws st = Some st' \<and> table_for ps (dg st') (L - link_of ` set ws)
    \<and> same_rest (dg st) (dg st')"
  using assms
proof (induction ws arbitrary: st L)
  case Nil
  then show ?case by simp
next
  case (Cons w ws)
  obtain b st1 where st1: "MUnSendPacketFromTo ps (\<not> MIsRegistrator (way_what w)) (way_from w) (way_for w) (way_what w) st
      = Some (b, st1)" "table_for ps (dg st1) (L - {link_of w})" "same_rest (dg st) (dg st1)"
    using unsend_links [OF Cons.prems(1), of "way_what w" "way_from w" "way_for w"
        "\<not> MIsRegistrator (way_what w)"] Cons.prems(2,4)
    by (auto simp: link_of_def)
  have "\<exists>st'. unsend_ways ps ws st1 = Some st' \<and> table_for ps (dg st') (L - {link_of w} - link_of ` set ws)
      \<and> same_rest (dg st1) (dg st')"
    using st1 Cons.prems(2-4) by (intro Cons.IH) (auto simp: same_rest_def)
  moreover have "L - {link_of w} - link_of ` set ws = L - link_of ` set (w # ws)" by auto
  ultimately show ?case using st1(1) same_rest_trans [OF st1(3)] by auto
qed

lemma demand_entries:
  "om_ok (FDGs s) \<Longrightarrow> (\<exists>ds. (to, ds) \<in> set (FDGs s) \<and> d \<in> set ds) \<longleftrightarrow> d \<in> set (MGetDemandFor to s)"
  by (cases "om_get (FDGs s) to") (auto simp: MGetDemandFor_def get_or_def simp flip: om_get_mem)

lemma senders_insert:
  "\<not> om_has u ids \<Longrightarrow>
     senders (om_insert u i ids) d = (if depth_of i d \<noteq> 0 then insert u (senders ids d) else senders ids d)"
  by (auto simp: senders_def om_get_insert om_has_def)

lemma add_client_ok:
  assumes "subs_ok ps s" "id_ok (FUuid i) i" "\<not> om_has (FUuid i) (FIds s)"
  shows "\<exists>st. MAddClient ps i s = Some st \<and> subs_ok ps (dg st)
    \<and> FIds (dg st) = om_insert (FUuid i) i (FIds s) \<and> FDGs (dg st) = FDGs s
    \<and> FMsgsGenealogy (dg st) = FMsgsGenealogy s"
proof -
  let ?u = "FUuid i" and ?ws = "ways_list i (FDGs s) False"
  have dgs: "om_ok (FDGs s)" and all: "\<forall>e\<in>set (FDGs s). demands_ok ps (FMsgsGenealogy s) (snd e)"
    and t: "table_for ps s (all_links s)" and ids: "ids_ok (FIds s)"
    using assms(1) by (auto simp: subs_ok_def om_all_def)
  have ways: "MGetListOfReceiversOfMsgsFrom i s = Some ?ws"
    using all unfolding MGetListOfReceiversOfMsgsFrom_def
    by (intro ways_of_all_list [OF assms(2)]) (auto simp: demands_ok_def demand_ok_def)
  have w: "demand_ok ps (FMsgsGenealogy s) (way_what w)" if "w \<in> set ?ws" for w
    using that all by (auto simp: ways_list_def way_of_def demands_ok_def)
  have new: "link_of ` set ?ws = {(u, to, d). u = ?u \<and> depth_of i d \<noteq> 0 \<and> d \<in> set (MGetDemandFor to s)}"
    by (simp add: ways_list_set demand_entries [OF dgs])
  have fresh: "(u, to, FHandler e) \<notin> handler_key ` set ?ws" if "(u, to, e) \<in> all_links s" for u to e
    using that assms(3) by (auto simp: all_links_def senders_def om_has_def handler_key_def ways_list_def way_of_def)
  define st where "st = send_ways ps ?ws (start_run s)"
  have st: "table_for ps (dg st) (all_links s \<union> link_of ` set ?ws)" "same_rest s (dg st)"
    using send_ways_links [of ps "start_run s" "all_links s" ?ws] t w fresh all
      ways_list_distinct [OF om_ok_distinct [OF dgs], of i False]
    by (auto simp: st_def start_run_def demand_ok_def demands_ok_def)
  let ?t = "(dg st)\<lparr>FIds := om_insert ?u i (FIds s)\<rparr>"
  have "all_links s \<union> link_of ` set ?ws = all_links ?t"
    using st(2) unfolding new
    by (auto simp: all_links_def senders_insert [OF assms(3)] same_rest_def MGetDemandFor_def split: if_splits)
  moreover have "ids_ok (om_insert ?u i (FIds s))"
    using ids assms(2,3) om_set_subset [of ?u i "FIds s"] by (auto simp: ids_ok_def om_insert_def om_ok_set)
  ultimately have "subs_ok ps ?t"
    using st assms(1) by (simp add: subs_ok_def same_rest_def)
  moreover have "MAddClient ps i s = Some (st\<lparr>dg := ?t\<rparr>)"
    using ways w st(2) assms(3)
    by (simp add: MAddClient_def MAddReceiversOfMsgsFrom_def start_run_def no_nearest_senders demand_ok_def
        MUpdateSendInfoFor_def st_def same_rest_def)
  ultimately show ?thesis using st(2) by (auto simp: same_rest_def)
qed

subsection \<open>A program goes\<close>

text \<open>The entries of one sender in the order in which \<open>MGetWhatMsgSentFrom\<close> walks them.\<close>

definition entries :: "uuid \<Rightarrow> required_dg \<Rightarrow> ((ctext \<times> 64 word) \<times> uuid \<times> msg_handlers_t) list" where
  "entries u s = concat (map (\<lambda>(p, r). concat (map (\<lambda>(k, rs). map (\<lambda>e. ((p, k), e)) (FReceivers rs)) (FExpected r)))
     (get_or [] (FWhatIsSendingBy s) u))"

definition collect :: "required_dg \<Rightarrow> uuid \<times> msg_handlers_t \<Rightarrow> demand_dgs_for_t \<times> nat \<Rightarrow> demand_dgs_for_t \<times> nat" where
  "collect s = (\<lambda>(to, h) (m, n). let found = sMGetDemandsByHandlers h (MGetDemandFor to s)
     in (om_set to (get_or [] m to @ found) m, n + length found))"

lemma fold_concat_map: "fold f (concat (map g xs)) = fold (\<lambda>x. fold f (g x)) xs"
  by (induction xs) simp_all

lemma sent_from_entries: "MGetWhatMsgSentFrom u s = fold (collect s) (map snd (entries u s)) ([], 0)"
proof -
  have "fold (collect s) (map snd (entries u s)) a =
      fold (\<lambda>(p, r). fold (\<lambda>(k, rs). fold (collect s) (FReceivers rs)) (FExpected r)) (get_or [] (FWhatIsSendingBy s) u) a" for a
    by (simp add: entries_def map_concat fold_concat_map comp_def split_beta')
  then show ?thesis
    by (simp add: MGetWhatMsgSentFrom_def sent_to_receivers_def collect_def [abs_def] split_beta')
qed

lemma collect_all:
  "(\<forall>to. get_or [] (fst (fold (collect s) es (m, n))) to =
      get_or [] m to @ concat (map (\<lambda>e. sMGetDemandsByHandlers (snd e) (MGetDemandFor to s)) (filter (\<lambda>e. fst e = to) es)))
   \<and> (om_ok m \<longrightarrow> om_ok (fst (fold (collect s) es (m, n))))
   \<and> (snd (fold (collect s) es (m, n)) =
      n + sum_list (map (\<lambda>e. length (sMGetDemandsByHandlers (snd e) (MGetDemandFor (fst e) s))) es))"
proof (induction es arbitrary: m n)
  case Nil
  then show ?case by simp
next
  case (Cons e es)
  obtain to h where e: "e = (to, h)" by (cases e)
  show ?case
    using Cons.IH [of "om_set to (get_or [] m to @ sMGetDemandsByHandlers h (MGetDemandFor to s)) m"
        "n + length (sMGetDemandsByHandlers h (MGetDemandFor to s))"]
    by (auto simp: e collect_def Let_def get_or_set om_intros)
qed

lemma distinct_nested:
  assumes "distinct (map fst xs)" "\<And>x. x \<in> set xs \<Longrightarrow> distinct (map f (g x))"
    "\<And>x y. x \<in> set xs \<Longrightarrow> y \<in> set (g x) \<Longrightarrow> c (f y) = fst x"
  shows "distinct (map f (concat (map g xs)))"
  using assms
proof (induction xs)
  case (Cons x xs)
  have "f ` set (g x) \<inter> f ` set (concat (map g xs)) = {}"
  proof (rule equals0I)
    fix y assume y: "y \<in> f ` set (g x) \<inter> f ` set (concat (map g xs))"
    then obtain z where z: "z \<in> set xs" "y \<in> f ` set (g z)" by auto
    have "c y = fst x" using y Cons.prems(3) [of x] by auto
    moreover have "c y = fst z" using z Cons.prems(3) [of z] by auto
    ultimately show False using z(1) Cons.prems(1) by (metis distinct.simps(2) imageI list.set_map list.simps(9))
  qed
  moreover have "distinct (map f (concat (map g xs)))" using Cons by simp
  ultimately show ?case using Cons.prems(2) [of x] by simp
qed simp

lemma entries_mem:
  assumes "tables_ok s"
  shows "((p, k), to, h) \<in> set (entries u s) \<longleftrightarrow> h = table s (u, p, k, to) \<and> FHandlers h \<noteq> []"
proof -
  let ?pm = "get_or [] (FWhatIsSendingBy s) u"
  have pm: "protocols_ok ?pm" using assms by (rule protocols_of_ok)
  have r: "expected_ok (FExpected r)" if "om_get ?pm p = Some r" for p r
    using pm om_all_get [where P = "\<lambda>r. expected_ok (FExpected r)", OF _ that] by (simp add: protocols_ok_def)
  have rs: "receivers_ok q" if "om_get ?pm p = Some r" "om_get (FExpected r) k = Some q" for p r k q
    using r [OF that(1)] om_all_get [OF _ that(2)] by (auto simp: expected_ok_def)
  have "((p, k), to, h) \<in> set (entries u s) \<longleftrightarrow>
      (\<exists>r q. (p, r) \<in> set ?pm \<and> (k, q) \<in> set (FExpected r) \<and> (to, h) \<in> set (FReceivers q))"
    by (fastforce simp: entries_def)
  also have "\<dots> \<longleftrightarrow> (\<exists>r q. om_get ?pm p = Some r \<and> om_get (FExpected r) k = Some q \<and> om_get (FReceivers q) to = Some h)"
  proof -
    have ok: "om_ok ?pm" "\<And>p r. om_get ?pm p = Some r \<Longrightarrow> om_ok (FExpected r)"
      "\<And>p r k q. om_get ?pm p = Some r \<Longrightarrow> om_get (FExpected r) k = Some q \<Longrightarrow> om_ok (FReceivers q)"
      using pm r rs by (auto simp: protocols_ok_def expected_ok_def receivers_ok_def)
    show ?thesis by (auto simp: om_get_mem [symmetric] ok)
  qed
  also have "\<dots> \<longleftrightarrow> h = table s (u, p, k, to) \<and> FHandlers h \<noteq> []"
  proof -
    have t: "table s (u, p, k, to) =
        get_or no_handlers (FReceivers (get_or no_receivers (FExpected (get_or no_routing ?pm p)) k)) to"
      by (simp add: table_def handlers_at_def handlers_in_def routing_of_def)
    have ne: "FHandlers h \<noteq> []"
      if "om_get ?pm p = Some r" "om_get (FExpected r) k = Some q" "om_get (FReceivers q) to = Some h" for r q
      using rs [OF that(1,2)] om_all_get [OF _ that(3)] by (auto simp: receivers_ok_def)
    have none: "om_get m j = None \<Longrightarrow> get_or v m j = v" for m j v by (simp add: get_or_def)
    have some: "om_get m j = Some x \<Longrightarrow> get_or v m j = x" for m j v x by (simp add: get_or_def)
    note ds = none some no_routing_def no_receivers_def no_handlers_def
    show ?thesis
    proof (cases "om_get ?pm p")
      case None
      then show ?thesis unfolding t by (auto simp: ds)
    next
      case r: (Some r)
      show ?thesis
      proof (cases "om_get (FExpected r) k")
        case None
        then show ?thesis using r unfolding t by (auto simp: ds)
      next
        case q: (Some q)
        then show ?thesis using r ne [OF r q] unfolding t
          by (cases "om_get (FReceivers q) to") (auto simp: ds)
      qed
    qed
  qed
  finally show ?thesis .
qed

lemma entries_distinct:
  assumes "tables_ok s"
  shows "distinct (map (\<lambda>(a, to, h). (a, to)) (entries u s))"
proof -
  let ?pm = "get_or [] (FWhatIsSendingBy s) u" and ?f = "\<lambda>(a, to, h). (a, to)"
  have pm: "om_ok ?pm" "\<And>x. x \<in> set ?pm \<Longrightarrow> expected_ok (FExpected (snd x))"
    using protocols_of_ok [OF assms, of u] by (auto simp: protocols_ok_def om_all_def)
  have inner: "distinct (map ?f (concat (map (\<lambda>(k, rs). map (\<lambda>e. ((p, k), e)) (FReceivers rs)) m)))"
    if "expected_ok m" for p and m :: expecting
  proof (rule distinct_nested [where c = "\<lambda>y. snd (fst y)"])
    show "distinct (map fst m)" using that om_ok_distinct by (auto simp: expected_ok_def)
  next
    fix x assume "x \<in> set m"
    then have "om_ok (FReceivers (snd x))" using that by (auto simp: expected_ok_def om_all_def receivers_ok_def)
    then show "distinct (map ?f (case x of (k, rs) \<Rightarrow> map (\<lambda>e. ((p, k), e)) (FReceivers rs)))"
      using om_ok_distinct [of "FReceivers (snd x)"]
      by (auto simp: distinct_map inj_on_def split_beta)
  qed auto
  show ?thesis unfolding entries_def
  proof (rule distinct_nested [where c = "\<lambda>y. fst (fst y)"])
    show "distinct (map fst ?pm)" using pm(1) by (rule om_ok_distinct)
  next
    fix x assume "x \<in> set ?pm"
    then show "distinct (map ?f (case x of (p, r) \<Rightarrow>
        concat (map (\<lambda>(k, rs). map (\<lambda>e. ((p, k), e)) (FReceivers rs)) (FExpected r))))"
      using inner [OF pm(2), of x "fst x"] by (simp add: split_beta)
  qed auto
qed

text \<open>A demand is registered for one message at most: none is derived from it.\<close>

definition no_derived :: "parsers \<Rightarrow> required_dg \<Rightarrow> bool" where
  "no_derived ps s \<longleftrightarrow>
     (\<forall>e\<in>set (FDGs s). \<forall>d\<in>set (snd e). length (copies ps (FMsgsGenealogy s) d) \<le> 1)"

lemma find_handler:
  assumes "distinct (map FHandler ds)" "d \<in> set ds"
  shows "find (\<lambda>x. FHandler x = FHandler d) ds = Some d"
  using assms by (induction ds) auto

lemma found_slot:
  assumes "handlers_ok h" "slot_holds h W" "W \<subseteq> set ds" "distinct (map FHandler ds)"
  shows "set (sMGetDemandsByHandlers h ds) = W" "distinct (sMGetDemandsByHandlers h ds)"
proof -
  let ?f = "\<lambda>i. find (\<lambda>d. FHandler d = i) ds"
  have f: "?f (FHandler d) = Some d" if "d \<in> W" for d using that assms(3,4) find_handler by blast
  have hs: "set (FHandlers h) = FHandler ` W" using assms(2) by (simp add: slot_holds_def)
  have all: "filter (\<lambda>i. ?f i \<noteq> None) (FHandlers h) = FHandlers h"
    using hs f by (intro filter_True) auto
  have found: "sMGetDemandsByHandlers h ds = map (the \<circ> ?f) (FHandlers h)"
    unfolding sMGetDemandsByHandlers_def List.map_filter_def all by simp
  show "set (sMGetDemandsByHandlers h ds) = W"
    using f by (force simp: found hs image_image)
  have "inj_on (the \<circ> ?f) (set (FHandlers h))" unfolding hs by (rule inj_onI) (auto simp: f)
  then show "distinct (sMGetDemandsByHandlers h ds)"
    using assms(1) by (simp add: found distinct_map handlers_ok_def)
qed

lemma wants_demands: "subs_ok ps s \<Longrightarrow> wants ps g (all_links s) (u, p, k, to) \<subseteq> set (MGetDemandFor to s)"
  by (auto simp: wants_def all_links_def)

lemma found_entry:
  assumes "subs_ok ps s" "((p, k), to, h) \<in> set (entries u s)"
  shows "set (sMGetDemandsByHandlers h (MGetDemandFor to s)) = wants ps (FMsgsGenealogy s) (all_links s) (u, p, k, to)"
    "distinct (sMGetDemandsByHandlers h (MGetDemandFor to s))"
proof -
  have t: "tables_ok s" "\<And>x. slot_holds (table s x) (wants ps (FMsgsGenealogy s) (all_links s) x)"
    using assms(1) by (auto simp: subs_ok_def table_for_def all_hold_def)
  have h: "h = table s (u, p, k, to)" using assms(2) entries_mem [OF t(1)] by blast
  have "distinct (map FHandler (MGetDemandFor to s))" using demands_of_ok [OF assms(1)] by (simp add: demands_ok_def)
  from found_slot [OF table_ok [OF t(1)] t(2) wants_demands [OF assms(1)] this]
  show "set (sMGetDemandsByHandlers h (MGetDemandFor to s)) = wants ps (FMsgsGenealogy s) (all_links s) (u, p, k, to)"
    "distinct (sMGetDemandsByHandlers h (MGetDemandFor to s))"
    unfolding h by blast+
qed

text \<open>The demands of a receiver that are live at a sender and have a place in the table.\<close>

definition placed :: "parsers \<Rightarrow> required_dg \<Rightarrow> uuid \<Rightarrow> uuid \<Rightarrow> demand_dg_t set" where
  "placed ps s u to = {d. (u, to, d) \<in> all_links s \<and> copies ps (FMsgsGenealogy s) d \<noteq> []}"

lemma placed_slots: "placed ps s u to = (\<Union>(p, k)\<in>UNIV. wants ps (FMsgsGenealogy s) (all_links s) (u, p, k, to))"
proof -
  have "copies ps g d \<noteq> [] \<longleftrightarrow> (\<exists>p k. (u, p, k, to) \<in> slots u to (copies ps g d))" for g d
    by (cases "copies ps g d") (auto simp: slots_def slot_of_def)
  then show ?thesis by (auto simp: placed_def wants_def)
qed

definition place_of :: "parsers \<Rightarrow> msg_inheritances_t \<Rightarrow> demand_dg_t \<Rightarrow> ctext \<times> 64 word" where
  "place_of ps g d = (case copies ps g d of
     [] \<Rightarrow> (FProtocol d, 0) | c # _ \<Rightarrow> (FProtocol c, FMessageHeader (FWhat c)))"

lemma wants_one_slot:
  assumes "no_derived ps s" "om_ok (FDGs s)" "d \<in> wants ps (FMsgsGenealogy s) (all_links s) (u, p, k, to)"
  shows "place_of ps (FMsgsGenealogy s) d = (p, k)"
proof -
  have "d \<in> set (MGetDemandFor to s)" using assms(3) by (auto simp: wants_def all_links_def)
  then obtain ds where "(to, ds) \<in> set (FDGs s)" "d \<in> set ds" using demand_entries [OF assms(2)] by blast
  then have "length (copies ps (FMsgsGenealogy s) d) \<le> 1" using assms(1) by (auto simp: no_derived_def)
  moreover have "(u, p, k, to) \<in> slots u to (copies ps (FMsgsGenealogy s) d)" using assms(3) by (simp add: wants_def)
  ultimately show ?thesis
    by (cases "copies ps (FMsgsGenealogy s) d") (auto simp: slots_def slot_of_def place_of_def)
qed

text \<open>What \<open>MGetWhatMsgSentFrom\<close> gives for one receiver, entry by entry.\<close>

abbreviation entries_to :: "uuid \<Rightarrow> uuid \<Rightarrow> required_dg \<Rightarrow> ((ctext \<times> 64 word) \<times> uuid \<times> msg_handlers_t) list" where
  "entries_to u to s \<equiv> filter (\<lambda>e. fst (snd e) = to) (entries u s)"

abbreviation found_in :: "required_dg \<Rightarrow> uuid \<Rightarrow> ((ctext \<times> 64 word) \<times> uuid \<times> msg_handlers_t) \<Rightarrow> demand_dgs_t" where
  "found_in s to e \<equiv> sMGetDemandsByHandlers (snd (snd e)) (MGetDemandFor to s)"

lemma sent_from_list:
  "om_ok (fst (MGetWhatMsgSentFrom u s))"
  "get_or [] (fst (MGetWhatMsgSentFrom u s)) to = concat (map (found_in s to) (entries_to u to s))"
  "snd (MGetWhatMsgSentFrom u s) = 0 \<Longrightarrow> get_or [] (fst (MGetWhatMsgSentFrom u s)) to = []"
proof -
  note c = collect_all [of s "map snd (entries u s)" "[]" 0]
  show "om_ok (fst (MGetWhatMsgSentFrom u s))" using c by (simp add: sent_from_entries)
  show l: "get_or [] (fst (MGetWhatMsgSentFrom u s)) to = concat (map (found_in s to) (entries_to u to s))"
    using c by (simp add: sent_from_entries filter_map comp_def)
  show "get_or [] (fst (MGetWhatMsgSentFrom u s)) to = []" if "snd (MGetWhatMsgSentFrom u s) = 0"
    unfolding l using that c by (auto simp: sent_from_entries)
qed

lemma found_in_entry:
  assumes "subs_ok ps s" "e \<in> set (entries_to u to s)"
  shows "set (found_in s to e) = wants ps (FMsgsGenealogy s) (all_links s) (u, fst (fst e), snd (fst e), to)"
    "distinct (found_in s to e)"
  using assms(2) found_entry [OF assms(1), of "fst (fst e)" "snd (fst e)" "fst (snd e)" "snd (snd e)" u] by auto

lemma sent_from_set:
  assumes ok: "subs_ok ps s"
  shows "set (get_or [] (fst (MGetWhatMsgSentFrom u s)) to) = placed ps s u to"
proof (rule set_eqI)
  fix d
  let ?W = "\<lambda>p k. wants ps (FMsgsGenealogy s) (all_links s) (u, p, k, to)"
  have t: "tables_ok s" "\<And>x. slot_holds (table s x) (wants ps (FMsgsGenealogy s) (all_links s) x)"
    using ok by (auto simp: subs_ok_def table_for_def all_hold_def)
  have mem: "?W p k \<noteq> {} \<Longrightarrow> ((p, k), to, table s (u, p, k, to)) \<in> set (entries_to u to s)" for p k
    using t(2) [of "(u, p, k, to)"] by (auto simp: entries_mem [OF t(1)] slot_holds_def)
  have "d \<in> placed ps s u to \<longleftrightarrow> (\<exists>p k. d \<in> ?W p k)" by (auto simp: placed_slots)
  also have "\<dots> \<longleftrightarrow> (\<exists>e\<in>set (entries_to u to s). d \<in> set (found_in s to e))"
  proof
    assume "\<exists>p k. d \<in> ?W p k"
    then obtain p k where d: "d \<in> ?W p k" by blast
    then have e: "((p, k), to, table s (u, p, k, to)) \<in> set (entries_to u to s)" by (intro mem) auto
    then show "\<exists>e\<in>set (entries_to u to s). d \<in> set (found_in s to e)"
      using found_in_entry(1) [OF ok e] d by (intro bexI [OF _ e]) simp
  next
    assume "\<exists>e\<in>set (entries_to u to s). d \<in> set (found_in s to e)"
    then show "\<exists>p k. d \<in> ?W p k" using found_in_entry(1) [OF ok] by blast
  qed
  finally show "d \<in> set (get_or [] (fst (MGetWhatMsgSentFrom u s)) to) \<longleftrightarrow> d \<in> placed ps s u to"
    by (simp add: sent_from_list(2))
qed

lemma sent_from_distinct:
  assumes ok: "subs_ok ps s" and one: "no_derived ps s"
  shows "distinct (get_or [] (fst (MGetWhatMsgSentFrom u s)) to)"
proof -
  have t: "tables_ok s" and dgs: "om_ok (FDGs s)"
    using ok by (auto simp: subs_ok_def table_for_def all_hold_def)
  have "distinct (map (\<lambda>(a, to, h). (a, to)) (entries_to u to s))"
    using entries_distinct [OF t] by (rule distinct_map_filter)
  then have "inj_on (\<lambda>(a, to, h). (a, to)) (set (entries_to u to s))" "distinct (entries_to u to s)"
    by (auto simp: distinct_map)
  then have keys: "distinct (map fst (entries_to u to s))" by (auto simp: distinct_map inj_on_def)
  have "distinct (map (\<lambda>x. x) (concat (map (found_in s to) (entries_to u to s))))"
  proof (rule distinct_nested [where c = "place_of ps (FMsgsGenealogy s)", OF keys])
    fix e assume e: "e \<in> set (entries_to u to s)"
    show "distinct (map (\<lambda>x. x) (found_in s to e))" using found_in_entry(2) [OF ok e] by simp
    fix d assume "d \<in> set (found_in s to e)"
    then show "place_of ps (FMsgsGenealogy s) d = fst e"
      using wants_one_slot [OF one dgs, of d u "fst (fst e)" "snd (fst e)" to] found_in_entry(1) [OF ok e] by simp
  qed
  then show ?thesis by (simp add: sent_from_list(2))
qed

lemma erase_sender_table:
  assumes "table_for ps s L" "\<And>v to d. (v, to, d) \<in> M \<longleftrightarrow> v \<noteq> u \<and> (v, to, d) \<in> L"
  shows "table_for ps (s\<lparr>FWhatIsSendingBy := om_erase u (FWhatIsSendingBy s)\<rparr>) M"
proof -
  let ?t = "s\<lparr>FWhatIsSendingBy := om_erase u (FWhatIsSendingBy s)\<rparr>"
  have ok: "tables_ok s" "\<And>x. slot_holds (table s x) (wants ps (FMsgsGenealogy s) L x)"
    using assms(1) by (auto simp: table_for_def all_hold_def)
  have "tables_ok ?t" using ok(1) by (simp add: tables_ok_def om_intros)
  moreover have "counted ?t" using assms(1)
    by (auto simp: table_for_def all_hold_def counted_def routing_of_def get_or_erase)
       (simp add: no_routing_def counted_in_def no_receivers_def real_handlers_def)
  moreover have "slot_holds (table ?t x) (wants ps (FMsgsGenealogy s) M x)" for x
  proof -
    obtain v p k to where x: "x = (v, p, k, to)" by (cases x)
    show ?thesis
    proof (cases "v = u")
      case True
      have "table ?t x = no_handlers"
        by (simp add: x True table_def handlers_at_def handlers_in_def routing_of_def get_or_erase no_routing_def
            no_receivers_def)
      moreover have "wants ps (FMsgsGenealogy s) M x = {}" by (simp add: x True wants_def assms(2))
      ultimately show ?thesis by (simp add: slot_holds_empty)
    next
      case False
      have "table ?t x = table s x" using False by (simp add: x table_def handlers_at_def routing_of_def get_or_erase)
      moreover have "wants ps (FMsgsGenealogy s) M x = wants ps (FMsgsGenealogy s) L x"
        using False by (simp add: x wants_def assms(2))
      ultimately show ?thesis using ok(2) by simp
    qed
  qed
  ultimately show ?thesis by (simp add: table_for_def all_hold_def)
qed

lemma handler_key_link: "distinct (map handler_key ws) \<Longrightarrow> distinct (map link_of ws)"
  by (auto simp: distinct_map inj_on_def handler_key_def link_of_def)

lemma ways_to_go:
  assumes ok: "subs_ok ps s" and one: "no_derived ps s" and i: "id_ok (FUuid i) i"
  defines "m \<equiv> fst (MGetWhatMsgSentFrom (FUuid i) s)"
  shows "MGetDistance i m = Some (ways_list i m True)"
    "\<forall>w\<in>set (ways_list i m True). demand_ok ps (FMsgsGenealogy s) (way_what w)"
    "distinct (map link_of (ways_list i m True))"
    "link_of ` set (ways_list i m True) = {(u, to, d). u = FUuid i \<and> d \<in> placed ps s u to}"
    "snd (MGetWhatMsgSentFrom (FUuid i) s) = 0 \<Longrightarrow> ways_list i m True = []"
proof -
  have mok: "om_ok m" unfolding m_def by (rule sent_from_list(1))
  have ds: "ds = get_or [] m to" if "(to, ds) \<in> set m" for to ds
    using that mok by (simp add: get_or_def om_get_mem [symmetric])
  have sub: "set ds \<subseteq> set (MGetDemandFor to s)" "distinct ds" if "(to, ds) \<in> set m" for to ds
    using ds [OF that] sent_from_set [OF ok, of "FUuid i" to] sent_from_distinct [OF ok one, of "FUuid i" to]
    by (auto simp: m_def placed_def all_links_def)
  have dok: "demand_ok ps (FMsgsGenealogy s) d" if "(to, ds) \<in> set m" "d \<in> set ds" for to ds d
    using sub(1) [OF that(1)] that(2) demands_of_ok [OF ok, of to] by (auto simp: demands_ok_def)
  show "MGetDistance i m = Some (ways_list i m True)"
    unfolding MGetDistance_def using dok by (intro ways_of_all_list [OF i]) (auto simp: demand_ok_def)
  show "\<forall>w\<in>set (ways_list i m True). demand_ok ps (FMsgsGenealogy s) (way_what w)"
    using dok by (auto simp: ways_list_def way_of_def)
  have "distinct (map FHandler ds)" if "(to, ds) \<in> set m" for to ds
    using sub [OF that] demands_of_ok [OF ok, of to] by (auto simp: demands_ok_def distinct_map inj_on_subset)
  then show "distinct (map link_of (ways_list i m True))"
    by (intro handler_key_link ways_list_distinct om_ok_distinct mok) auto
  have "(\<exists>ds. (to, ds) \<in> set m \<and> d \<in> set ds) \<longleftrightarrow> d \<in> set (get_or [] m to)" for to d
    using ds by (cases "om_get m to") (auto simp: get_or_def om_get_mem [OF mok, symmetric])
  then show "link_of ` set (ways_list i m True) = {(u, to, d). u = FUuid i \<and> d \<in> placed ps s u to}"
    by (auto simp: ways_list_set m_def sent_from_set [OF ok])
  assume "snd (MGetWhatMsgSentFrom (FUuid i) s) = 0"
  then have "ds = []" if "(to, ds) \<in> set m" for to ds
    using ds [OF that] sent_from_list(3) by (simp add: m_def)
  then show "ways_list i m True = []" by (auto simp: ways_list_def)
qed

lemma remove_receivers_ok:
  assumes "subs_ok ps (dg st)" "no_derived ps (dg st)" "id_ok (FUuid i) i"
  shows "\<exists>st'. MRemoveAllReceiversForMsgsFrom ps i st = Some st'
    \<and> table_for ps (dg st') {l \<in> all_links (dg st). fst l \<noteq> FUuid i}
    \<and> same_rest (dg st) (dg st')"
proof -
  let ?s = "dg st" and ?u = "FUuid i"
  obtain m n where mn: "MGetWhatMsgSentFrom ?u ?s = (m, n)" by fastforce
  let ?ws = "ways_list i m True"
  note w = ways_to_go [OF assms, unfolded mn fst_conv snd_conv]
  have t: "table_for ps ?s (all_links ?s)" using assms(1) by (simp add: subs_ok_def)
  obtain st1 where st1: "unsend_ways ps ?ws st = Some st1"
    "table_for ps (dg st1) (all_links ?s - link_of ` set ?ws)" "same_rest ?s (dg st1)"
    using unsend_ways_links [OF t _ w(3)] w(2,4) by (auto simp: demand_ok_def placed_def)
  have step: "(if n \<noteq> 0
      then MGetDistance i m \<bind> (\<lambda>removed.
           MTakeIntoAccountOnlyNearestSendersIfNeed ?u [] removed ?s \<bind>
           (\<lambda>(a, r, s). MUpdateSendInfoFor ps a r (st\<lparr>dg := s\<rparr>)))
      else Some st) = Some st1"
  proof (cases "n = 0")
    case True
    then show ?thesis using w(5) st1(1) by simp
  next
    case False
    then show ?thesis
      using w(1,2) st1(1) by (simp add: no_nearest_senders demand_ok_def MUpdateSendInfoFor_def)
  qed
  let ?t = "(dg st1)\<lparr>FWhatIsSendingBy := om_erase ?u (FWhatIsSendingBy (dg st1))\<rparr>"
  have "MRemoveAllReceiversForMsgsFrom ps i st = Some (st1\<lparr>dg := ?t\<rparr>)"
    unfolding MRemoveAllReceiversForMsgsFrom_def mn Let_def prod.case step by simp
  moreover have "table_for ps ?t {l \<in> all_links ?s. fst l \<noteq> ?u}"
    by (rule erase_sender_table [OF st1(2)]) (auto simp: w(4))
  ultimately show ?thesis using st1(3) by (auto simp: same_rest_def)
qed

lemma remove_client_ok:
  assumes "subs_ok ps s" "no_derived ps s"
  shows "\<exists>st. MRemoveClient ps u s = Some st \<and> subs_ok ps (dg st)
    \<and> FIds (dg st) = om_erase u (FIds s)
    \<and> FDGs (dg st) = (if om_has u (FIds s) then om_erase u (FDGs s) else FDGs s)
    \<and> FMsgsGenealogy (dg st) = FMsgsGenealogy s"
proof (cases "om_get (FIds s) u")
  case None
  then have "om_erase u (FIds s) = FIds s"
    unfolding om_erase_def by (intro filter_True) (auto simp: map_of_eq_None_iff)
  then show ?thesis
    using None assms(1) by (simp add: MRemoveClient_def MGetIdBy_def get_or_def id_MIsValid_def id_of_uuid_def
        start_run_def om_has_def)
next
  case (Some i)
  have "id_ok u i" using assms(1) map_of_SomeD [OF Some] by (auto simp: subs_ok_def ids_ok_def)
  then have i: "id_ok (FUuid i) i" "FUuid i = u" "id_MIsValid i" by (auto simp: id_ok_def id_MIsValid_def)
  obtain st1 where st1: "MRemoveAllSendersOfMsgsFor ps u (start_run s) = Some st1" "subs_ok ps (dg st1)"
    "same_rest (s\<lparr>FDGs := om_erase u (FDGs s)\<rparr>) (dg st1)"
    using remove_all_senders_ok [of ps "start_run s" u] assms(1) by (auto simp: start_run_def)
  have "no_derived ps (dg st1)" using st1(3) assms(2) by (auto simp: same_rest_def no_derived_def om_erase_def)
  from remove_receivers_ok [OF st1(2) this i(1)] obtain st2 where
    st2: "MRemoveAllReceiversForMsgsFrom ps i st1 = Some st2"
      "table_for ps (dg st2) {l \<in> all_links (dg st1). fst l \<noteq> u}" "same_rest (dg st1) (dg st2)"
    unfolding i(2) by blast
  have rest: "FIds (dg st2) = FIds s" "FDGs (dg st2) = om_erase u (FDGs s)" "FIds (dg st1) = FIds s"
    "FDGs (dg st1) = om_erase u (FDGs s)" "FMsgsGenealogy (dg st2) = FMsgsGenealogy s"
    using st1(3) st2(3) by (auto simp: same_rest_def)
  let ?t = "(dg st2)\<lparr>FIds := om_erase u (FIds s)\<rparr>"
  have "{l \<in> all_links (dg st1). fst l \<noteq> u} = all_links ?t"
    by (auto simp: all_links_def rest MGetDemandFor_def senders_def om_get_erase split: if_splits)
  moreover have "ids_ok (om_erase u (FIds s))"
    using assms(1) by (auto simp: subs_ok_def ids_ok_def om_erase_def om_ok_filter)
  ultimately have "subs_ok ps ?t"
    using st2(2) assms(1) by (simp add: subs_ok_def rest om_intros)
  moreover have "MRemoveClient ps u s = Some (st2\<lparr>dg := ?t\<rparr>)"
    using Some st1(1) st2(1) i rest(1)
    by (simp add: MRemoveClient_def MGetIdBy_def get_or_def om_has_def)
  ultimately show ?thesis using rest Some by (auto simp: om_has_def)
qed

lemma nearest_least:
  assumes "om_ok r"
  shows "om_get (MGetOnlyNearestUUIDFor r) u = Some n \<longleftrightarrow>
    om_get r u = Some n \<and> (\<forall>v k. om_get r v = Some k \<longrightarrow> n \<le> k)"
proof (cases r)
  case Nil
  then show ?thesis by (simp add: MGetOnlyNearestUUIDFor_def)
next
  case (Cons e es)
  let ?m = "Min (snd ` set r)"
  have "fold min (map snd es) (snd e) = ?m" using Min.set_eq_fold [of "snd e" "map snd es"] by (simp add: Cons)
  then have "MGetOnlyNearestUUIDFor r = filter (\<lambda>x. snd x = ?m) r"
    by (simp add: MGetOnlyNearestUUIDFor_def Cons)
  moreover have "om_ok (filter (\<lambda>x. snd x = ?m) r)" using assms by (rule om_ok_filter)
  ultimately have "om_get (MGetOnlyNearestUUIDFor r) u = Some n \<longleftrightarrow> (u, n) \<in> set r \<and> n = ?m"
    by (simp add: om_get_mem)
  also have "n = ?m \<longleftrightarrow> n \<in> snd ` set r \<and> (\<forall>k\<in>snd ` set r. n \<le> k)"
    by (rule eq_Min_iff) (simp_all add: Cons)
  also have "(u, n) \<in> set r \<and> n \<in> snd ` set r \<and> (\<forall>k\<in>snd ` set r. n \<le> k) \<longleftrightarrow>
      (u, n) \<in> set r \<and> (\<forall>v k. (v, k) \<in> set r \<longrightarrow> n \<le> k)"
  proof -
    have "(\<forall>k\<in>snd ` set r. n \<le> k) \<longleftrightarrow> (\<forall>v k. (v, k) \<in> set r \<longrightarrow> n \<le> k)" by auto
    moreover have "(u, n) \<in> set r \<Longrightarrow> n \<in> snd ` set r" by (rule image_eqI [of _ snd "(u, n)"]) simp_all
    ultimately show ?thesis by blast
  qed
  finally show ?thesis using om_get_mem [OF assms] by simp
qed

section \<open>Runs\<close>

datatype sub_op = Come id_t | Go uuid | Demand id_t demand_dgs_t

fun sub_step :: "parsers \<Rightarrow> required_dg \<Rightarrow> sub_op \<Rightarrow> required_dg option" where
  "sub_step ps s (Come i) = map_option dg (MAddClient ps i s)"
| "sub_step ps s (Go u) = map_option dg (MRemoveClient ps u s)"
| "sub_step ps s (Demand i ds) = map_option dg (MSetDemandsDGFor ps i ds s)"

text \<open>
  The discipline: a program comes once, with a name that can be taken apart; the demands of a
  program have handlers of their own, ask for every sender and not only for the nearest, and
  differ from its old ones in more than the handler; when a program goes, no demand is for
  derived messages. The last three are needed: see the closed examples below.
\<close>

fun sub_allowed :: "parsers \<Rightarrow> required_dg \<Rightarrow> sub_op \<Rightarrow> bool" where
  "sub_allowed ps s (Come i) = (id_ok (FUuid i) i \<and> \<not> om_has (FUuid i) (FIds s))"
| "sub_allowed ps s (Go u) = no_derived ps s"
| "sub_allowed ps s (Demand i ds) =
     (demands_ok ps (FMsgsGenealogy s) ds \<and> same_demands ds (MGetDemandFor (FUuid i) s))"

text \<open>The specification: the programs that are there, and the demands of each.\<close>

type_synonym sub_spec = "(uuid \<Rightarrow> id_t option) \<times> (uuid \<Rightarrow> demand_dgs_t)"

fun spec_step :: "sub_op \<Rightarrow> sub_spec \<Rightarrow> sub_spec" where
  "spec_step (Come i) (ids, D) = (ids(FUuid i := Some i), D)"
| "spec_step (Go u) (ids, D) = (ids(u := None), if ids u = None then D else D(u := []))"
| "spec_step (Demand i ds) (ids, D) = (ids, D(FUuid i := ds))"

definition sub_abs :: "required_dg \<Rightarrow> sub_spec" where
  "sub_abs s = (om_get (FIds s), \<lambda>u. MGetDemandFor u s)"

lemma sub_step_ok:
  assumes "subs_ok ps s" "FMsgsGenealogy s = g" "sub_allowed ps s x"
  shows "\<exists>t. sub_step ps s x = Some t \<and> subs_ok ps t \<and> FMsgsGenealogy t = g \<and> sub_abs t = spec_step x (sub_abs s)"
proof (cases x)
  case (Come i)
  then obtain st where "MAddClient ps i s = Some st" "subs_ok ps (dg st)"
    "FIds (dg st) = om_insert (FUuid i) i (FIds s)" "FDGs (dg st) = FDGs s" "FMsgsGenealogy (dg st) = FMsgsGenealogy s"
    using add_client_ok [OF assms(1), of i] assms(3) by auto
  then show ?thesis
    using Come assms by (auto simp: sub_abs_def MGetDemandFor_def fun_eq_iff om_get_insert)
next
  case (Go u)
  then obtain st where "MRemoveClient ps u s = Some st" "subs_ok ps (dg st)"
    "FIds (dg st) = om_erase u (FIds s)" "FDGs (dg st) = (if om_has u (FIds s) then om_erase u (FDGs s) else FDGs s)"
    "FMsgsGenealogy (dg st) = FMsgsGenealogy s"
    using remove_client_ok [OF assms(1), of u] assms(3) by auto
  then show ?thesis
    using Go assms by (auto simp: sub_abs_def MGetDemandFor_def fun_eq_iff om_get_erase get_or_erase om_has_def)
next
  case (Demand i ds)
  then obtain st where "MSetDemandsDGFor ps i ds s = Some st" "subs_ok ps (dg st)"
    "FIds (dg st) = FIds s" "FMsgsGenealogy (dg st) = FMsgsGenealogy s"
    "\<forall>to. MGetDemandFor to (dg st) = (if to = FUuid i then ds else MGetDemandFor to s)"
    using set_demands_ok [OF assms(1), of ds i] assms(3) by auto
  then show ?thesis using Demand assms by (auto simp: sub_abs_def fun_eq_iff)
qed

interpretation sb: refined_component "sub_step ps" "sub_allowed ps"
  "\<lambda>s. subs_ok ps s \<and> FMsgsGenealogy s = g" sub_abs spec_step for ps g
proof (unfold_locales; elim conjE)
  fix s x
  assume s: "subs_ok ps s" "FMsgsGenealogy s = g" "sub_allowed ps s x"
  show "\<exists>t. sub_step ps s x = Some t" using sub_step_ok [OF s] by blast
  fix t assume "sub_step ps s x = Some t"
  then show "subs_ok ps t \<and> FMsgsGenealogy t = g" "sub_abs t = spec_step x (sub_abs s)"
    using sub_step_ok [OF s] by auto
qed

lemma start_ok: "subs_ok ps (CRequiredDG\<lparr>FMsgsGenealogy := g\<rparr>)"
  by (simp add: subs_ok_def CRequiredDG_def ids_ok_def table_for_def all_hold_def tables_ok_def all_links_def
      MGetDemandFor_def wants_def table_def handlers_at_def handlers_in_def routing_of_def no_routing_def
      no_receivers_def slot_holds_empty counted_def counted_in_def real_handlers_def split: prod.splits)

lemma handlers_from_links:
  assumes "subs_ok ps s"
  shows "h \<in> set (FHandlers (handlers_at s src p k to)) \<longleftrightarrow>
     (\<exists>i d. om_get (FIds s) src = Some i \<and> d \<in> set (MGetDemandFor to s) \<and> depth_of i d \<noteq> 0 \<and> FHandler d = h
        \<and> (p, k) \<in> (\<lambda>c. (FProtocol c, FMessageHeader (FWhat c))) ` set (copies ps (FMsgsGenealogy s) d))"
proof -
  have "slot_holds (table s (src, p, k, to)) (wants ps (FMsgsGenealogy s) (all_links s) (src, p, k, to))"
    using assms by (auto simp: subs_ok_def table_for_def all_hold_def)
  then have "set (FHandlers (handlers_at s src p k to))
      = FHandler ` wants ps (FMsgsGenealogy s) (all_links s) (src, p, k, to)"
    by (simp add: slot_holds_def table_def)
  moreover have "(src, p, k, to) \<in> slots src to cs \<longleftrightarrow> (p, k) \<in> (\<lambda>c. (FProtocol c, FMessageHeader (FWhat c))) ` set cs" for cs
    by (auto simp: slots_def slot_of_def)
  ultimately show ?thesis by (auto simp: wants_def all_links_def senders_def image_iff)
qed

text \<open>
  The demands that bring a message of a sender to their programs, each with its program, and those
  of them that are real: a registrator only watches.
\<close>

definition demanded :: "parsers \<Rightarrow> msg_inheritances_t \<Rightarrow> sub_spec \<Rightarrow> uuid \<Rightarrow> ctext \<Rightarrow> 64 word \<Rightarrow> (uuid \<times> demand_dg_t) set" where
  "demanded ps g sp src p k = {(to, x). (\<exists>i. fst sp src = Some i \<and> depth_of i x \<noteq> 0) \<and> x \<in> set (snd sp to)
     \<and> (p, k) \<in> (\<lambda>c. (FProtocol c, FMessageHeader (FWhat c))) ` set (copies ps g x)}"

definition real_demands :: "parsers \<Rightarrow> msg_inheritances_t \<Rightarrow> sub_spec \<Rightarrow> uuid \<Rightarrow> ctext \<Rightarrow> 64 word \<Rightarrow> (uuid \<times> demand_dg_t) set" where
  "real_demands ps g sp src p k = {(to, x) \<in> demanded ps g sp src p k. \<not> MIsRegistrator x}"

lemma wants_demanded:
  "x \<in> wants ps g (all_links s) (src, p, k, to) \<longleftrightarrow> (to, x) \<in> demanded ps g (om_get (FIds s), \<lambda>u. MGetDemandFor u s) src p k"
  by (auto simp: wants_def all_links_def senders_def slots_def slot_of_def demanded_def image_iff)

lemma sum_receivers:
  assumes "om_ok m"
  shows "sum_list (map (f \<circ> snd) m) = (\<Sum>u\<in>fst ` set m. f (get_or e m u))"
proof -
  have "sum_list (map (f \<circ> snd) m) = (\<Sum>x\<in>set m. f (snd x))"
    using om_ok_distinct [OF assms] by (simp add: sum_list_distinct_conv_sum_set distinct_map)
  also have "\<dots> = (\<Sum>x\<in>set m. f (get_or e m (fst x)))"
    using om_ok_distinct [OF assms] by (intro sum.cong) (auto simp: get_or_def)
  also have "\<dots> = (\<Sum>u\<in>fst ` set m. f (get_or e m u))"
    using om_ok_distinct [OF assms] by (simp add: sum.reindex distinct_map)
  finally show ?thesis .
qed

lemma real_receivers_counted:
  assumes "subs_ok ps s"
  shows "FNumberOfRealReceivers (get_or no_receivers (FExpected (routing_of src p s)) k) =
    of_nat (card (real_demands ps (FMsgsGenealogy s) (om_get (FIds s), \<lambda>u. MGetDemandFor u s) src p k))"
proof -
  let ?m = "FExpected (routing_of src p s)" and ?W = "\<lambda>u. wants ps (FMsgsGenealogy s) (all_links s) (src, p, k, u)"
  let ?r = "get_or no_receivers ?m k" and ?real = "\<lambda>u. {x \<in> wants ps (FMsgsGenealogy s) (all_links s) (src, p, k, u). \<not> MIsRegistrator x}"
  have s: "tables_ok s" "counted s" "slot_holds (handlers_in ?m k u) (?W u)" for u
    using assms by (auto simp: subs_ok_def table_for_def all_hold_def table_def handlers_at_def)
  have r: "om_ok (FReceivers ?r)" using receivers_of_ok [OF routing_expected_ok [OF s(1)]] by (simp add: receivers_ok_def)
  have h: "handlers_in ?m k u = get_or no_handlers (FReceivers ?r) u" for u by (simp add: handlers_in_def)
  have "u \<in> fst ` set (FReceivers ?r)" if "x \<in> ?W u" for u x
  proof (rule ccontr)
    assume "u \<notin> fst ` set (FReceivers ?r)"
    then have "handlers_in ?m k u = no_handlers" unfolding h get_or_def by (simp add: map_of_eq_None_iff [symmetric])
    then show False using s(3) [of u] that by (simp add: slot_holds_def no_handlers_def)
  qed
  then have all: "real_demands ps (FMsgsGenealogy s) (om_get (FIds s), \<lambda>u. MGetDemandFor u s) src p k
      = (SIGMA u : fst ` set (FReceivers ?r). ?real u)"
    by (auto simp: real_demands_def wants_demanded)
  have "real_handlers ?r = (\<Sum>u\<in>fst ` set (FReceivers ?r). int (card (?real u)))"
    using s(3) unfolding real_handlers_def sum_receivers [OF r, of _ no_handlers] h [symmetric] by (simp add: slot_holds_def)
  also have "\<dots> = int (card (SIGMA u : fst ` set (FReceivers ?r). ?real u))"
    using s(3) by (subst card_SigmaI) (auto simp: slot_holds_def)
  finally show ?thesis using s(2) unfolding all counted_def counted_in_def by simp
qed

lemma run_follows_demands:
  fixes ps g ops
  defines "start \<equiv> CRequiredDG\<lparr>FMsgsGenealogy := g\<rparr>"
  assumes "disciplined (sub_step ps) (sub_allowed ps) start ops"
    and "fold spec_step ops (Map.empty, \<lambda>_. []) = (ids, D)"
  shows "\<exists>s. run_ops (sub_step ps) start ops = Some s \<and> tables_ok s \<and> counted s \<and>
     (\<forall>src p k to h. h \<in> set (FHandlers (handlers_at s src p k to)) \<longleftrightarrow>
         (\<exists>i d. ids src = Some i \<and> d \<in> set (D to) \<and> depth_of i d \<noteq> 0 \<and> FHandler d = h
            \<and> (p, k) \<in> (\<lambda>c. (FProtocol c, FMessageHeader (FWhat c))) ` set (copies ps g d))) \<and>
     (\<forall>src p k. FNumberOfRealReceivers (get_or no_receivers (FExpected (routing_of src p s)) k) =
        of_nat (card (real_demands ps g (ids, D) src p k)))"
proof -
  have abs: "sub_abs start = (Map.empty, \<lambda>_. [])"
    by (simp add: sub_abs_def start_def CRequiredDG_def MGetDemandFor_def fun_eq_iff)
  have "subs_ok ps start \<and> FMsgsGenealogy start = g" using start_ok by (simp add: start_def)
  from sb.run_refines [OF this assms(2)] obtain s where
    s: "run_ops (sub_step ps) start ops = Some s" "subs_ok ps s" "FMsgsGenealogy s = g" "sub_abs s = (ids, D)"
    unfolding abs assms(3) by blast
  have "tables_ok s" "counted s" using s(2) by (simp_all add: subs_ok_def table_for_def all_hold_def)
  moreover have "ids = om_get (FIds s)" "D = (\<lambda>u. MGetDemandFor u s)" using s(4) by (auto simp: sub_abs_def)
  ultimately show ?thesis using s(1) handlers_from_links [OF s(2)] real_receivers_counted [OF s(2)] s(3) by auto
qed

section \<open>Properties\<close>

definition no_parsers :: parsers where
  "no_parsers = (\<lambda>_. None)"

definition program :: "uuid \<Rightarrow> string \<Rightarrow> id_t" where
  "program u n = \<lparr>FUuid = u, FName = n\<rparr>"

definition wanted :: "handler_id \<Rightarrow> 64 word \<Rightarrow> 32 word \<Rightarrow> 32 word \<Rightarrow> string \<Rightarrow> demand_dg_t" where
  "wanted h msg prio flags from = \<lparr>FHandlerPriority = prio,
     FWhat = \<lparr>FVersion = no_version, FMessageHeader = msg\<rparr>, FNameFrom = from,
     FUUIDFrom = None, FProtocol = RAW_PROTOCOL_NAME, FHandler = h, FFlags = flags\<rparr>"

text \<open>Message 2 is derived from message 1.\<close>

definition one_derived :: msg_inheritances_t where
  "one_derived = [(RAW_PROTOCOL_NAME, [(1, (\<lparr>FVersion = no_version, FMessageHeader = 1\<rparr>,
     \<lparr>FBaseMessages = [], FSubMessages = [\<lparr>FProtcol = RAW_PROTOCOL_NAME,
        FHeader = \<lparr>FVersion = no_version, FMessageHeader = 2\<rparr>, FDepth = 0\<rparr>]\<rparr>))])]"

definition sample_run :: "sub_op list" where
  "sample_run = [Come (program 7 ''sensor@a''), Come (program 8 ''view''),
     Demand (program 8 ''view'') [wanted 4 1 5 0 ''sensor@a''], Come (program 9 ''sensor@a.b'')]"


lemma sample_run_disciplined:
  "disciplined (sub_step no_parsers) (sub_allowed no_parsers) (CRequiredDG\<lparr>FMsgsGenealogy := one_derived\<rparr>) sample_run"
  by code_simp


text \<open>A program whose name matches a demand, and no other one's matches at a smaller depth.\<close>

definition nearest_for :: "required_dg \<Rightarrow> demand_dg_t \<Rightarrow> uuid \<Rightarrow> id_t \<Rightarrow> bool" where
  "nearest_for s d u i \<longleftrightarrow> om_get (FIds s) u = Some i \<and> depth_of i d \<noteq> 0
     \<and> (\<forall>v j. om_get (FIds s) v = Some j \<longrightarrow> depth_of j d \<noteq> 0 \<longrightarrow> depth_of i d \<le> depth_of j d)"

lemma nearest_uuids:
  assumes "ids_ok (FIds s)" "name_text_ok (FNameFrom d)"
  shows "\<exists>r. MGetUUIDFor (FNameFrom d) (is_invert d) s = Some r \<and> distinct (map fst (MGetOnlyNearestUUIDFor r))
    \<and> (\<forall>u n. (u, n) \<in> set (MGetOnlyNearestUUIDFor r) \<longleftrightarrow> (\<exists>i. nearest_for s d u i \<and> n = depth_of i d))
    \<and> (MGetOnlyNearestUUIDFor r = [] \<longleftrightarrow> (\<forall>v j. om_get (FIds s) v = Some j \<longrightarrow> depth_of j d = 0))"
proof -
  obtain r where r: "MGetUUIDFor (FNameFrom d) (is_invert d) s = Some r" "om_ok r"
    "\<And>u v. om_get r u = Some v \<longleftrightarrow> (\<exists>i. om_get (FIds s) u = Some i \<and> depth_of i d = v \<and> v \<noteq> 0)"
    using get_uuids [OF assms] by blast
  have form: "MGetOnlyNearestUUIDFor r = filter (\<lambda>x. snd x = Min (snd ` set r)) r"
  proof (cases r)
    case (Cons e es)
    then show ?thesis using Min.set_eq_fold [of "snd e" "map snd es"] by (simp add: MGetOnlyNearestUUIDFor_def)
  qed (simp add: MGetOnlyNearestUUIDFor_def)
  have ok: "om_ok (MGetOnlyNearestUUIDFor r)" unfolding form using r(2) by (rule om_ok_filter)
  have mem: "(u, n) \<in> set (MGetOnlyNearestUUIDFor r) \<longleftrightarrow> (\<exists>i. nearest_for s d u i \<and> n = depth_of i d)" for u n
    unfolding om_get_mem [OF ok, symmetric] nearest_least [OF r(2)] r(3) nearest_for_def by blast
  have "\<exists>u. (u, Min (snd ` set r)) \<in> set r" if "r \<noteq> []"
    using Min_in [of "snd ` set r"] that by (auto simp: image_iff)
  then have "MGetOnlyNearestUUIDFor r = [] \<longleftrightarrow> r = []" unfolding form filter_empty_conv by fastforce
  also have "\<dots> \<longleftrightarrow> (\<forall>u v. om_get r u \<noteq> Some v)" by (cases r) (auto split: if_splits)
  also have "\<dots> \<longleftrightarrow> (\<forall>v j. om_get (FIds s) v = Some j \<longrightarrow> depth_of j d = 0)" unfolding r(3) by auto
  finally show ?thesis using om_ok_distinct [OF ok] mem by (intro exI [of _ r] conjI allI r(1))
qed

text \<open>
  C39: taking a demand for the nearest senders, at the moment it is made: let the handler be a new one
  of the receiver, the name well formed, the message and those derived from it different ones, and
  no other demand a nearest one. The demand is registered at exactly the programs that
  match it at the least depth, for its message and the derived ones, and nothing else of the table
  changes; the depth is noted, or the greatest number when no program matches. (What becomes of the
  demand when senders come and go later is not claimed; \<open>farther_sender_ignored\<close> shows an error there.)
\<close>

theorem nearest_senders_exact:
  assumes "subs_ok ps (dg st)" "is_nearest d" "name_text_ok (FNameFrom d)" "demand_fits ps (FMsgsGenealogy (dg st)) d"
    "FHandler d \<notin> FHandler ` set (MGetDemandFor to (dg st))"
  shows "\<exists>st'. MAddSendersOfMsgFor ps to [d] st = Some st'
    \<and> (\<forall>src p k tt h. h \<in> set (FHandlers (handlers_at (dg st') src p k tt)) \<longleftrightarrow>
         h \<in> set (FHandlers (handlers_at (dg st) src p k tt))
         \<or> tt = to \<and> h = FHandler d \<and> (\<exists>i. nearest_for (dg st) d src i)
           \<and> (p, k) \<in> (\<lambda>c. (FProtocol c, FMessageHeader (FWhat c))) ` set (copies ps (FMsgsGenealogy (dg st)) d))
    \<and> (\<forall>src i. nearest_for (dg st) d src i \<longrightarrow> nearest_of to (FHandler d) (dg st') = depth_of i d)
    \<and> ((\<forall>v j. om_get (FIds (dg st)) v = Some j \<longrightarrow> depth_of j d = 0) \<longrightarrow> nearest_of to (FHandler d) (dg st') = UINT_MAX)"
proof -
  have ids: "ids_ok (FIds (dg st))" and L: "table_for ps (dg st) (all_links (dg st))" using assms(1) by (simp_all add: subs_ok_def)
  obtain r where r: "MGetUUIDFor (FNameFrom d) (is_invert d) (dg st) = Some r" "distinct (map fst (MGetOnlyNearestUUIDFor r))"
    "\<And>u n. (u, n) \<in> set (MGetOnlyNearestUUIDFor r) \<longleftrightarrow> (\<exists>i. nearest_for (dg st) d u i \<and> n = depth_of i d)"
    "MGetOnlyNearestUUIDFor r = [] \<longleftrightarrow> (\<forall>v j. om_get (FIds (dg st)) v = Some j \<longrightarrow> depth_of j d = 0)"
    using nearest_uuids [OF ids assms(3)] by blast
  let ?us = "MGetOnlyNearestUUIDFor r" and ?g = "FMsgsGenealogy (dg st)"
  let ?n = "case MGetOnlyNearestUUIDFor r of [] \<Rightarrow> UINT_MAX | u # _ \<Rightarrow> snd u"
  let ?s = "set_nearest to (FHandler d) ?n (dg st)"
  let ?t = "send_all ps (map fst ?us) to d (st\<lparr>dg := ?s\<rparr>)"
  let ?M = "all_links (dg st) \<union> {(u, to, d) |u. u \<in> set (map fst ?us)}"
  have "table_for ps (dg (st\<lparr>dg := ?s\<rparr>)) (all_links (dg st))" using L by (simp add: set_nearest_def)
  moreover have "FMsgsGenealogy ?s = ?g" by (simp add: set_nearest_def)
  moreover have "FHandler e \<noteq> FHandler d" if "(u, to, e) \<in> all_links (dg st)" for u e
  proof -
    have "e \<in> set (MGetDemandFor to (dg st))" using that by (simp add: all_links_def)
    then show ?thesis using assms(5) by (metis imageI)
  qed
  ultimately have t: "table_for ps (dg ?t) ?M" "same_rest ?s (dg ?t)"
    using send_all_links [of ps "st\<lparr>dg := ?s\<rparr>" "all_links (dg st)" d "map fst ?us" to] assms(4) r(2) by auto
  have run: "MAddSendersOfMsgFor ps to [d] st = Some ?t" using r(1) assms(2) by (simp add: Let_def)
  have slot: "set (FHandlers (handlers_at s src p k tt)) = FHandler ` wants ps ?g K (src, p, k, tt)"
    if "table_for ps s K" "FMsgsGenealogy s = ?g" for s K src p k tt
  proof -
    have "slot_holds (table s (src, p, k, tt)) (wants ps ?g K (src, p, k, tt))"
      using that by (simp add: table_for_def all_hold_def)
    then show ?thesis by (simp add: slot_holds_def table_def)
  qed
  have "FMsgsGenealogy (dg ?t) = ?g" using t(2) by (simp add: same_rest_def set_nearest_def)
  note after = slot [OF t(1) this] and before = slot [OF L refl]
  have near: "src \<in> set (map fst ?us) \<longleftrightarrow> (\<exists>i. nearest_for (dg st) d src i)" for src using r(3) by (force simp: image_iff)
  have "wants ps ?g ?M (src, p, k, tt) = wants ps ?g (all_links (dg st)) (src, p, k, tt) \<union>
      (if tt = to \<and> (\<exists>i. nearest_for (dg st) d src i)
         \<and> (p, k) \<in> (\<lambda>c. (FProtocol c, FMessageHeader (FWhat c))) ` set (copies ps ?g d) then {d} else {})" for src p k tt
    unfolding near [symmetric] by (auto simp: wants_def slots_def slot_of_def image_iff)
  then have "h \<in> set (FHandlers (handlers_at (dg ?t) src p k tt)) \<longleftrightarrow>
         h \<in> set (FHandlers (handlers_at (dg st) src p k tt))
         \<or> tt = to \<and> h = FHandler d \<and> (\<exists>i. nearest_for (dg st) d src i)
           \<and> (p, k) \<in> (\<lambda>c. (FProtocol c, FMessageHeader (FWhat c))) ` set (copies ps ?g d)" for src p k tt h
    unfolding after before by (auto split: if_splits)
  moreover have noted: "nearest_of to (FHandler d) (dg ?t) = ?n"
    using t(2) by (simp add: same_rest_def nearest_of_def set_nearest_def get_or_set)
  moreover have "?n = depth_of i d" if n: "nearest_for (dg st) d src i" for src i
  proof (cases ?us)
    case Nil
    then show ?thesis using n r(3) by force
  next
    case (Cons e es)
    then obtain j where "nearest_for (dg st) d (fst e) j" "snd e = depth_of j d" using r(3) [of "fst e" "snd e"] by auto
    then show ?thesis using Cons n by (auto simp: nearest_for_def intro!: order.antisym)
  qed
  moreover have "?n = UINT_MAX" if "\<forall>v j. om_get (FIds (dg st)) v = Some j \<longrightarrow> depth_of j d = 0"
  proof -
    have "?us = []" unfolding r(4) by (rule that)
    then show ?thesis by simp
  qed
  ultimately show ?thesis using run by (intro exI [of _ ?t]) (simp only: noted, blast)
qed

text \<open>Programs 7 and 9 match at the depths 3 and 2; a demand of 8 is registered at 9.\<close>

definition near_and_far :: "required_dg option" where
  "near_and_far = run_ops (sub_step no_parsers) (CRequiredDG\<lparr>FMsgsGenealogy := []\<rparr>)
     [Come (program 7 ''sensor@a.c.d''), Come (program 9 ''sensor@a.b'')]"

theorem nearest_senders_exact_witness:
  "\<exists>s st'. near_and_far = Some s \<and> MAddSendersOfMsgFor no_parsers 8 [wanted 4 1 5 E_NEAREST ''sensor@a''] (start_run s) = Some st'
     \<and> 4 \<in> set (FHandlers (handlers_at (dg st') 9 RAW_PROTOCOL_NAME 1 8))
     \<and> nearest_of 8 4 (dg st') = 2"
proof -
  let ?start = "CRequiredDG\<lparr>FMsgsGenealogy := []\<rparr>" and ?d = "wanted 4 1 5 E_NEAREST ''sensor@a''"
  let ?xs = "[Come (program 7 ''sensor@a.c.d''), Come (program 9 ''sensor@a.b'')]"
  have "subs_ok no_parsers ?start \<and> FMsgsGenealogy ?start = []" using start_ok by simp
  moreover have "disciplined (sub_step no_parsers) (sub_allowed no_parsers) ?start ?xs" by code_simp
  ultimately obtain s where s: "near_and_far = Some s" "subs_ok no_parsers s" "FMsgsGenealogy s = []"
    "sub_abs s = fold spec_step ?xs (sub_abs ?start)"
    using sb.run_refines unfolding near_and_far_def by blast
  have ids: "om_get (FIds s) = [7 \<mapsto> program 7 ''sensor@a.c.d'', 9 \<mapsto> program 9 ''sensor@a.b'']" and none: "MGetDemandFor 8 s = []"
    using s(4) by (auto simp: sub_abs_def program_def fun_eq_iff CRequiredDG_def MGetDemandFor_def)
  have d: "is_nearest ?d" "name_text_ok (FNameFrom ?d)" "demand_fits no_parsers [] ?d" "FHandler ?d = 4"
    "depth_of (program 9 ''sensor@a.b'') ?d = 2" "depth_of (program 7 ''sensor@a.c.d'') ?d = 3"
    "(RAW_PROTOCOL_NAME, 1) \<in> (\<lambda>c. (FProtocol c, FMessageHeader (FWhat c))) ` set (copies no_parsers [] ?d)" by code_simp+
  have near: "nearest_for (dg (start_run s)) ?d 9 (program 9 ''sensor@a.b'')"
    by (simp add: nearest_for_def start_run_def ids d)
  show ?thesis
    using nearest_senders_exact [of no_parsers "start_run s" ?d 8] s(1-3) near none d by (fastforce simp: start_run_def)
qed

text \<open>
  Registering a receiver for a message changes one place of the table, and the sender is
  told exactly when it was the first real handler of the receiver; un-registering changes the
  same place back, empties it with the last handler, and tells with the last real one.
\<close>

theorem register_unregister_exact:
  assumes "tables_ok (dg st)" "FHandler w \<notin> set (FHandlers (table (dg st) (slot_of src to w)))"
    "MRegisteringReceiverForMsg inform w src to st = (b, st1)"
  shows "(b \<longleftrightarrow> \<not> MIsRegistrator w \<and> FNumberOfRealHandlers (table (dg st) (slot_of src to w)) = 0)
    \<and> sub_new st1 = (if b \<and> inform then push_demand src (w\<lparr>FUUIDFrom := Some to\<rparr>) (sub_new st) else sub_new st)
    \<and> (\<forall>x. x \<noteq> slot_of src to w \<longrightarrow> table (dg st1) x = table (dg st) x)
    \<and> set (FHandlers (table (dg st1) (slot_of src to w))) = insert (FHandler w) (set (FHandlers (table (dg st) (slot_of src to w))))
    \<and> (\<exists>st2. MUnRegisteringReceiverForMsg inform w src to st1 = Some (b, st2) \<and> tables_ok (dg st2)
         \<and> sub_old st2 = (if b \<and> inform then push_demand src (w\<lparr>FUUIDFrom := Some to\<rparr>) (sub_old st1) else sub_old st1)
         \<and> (\<forall>x. FHandlers (table (dg st2) x) = FHandlers (table (dg st) x)))"
proof -
  let ?x = "slot_of src to w" and ?h = "table (dg st) (slot_of src to w)"
  note r = register_table [OF assms(1,3)]
  have hok: "handlers_ok ?h" using assms(1) by (rule table_ok)
  obtain q t where qt: "MAddHandler w ?h = (q, t)" by (cases "MAddHandler w ?h")
  then have t: "MAddHandler w ?h = (b, t)" and t1: "table (dg st1) ?x = t" using r by simp_all
  note a = MAddHandler_ok [OF hok t]
  obtain u where u: "MRemoveHandler w t = Some (b, u)" "handlers_ok u" "FHandlers u = FHandlers ?h"
    using remove_after_add [OF hok assms(2) t] by blast
  have "FHandlers (table (dg st1) ?x) \<noteq> []" using a(2) t1 by force
  then obtain st2 where st2: "MUnRegisteringReceiverForMsg inform w src to st1 = Some (b, st2)" "tables_ok (dg st2)"
    "table (dg st2) = (table (dg st1))(?x := or_none u)"
    "sub_old st2 = (if b \<and> inform then push_demand src (w\<lparr>FUUIDFrom := Some to\<rparr>) (sub_old st1) else sub_old st1)"
    using unregister_table_present [of st1 src to w b u inform] r u(1) t1 by blast
  have again: "\<forall>x. FHandlers (table (dg st2) x) = FHandlers (table (dg st) x)"
    using st2(3) r u(3) by (simp add: or_none_def no_handlers_def)
  have others: "\<forall>x. x \<noteq> ?x \<longrightarrow> table (dg st1) x = table (dg st) x" using r by simp
  have told: "sub_new st1 = (if b \<and> inform then push_demand src (w\<lparr>FUUIDFrom := Some to\<rparr>) (sub_new st) else sub_new st)"
    using r by blast
  show ?thesis
    by (intro conjI exI [of _ st2] a(4) told others st2(1,2,4) again) (simp only: t1 a(2))
qed

theorem register_unregister_exact_witness:
  "\<exists>st2. MUnRegisteringReceiverForMsg True (wanted 4 1 5 0 ''sensor'') 7 8
       (snd (MRegisteringReceiverForMsg True (wanted 4 1 5 0 ''sensor'') 7 8 (start_run CRequiredDG))) = Some (True, st2)
     \<and> (\<forall>x. FHandlers (table (dg st2) x) = FHandlers (table CRequiredDG x))"
proof -
  let ?w = "wanted 4 1 5 0 ''sensor''"
  have ok: "tables_ok (dg (start_run CRequiredDG))" by (simp add: start_run_def CRequiredDG_def tables_ok_def)
  have f: "FHandler ?w \<notin> set (FHandlers (table (dg (start_run CRequiredDG)) (slot_of 7 8 ?w)))" by code_simp
  obtain b st1 where r: "MRegisteringReceiverForMsg True ?w 7 8 (start_run CRequiredDG) = (b, st1)" by fastforce
  have "fst (MRegisteringReceiverForMsg True ?w 7 8 (start_run CRequiredDG)) = True" by code_simp
  then have b: "b = True" using r by simp
  show ?thesis using register_unregister_exact [OF ok f r] unfolding r b by (auto simp: start_run_def)
qed

text \<open>
  The first of three closed examples beyond the discipline. When the sender of a message and of a message
  derived from it goes, a demand for the first is ended twice; the second time takes the
  handler of another demand, whose own end then stops the process.
\<close>

theorem leaving_with_derived_stops:
  "run_ops (sub_step no_parsers) (CRequiredDG\<lparr>FMsgsGenealogy := one_derived\<rparr>)
     [Come (program 7 ''sensor''), Come (program 8 ''view''),
      Demand (program 8 ''view'') [wanted 4 1 5 0 ''sensor'', wanted 6 2 9 0 ''sensor''], Go 7] = None"
  by code_simp

text \<open>
  when the nearest sender goes and no other is left, its depth stays noted, so that a
  farther sender that comes later is ignored: the receiver gets nothing although a matching
  sender is there.
\<close>

theorem farther_sender_ignored:
  "map_option (\<lambda>s. (map fst (FIds s), FHandlers (handlers_at s 9 RAW_PROTOCOL_NAME 1 8)))
     (run_ops (sub_step no_parsers) CRequiredDG
       [Come (program 7 ''sensor@a''), Come (program 8 ''view''),
        Demand (program 8 ''view'') [wanted 4 1 5 E_NEAREST ''sensor@a''], Go 7, Come (program 9 ''sensor@a.b'')])
   = Some ([8, 9], [])"
  by code_simp

text \<open>
  Demands are compared without their handlers, so that a second handler for a message that
  is demanded already takes the place of the first in the comparison: the first is registered
  again and the second one never.
\<close>

theorem second_handler_not_registered:
  "map_option (\<lambda>s. FHandlers (handlers_at s 7 RAW_PROTOCOL_NAME 1 8))
     (run_ops (sub_step no_parsers) CRequiredDG
       [Come (program 7 ''sensor''), Come (program 8 ''view''),
        Demand (program 8 ''view'') [wanted 4 1 5 0 ''sensor''],
        Demand (program 8 ''view'') [wanted 4 1 5 0 ''sensor'', wanted 6 1 5 0 ''sensor'']])
   = Some [4]"
  by code_simp

end
