(* ===== verification/Crc.thy ===== *)
theory Crc
  imports Prelude
begin

text \<open>
  Check sums (\<open>crc8.h\<close>, \<open>crc16.h\<close>): the tables that \<open>sMakeCRCTable\<close> builds by doubling, the
  table-driven loops \<open>sMCalcCRCofBuf\<close>, and their equality with division by the polynomial bit
  by bit. The program uses the variants with the most significant bit first; the tables of the
  other bit order are not built anywhere.
\<close>

unbundle bit_operations_syntax

section \<open>Tables and loops of the code\<close>

text \<open>
  One round of the outer loop of \<open>sMakeCRCTable\<close> doubles the table; the loop over \<open>i = 1, 2, 4\<close>
  and so on below 256 has eight rounds. The remainder is an \<open>unsigned\<close> whose upper bits are cut
  off when an entry is stored.
\<close>

fun make_rounds :: "nat \<Rightarrow> 32 word \<Rightarrow> 32 word \<Rightarrow> 32 word \<Rightarrow> 'a::len word list \<Rightarrow> 'a word list" where
  "make_rounds 0 msbit poly remaind tab = tab"
| "make_rounds (Suc n) msbit poly remaind tab =
     (let r = push_bit 1 remaind XOR (if remaind AND msbit \<noteq> 0 then poly else 0)
      in make_rounds n msbit poly r (tab @ map (\<lambda>x. x XOR ucast r) tab))"

definition sMakeCRCTable8 :: "32 word \<Rightarrow> 8 word list" where
  "sMakeCRCTable8 poly = make_rounds 8 0x80 poly 0x80 [0]"

definition sMakeCRCTable16 :: "32 word \<Rightarrow> 16 word list" where
  "sMakeCRCTable16 poly = make_rounds 8 0x8000 poly 0x8000 [0]"

definition sMCalcNextCRC8 :: "32 word \<Rightarrow> 8 word \<Rightarrow> byte \<Rightarrow> 8 word" where
  "sMCalcNextCRC8 poly aCRC8 aNextVal = sMakeCRCTable8 poly ! unat (aCRC8 XOR aNextVal)"

definition sMCalcCRCofBuf8 :: "32 word \<Rightarrow> 8 word \<Rightarrow> buffer \<Rightarrow> 8 word" where
  "sMCalcCRCofBuf8 poly aOffset buf = fold (\<lambda>b crc. sMCalcNextCRC8 poly crc b) buf aOffset"

definition sMCheckingConstant :: "32 word \<Rightarrow> 8 word \<Rightarrow> 8 word" where
  "sMCheckingConstant poly initial = sMCalcNextCRC8 poly initial initial"

definition sMCalcNextCRC16 :: "32 word \<Rightarrow> 16 word \<Rightarrow> byte \<Rightarrow> 16 word" where
  "sMCalcNextCRC16 poly aCRC16 aNextVal =
     push_bit 8 aCRC16 XOR sMakeCRCTable16 poly ! unat ((drop_bit 8 aCRC16 XOR ucast aNextVal) AND 0xff)"

definition sMCalcCRCofBuf16 :: "32 word \<Rightarrow> 16 word \<Rightarrow> buffer \<Rightarrow> 16 word" where
  "sMCalcCRCofBuf16 poly aOffset buf = fold (\<lambda>b crc. sMCalcNextCRC16 poly crc b) buf aOffset"

section \<open>Division by the polynomial\<close>

text \<open>One step of the division, and the eight steps that a byte takes.\<close>

definition crc_step :: "'a::len word \<Rightarrow> 'a word \<Rightarrow> 'a word" where
  "crc_step poly c = push_bit 1 c XOR (if bit c (LENGTH('a) - 1) then poly else 0)"

definition crc_byte :: "'a::len word \<Rightarrow> 'a word \<Rightarrow> byte \<Rightarrow> 'a word" where
  "crc_byte poly c b = (crc_step poly ^^ 8) (c XOR push_bit (LENGTH('a) - 8) (ucast b))"

lemma crc_step_xor: "crc_step poly (a XOR b) = crc_step poly a XOR crc_step poly b"
  by (rule bit_word_eqI) (auto simp: crc_step_def bit_simps)

lemma crc_steps_xor: "(crc_step poly ^^ n) (a XOR b) = (crc_step poly ^^ n) a XOR (crc_step poly ^^ n) b"
  by (induction n) (simp_all add: crc_step_xor)

lemma crc_steps_zero [simp]: "(crc_step poly ^^ n) 0 = 0"
  by (induction n) (simp_all add: crc_step_def)

lemma crc_step_shift: "\<not> bit c (LENGTH('a) - 1) \<Longrightarrow> crc_step poly (c::'a::len word) = push_bit 1 c"
  by (simp add: crc_step_def)

lemma crc_steps_power:
  "j + n < LENGTH('a) \<Longrightarrow> (crc_step (poly::'a::len word) ^^ n) (push_bit j 1) = push_bit (j + n) 1"
proof (induction n)
  case (Suc n)
  have "\<not> bit (push_bit (j + n) 1 :: 'a word) (LENGTH('a) - 1)"
    using Suc.prems by (simp add: bit_simps)
  with Suc show ?case by (simp add: crc_step_shift push_bit_push_bit)
qed simp

section \<open>The table is the division\<close>

definition table_entry :: "'a::len word \<Rightarrow> nat \<Rightarrow> 'a word" where
  "table_entry poly k = (crc_step poly ^^ 8) (push_bit (LENGTH('a) - 8) (word_of_nat k))"

lemma add_power_is_xor:
  assumes "k < 2 ^ m"
  shows "(word_of_nat (2 ^ m + k) :: 'a::len word) = push_bit m 1 XOR word_of_nat k"
proof -
  have low: "\<not> bit k i" if "m \<le> i" for i
    using assms that by (metis bit_take_bit_iff linorder_not_le take_bit_nat_eq_self)
  have "2 ^ m AND k = 0" using low by (intro bit_eqI) (auto simp: bit_and_iff bit_exp_iff)
  then have "2 ^ m + k = 2 ^ m OR k" by (rule disjunctive_add_eq_or)
  also have "\<dots> = 2 ^ m XOR k" using low by (intro bit_eqI) (auto simp: bit_or_iff bit_xor_iff bit_exp_iff)
  finally show ?thesis by (intro bit_word_eqI) (auto simp: bit_simps)
qed

lemma table_entry_power:
  assumes "8 \<le> LENGTH('a)" "m < 8"
  shows "(crc_step (poly::'a::len word) ^^ 8) (push_bit (LENGTH('a) - 8) (push_bit m 1))
    = (crc_step poly ^^ Suc m) (push_bit (LENGTH('a) - 1) 1)"
proof -
  have "(crc_step poly ^^ (7 - m)) (push_bit (LENGTH('a) - 8 + m) 1 :: 'a word) = push_bit (LENGTH('a) - 1) 1"
    using crc_steps_power [of "LENGTH('a) - 8 + m" "7 - m" poly] assms by simp
  moreover have "(8::nat) = Suc m + (7 - m)" using assms(2) by simp
  then have "(crc_step poly ^^ 8) x = (crc_step poly ^^ Suc m) ((crc_step poly ^^ (7 - m)) x)" for x
    by (simp only: funpow_add comp_apply)
  ultimately show ?thesis by (simp only: push_bit_push_bit)
qed

lemma table_entry_double:
  assumes "8 \<le> LENGTH('a)" "m < 8" "k < 2 ^ m"
  shows "table_entry (poly::'a::len word) (2 ^ m + k)
    = table_entry poly k XOR (crc_step poly ^^ Suc m) (push_bit (LENGTH('a) - 1) 1)"
  unfolding table_entry_def add_power_is_xor [OF assms(3)] push_bit_xor crc_steps_xor
    table_entry_power [OF assms(1,2)] by (rule xor.commute)

lemma remainder_step:
  fixes remaind poly :: "32 word"
  assumes "LENGTH('a::len) \<le> 32"
  shows "ucast (push_bit 1 remaind XOR (if remaind AND push_bit (LENGTH('a) - 1) 1 \<noteq> 0 then poly else 0))
    = crc_step (ucast poly) (ucast remaind :: 'a word)"
proof -
  have "LENGTH('a) - 1 < 32" using assms len_gt_0 [where 'a = 'a] by linarith
  then have "remaind AND push_bit (LENGTH('a) - 1) 1 \<noteq> 0 \<longleftrightarrow> bit (ucast remaind :: 'a word) (LENGTH('a) - 1)"
    by (simp add: push_bit_of_1 and_exp_eq_0_iff_not_bit bit_simps)
  then show ?thesis
    unfolding crc_step_def using assms
    by (intro bit_word_eqI) (auto simp: bit_unsigned_iff bit_xor_iff bit_push_bit_iff simp del: push_bit_Suc One_nat_def)
qed

lemma make_rounds_table:
  assumes "8 \<le> LENGTH('a)" "LENGTH('a) \<le> 32" "m + n \<le> 8"
    "ucast remaind = (crc_step (ucast poly) ^^ m) (push_bit (LENGTH('a) - 1) 1 :: 'a::len word)"
    "tab = map (table_entry (ucast poly)) [0..<2 ^ m]"
  shows "make_rounds n (push_bit (LENGTH('a) - 1) 1) poly remaind tab
    = map (table_entry (ucast poly :: 'a word)) [0..<2 ^ (m + n)]"
  using assms(3-5)
proof (induction n arbitrary: m remaind tab)
  case 0
  then show ?case by simp
next
  case (Suc n)
  define r where "r = push_bit 1 remaind XOR (if remaind AND push_bit (LENGTH('a) - 1) 1 \<noteq> 0 then poly else 0)"
  have r: "ucast r = (crc_step (ucast poly) ^^ Suc m) (push_bit (LENGTH('a) - 1) 1 :: 'a word)"
    unfolding r_def remainder_step [OF assms(2)] using Suc.prems(2) by simp
  have "tab @ map (\<lambda>x. x XOR ucast r) tab = map (table_entry (ucast poly :: 'a word)) [0..<2 ^ Suc m]"
  proof -
    have "[0..<2 ^ Suc m] = [0..<2 ^ m] @ map (\<lambda>k. 2 ^ m + k) [0..<2 ^ m]"
      using upt_add_eq_append [of 0 "2 ^ m" "2 ^ m"] map_add_upt [of "2 ^ m" "2 ^ m"]
      by (simp add: mult_2 add.commute)
    moreover have "table_entry (ucast poly) (2 ^ m + k) = table_entry (ucast poly) k XOR (ucast r :: 'a word)"
      if "k < 2 ^ m" for k
      unfolding r using that Suc.prems(1) assms(1) by (intro table_entry_double) simp_all
    ultimately show ?thesis by (simp add: Suc.prems(3))
  qed
  then have "make_rounds n (push_bit (LENGTH('a) - 1) 1) poly r (tab @ map (\<lambda>x. x XOR ucast r) tab)
      = map (table_entry (ucast poly :: 'a word)) [0..<2 ^ (Suc m + n)]"
    using Suc.prems(1) r by (intro Suc.IH) simp_all
  moreover have "make_rounds (Suc n) (push_bit (LENGTH('a) - 1) 1) poly remaind tab
      = make_rounds n (push_bit (LENGTH('a) - 1) 1) poly r (tab @ map (\<lambda>x. x XOR ucast r) tab)"
    unfolding make_rounds.simps Let_def r_def [symmetric] ..
  ultimately show ?case by (simp only: add_Suc_shift)
qed

lemma table8: "sMakeCRCTable8 poly = map (table_entry (ucast poly)) [0..<256]"
  using make_rounds_table [where 'a = 8, of 0 8 "0x80" poly "[0]"]
  by (simp add: sMakeCRCTable8_def push_bit_of_1 table_entry_def)

lemma table16: "sMakeCRCTable16 poly = map (table_entry (ucast poly)) [0..<256]"
  using make_rounds_table [where 'a = 16, of 0 8 "0x8000" poly "[0]"]
  by (simp add: sMakeCRCTable16_def push_bit_of_1 table_entry_def)

lemma table_entry_byte: "8 \<le> LENGTH('a) \<Longrightarrow> table_entry (poly::'a::len word) (unat (b::byte)) = crc_byte poly 0 b"
  by (simp add: table_entry_def crc_byte_def)

lemma next8_is_division: "sMCalcNextCRC8 poly c b = crc_byte (ucast poly) c b"
proof -
  have "unat (c XOR b) < 256" using unsigned_less [of "c XOR b"] by simp
  then show ?thesis
    by (simp add: sMCalcNextCRC8_def table8 table_entry_def crc_byte_def)
qed

lemma crc_steps_low:
  "(\<And>i. LENGTH('a) - k \<le> i \<Longrightarrow> \<not> bit c i) \<Longrightarrow> k \<le> LENGTH('a) \<Longrightarrow>
     (crc_step poly ^^ k) (c::'a::len word) = push_bit k c"
proof (induction k)
  case (Suc k)
  have "(crc_step poly ^^ k) c = push_bit k c" using Suc.prems by (intro Suc.IH) auto
  moreover have "\<not> bit (push_bit k c) (LENGTH('a) - 1)"
    using Suc.prems by (auto simp: bit_push_bit_iff)
  ultimately show ?case by (simp add: crc_step_shift push_bit_push_bit del: push_bit_Suc)
qed simp

lemma next16_is_division: "sMCalcNextCRC16 poly c b = crc_byte (ucast poly) c b"
proof -
  define y where "y = drop_bit 8 c XOR (ucast b :: 16 word)"
  have mask: "(0xff::16 word) = mask 8" by (simp add: mask_eq_exp_minus_1)
  have y: "y AND 0xff = y" unfolding mask y_def
    by (rule bit_word_eqI) (auto simp: bit_simps dest: bit_imp_le_length)
  have "unat (take_bit 8 y) < 256"
    using take_bit_nat_less_exp [of 8 "unat y"] by (simp add: unsigned_take_bit_eq)
  moreover have "take_bit 8 y = y" using y by (simp only: mask take_bit_eq_mask)
  ultimately have "unat y < 256" by simp
  then have T: "sMakeCRCTable16 poly ! unat y = (crc_step (ucast poly) ^^ 8) (push_bit 8 y)"
    by (simp add: table16 table_entry_def)
  have low: "(crc_step (ucast poly) ^^ 8) (take_bit 8 c) = push_bit 8 (take_bit 8 c)"
    by (rule crc_steps_low) (auto simp: bit_simps)
  have "push_bit 8 (take_bit 8 c) = push_bit 8 c" by (rule bit_word_eqI) (auto simp: bit_simps)
  moreover have "c XOR push_bit 8 (ucast b) = take_bit 8 c XOR push_bit 8 y"
    unfolding y_def by (rule bit_word_eqI) (auto simp: bit_simps)
  ultimately show ?thesis
    unfolding sMCalcNextCRC16_def y_def [symmetric] y T crc_byte_def
    using low by (simp add: crc_steps_xor)
qed

section \<open>Errors that are found\<close>

text \<open>With an odd polynomial the division loses nothing, so one changed byte changes the sum.\<close>

lemma xor_left_cancel [simp]: "(a::'a::len word) XOR b = a XOR c \<longleftrightarrow> b = c"
  by (metis xor.assoc xor.left_neutral xor_self_eq)

lemma xor_right_cancel [simp]: "(b::'a::len word) XOR a = c XOR a \<longleftrightarrow> b = c"
  by (metis xor.commute xor_left_cancel)

lemma crc_step_inj:
  fixes poly :: "'a::len word"
  assumes "bit poly 0" "crc_step poly a = crc_step poly b"
  shows "a = b"
proof (rule bit_word_eqI)
  have top: "bit a (LENGTH('a) - 1) = bit b (LENGTH('a) - 1)"
    using arg_cong [OF assms(2), of "\<lambda>c. bit c 0"] assms(1) by (auto simp: crc_step_def bit_xor_iff bit_push_bit_iff simp del: push_bit_Suc One_nat_def split: if_splits)
  then have shifted: "push_bit 1 a = push_bit 1 b"
    using assms(2) by (simp add: crc_step_def del: push_bit_Suc One_nat_def split: if_splits)
  fix n assume "n < LENGTH('a)"
  then consider "n = LENGTH('a) - 1" | "Suc n < LENGTH('a)" by linarith
  then show "bit a n = bit b n"
  proof cases
    case 2
    then show ?thesis using arg_cong [OF shifted, of "\<lambda>c. bit c (Suc n)"] by (simp add: bit_push_bit_iff del: push_bit_Suc)
  qed (use top in simp)
qed

lemma crc_steps_inj: "bit poly 0 \<Longrightarrow> (crc_step poly ^^ n) a = (crc_step poly ^^ n) b \<Longrightarrow> a = b"
  by (induction n) (auto dest: crc_step_inj)

lemma crc_byte_inj:
  fixes poly :: "'a::len word"
  assumes "bit poly 0"
  shows "crc_byte poly c b = crc_byte poly d b \<longleftrightarrow> c = d"
    "8 \<le> LENGTH('a) \<Longrightarrow> crc_byte poly c a = crc_byte poly c b \<longleftrightarrow> a = b"
proof -
  have steps: "(crc_step poly ^^ 8) v = (crc_step poly ^^ 8) w \<longleftrightarrow> v = w" for v w
    using crc_steps_inj [OF assms, of 8 v w] by blast
  show "crc_byte poly c b = crc_byte poly d b \<longleftrightarrow> c = d" unfolding crc_byte_def steps by simp
  assume len: "8 \<le> LENGTH('a)"
  have "push_bit (LENGTH('a) - 8) (ucast a :: 'a word) = push_bit (LENGTH('a) - 8) (ucast b) \<Longrightarrow> a = b"
  proof (rule bit_word_eqI)
    fix n assume eq: "push_bit (LENGTH('a) - 8) (ucast a :: 'a word) = push_bit (LENGTH('a) - 8) (ucast b)"
      and n: "n < LENGTH(8)"
    show "bit a n = bit b n"
      using arg_cong [OF eq, of "\<lambda>c. bit c (LENGTH('a) - 8 + n)"] n len by (auto simp: bit_simps)
  qed
  then show "crc_byte poly c a = crc_byte poly c b \<longleftrightarrow> a = b"
    unfolding crc_byte_def steps by auto
qed

lemma crc_fold_inj:
  "bit (poly::'a::len word) 0 \<Longrightarrow>
     fold (\<lambda>b c. crc_byte poly c b) bs c = fold (\<lambda>b c. crc_byte poly c b) bs d \<longleftrightarrow> c = d"
  by (induction bs arbitrary: c d) (simp_all add: crc_byte_inj)

section \<open>Properties\<close>

text \<open>
  C35: for every polynomial the table-driven loops of the code are the division bit by bit.
\<close>

theorem tables_are_division:
  "sMCalcCRCofBuf8 poly c8 buf = fold (\<lambda>b c. crc_byte (ucast poly) c b) buf c8
   \<and> sMCalcCRCofBuf16 poly c16 buf = fold (\<lambda>b c. crc_byte (ucast poly) c b) buf c16"
  by (simp add: sMCalcCRCofBuf8_def sMCalcCRCofBuf16_def next8_is_division next16_is_division)

text \<open>
  C36: with an odd polynomial, as the ones of the protocol are, a buffer in which one byte is
  changed never has the same check sum; and a buffer that ends with its own eight-bit sum has
  the checking constant.
\<close>

theorem one_byte_error_found:
  assumes "bit poly 0"
  shows "(sMCalcCRCofBuf8 poly c8 (as @ x # bs) = sMCalcCRCofBuf8 poly c8 (as @ y # bs) \<longleftrightarrow> x = y)
    \<and> (sMCalcCRCofBuf16 poly c16 (as @ x # bs) = sMCalcCRCofBuf16 poly c16 (as @ y # bs) \<longleftrightarrow> x = y)
    \<and> sMCalcCRCofBuf8 poly c8 (as @ [sMCalcCRCofBuf8 poly c8 as]) = sMCheckingConstant poly c8"
proof -
  have odd: "bit (ucast poly :: 8 word) 0" "bit (ucast poly :: 16 word) 0"
    using assms by (simp_all add: bit_simps)
  show ?thesis
    by (simp add: sMCalcCRCofBuf8_def sMCalcCRCofBuf16_def sMCheckingConstant_def next8_is_division next16_is_division
        crc_fold_inj [OF odd(1)] crc_fold_inj [OF odd(2)] crc_byte_inj [OF odd(1)] crc_byte_inj [OF odd(2)])
      (simp add: crc_byte_def)
qed

theorem one_byte_error_found_witness:
  "sMCalcCRCofBuf8 0x97 1 ([1, 2] @ 3 # [4]) \<noteq> sMCalcCRCofBuf8 0x97 1 ([1, 2] @ 7 # [4])
   \<and> sMCalcCRCofBuf16 0xC005 0 ([1, 2] @ 3 # [4]) \<noteq> sMCalcCRCofBuf16 0xC005 0 ([1, 2] @ 7 # [4])"
proof -
  have odd: "bit (0x97 :: 32 word) 0" "bit (0xC005 :: 32 word) 0" by simp_all
  show ?thesis
    using one_byte_error_found [OF odd(1), of 1 "[1, 2]" 3 "[4]" 7] one_byte_error_found [OF odd(2), of 0 "[1, 2]" 3 "[4]" 7 0]
    by simp
qed

end
