(* ===== verification/Wire_Head.thy ===== *)
theory Wire_Head
  imports Crc Udt_Types
begin

text \<open>
  Heads of the packets between a kernel and its programs (\<open>head_t\<close> of \<open>internel_protocol.h\<close>)
  and the function that fills them before a packet is sent (\<open>fill_dg_head\<close> of
  \<open>udt_share.cpp\<close>), with the byte swaps of \<open>endian_type.h\<close>. A head is 32 packed bytes; the
  platform is little-endian. The clock is a parameter, the counter of packets is state.
\<close>

section \<open>Words in memory\<close>

definition le_bytes :: "nat \<Rightarrow> 'a::len word \<Rightarrow> buffer" where
  "le_bytes n w = map (\<lambda>i. ucast (drop_bit (8 * i) w)) [0..<n]"

definition le_word :: "buffer \<Rightarrow> 'a::len word" where
  "le_word bs = foldr (\<lambda>b w. ucast b OR push_bit 8 w) bs 0"

definition swap_endian16 :: "16 word \<Rightarrow> 16 word" where
  "swap_endian16 v = push_bit 8 v OR drop_bit 8 v"

definition swap_endian32 :: "32 word \<Rightarrow> 32 word" where
  "swap_endian32 v =
     (let v1 = (push_bit 8 v AND 0xFF00FF00) OR (drop_bit 8 v AND 0xFF00FF)
      in push_bit 16 v1 OR drop_bit 16 v1)"

definition swap_endian64 :: "64 word \<Rightarrow> 64 word" where
  "swap_endian64 v =
     (let v1 = (push_bit 8 v AND 0xFF00FF00FF00FF00) OR (drop_bit 8 v AND 0x00FF00FF00FF00FF);
          v2 = (push_bit 16 v1 AND 0xFFFF0000FFFF0000) OR (drop_bit 16 v1 AND 0x0000FFFF0000FFFF)
      in push_bit 32 v2 OR drop_bit 32 v2)"

section \<open>Heads\<close>

definition E_HEAD_SIZE :: nat where "E_HEAD_SIZE = 8 * 4"

record head_t =
  FHeadSize :: "8 word"
  FEndianness :: "8 word"
  FTimeMs :: "16 word"
  FHeadVersion :: version_t
  FHeadDataSize :: "32 word"
  FHeadTime :: "32 word"
  FFromUUID :: "64 word"
  FDataCrc :: "16 word"
  FHeadType :: "8 word"
  FHeadFlags :: "8 word"
  FHeadCounter :: "16 word"
  FReserved :: "8 word"
  FCrcHead :: "8 word"

definition endian_number :: "eEndian \<Rightarrow> 8 word" where
  "endian_number e = (case e of E_SHARE_LITTLE_ENDIAN \<Rightarrow> 0 | E_SHARE_BIG_ENDIAN \<Rightarrow> 1)"

text \<open>The constructor leaves the reserved byte as the memory has it.\<close>

definition new_head :: "byte \<Rightarrow> 8 word \<Rightarrow> 8 word \<Rightarrow> 8 word \<Rightarrow> head_t" where
  "new_head memory aMajor aMinor aType =
     \<lparr>FHeadSize = of_nat E_HEAD_SIZE, FEndianness = endian_number E_SHARE_ENDIAN, FTimeMs = 0,
      FHeadVersion = \<lparr>FMajor = aMajor, FMinor = aMinor, FRelease = 0\<rparr>, FHeadDataSize = 0,
      FHeadTime = 0, FFromUUID = 0, FDataCrc = 0, FHeadType = aType, FHeadFlags = 0,
      FHeadCounter = 0, FReserved = memory, FCrcHead = 0\<rparr>"

text \<open>The head as its bytes, without and with the check sum at the end; and back.\<close>

definition head_front :: "head_t \<Rightarrow> buffer" where
  "head_front h = [FHeadSize h, FEndianness h] @ le_bytes 2 (FTimeMs h)
     @ [FMajor (FHeadVersion h), FMinor (FHeadVersion h)] @ le_bytes 2 (FRelease (FHeadVersion h))
     @ le_bytes 4 (FHeadDataSize h) @ le_bytes 4 (FHeadTime h) @ le_bytes 8 (FFromUUID h)
     @ le_bytes 2 (FDataCrc h) @ [FHeadType h, FHeadFlags h] @ le_bytes 2 (FHeadCounter h)
     @ [FReserved h]"

definition head_bytes :: "head_t \<Rightarrow> buffer" where
  "head_bytes h = head_front h @ [FCrcHead h]"

definition head_of :: "buffer \<Rightarrow> head_t" where
  "head_of b =
     \<lparr>FHeadSize = b ! 0, FEndianness = b ! 1, FTimeMs = le_word (take 2 (drop 2 b)),
      FHeadVersion = \<lparr>FMajor = b ! 4, FMinor = b ! 5, FRelease = le_word (take 2 (drop 6 b))\<rparr>,
      FHeadDataSize = le_word (take 4 (drop 8 b)), FHeadTime = le_word (take 4 (drop 12 b)),
      FFromUUID = le_word (take 8 (drop 16 b)), FDataCrc = le_word (take 2 (drop 24 b)),
      FHeadType = b ! 26, FHeadFlags = b ! 27, FHeadCounter = le_word (take 2 (drop 28 b)),
      FReserved = b ! 30, FCrcHead = b ! 31\<rparr>"

definition head_MIsValidEndian :: "head_t \<Rightarrow> bool" where
  "head_MIsValidEndian h \<longleftrightarrow> FEndianness h = endian_number E_SHARE_ENDIAN"

definition MGetDataSize :: "head_t \<Rightarrow> 32 word" where
  "MGetDataSize h = (if head_MIsValidEndian h then FHeadDataSize h else swap_endian32 (FHeadDataSize h))"

definition MGetTime :: "head_t \<Rightarrow> 32 word" where
  "MGetTime h = (if head_MIsValidEndian h then FHeadTime h else swap_endian32 (FHeadTime h))"

definition MGetFromUUID :: "head_t \<Rightarrow> 64 word" where
  "MGetFromUUID h = (if head_MIsValidEndian h then FFromUUID h else swap_endian64 (FFromUUID h))"

definition MGetDataCRC :: "head_t \<Rightarrow> 16 word" where
  "MGetDataCRC h = (if head_MIsValidEndian h then FDataCrc h else swap_endian16 (FDataCrc h))"

section \<open>Check sums of the protocol\<close>

text \<open>\<open>crc8_t<0x97,0x01>\<close> over the head and \<open>crc16_t<0xC005, 0>\<close> over the data.\<close>

definition head_crc :: "buffer \<Rightarrow> 8 word" where
  "head_crc b = sMCalcCRCofBuf8 0x97 0x01 b"

definition head_check :: "8 word" where
  "head_check = sMCheckingConstant 0x97 0x01"

definition data_crc :: "buffer \<Rightarrow> 16 word" where
  "data_crc b = sMCalcCRCofBuf16 0xC005 0 b"

section \<open>Filling a head\<close>

record clock =
  get_unix_time :: "64 word"
  c_time :: "64 word"

text \<open>
  The memory at \<open>aWhat\<close> holds a head and may hold data behind it; the data is read only for
  its check sum. \<open>None\<close> is a failed \<open>CHECK\<close> or a read behind the memory.
\<close>

definition fill_dg_head ::
    "clock \<Rightarrow> buffer \<Rightarrow> nat \<Rightarrow> uuid \<Rightarrow> bool \<Rightarrow> 32 word \<Rightarrow> (buffer \<times> 32 word) option" where
  "fill_dg_head clk aWhat aFullSize aFrom aIsNeedCrc g_counter =
     (let h = head_of aWhat; t = get_unix_time clk; counter = g_counter + 1
      in if sMCalcNextCRC8 0x97 0x97 0x97 \<noteq> 0 \<or> aFullSize < E_HEAD_SIZE \<or> length aWhat < E_HEAD_SIZE
           \<or> \<not> MIsExist (FHeadVersion h) \<or> unat (FHeadSize h) \<noteq> E_HEAD_SIZE
           \<or> sint (t div 1000 - c_time clk) > 1 \<or> aFullSize \<le> unat (FHeadSize h)
         then None
         else
           (let h1 = h\<lparr>FHeadTime := ucast (t div 1000)\<rparr>;
                h2 = h1\<lparr>FTimeMs := ucast ((ucast t :: 32 word) - MGetTime h1), FHeadCounter := ucast counter,
                        FFromUUID := aFrom, FHeadDataSize := of_nat (aFullSize - unat (FHeadSize h))\<rparr>;
                size = unat (MGetDataSize h2);
                data = take size (drop E_HEAD_SIZE aWhat)
            in if aIsNeedCrc \<and> length data < size then None
               else
                 (let h3 = h2\<lparr>FDataCrc := if aIsNeedCrc then data_crc data else 0\<rparr>;
                      h4 = h3\<lparr>FCrcHead := head_crc (head_front h3)\<rparr>
                  in if head_crc (head_bytes h4) \<noteq> head_check then None
                     else Some (head_bytes h4 @ drop E_HEAD_SIZE aWhat, counter))))"

section \<open>Words and their bytes\<close>

lemma bit_le_word: "bit (le_word bs :: 'a::len word) k \<longleftrightarrow> k < LENGTH('a) \<and> k div 8 < length bs \<and> bit (bs ! (k div 8)) (k mod 8)"
proof (induction bs arbitrary: k)
  case Nil
  then show ?case by (simp add: le_word_def)
next
  case (Cons b bs)
  have step: "le_word (b # bs) = (ucast b OR push_bit 8 (le_word bs) :: 'a word)" by (simp add: le_word_def)
  show ?case
  proof (cases "k < 8")
    case True
    then show ?thesis unfolding step by (simp add: bit_or_iff bit_push_bit_iff bit_unsigned_iff)
  next
    case False
    then have k: "k div 8 = Suc ((k - 8) div 8)" "k mod 8 = (k - 8) mod 8" "\<not> bit b k"
      by (simp_all add: le_div_geq le_mod_geq bit_word.rep_eq) 
    then show ?thesis unfolding step using False Cons.IH [of "k - 8"]
      by (auto simp: bit_or_iff bit_push_bit_iff bit_unsigned_iff)
  qed
qed

lemma le_word_bytes: "LENGTH('a) \<le> 8 * n \<Longrightarrow> le_word (le_bytes n w) = (w::'a::len word)"
  by (rule bit_word_eqI) (auto simp: bit_le_word le_bytes_def bit_unsigned_iff bit_drop_bit_eq)

lemma le_bytes_word: "length bs = n \<Longrightarrow> 8 * n \<le> LENGTH('a) \<Longrightarrow> le_bytes n (le_word bs :: 'a::len word) = bs"
  by (rule nth_equalityI) (auto simp: le_bytes_def intro!: bit_word_eqI simp: bit_le_word bit_unsigned_iff bit_drop_bit_eq)

lemma length_le_bytes [simp]: "length (le_bytes n w) = n"
  by (simp add: le_bytes_def)

lemma upto16: "[0..<16] =
    [0, 1, 2, 3, 4, 5, 6, 7, 8, 9, 10, 11, 12, 13, 14, 15]"
  by code_simp

lemma swap16_bit: "\<forall>n\<in>set [0..<16]. bit (swap_endian16 v) n = bit v (8 * (1 - n div 8) + n mod 8)"
proof -
  have "\<not> bit v n" if "16 \<le> n" for n using that by (simp add: bit_word.rep_eq)
  then show ?thesis unfolding upto16 by (simp add: swap_endian16_def bit_simps) (simp add: numeral_2_eq_2)
qed

lemma upto32: "[0..<32] =
    [0, 1, 2, 3, 4, 5, 6, 7, 8, 9, 10, 11, 12, 13, 14, 15, 16, 17, 18, 19, 20, 21, 22, 23,
     24, 25, 26, 27, 28, 29, 30, 31]"
  by code_simp

lemma swap32_bit: "\<forall>n\<in>set [0..<32]. bit (swap_endian32 v) n = bit v (8 * (3 - n div 8) + n mod 8)"
  unfolding upto32 by (simp add: swap_endian32_def bit_simps Let_def) (simp add: numeral_2_eq_2)

lemma upto64: "[0..<64] =
    [0, 1, 2, 3, 4, 5, 6, 7, 8, 9, 10, 11, 12, 13, 14, 15, 16, 17, 18, 19, 20, 21, 22, 23,
     24, 25, 26, 27, 28, 29, 30, 31, 32, 33, 34, 35, 36, 37, 38, 39, 40, 41, 42, 43, 44,
     45, 46, 47, 48, 49, 50, 51, 52, 53, 54, 55, 56, 57, 58, 59, 60, 61, 62, 63]"
  by code_simp

lemma swap64_bit: "\<forall>n\<in>set [0..<64]. bit (swap_endian64 v) n = bit v (8 * (7 - n div 8) + n mod 8)"
  unfolding upto64 by (simp add: swap_endian64_def bit_simps Let_def) (simp add: numeral_2_eq_2)

lemma bytes_reversed:
  fixes v w :: "'a::len word"
  assumes "LENGTH('a) = 8 * m" "\<forall>n\<in>set [0..<LENGTH('a)]. bit w n = bit v (8 * (m - 1 - n div 8) + n mod 8)"
  shows "le_bytes m w = rev (le_bytes m v)"
proof (rule nth_equalityI)
  fix i assume i: "i < length (le_bytes m w)"
  show "le_bytes m w ! i = rev (le_bytes m v) ! i"
  proof (rule bit_word_eqI)
    fix j assume j: "j < LENGTH(8)"
    have "bit w (8 * i + j) = bit v (8 * (m - 1 - (8 * i + j) div 8) + (8 * i + j) mod 8)"
      using i j assms by (intro bspec [OF assms(2)]) auto
    moreover have "m - Suc i < m" using i by simp
    ultimately show "bit (le_bytes m w ! i) j = bit (rev (le_bytes m v) ! i) j"
      using i j by (simp add: le_bytes_def rev_nth bit_simps)
  qed
qed simp

lemma le_bytes_inj: "LENGTH('a) \<le> 8 * n \<Longrightarrow> le_bytes n v = le_bytes n w \<longleftrightarrow> v = (w::'a::len word)"
  by (metis le_word_bytes)

lemma swap_reverses:
  "le_bytes 2 (swap_endian16 a) = rev (le_bytes 2 a)"
  "le_bytes 4 (swap_endian32 b) = rev (le_bytes 4 b)"
  "le_bytes 8 (swap_endian64 c) = rev (le_bytes 8 c)"
  using swap16_bit [of a] swap32_bit [of b] swap64_bit [of c]
  by (auto intro!: bytes_reversed simp del: set_upt)

text \<open>The message header as bytes, the first one the most significant of the word.\<close>

definition message_bytes :: "64 word \<Rightarrow> buffer" where
  "message_bytes w = rev (le_bytes 8 w)"

definition message_word :: "buffer \<Rightarrow> 64 word" where
  "message_word b = le_word (rev b)"

lemma length_message_bytes [simp]: "length (message_bytes w) = 8"
  by (simp add: message_bytes_def)

lemma message_word_bytes [simp]: "message_word (message_bytes w) = w"
  by (simp add: message_word_def message_bytes_def le_word_bytes)

section \<open>Heads and their bytes\<close>

lemma length_head_front [simp]: "length (head_front h) = 31"
  by (simp add: head_front_def)

lemma length_head_bytes [simp]: "length (head_bytes h) = 32"
  by (simp add: head_bytes_def)

lemma head_of_bytes [simp]: "head_of (head_bytes h @ r) = h"
  by (simp add: head_of_def head_bytes_def head_front_def nth_append le_word_bytes)

lemma head_of_append: "32 \<le> length b \<Longrightarrow> head_of (b @ r) = head_of b"
  by (auto simp: head_of_def nth_append)

lemma head_of_take: "32 \<le> n \<Longrightarrow> 32 \<le> length b \<Longrightarrow> head_of (take n b) = head_of b"
  using head_of_append [of "take n b" "drop n b"] by simp

lemma head_bytes_of: 
  assumes "length b = 32"
  shows "head_bytes (head_of b) = b"
proof -
  have two: "[b ! k, b ! Suc k] = take 2 (drop k b)" if "Suc k < 32" for k
    using that assms by (simp add: numeral_2_eq_2 take_Suc_conv_app_nth)
  have "b = take (2 + (2 + (2 + (2 + (4 + (4 + (8 + (2 + (2 + (2 + 2)))))))))) b" using assms by simp
  also have "\<dots> = take 2 b @ take 2 (drop 2 b) @ take 2 (drop 4 b) @ take 2 (drop 6 b) @ take 4 (drop 8 b)
    @ take 4 (drop 12 b) @ take 8 (drop 16 b) @ take 2 (drop 24 b) @ take 2 (drop 26 b) @ take 2 (drop 28 b) @ take 2 (drop 30 b)"
    unfolding take_add drop_drop by simp
  also have "\<dots> = head_bytes (head_of b)"
    using assms two [of 0] two [of 4] two [of 26] two [of 30]
    by (simp add: head_bytes_def head_front_def head_of_def le_bytes_word)
  finally show ?thesis by simp
qed

lemma head_crc_append: "head_crc (a @ b) = fold (\<lambda>b crc. crc_byte 0x97 crc b) b (head_crc a)"
  by (simp add: head_crc_def sMCalcCRCofBuf8_def next8_is_division)

lemma crc_of_own_sum: "head_crc (a @ [head_crc a]) = head_check"
  by (simp add: head_crc_append head_check_def sMCheckingConstant_def next8_is_division crc_byte_def)

text \<open>The head that \<open>fill_dg_head\<close> leaves.\<close>

definition filled_head :: "clock \<Rightarrow> buffer \<Rightarrow> nat \<Rightarrow> uuid \<Rightarrow> bool \<Rightarrow> 32 word \<Rightarrow> head_t" where
  "filled_head clk b sz from crc counter =
     (let t = get_unix_time clk; time = ucast (t div 1000);
          h = (head_of b)\<lparr>FHeadTime := time, FTimeMs := ucast ((ucast t :: 32 word) - time),
            FHeadCounter := ucast counter, FFromUUID := from, FHeadDataSize := of_nat (sz - E_HEAD_SIZE),
            FDataCrc := if crc then data_crc (take (sz - E_HEAD_SIZE) (drop E_HEAD_SIZE b)) else 0\<rparr>
      in h\<lparr>FCrcHead := head_crc (head_front h)\<rparr>)"

lemma head_front_crc [simp]: "head_front (h\<lparr>FCrcHead := c\<rparr>) = head_front h"
  by (simp add: head_front_def)

lemma head_crc_filled: "head_crc (head_bytes (h\<lparr>FCrcHead := head_crc (head_front h)\<rparr>)) = head_check"
  using crc_of_own_sum [of "head_front h"] by (simp add: head_bytes_def)

lemma poly_check: "sMCalcNextCRC8 0x97 0x97 0x97 = 0"
  by (simp add: next8_is_division crc_byte_def)

lemma fill_dg_head_fills:
  assumes "E_HEAD_SIZE < sz" "sz - E_HEAD_SIZE < 2 ^ 32" "E_HEAD_SIZE \<le> length b" "crc \<longrightarrow> sz \<le> length b"
    "MIsExist (FHeadVersion (head_of b))" "FHeadSize (head_of b) = 32" "head_MIsValidEndian (head_of b)"
    "\<not> sint (get_unix_time clk div 1000 - c_time clk) > 1"
  shows "fill_dg_head clk b sz from crc g
    = Some (head_bytes (filled_head clk b sz from crc (g + 1)) @ drop E_HEAD_SIZE b, g + 1)"
proof -
  have "unat (of_nat (sz - 32) :: 32 word) = sz - 32" using assms(2) by (simp add: unat_of_nat E_HEAD_SIZE_def)
  moreover have "crc \<longrightarrow> sz - 32 \<le> length b - 32" using assms(4) by auto
  ultimately show ?thesis
    using assms(1,3,5-8)
    by (auto simp: fill_dg_head_def filled_head_def Let_def E_HEAD_SIZE_def poly_check head_MIsValidEndian_def MGetTime_def MGetDataSize_def
      head_crc_filled)
qed

lemma filled_head_of: 
  "head_crc (head_bytes (filled_head clk b sz from crc c)) = head_check"
  "FHeadSize (filled_head clk b sz from crc c) = FHeadSize (head_of b)"
  "FEndianness (filled_head clk b sz from crc c) = FEndianness (head_of b)"
  "FHeadVersion (filled_head clk b sz from crc c) = FHeadVersion (head_of b)"
  "FHeadType (filled_head clk b sz from crc c) = FHeadType (head_of b)"
  "FHeadFlags (filled_head clk b sz from crc c) = FHeadFlags (head_of b)"
  "FHeadDataSize (filled_head clk b sz from crc c) = of_nat (sz - E_HEAD_SIZE)"
  "FFromUUID (filled_head clk b sz from crc c) = from"
  "FDataCrc (filled_head clk b sz from crc c)
     = (if crc then data_crc (take (sz - E_HEAD_SIZE) (drop E_HEAD_SIZE b)) else 0)"
  by (simp_all only: filled_head_def Let_def head_crc_filled) simp_all

section \<open>Properties\<close>

text \<open>
  the byte swaps reverse the bytes of a value and undo themselves, so a value of the other
  byte order is read as it was written.
\<close>

theorem swap_endian_reverses:
  "le_bytes 2 (swap_endian16 a) = rev (le_bytes 2 a) \<and> swap_endian16 (swap_endian16 a) = a
   \<and> le_bytes 4 (swap_endian32 b) = rev (le_bytes 4 b) \<and> swap_endian32 (swap_endian32 b) = b
   \<and> le_bytes 8 (swap_endian64 c) = rev (le_bytes 8 c) \<and> swap_endian64 (swap_endian64 c) = c"
  using le_bytes_inj [of 2 "swap_endian16 (swap_endian16 a)" a] le_bytes_inj [of 4 "swap_endian32 (swap_endian32 b)" b]
    le_bytes_inj [of 8 "swap_endian64 (swap_endian64 c)" c]
  by (simp add: swap_reverses)

text \<open>
  C37: \<open>fill_dg_head\<close> does not stop when the packet has a head of this protocol and some data, and
  the clock is sound. It changes the first 32 bytes alone; they are a head that passes the
  check, has the kind and version it had, tells who sent it and how long the data is, and has
  the sum of the data if that is asked for.
\<close>

theorem fill_dg_head_correct:
  assumes "E_HEAD_SIZE < sz" "sz - E_HEAD_SIZE < 2 ^ 32" "E_HEAD_SIZE \<le> length b" "crc \<longrightarrow> sz \<le> length b"
    and "MIsExist (FHeadVersion (head_of b))" "FHeadSize (head_of b) = 32" "head_MIsValidEndian (head_of b)"
    and "\<not> sint (get_unix_time clk div 1000 - c_time clk) > 1"
  shows "\<exists>h. fill_dg_head clk b sz from crc g = Some (head_bytes h @ drop E_HEAD_SIZE b, g + 1)
    \<and> head_crc (head_bytes h) = head_check \<and> FHeadSize h = 32 \<and> head_MIsValidEndian h
    \<and> FHeadVersion h = FHeadVersion (head_of b) \<and> FHeadType h = FHeadType (head_of b)
    \<and> MGetFromUUID h = from \<and> unat (MGetDataSize h) = sz - E_HEAD_SIZE
    \<and> MGetDataCRC h = (if crc then data_crc (take (sz - E_HEAD_SIZE) (drop E_HEAD_SIZE b)) else 0)"
  using fill_dg_head_fills [OF assms, of "from" g] assms(2,6,7)
  by (intro exI [of _ "filled_head clk b sz from crc (g + 1)"])
    (simp add: filled_head_of head_MIsValidEndian_def MGetFromUUID_def MGetDataSize_def MGetDataCRC_def unat_of_nat)

theorem fill_dg_head_correct_witness:
  "\<exists>h. fill_dg_head \<lparr>get_unix_time = 5000, c_time = 5\<rparr> (head_bytes (new_head 0 0 2 21) @ [1, 2]) 34 7 True 0
      = Some (head_bytes h @ [1, 2], 1)
    \<and> MGetFromUUID h = 7 \<and> unat (MGetDataSize h) = 2 \<and> MGetDataCRC h = data_crc [1, 2]"
  using fill_dg_head_correct [of 34 "head_bytes (new_head 0 0 2 21) @ [1, 2]" True "\<lparr>get_unix_time = 5000, c_time = 5\<rparr>" 7 0]
  by (auto simp: E_HEAD_SIZE_def MIsExist_def new_head_def head_MIsValidEndian_def)



end
