(* ===== verification/In_Parser.thy ===== *)
theory In_Parser
  imports Wire_Head
begin

text \<open>
  The parser that finds the packets of the inner protocol in a stream of bytes
  (\<open>CInParser\<close> of \<open>parser_in_protocol.h\<close>). Iterators are offsets from the beginning of the
  bytes that are looked at. Which kinds of packets a program handles, and with which version,
  is the macro \<open>RECEIVES\<close> of the place that includes the header: a parameter \<open>kds\<close> that gives
  \<open>MAJOR\<close> and \<open>MINOR\<close> of a known kind. The calls of the target's \<open>MProcess\<close> are logged in
  \<open>processed\<close>. \<open>None\<close> is an access outside of the bytes.
\<close>

section \<open>State\<close>

datatype e_error_t = Eok | ESizeDG | EBufferIsSmall | ENoDG

record state_t =
  FInvalidVersion :: "64 word"
  FESize :: "64 word"
  FEBuffer :: "64 word"
  FECrc :: "64 word"
  FDGCounter :: "64 word"
  FNumberOfData :: "64 word"
  FReadBytes :: "64 word"
  FPackets :: "64 word"

definition no_state :: state_t where
  "no_state = \<lparr>FInvalidVersion = 0, FESize = 0, FEBuffer = 0, FECrc = 0, FDGCounter = 0,
     FNumberOfData = 0, FReadBytes = 0, FPackets = 0\<rparr>"

record in_parser =
  FState :: state_t
  FBuf :: buffer
  FTarget :: bool
  processed :: "buffer list"

type_synonym receives = "8 word \<Rightarrow> (8 word \<times> 8 word) option"

text \<open>The table of the main channels: \<open>E_USER_DATA\<close>, of version 0.2.\<close>

definition receives_main_channel :: receives where
  "receives_main_channel t = (if t = 21 then Some (0, 2) else None)"

definition new_parser :: "bool \<Rightarrow> in_parser" where
  "new_parser aTarget = \<lparr>FState = no_state, FBuf = [], FTarget = aTarget, processed = []\<rparr>"

definition MSetTarget :: "bool \<Rightarrow> in_parser \<Rightarrow> in_parser" where
  "MSetTarget aVal p = p\<lparr>FTarget := aVal\<rparr>"

definition MCleanBuffer :: "in_parser \<Rightarrow> in_parser" where
  "MCleanBuffer p = p\<lparr>FBuf := []\<rparr>"

section \<open>Looking for a packet\<close>

definition sMIsValidProtocol :: "buffer \<Rightarrow> bool" where
  "sMIsValidProtocol b =
     (if length b < E_HEAD_SIZE then False else head_crc (take E_HEAD_SIZE b) = head_check)"

text \<open>
  The search after the first place ends 32 bytes before the end. When there are no more than 32
  bytes the iterator has passed that end and runs out of the buffer.
\<close>

definition MLookingForHead :: "buffer \<Rightarrow> (e_error_t \<times> nat) option" where
  "MLookingForHead b =
     (let n = length b
      in if n < E_HEAD_SIZE then Some (EBufferIsSmall, 0)
         else if head_crc (take E_HEAD_SIZE b) = head_check then Some (Eok, 0)
         else if n = E_HEAD_SIZE then None
         else case find (\<lambda>i. head_crc (take E_HEAD_SIZE (drop i b)) = head_check \<and> unat (b ! i) = E_HEAD_SIZE)
                [1..<n - E_HEAD_SIZE] of
             Some i \<Rightarrow> Some (Eok, i)
           | None \<Rightarrow> Some (ENoDG, n - E_HEAD_SIZE))"

definition MProcess :: "buffer \<Rightarrow> in_parser \<Rightarrow> in_parser" where
  "MProcess aP p =
     (if FTarget p
      then p\<lparr>FState := (FState p)\<lparr>FDGCounter := FDGCounter (FState p) + 1\<rparr>, processed := processed p @ [aP]\<rparr>
      else p)"

definition data_sum_ok :: "head_t \<Rightarrow> buffer \<Rightarrow> bool" where
  "data_sum_ok h b \<longleftrightarrow>
     (let n = unat (MGetDataSize h)
      in n \<ge> 2 \<and> MGetDataCRC h \<noteq> 0 \<longrightarrow> data_crc (take n (drop E_HEAD_SIZE b)) = MGetDataCRC h)"

definition add_number_of_data :: "nat \<Rightarrow> in_parser \<Rightarrow> in_parser" where
  "add_number_of_data n p =
     p\<lparr>FState := (FState p)\<lparr>FNumberOfData := FNumberOfData (FState p) + of_nat n\<rparr>\<rparr>"

definition is_small :: "buffer \<Rightarrow> nat \<Rightarrow> bool" where
  "is_small b size_kd \<longleftrightarrow> int (length b) < sint (word_of_nat size_kd :: 32 word)"

text \<open>
  The size of the packet is compared with the bytes that are there as an \<open>int\<close>. When it does not
  fit and is accepted for that, the data is read, or the next packet is sought, behind the end.
\<close>

definition MCheckKD :: "8 word \<times> 8 word \<Rightarrow> in_parser \<Rightarrow> buffer \<Rightarrow> (e_error_t \<times> nat \<times> in_parser) option" where
  "MCheckKD kd p b =
     (let h = head_of b; n = unat (MGetDataSize h); size_kd = unat (FHeadSize h) + n;
          compatible = MIsCompatibleWith \<lparr>FMajor = fst kd, FMinor = snd kd, FRelease = 0\<rparr> (FHeadVersion h)
      in if is_small b size_kd then Some (EBufferIsSmall, 0, p)
         else if length b < size_kd then None
         else
           (let p1 = add_number_of_data n p
            in Some (Eok, size_kd,
                 if compatible \<and> data_sum_ok h b then MProcess (take size_kd b) p1 else p1)))"

text \<open>For a kind that is not handled; on an error the iterator stays as the search left it.\<close>

definition MCheckKD_head :: "in_parser \<Rightarrow> buffer \<Rightarrow> nat \<Rightarrow> (e_error_t \<times> nat \<times> in_parser) option" where
  "MCheckKD_head p b aLast =
     (let h = head_of b; n = unat (MGetDataSize h); size_kd = unat (FHeadSize h) + n; v = FHeadVersion h
      in if is_small b size_kd then Some (EBufferIsSmall, 0, p)
         else if FMajor v = 0 \<and> FMinor v = 0 \<or> MGetFromUUID h = 0 \<or> MGetTime h = 0 then Some (Eok, aLast, p)
         else if length b < size_kd then None
         else if \<not> data_sum_ok h b then Some (Eok, aLast, p)
         else Some (Eok, size_kd, add_number_of_data n p))"

definition MLookingForDG :: "receives \<Rightarrow> in_parser \<Rightarrow> buffer \<Rightarrow> nat \<Rightarrow> (e_error_t \<times> nat \<times> in_parser) option" where
  "MLookingForDG kds p b aLast =
     (let h = head_of b
      in if length b < E_HEAD_SIZE then None
         else if unat (FHeadSize h) \<noteq> E_HEAD_SIZE then Some (ESizeDG, aLast, p)
         else case kds (FHeadType h) of
             Some kd \<Rightarrow> MCheckKD kd p b
           | None \<Rightarrow> MCheckKD_head p b aLast)"

definition count_size_error :: "in_parser \<Rightarrow> in_parser" where
  "count_size_error p = p\<lparr>FState := (FState p)\<lparr>FESize := FESize (FState p) + 1\<rparr>\<rparr>"

definition count_small_buffer :: "in_parser \<Rightarrow> in_parser" where
  "count_small_buffer p = p\<lparr>FState := (FState p)\<lparr>FEBuffer := FEBuffer (FState p) + 1\<rparr>\<rparr>"

text \<open>One round of the loop of \<open>MAnalizeBuffer\<close> and the loop; the result is what remains.\<close>

definition analize_round :: "receives \<Rightarrow> in_parser \<Rightarrow> buffer \<Rightarrow> (e_error_t \<times> nat \<times> in_parser) option" where
  "analize_round kds p b =
     MLookingForHead b \<bind> (\<lambda>(code, it). if code = Eok then MLookingForDG kds p b it else Some (code, it, p))"

function MAnalizeBuffer :: "receives \<Rightarrow> in_parser \<Rightarrow> buffer \<Rightarrow> (buffer \<times> in_parser) option" where
  "MAnalizeBuffer kds p b =
     (if b = [] then Some ([], p)
      else case analize_round kds p b of
          None \<Rightarrow> None
        | Some (Eok, it, q) \<Rightarrow> MAnalizeBuffer kds q (if it \<noteq> 0 then drop it b else tl b)
        | Some (ESizeDG, it, q) \<Rightarrow> MAnalizeBuffer kds (count_size_error q) (tl b)
        | Some (EBufferIsSmall, it, q) \<Rightarrow> Some (drop it b, count_small_buffer q)
        | Some (ENoDG, it, q) \<Rightarrow> Some (drop it b, q))"
  by auto
termination
  by (relation "measure (\<lambda>(kds, p, b). length b)") auto

declare MAnalizeBuffer.simps [simp del]

definition MReceivedData :: "receives \<Rightarrow> in_parser \<Rightarrow> buffer \<Rightarrow> in_parser option" where
  "MReceivedData kds p aData =
     (if aData = [] then Some p
      else
        (let s = FState p;
             p1 = p\<lparr>FState := s\<lparr>FReadBytes := FReadBytes s + of_nat (length aData), FPackets := FPackets s + 1\<rparr>\<rparr>
         in case MAnalizeBuffer kds p1 (FBuf p @ aData) of
             None \<Rightarrow> None
           | Some (remain, q) \<Rightarrow> Some (if remain \<noteq> [] then q\<lparr>FBuf := remain\<rparr> else MCleanBuffer q)))"

section \<open>Frames\<close>

text \<open>
  A frame is a packet with a sound head whose size is the one it has; of a kind that is not
  handled it must also be told who sent it and when, and the data must match its sum. It is
  handled when the kind is known, the version fits and the data matches its sum.
\<close>

definition is_frame :: "receives \<Rightarrow> buffer \<Rightarrow> bool" where
  "is_frame kds f \<longleftrightarrow>
     (let h = head_of f
      in E_HEAD_SIZE \<le> length f \<and> length f < 2 ^ 31 \<and> head_crc (take E_HEAD_SIZE f) = head_check
         \<and> unat (FHeadSize h) = E_HEAD_SIZE \<and> length f = E_HEAD_SIZE + unat (MGetDataSize h)
         \<and> (kds (FHeadType h) = None \<longrightarrow> (FMajor (FHeadVersion h) \<noteq> 0 \<or> FMinor (FHeadVersion h) \<noteq> 0)
              \<and> MGetFromUUID h \<noteq> 0 \<and> MGetTime h \<noteq> 0 \<and> data_sum_ok h f))"

definition is_handled :: "receives \<Rightarrow> buffer \<Rightarrow> bool" where
  "is_handled kds f \<longleftrightarrow>
     (case kds (FHeadType (head_of f)) of
        None \<Rightarrow> False
      | Some kd \<Rightarrow> MIsCompatibleWith \<lparr>FMajor = fst kd, FMinor = snd kd, FRelease = 0\<rparr> (FHeadVersion (head_of f))
          \<and> data_sum_ok (head_of f) f)"

text \<open>What a frame does to the parser.\<close>

definition take_frame :: "receives \<Rightarrow> buffer \<Rightarrow> in_parser \<Rightarrow> in_parser" where
  "take_frame kds f p =
     (let q = add_number_of_data (length f - E_HEAD_SIZE) p in if is_handled kds f then MProcess f q else q)"

lemma frame_not_empty: "is_frame kds f \<Longrightarrow> f \<noteq> []"
  by (auto simp: is_frame_def Let_def E_HEAD_SIZE_def)

lemma is_small_iff: "n < 2 ^ 31 \<Longrightarrow> is_small b n \<longleftrightarrow> length b < n"
  using sint_sbintrunc' [where 'a = 32, of "int n"] signed_take_bit_int_eq_self [of 31 "int n"]
  by (simp add: is_small_def)

lemma looking_at_frame:
  assumes "is_frame kds f"
  shows "MLookingForHead (f @ r) = Some (Eok, 0)"
  using assms by (auto simp: is_frame_def MLookingForHead_def Let_def)

lemma data_sum_ok_append:
  "length f = E_HEAD_SIZE + unat (MGetDataSize h) \<Longrightarrow> data_sum_ok h (f @ r) = data_sum_ok h f"
  by (simp add: data_sum_ok_def Let_def)

lemma frame_size: "is_frame kds f \<Longrightarrow> unat (FHeadSize (head_of f)) + unat (MGetDataSize (head_of f)) = length f"
  by (auto simp: is_frame_def Let_def)

text \<open>The packet at the beginning is taken by what its head says, sound or not.\<close>

definition looks_like_frame :: "receives \<Rightarrow> buffer \<Rightarrow> bool" where
  "looks_like_frame kds f \<longleftrightarrow>
     (let h = head_of f
      in E_HEAD_SIZE \<le> length f \<and> length f < 2 ^ 31 \<and> unat (FHeadSize h) = E_HEAD_SIZE
         \<and> length f = E_HEAD_SIZE + unat (MGetDataSize h)
         \<and> (kds (FHeadType h) = None \<longrightarrow> (FMajor (FHeadVersion h) \<noteq> 0 \<or> FMinor (FHeadVersion h) \<noteq> 0)
              \<and> MGetFromUUID h \<noteq> 0 \<and> MGetTime h \<noteq> 0 \<and> data_sum_ok h f))"

lemma is_frame_iff: "is_frame kds f \<longleftrightarrow> looks_like_frame kds f \<and> head_crc (take E_HEAD_SIZE f) = head_check"
  by (auto simp: is_frame_def looks_like_frame_def Let_def)

lemma dg_at_frame:
  assumes "looks_like_frame kds f"
  shows "MLookingForDG kds p (f @ r) l = Some (Eok, length f, take_frame kds f p)"
proof -
  let ?h = "head_of f"
  have f: "E_HEAD_SIZE \<le> length f" "length f < 2 ^ 31" "unat (FHeadSize ?h) = E_HEAD_SIZE"
    "length f = E_HEAD_SIZE + unat (MGetDataSize ?h)"
    using assms by (simp_all add: looks_like_frame_def Let_def)
  have h: "head_of (f @ r) = ?h" using f(1) by (simp add: head_of_append E_HEAD_SIZE_def)
  have int_size: "\<not> is_small (f @ r) (E_HEAD_SIZE + unat (MGetDataSize ?h))"
    unfolding f(4) [symmetric] is_small_iff [OF f(2)] by simp
  show ?thesis
  proof (cases "kds (FHeadType ?h)")
    case None
    then have "(FMajor (FHeadVersion ?h) \<noteq> 0 \<or> FMinor (FHeadVersion ?h) \<noteq> 0) \<and> MGetFromUUID ?h \<noteq> 0 \<and> MGetTime ?h \<noteq> 0
      \<and> data_sum_ok ?h (f @ r)"
      using assms f(4) by (auto simp: looks_like_frame_def Let_def data_sum_ok_append)
    then show ?thesis using None f int_size
      by (auto simp: MLookingForDG_def Let_def h MCheckKD_head_def take_frame_def is_handled_def)
  next
    case (Some kd)
    then show ?thesis using f int_size
      by (auto simp: MLookingForDG_def Let_def h MCheckKD_def take_frame_def is_handled_def data_sum_ok_append [OF f(4)])
  qed
qed

lemma round_at_frame:
  "is_frame kds f \<Longrightarrow> analize_round kds p (f @ r) = Some (Eok, length f, take_frame kds f p)"
  by (simp add: analize_round_def looking_at_frame) (simp add: dg_at_frame is_frame_iff)

lemma round_at_part:
  assumes "is_frame kds (a @ c)" "c \<noteq> []" "a \<noteq> []"
  shows "analize_round kds p a = Some (EBufferIsSmall, 0, p)"
proof (cases "length a < E_HEAD_SIZE")
  case True
  then show ?thesis by (simp add: analize_round_def MLookingForHead_def)
next
  case False
  let ?h = "head_of (a @ c)"
  have f: "length (a @ c) < 2 ^ 31" "unat (FHeadSize ?h) = E_HEAD_SIZE"
    "length (a @ c) = E_HEAD_SIZE + unat (MGetDataSize ?h)" "head_crc (take E_HEAD_SIZE a) = head_check"
    using assms False by (simp_all add: is_frame_def Let_def)
  have h: "head_of a = ?h" using False by (simp add: head_of_append E_HEAD_SIZE_def)
  have "is_small a (E_HEAD_SIZE + unat (MGetDataSize ?h))"
    unfolding f(3) [symmetric] is_small_iff [OF f(1)] using assms(2) by simp
  then show ?thesis using f(2-4) False
    by (auto simp: analize_round_def MLookingForHead_def MLookingForDG_def MCheckKD_def MCheckKD_head_def Let_def h
        split: option.splits)
qed

section \<open>Streams of frames\<close>

lemma analize_frames:
  "\<forall>f\<in>set fs. is_frame kds f \<Longrightarrow>
     MAnalizeBuffer kds p (concat fs @ r) = MAnalizeBuffer kds (fold (take_frame kds) fs p) r"
proof (induction fs arbitrary: p)
  case (Cons f fs)
  then have f: "is_frame kds f" by simp
  have "MAnalizeBuffer kds p (f @ concat fs @ r) = MAnalizeBuffer kds (take_frame kds f p) (concat fs @ r)"
    using frame_not_empty [OF f] round_at_frame [OF f, of p "concat fs @ r"]
    by (simp add: MAnalizeBuffer.simps [of kds p "f @ concat fs @ r"])
  with Cons show ?case by simp
qed simp

definition part_of_frame :: "receives \<Rightarrow> buffer \<Rightarrow> bool" where
  "part_of_frame kds a \<longleftrightarrow> a = [] \<or> (\<exists>c. c \<noteq> [] \<and> is_frame kds (a @ c))"

lemma analize_part:
  assumes "part_of_frame kds a"
  shows "MAnalizeBuffer kds p a = Some (a, if a = [] then p else count_small_buffer p)"
proof (cases "a = []")
  case False
  then have "analize_round kds p a = Some (EBufferIsSmall, 0, p)"
    using assms round_at_part by (auto simp: part_of_frame_def)
  then show ?thesis using False by (simp add: MAnalizeBuffer.simps [of kds p a])
qed (simp add: MAnalizeBuffer.simps)

text \<open>Every beginning of a stream of frames is some of the frames and a part of the next one.\<close>

lemma stream_prefix:
  assumes "\<forall>f\<in>set fs. is_frame kds f" "x @ y = concat fs"
  shows "\<exists>fs1 fs2 a. fs = fs1 @ fs2 \<and> x = concat fs1 @ a \<and> a @ y = concat fs2 \<and> part_of_frame kds a"
  using assms
proof (induction fs arbitrary: x)
  case Nil
  then show ?case by (auto simp: part_of_frame_def)
next
  case (Cons f fs)
  show ?case
  proof (cases "length f \<le> length x")
    case True
    then have x: "x = f @ drop (length f) x" and y: "drop (length f) x @ y = concat fs"
      using Cons.prems(2) by (auto simp: append_eq_append_conv_if split: if_splits) (metis append_take_drop_id)
    obtain fs1 fs2 a where "fs = fs1 @ fs2" "drop (length f) x = concat fs1 @ a" "a @ y = concat fs2" "part_of_frame kds a"
      using Cons.IH [OF _ y] Cons.prems(1) by auto
    then have "f # fs = (f # fs1) @ fs2 \<and> x = concat (f # fs1) @ a \<and> a @ y = concat fs2 \<and> part_of_frame kds a"
      using x by simp
    then show ?thesis by blast
  next
    case False
    then have f: "f = x @ drop (length x) f" "drop (length x) f \<noteq> []"
      using Cons.prems(2) by (auto simp: append_eq_append_conv_if split: if_splits) (metis append_take_drop_id)
    have "is_frame kds (x @ drop (length x) f)" using Cons.prems(1) f(1) by simp
    then have "part_of_frame kds x" using f(2) part_of_frame_def by blast
    then show ?thesis using Cons.prems(2) by (intro exI [of _ "[]"] exI [of _ "f # fs"] exI [of _ x]) simp
  qed
qed

lemma take_frames:
  "FTarget (fold (take_frame kds) fs p) = FTarget p"
  "processed (fold (take_frame kds) fs p) = processed p @ (if FTarget p then filter (is_handled kds) fs else [])"
  "FDGCounter (FState (fold (take_frame kds) fs p))
     = FDGCounter (FState p) + of_nat (if FTarget p then length (filter (is_handled kds) fs) else 0)"
  "FNumberOfData (FState (fold (take_frame kds) fs p))
     = FNumberOfData (FState p) + of_nat (sum_list (map (\<lambda>f. length f - E_HEAD_SIZE) fs))"
  "FReadBytes (FState (fold (take_frame kds) fs p)) = FReadBytes (FState p)"
  by (induction fs arbitrary: p) (auto simp: take_frame_def Let_def add_number_of_data_def MProcess_def)

text \<open>What a parser has seen and delivered, and what remains to be parsed.\<close>

definition parsed :: "receives \<Rightarrow> in_parser \<Rightarrow> buffer list \<Rightarrow> nat \<Rightarrow> in_parser \<Rightarrow> bool" where
  "parsed kds p fs n q \<longleftrightarrow> FTarget q = FTarget p
     \<and> processed q = processed p @ (if FTarget p then filter (is_handled kds) fs else [])
     \<and> FDGCounter (FState q) = FDGCounter (FState p) + of_nat (if FTarget p then length (filter (is_handled kds) fs) else 0)
     \<and> FNumberOfData (FState q) = FNumberOfData (FState p) + of_nat (sum_list (map (\<lambda>f. length f - E_HEAD_SIZE) fs))
     \<and> FReadBytes (FState q) = FReadBytes (FState p) + of_nat n"

lemma parsed_trans: "parsed kds p fs n q \<Longrightarrow> parsed kds q gs m r \<Longrightarrow> parsed kds p (fs @ gs) (n + m) r"
  by (simp add: parsed_def)

lemma chunk_received:
  assumes "\<forall>f\<in>set fs. is_frame kds f" "FBuf p @ c = concat fs @ a" "part_of_frame kds a" "c \<noteq> []"
  shows "\<exists>q. MReceivedData kds p c = Some q \<and> FBuf q = a \<and> parsed kds p fs (length c) q"
proof -
  let ?p = "p\<lparr>FState := (FState p)\<lparr>FReadBytes := FReadBytes (FState p) + of_nat (length c), FPackets := FPackets (FState p) + 1\<rparr>\<rparr>"
  let ?q = "fold (take_frame kds) fs ?p"
  have "MAnalizeBuffer kds ?p (FBuf p @ c) = Some (a, if a = [] then ?q else count_small_buffer ?q)"
    unfolding assms(2) analize_frames [OF assms(1)] by (rule analize_part [OF assms(3)])
  then show ?thesis
    using assms(4) by (auto simp: MReceivedData_def Let_def MCleanBuffer_def parsed_def take_frames count_small_buffer_def)
qed

lemma chunks_received:
  assumes "\<forall>f\<in>set fs. is_frame kds f" "FBuf p @ concat cs = concat fs" "part_of_frame kds (FBuf p)"
  shows "\<exists>q. run_ops (MReceivedData kds) p cs = Some q \<and> FBuf q = [] \<and> parsed kds p fs (length (concat cs)) q"
  using assms
proof (induction cs arbitrary: p fs)
  case Nil
  have "fs = []"
  proof (cases fs)
    case (Cons f gs)
    with Nil.prems(1,2) have "is_frame kds f" "FBuf p = f @ concat gs" by auto
    then show ?thesis using Nil.prems(3) round_at_frame [of kds f p "concat gs"] round_at_part [of kds "f @ concat gs" _ p] frame_not_empty [of kds f]
      by (auto simp: part_of_frame_def)
  qed
  then show ?case using Nil.prems(2) by (simp add: parsed_def)
next
  case (Cons c cs)
  show ?case
  proof (cases "c = []")
    case True
    then show ?thesis using Cons by (simp add: MReceivedData_def)
  next
    case False
    have "(FBuf p @ c) @ concat cs = concat fs" using Cons.prems(2) by simp
    then obtain fs1 fs2 a where s: "fs = fs1 @ fs2" "FBuf p @ c = concat fs1 @ a" "a @ concat cs = concat fs2" "part_of_frame kds a"
      using stream_prefix [OF Cons.prems(1)] by blast
    have frames: "\<forall>f\<in>set fs1. is_frame kds f" "\<forall>f\<in>set fs2. is_frame kds f" using Cons.prems(1) s(1) by auto
    obtain q where q: "MReceivedData kds p c = Some q" "FBuf q = a" "parsed kds p fs1 (length c) q"
      using chunk_received [OF frames(1) s(2,4) False] by blast
    obtain r where r: "run_ops (MReceivedData kds) q cs = Some r" "FBuf r = []" "parsed kds q fs2 (length (concat cs)) r"
      using Cons.IH [OF frames(2), of q] s(3,4) q(2) by auto
    show ?thesis using q(1) r(1,2) parsed_trans [OF q(3) r(3)] s(1) by simp
  qed
qed

section \<open>From the sender to the receiver\<close>

text \<open>
  Packets that a program fills and sends one after the other, each at its time and with or
  without a sum of its data.
\<close>

fun fill_all :: "uuid \<Rightarrow> 32 word \<Rightarrow> (clock \<times> bool \<times> buffer) list \<Rightarrow> (buffer list \<times> 32 word) option" where
  "fill_all from g [] = Some ([], g)"
| "fill_all from g ((clk, crc, b) # ms) =
     fill_dg_head clk b (length b) from crc g \<bind> (\<lambda>(f, g1).
     fill_all from g1 ms \<bind> (\<lambda>(fs, g2). Some (f # fs, g2)))"

definition sendable :: "receives \<Rightarrow> clock \<Rightarrow> buffer \<Rightarrow> bool" where
  "sendable kds clk b \<longleftrightarrow>
     (let h = head_of b
      in E_HEAD_SIZE < length b \<and> length b < 2 ^ 31 \<and> FHeadSize h = 32 \<and> head_MIsValidEndian h
         \<and> MIsExist (FHeadVersion h) \<and> \<not> sint (get_unix_time clk div 1000 - c_time clk) > 1
         \<and> (\<exists>kd. kds (FHeadType h) = Some kd
              \<and> MIsCompatibleWith \<lparr>FMajor = fst kd, FMinor = snd kd, FRelease = 0\<rparr> (FHeadVersion h)))"

lemma filled_is_handled:
  assumes "sendable kds clk b"
  shows "\<exists>h. fill_dg_head clk b (length b) from crc g = Some (head_bytes h @ drop E_HEAD_SIZE b, g + 1)
    \<and> is_frame kds (head_bytes h @ drop E_HEAD_SIZE b) \<and> is_handled kds (head_bytes h @ drop E_HEAD_SIZE b)
    \<and> MGetFromUUID h = from \<and> FHeadType h = FHeadType (head_of b)"
proof -
  let ?h = "filled_head clk b (length b) from crc (g + 1)"
  let ?f = "head_bytes ?h @ drop E_HEAD_SIZE b"
  obtain kd where s: "E_HEAD_SIZE < length b" "length b < 2 ^ 31" "FHeadSize (head_of b) = 32" "head_MIsValidEndian (head_of b)"
    "MIsExist (FHeadVersion (head_of b))" "\<not> sint (get_unix_time clk div 1000 - c_time clk) > 1"
    "kds (FHeadType (head_of b)) = Some kd"
    "MIsCompatibleWith \<lparr>FMajor = fst kd, FMinor = snd kd, FRelease = 0\<rparr> (FHeadVersion (head_of b))"
    using assms by (auto simp: sendable_def Let_def)
  have fill: "fill_dg_head clk b (length b) from crc g = Some (?f, g + 1)"
    using s by (intro fill_dg_head_fills) auto
  have endian: "head_MIsValidEndian ?h" using s(4) by (simp add: head_MIsValidEndian_def filled_head_of)
  then have data: "unat (MGetDataSize ?h) = length b - E_HEAD_SIZE"
    "MGetDataCRC ?h = (if crc then data_crc (drop E_HEAD_SIZE b) else 0)"
    using s(2) by (simp_all add: MGetDataSize_def MGetDataCRC_def filled_head_of unat_of_nat)
  have "is_frame kds ?f" unfolding is_frame_def Let_def head_of_bytes
    using s data(1) by (simp add: filled_head_of E_HEAD_SIZE_def)
  moreover have "data_sum_ok ?h ?f" using data by (simp add: data_sum_ok_def E_HEAD_SIZE_def)
  then have "is_handled kds ?f" unfolding is_handled_def head_of_bytes using s(7,8) by (simp add: filled_head_of)
  ultimately show ?thesis using fill endian by (auto simp: MGetFromUUID_def filled_head_of)
qed

lemma fill_all_frames:
  "\<forall>(clk, crc, b)\<in>set ms. sendable kds clk b \<Longrightarrow>
     \<exists>fs. fill_all from g ms = Some (fs, g + of_nat (length ms)) \<and> (\<forall>f\<in>set fs. is_frame kds f \<and> is_handled kds f)
       \<and> map (drop E_HEAD_SIZE) fs = map (\<lambda>(clk, crc, b). drop E_HEAD_SIZE b) ms
       \<and> map (\<lambda>f. FHeadType (head_of f)) fs = map (\<lambda>(clk, crc, b). FHeadType (head_of b)) ms
       \<and> (\<forall>f\<in>set fs. MGetFromUUID (head_of f) = from)"
proof (induction ms arbitrary: g)
  case (Cons m ms)
  obtain clk crc b where m: "m = (clk, crc, b)" by (cases m)
  then obtain h where h: "fill_dg_head clk b (length b) from crc g = Some (head_bytes h @ drop E_HEAD_SIZE b, g + 1)"
    "is_frame kds (head_bytes h @ drop E_HEAD_SIZE b)" "is_handled kds (head_bytes h @ drop E_HEAD_SIZE b)"
    "MGetFromUUID h = from" "FHeadType h = FHeadType (head_of b)"
    using Cons.prems filled_is_handled [of kds clk b "from" crc g] by auto
  obtain fs where fs: "fill_all from (g + 1) ms = Some (fs, g + 1 + of_nat (length ms))"
    "\<forall>f\<in>set fs. is_frame kds f \<and> is_handled kds f"
    "map (drop E_HEAD_SIZE) fs = map (\<lambda>(clk, crc, b). drop E_HEAD_SIZE b) ms"
    "map (\<lambda>f. FHeadType (head_of f)) fs = map (\<lambda>(clk, crc, b). FHeadType (head_of b)) ms"
    "\<forall>f\<in>set fs. MGetFromUUID (head_of f) = from"
    using Cons.IH [of "g + 1"] Cons.prems by auto
  show ?case unfolding m
    using h fs by (intro exI [of _ "(head_bytes h @ drop E_HEAD_SIZE b) # fs"]) (simp add: E_HEAD_SIZE_def)
qed simp

section \<open>Staying inside of the bytes\<close>

text \<open>
  The places at which the parser looks for a packet: what is left of the bytes there. The state of
  the parser has no influence on them.
\<close>

lemma round_place:
  "map_option (\<lambda>(code, it, q). (code, it)) (analize_round kds p b) = map_option (\<lambda>(code, it, q). (code, it)) (analize_round kds p' b)"
  by (auto simp: analize_round_def MLookingForDG_def MCheckKD_def MCheckKD_head_def Let_def split: bind_splits option.splits prod.splits)

function places :: "receives \<Rightarrow> buffer \<Rightarrow> buffer list" where
  "places kds b =
     (if b = [] then []
      else b # (case analize_round kds (new_parser True) b of
          Some (Eok, it, q) \<Rightarrow> places kds (if it \<noteq> 0 then drop it b else tl b)
        | Some (ESizeDG, it, q) \<Rightarrow> places kds (tl b)
        | _ \<Rightarrow> []))"
  by auto
termination
  by (relation "measure (\<lambda>(kds, b). length b)") auto

declare places.simps [simp del]

text \<open>
  Bytes that the parser leaves: exactly 32 that are no head; or more, with a head at their beginning
  that names more bytes than there are, but so many that the size is not more than these as an
  \<open>int\<close>, where a sound head is found at the beginning or later. A packet of a kind that is not
  handled is only read when it says who sent it and when.
\<close>

definition found_head :: "buffer \<Rightarrow> bool" where
  "found_head b \<longleftrightarrow> head_crc (take E_HEAD_SIZE b) = head_check
     \<or> (\<exists>i\<in>{1..<length b - E_HEAD_SIZE}. head_crc (take E_HEAD_SIZE (drop i b)) = head_check \<and> unat (b ! i) = E_HEAD_SIZE)"

definition overruns :: "receives \<Rightarrow> buffer \<Rightarrow> bool" where
  "overruns kds b \<longleftrightarrow>
     (let h = head_of b; size_kd = E_HEAD_SIZE + unat (MGetDataSize h)
      in length b = E_HEAD_SIZE \<and> head_crc b \<noteq> head_check
       \<or> E_HEAD_SIZE \<le> length b \<and> found_head b \<and> unat (FHeadSize h) = E_HEAD_SIZE
         \<and> length b < size_kd \<and> sint (word_of_nat size_kd :: 32 word) \<le> int (length b)
         \<and> (kds (FHeadType h) = None \<longrightarrow> (FMajor (FHeadVersion h) \<noteq> 0 \<or> FMinor (FHeadVersion h) \<noteq> 0)
              \<and> MGetFromUUID h \<noteq> 0 \<and> MGetTime h \<noteq> 0))"

lemma looking_for_head_cases:
  "MLookingForHead b = None \<longleftrightarrow> length b = E_HEAD_SIZE \<and> head_crc b \<noteq> head_check"
  "(\<exists>it. MLookingForHead b = Some (Eok, it)) \<longleftrightarrow> E_HEAD_SIZE \<le> length b \<and> found_head b \<and> \<not> (length b = E_HEAD_SIZE \<and> head_crc b \<noteq> head_check)"
  "MLookingForHead b = Some (code, it) \<Longrightarrow> it \<le> length b"
  by (auto simp: MLookingForHead_def Let_def found_head_def find_None_iff find_Some_iff split: option.splits if_splits)

lemma round_none: "analize_round kds p b = None \<longleftrightarrow> overruns kds b"
proof (cases "MLookingForHead b")
  case None
  then have "length b = E_HEAD_SIZE \<and> head_crc b \<noteq> head_check" using looking_for_head_cases(1) by blast
  then show ?thesis using None by (simp add: analize_round_def overruns_def Let_def)
next
  case (Some x)
  obtain code it where x: "x = (code, it)" by fastforce
  have no: "\<not> (length b = E_HEAD_SIZE \<and> head_crc b \<noteq> head_check)" using Some looking_for_head_cases(1) [of b] by auto
  show ?thesis
  proof (cases "code = Eok")
    case True
    then have "E_HEAD_SIZE \<le> length b" "found_head b" using Some x looking_for_head_cases(2) [of b] by auto
    moreover have "analize_round kds p b = MLookingForDG kds p b it" using Some x True by (simp add: analize_round_def)
    moreover have small: "(sint (word_of_nat n :: 32 word) \<le> int (length b)) = (\<not> is_small b n)" for n
      unfolding is_small_def not_less ..
    ultimately show ?thesis using no unfolding overruns_def Let_def small
      by (cases "unat (FHeadSize (head_of b)) = E_HEAD_SIZE"; cases "kds (FHeadType (head_of b))")
        (simp_all add: MLookingForDG_def MCheckKD_def MCheckKD_head_def Let_def)
  next
    case False
    then have "\<not> (E_HEAD_SIZE \<le> length b \<and> found_head b)" using Some x no looking_for_head_cases(2) [of b] by auto
    moreover have "analize_round kds p b = Some (code, it, p)" using Some x False by (simp add: analize_round_def)
    ultimately show ?thesis using no by (auto simp: overruns_def Let_def)
  qed
qed

lemma analize_none: "MAnalizeBuffer kds p b = None \<longleftrightarrow> (\<exists>s\<in>set (places kds b). overruns kds s)"
proof (induction "length b" arbitrary: p b rule: less_induct)
  case less
  show ?case
  proof (cases "b = [] \<or> analize_round kds p b = None")
    case True
    then show ?thesis using round_none [of kds p b] by (auto simp: MAnalizeBuffer.simps [of kds p b] places.simps [of kds b])
  next
    case False
    then obtain code it q where r: "analize_round kds p b = Some (code, it, q)" by (metis option.exhaust prod_cases3)
    then obtain q' where r': "analize_round kds (new_parser True) b = Some (code, it, q')"
      using round_place [of kds p b "new_parser True"] by (cases "analize_round kds (new_parser True) b") auto
    have "\<not> overruns kds b" using False unfolding round_none by simp
    then show ?thesis using False r r' less.hyps
      by (cases code) (auto simp: MAnalizeBuffer.simps [of kds p b] places.simps [of kds b])
  qed
qed

text \<open>What the target is given, one after the other out of the bytes: packets that say what they are.\<close>

definition given_packet :: "receives \<Rightarrow> buffer \<Rightarrow> bool" where
  "given_packet kds f \<longleftrightarrow> is_handled kds f \<and> unat (FHeadSize (head_of f)) = E_HEAD_SIZE
     \<and> length f = E_HEAD_SIZE + unat (MGetDataSize (head_of f))"

inductive cut_out :: "receives \<Rightarrow> buffer \<Rightarrow> buffer list \<Rightarrow> buffer \<Rightarrow> bool" for kds where
  rest: "cut_out kds (g @ r) [] r"
| packet: "given_packet kds f \<Longrightarrow> cut_out kds b fs r \<Longrightarrow> cut_out kds (g @ f @ b) (f # fs) r"

lemma cut_out_skip: "cut_out kds b fs r \<Longrightarrow> cut_out kds (g @ b) fs r"
proof (induction rule: cut_out.induct)
  case (rest h r)
  then show ?case using cut_out.rest [of kds "g @ h" r] by simp
next
  case (packet f b fs r h)
  then show ?case using cut_out.packet [of kds f b fs r "g @ h"] by simp
qed

lemma round_gives:
  assumes "analize_round kds p b = Some (code, it, q)"
  shows "it \<le> length b \<and> (processed q = processed p \<or> code = Eok \<and> 0 < it \<and> given_packet kds (take it b) \<and> processed q = processed p @ [take it b])"
proof (cases "MLookingForHead b")
  case None
  then show ?thesis using assms by (simp add: analize_round_def)
next
  case (Some x)
  obtain c l where x: "x = (c, l)" by fastforce
  have l: "l \<le> length b" using Some x looking_for_head_cases(3) by blast
  let ?h = "head_of b" and ?n = "E_HEAD_SIZE + unat (MGetDataSize (head_of b))"
  have packet: "given_packet kds (take ?n b)"
    if "kds (FHeadType ?h) = Some kd" "unat (FHeadSize ?h) = E_HEAD_SIZE" "?n \<le> length b" "data_sum_ok ?h b"
      "MIsCompatibleWith \<lparr>FMajor = fst kd, FMinor = snd kd, FRelease = 0\<rparr> (FHeadVersion ?h)" for kd
  proof -
    have "head_of (take ?n b) = ?h" using that(3) by (intro head_of_take) (simp_all add: E_HEAD_SIZE_def)
    moreover have "data_sum_ok ?h (take ?n b)" using that(4) by (simp add: data_sum_ok_def Let_def drop_take)
    ultimately show ?thesis using that by (simp add: given_packet_def is_handled_def)
  qed
  show ?thesis
  proof (cases "c = Eok")
    case True
    then have "MLookingForDG kds p b l = Some (code, it, q)" using assms Some x by (simp add: analize_round_def)
    then show ?thesis using l packet
      by (auto simp: MLookingForDG_def MCheckKD_def MCheckKD_head_def Let_def add_number_of_data_def MProcess_def E_HEAD_SIZE_def
          split: if_splits option.splits)
  next
    case False
    then show ?thesis using assms Some x l by (auto simp: analize_round_def)
  qed
qed

lemma analize_gives:
  "MAnalizeBuffer kds p b = Some (r, q) \<Longrightarrow> \<exists>fs. processed q = processed p @ fs \<and> cut_out kds b fs r"
proof (induction "length b" arbitrary: p b rule: less_induct)
  case less
  show ?case
  proof (cases "b = []")
    case True
    then show ?thesis using less.prems cut_out.rest [of kds "[]" "[]"] by (auto simp: MAnalizeBuffer.simps)
  next
    case False
    then obtain code it q1 where round: "analize_round kds p b = Some (code, it, q1)"
      using less.prems by (auto simp: MAnalizeBuffer.simps [of kds p b] split: option.splits)
    note g = round_gives [OF round]
    have again: "\<exists>fs. processed q = processed p @ fs \<and> cut_out kds b fs r"
      if more: "MAnalizeBuffer kds q2 (drop n b) = Some (r, q)" "processed q2 = processed q1" "0 < n" "n = it \<or> processed q1 = processed p" for n q2
    proof -
      obtain fs where fs: "processed q = processed q1 @ fs" "cut_out kds (drop n b) fs r"
        using less.hyps [OF _ more(1)] more(2,3) False by auto
      show ?thesis
      proof (cases "processed q1 = processed p")
        case True
        then show ?thesis using fs cut_out_skip [OF fs(2), of "take n b"] by auto
      next
        case new: False
        then have "given_packet kds (take n b)" "processed q1 = processed p @ [take n b]" using g more(4) by auto
        then show ?thesis using fs cut_out.packet [OF _ fs(2), of "take n b" "[]"] by auto
      qed
    qed
    note step = MAnalizeBuffer.simps [of kds p b]
    have tl: "tl b = drop 1 b" by (simp add: drop_Suc)
    show ?thesis
    proof (cases code)
      case Eok
      then have "MAnalizeBuffer kds q1 (drop (if it \<noteq> 0 then it else 1) b) = Some (r, q)"
        using less.prems False round by (auto simp: step tl split: if_splits)
      then show ?thesis using g again by (cases "it = 0") auto
    next
      case ESizeDG
      then show ?thesis using again [of "count_size_error q1" 1] less.prems False round g by (auto simp: step tl count_size_error_def)
    next
      case EBufferIsSmall
      then show ?thesis using less.prems False round g cut_out.rest [of kds "take it b" "drop it b"]
        by (auto simp: step count_small_buffer_def)
    next
      case ENoDG
      then show ?thesis using less.prems False round g cut_out.rest [of kds "take it b" "drop it b"] by (auto simp: step)
    qed
  qed
qed

section \<open>Errors of the search\<close>

lemma head_size_byte: "FHeadSize (head_of b) = b ! 0"
  by (simp add: head_of_def)

lemma looking_past_frame:
  assumes "E_HEAD_SIZE \<le> length u" "head_crc (take E_HEAD_SIZE u) \<noteq> head_check" "is_frame kds f"
  shows "\<exists>i. MLookingForHead (u @ f @ [x]) = Some (Eok, i)"
proof -
  let ?b = "u @ f @ [x]" and ?ok = "\<lambda>b i. head_crc (take E_HEAD_SIZE (drop i b)) = head_check \<and> unat (b ! i) = E_HEAD_SIZE"
  have f: "E_HEAD_SIZE \<le> length f" "head_crc (take E_HEAD_SIZE f) = head_check" "unat (f ! 0) = E_HEAD_SIZE"
    using assms(3) by (simp_all add: is_frame_def Let_def head_size_byte)
  then have "?ok ?b (length u)" by (auto simp: nth_append E_HEAD_SIZE_def)
  moreover have "length u \<in> set [1..<length ?b - E_HEAD_SIZE]" using assms(1) f(1) by (auto simp: E_HEAD_SIZE_def)
  ultimately have "find (?ok ?b) [1..<length ?b - E_HEAD_SIZE] \<noteq> None" unfolding find_None_iff by blast
  then obtain i where "find (?ok ?b) [1..<length ?b - E_HEAD_SIZE] = Some i" by blast
  then show ?thesis using assms(1,2) f(1) by (simp add: MLookingForHead_def Let_def E_HEAD_SIZE_def)
qed

lemma round_at_unchecked:
  assumes "looks_like_frame kds u" "head_crc (take E_HEAD_SIZE u) \<noteq> head_check" "is_frame kds f"
  shows "analize_round kds p (u @ f @ [x]) = Some (Eok, length u, take_frame kds u p)"
proof -
  have "E_HEAD_SIZE \<le> length u" using assms(1) by (simp add: looks_like_frame_def Let_def)
  then obtain i where "MLookingForHead (u @ f @ [x]) = Some (Eok, i)"
    using looking_past_frame [OF _ assms(2,3)] by blast
  then show ?thesis by (simp add: analize_round_def dg_at_frame [OF assms(1)])
qed

lemma large_size_not_small:
  assumes "2 ^ 31 \<le> n" "n < 2 ^ 32 + 32" "32 \<le> length b"
  shows "\<not> is_small b n"
proof (cases "n < 2 ^ 32")
  case True
  have "n div 2147483648 = 1" using assms(1) True by (intro div_nat_eqI) auto
  then have "int n div 2147483648 = 1" by (metis of_nat_1 of_nat_numeral zdiv_int)
  then have "odd (int n div 2147483648)" by simp
  then have "signed_take_bit 31 (int n) = int n - 2 ^ 32" using assms(1) True
    by (simp add: signed_take_bit_eq_take_bit_minus bit_iff_odd take_bit_int_eq_self)
  moreover have "sint (word_of_nat n :: 32 word) = signed_take_bit 31 (int n)"
    using sint_sbintrunc' [where 'a = 32, of "int n"] by simp
  ultimately show ?thesis using True by (simp add: is_small_def)
next
  case False
  then obtain m where m: "n = m + 2 ^ 32" "m < 32" using assms(2) by (metis add.commute add_less_cancel_left le_Suc_ex not_less)
  then have "(word_of_nat n :: 32 word) = word_of_nat m" by (simp add: word_of_nat_eq_iff take_bit_nat_def)
  then have "is_small b n \<longleftrightarrow> is_small b m" by (simp add: is_small_def)
  then show ?thesis using is_small_iff [of m b] m(2) assms(3) by simp
qed

lemma wrong_sum_found:
  assumes "c \<noteq> head_crc (head_front h)"
  shows "head_crc (head_bytes (h\<lparr>FCrcHead := c\<rparr>)) \<noteq> head_check"
proof
  assume "head_crc (head_bytes (h\<lparr>FCrcHead := c\<rparr>)) = head_check"
  then have "head_crc (head_front h @ [c]) = head_crc (head_front h @ [head_crc (head_front h)])"
    unfolding crc_of_own_sum by (simp add: head_bytes_def)
  then show False using assms crc_byte_inj(2) [of "0x97 :: 8 word"] by (simp add: head_crc_append)
qed

section \<open>Properties\<close>

text \<open>
  C13: however a stream of frames is cut into pieces, the parser takes every byte of it, never
  leaves the bytes, gives the target exactly the frames that are handled, each once, whole and
  in the order sent, and keeps nothing at the end.
\<close>

theorem stream_is_parsed:
  assumes "\<forall>f\<in>set fs. is_frame kds f" "concat cs = concat fs" "FBuf p = []" "FTarget p"
  shows "\<exists>q. run_ops (MReceivedData kds) p cs = Some q \<and> FBuf q = []
    \<and> processed q = processed p @ filter (is_handled kds) fs
    \<and> FDGCounter (FState q) = FDGCounter (FState p) + of_nat (length (filter (is_handled kds) fs))
    \<and> FReadBytes (FState q) = FReadBytes (FState p) + of_nat (length (concat fs))
    \<and> FNumberOfData (FState q) = FNumberOfData (FState p) + of_nat (sum_list (map (\<lambda>f. length f - E_HEAD_SIZE) fs))"
  using chunks_received [OF assms(1), of p cs] assms(2-4) by (auto simp: part_of_frame_def parsed_def)

definition sample_head :: head_t where
  "sample_head = (new_head 0 0 2 21)\<lparr>FHeadDataSize := 2\<rparr>"

definition sample_frame :: buffer where
  "sample_frame = head_bytes (sample_head\<lparr>FCrcHead := head_crc (head_front sample_head)\<rparr>) @ [7, 8]"

lemma sample_frame_ok: "is_frame receives_main_channel sample_frame" "is_handled receives_main_channel sample_frame"
  by (simp_all add: is_frame_iff looks_like_frame_def is_handled_def Let_def sample_frame_def head_crc_filled E_HEAD_SIZE_def)
    (simp_all add: sample_head_def new_head_def MGetDataSize_def receives_main_channel_def MIsCompatibleWith_def
      data_sum_ok_def MGetDataCRC_def E_HEAD_SIZE_def head_MIsValidEndian_def)

theorem stream_is_parsed_witness:
  "\<exists>q. run_ops (MReceivedData receives_main_channel) (new_parser True) (map (\<lambda>x. [x]) (sample_frame @ sample_frame)) = Some q
    \<and> FBuf q = [] \<and> processed q = [sample_frame, sample_frame]"
  using stream_is_parsed [of "[sample_frame, sample_frame]" receives_main_channel
      "map (\<lambda>x. [x]) (sample_frame @ sample_frame)" "new_parser True"] sample_frame_ok
  by (auto simp: new_parser_def)

text \<open>
  C34: packets that a program fills with \<open>fill_dg_head\<close> and sends arrive: the receiver that knows
  their kinds gives its target the same packets in the same order, with the data and the kind
  they were filled with, however the stream is cut into pieces.
\<close>

theorem sent_packets_arrive:
  assumes "\<forall>(clk, crc, b)\<in>set ms. sendable kds clk b"
  shows "\<exists>fs. fill_all from g ms = Some (fs, g + of_nat (length ms))
    \<and> map (drop E_HEAD_SIZE) fs = map (\<lambda>(clk, crc, b). drop E_HEAD_SIZE b) ms
    \<and> map (\<lambda>f. FHeadType (head_of f)) fs = map (\<lambda>(clk, crc, b). FHeadType (head_of b)) ms
    \<and> (\<forall>cs. concat cs = concat fs \<longrightarrow>
         (\<exists>q. run_ops (MReceivedData kds) (new_parser True) cs = Some q \<and> FBuf q = [] \<and> processed q = fs))"
proof -
  obtain fs where fs: "fill_all from g ms = Some (fs, g + of_nat (length ms))" "\<forall>f\<in>set fs. is_frame kds f \<and> is_handled kds f"
    "map (drop E_HEAD_SIZE) fs = map (\<lambda>(clk, crc, b). drop E_HEAD_SIZE b) ms"
    "map (\<lambda>f. FHeadType (head_of f)) fs = map (\<lambda>(clk, crc, b). FHeadType (head_of b)) ms"
    using fill_all_frames [OF assms] by blast
  then have "filter (is_handled kds) fs = fs" by (simp add: filter_id_conv)
  then have "\<exists>q. run_ops (MReceivedData kds) (new_parser True) cs = Some q \<and> FBuf q = [] \<and> processed q = fs"
    if "concat cs = concat fs" for cs
    using chunks_received [of fs kds "new_parser True" cs] that fs(2) by (auto simp: new_parser_def part_of_frame_def parsed_def)
  then show ?thesis using fs by blast
qed

theorem sent_packets_arrive_witness:
  "\<exists>f q. fill_all 7 0 [(\<lparr>get_unix_time = 5000, c_time = 5\<rparr>, True, head_bytes (new_head 0 0 2 21) @ [1, 2])] = Some ([f], 1)
    \<and> run_ops (MReceivedData receives_main_channel) (new_parser True) (map (\<lambda>x. [x]) f) = Some q
    \<and> processed q = [f] \<and> drop E_HEAD_SIZE f = [1, 2]"
proof -
  have ok: "sendable receives_main_channel \<lparr>get_unix_time = 5000, c_time = 5\<rparr> (head_bytes (new_head 0 0 2 21) @ [1, 2])"
    by (simp add: sendable_def Let_def E_HEAD_SIZE_def new_head_def head_MIsValidEndian_def MIsExist_def receives_main_channel_def
        MIsCompatibleWith_def)
  obtain f where f: "fill_all 7 0 [(\<lparr>get_unix_time = 5000, c_time = 5\<rparr>, True, head_bytes (new_head 0 0 2 21) @ [1, 2])] = Some ([f], 1)"
    "drop E_HEAD_SIZE f = [1, 2]" "\<And>cs. concat cs = f \<Longrightarrow>
       \<exists>q. run_ops (MReceivedData receives_main_channel) (new_parser True) cs = Some q \<and> FBuf q = [] \<and> processed q = [f]"
    using sent_packets_arrive [of "[(\<lparr>get_unix_time = 5000, c_time = 5\<rparr>, True, head_bytes (new_head 0 0 2 21) @ [1, 2])]"
        receives_main_channel 7 0] ok by (auto simp: E_HEAD_SIZE_def)
  show ?thesis using f(1,2) f(3) [of "map (\<lambda>x. [x]) f"] by auto
qed

text \<open>
  C33: where the parser leaves the bytes. For all bytes, valid or not: the parser ends, and it stays
  inside of the bytes exactly when at no place at which it looks for a packet there are just 32 bytes
  that are no head, or a head that names more bytes than there are and a size of two gigabytes or more,
  as \<open>overruns\<close> says. Then what it gives to the target are packets of the size and kind that their heads
  say, cut out of the bytes one after the other, and it keeps an end of the bytes that comes after them.
\<close>

theorem parser_stays_inside:
  assumes "c \<noteq> []"
  shows "(\<exists>s\<in>set (places kds (FBuf p @ c)). overruns kds s) \<and> MReceivedData kds p c = None
    \<or> \<not> (\<exists>s\<in>set (places kds (FBuf p @ c)). overruns kds s)
      \<and> (\<exists>q fs. MReceivedData kds p c = Some q \<and> processed q = processed p @ fs \<and> cut_out kds (FBuf p @ c) fs (FBuf q))"
proof -
  let ?p = "p\<lparr>FState := (FState p)\<lparr>FReadBytes := FReadBytes (FState p) + of_nat (length c), FPackets := FPackets (FState p) + 1\<rparr>\<rparr>"
  show ?thesis
  proof (cases "MAnalizeBuffer kds ?p (FBuf p @ c)")
    case None
    then show ?thesis using assms analize_none [of kds ?p "FBuf p @ c"] by (simp add: MReceivedData_def Let_def)
  next
    case (Some x)
    obtain r q where x: "x = (r, q)" by fastforce
    define q' where "q' = (if r \<noteq> [] then q\<lparr>FBuf := r\<rparr> else MCleanBuffer q)"
    have "MReceivedData kds p c = Some q'" using assms Some x by (simp add: MReceivedData_def Let_def q'_def)
    moreover have "FBuf q' = r" "processed q' = processed q" by (simp_all add: q'_def MCleanBuffer_def)
    moreover obtain fs where "processed q = processed ?p @ fs" "cut_out kds (FBuf p @ c) fs r"
      using analize_gives Some x by blast
    moreover have "\<not> (\<exists>s\<in>set (places kds (FBuf p @ c)). overruns kds s)"
      using Some analize_none [of kds ?p "FBuf p @ c"] by simp
    ultimately show ?thesis by auto
  qed
qed

text \<open>A packet with two bytes of data behind a byte that belongs to nothing, and one byte more.\<close>

definition stray_bytes :: buffer where
  "stray_bytes = 1 # (case fill_dg_head \<lparr>get_unix_time = 5000, c_time = 5\<rparr> (head_bytes (new_head 0 0 2 21) @ [1, 2]) 34 7 True 0 of
     Some (b, n) \<Rightarrow> b | None \<Rightarrow> []) @ [9]"

theorem parser_stays_inside_witness:
  "\<exists>q fs. MReceivedData receives_main_channel (new_parser True) stray_bytes = Some q \<and> processed q = fs
    \<and> cut_out receives_main_channel stray_bytes fs (FBuf q)"
proof -
  have "list_all (\<lambda>s. \<not> overruns receives_main_channel s) (places receives_main_channel stray_bytes)" by code_simp
  then have "\<not> (\<exists>s\<in>set (places receives_main_channel (FBuf (new_parser True) @ stray_bytes)). overruns receives_main_channel s)"
    by (simp add: list_all_iff new_parser_def)
  then show ?thesis using parser_stays_inside [of stray_bytes receives_main_channel "new_parser True"]
    by (auto simp: new_parser_def stray_bytes_def)
qed

text \<open>
  At those places the parser does leave the bytes. The first data being 32 bytes that are no
  head, the search passes its end; and a sound head of a known kind that names a size of two
  gigabytes or more passes the comparison of the sizes, which is made with an \<open>int\<close>, and the data
  is read behind the end of the bytes.
\<close>

theorem parser_leaves_bytes:
  assumes "FBuf p = []"
    and "length b = E_HEAD_SIZE \<and> head_crc b \<noteq> head_check
      \<or> E_HEAD_SIZE \<le> length b \<and> length b < 2 ^ 31 \<and> head_crc (take E_HEAD_SIZE b) = head_check
        \<and> unat (FHeadSize (head_of b)) = E_HEAD_SIZE \<and> kds (FHeadType (head_of b)) = Some kd
        \<and> 2 ^ 31 \<le> E_HEAD_SIZE + unat (MGetDataSize (head_of b))"
  shows "MReceivedData kds p b = None"
proof -
  have none: "MReceivedData kds p b = None" if "\<And>q. analize_round kds q b = None" "b \<noteq> []"
    using that assms(1) by (simp add: MReceivedData_def Let_def MAnalizeBuffer.simps)
  have "b \<noteq> []" using assms(2) by (auto simp: E_HEAD_SIZE_def)
  from assms(2) show ?thesis
  proof
    assume "length b = E_HEAD_SIZE \<and> head_crc b \<noteq> head_check"
    then show ?thesis using \<open>b \<noteq> []\<close> by (intro none) (simp_all add: analize_round_def MLookingForHead_def)
  next
    let ?n = "E_HEAD_SIZE + unat (MGetDataSize (head_of b))"
    assume b: "E_HEAD_SIZE \<le> length b \<and> length b < 2 ^ 31 \<and> head_crc (take E_HEAD_SIZE b) = head_check
        \<and> unat (FHeadSize (head_of b)) = E_HEAD_SIZE \<and> kds (FHeadType (head_of b)) = Some kd \<and> 2 ^ 31 \<le> ?n"
    have "unat (MGetDataSize (head_of b)) < 2 ^ 32" using unsigned_less [where 'a = nat, of "MGetDataSize (head_of b)"] by simp
    then have "\<not> is_small b ?n" using b by (intro large_size_not_small) (simp_all add: E_HEAD_SIZE_def)
    moreover have "length b < ?n" using b by simp
    ultimately show ?thesis using b \<open>b \<noteq> []\<close>
      by (intro none) (simp_all add: analize_round_def MLookingForHead_def MLookingForDG_def MCheckKD_def Let_def)
  qed
qed

theorem parser_leaves_bytes_witness:
  "MReceivedData receives_main_channel (new_parser True)
     (head_bytes (sample_head\<lparr>FCrcHead := head_crc (head_front sample_head) + 1\<rparr>)) = None"
proof -
  let ?b = "head_bytes (sample_head\<lparr>FCrcHead := head_crc (head_front sample_head) + 1\<rparr>)"
  have "head_crc ?b \<noteq> head_check" by (rule wrong_sum_found) simp
  then show ?thesis using parser_leaves_bytes [of "new_parser True" ?b receives_main_channel "(0, 2)"]
    by (simp add: new_parser_def E_HEAD_SIZE_def)
qed

text \<open>
  bytes that look like a packet but have a wrong check sum are given to the target when a
  sound head follows them somewhere: the search finds the later head, and the packet is then
  taken from where the search began.
\<close>

theorem unchecked_head_accepted:
  assumes "looks_like_frame kds u" "head_crc (take E_HEAD_SIZE u) \<noteq> head_check" "is_handled kds u"
    and "is_frame kds f" "is_handled kds f" "FBuf p = []" "FTarget p"
  shows "\<exists>q. MReceivedData kds p (u @ f @ [x]) = Some q \<and> FBuf q = [x] \<and> processed q = processed p @ [u, f]"
proof -
  have u: "u \<noteq> []" using assms(1) by (auto simp: looks_like_frame_def Let_def E_HEAD_SIZE_def)
  have "MAnalizeBuffer kds q [x] = Some ([x], count_small_buffer q)" for q
    by (simp add: MAnalizeBuffer.simps analize_round_def MLookingForHead_def E_HEAD_SIZE_def)
  then have "MAnalizeBuffer kds q (u @ f @ [x]) = Some ([x], count_small_buffer (take_frame kds f (take_frame kds u q)))" for q
    using analize_frames [of "[f]" kds "take_frame kds u q" "[x]"] assms(4) u
    by (simp add: MAnalizeBuffer.simps [of kds q "u @ f @ [x]"] round_at_unchecked [OF assms(1,2,4)])
  then show ?thesis using assms(3,5-7) u
    by (simp add: MReceivedData_def Let_def take_frame_def count_small_buffer_def MProcess_def add_number_of_data_def)
qed

theorem unchecked_head_accepted_witness:
  "\<exists>u q. head_crc (take E_HEAD_SIZE u) \<noteq> head_check
    \<and> MReceivedData receives_main_channel (new_parser True) (u @ sample_frame @ [0]) = Some q \<and> processed q = [u, sample_frame]"
proof -
  let ?u = "head_bytes (sample_head\<lparr>FCrcHead := head_crc (head_front sample_head) + 1\<rparr>) @ [5, 6]"
  have crc: "head_crc (take E_HEAD_SIZE ?u) \<noteq> head_check"
    using wrong_sum_found [of "head_crc (head_front sample_head) + 1" sample_head] by (simp add: E_HEAD_SIZE_def)
  have "looks_like_frame receives_main_channel ?u" "is_handled receives_main_channel ?u"
    by (simp_all add: looks_like_frame_def is_handled_def Let_def E_HEAD_SIZE_def)
      (simp_all add: sample_head_def new_head_def MGetDataSize_def receives_main_channel_def MIsCompatibleWith_def
        data_sum_ok_def MGetDataCRC_def head_MIsValidEndian_def E_HEAD_SIZE_def)
  then obtain q where "MReceivedData receives_main_channel (new_parser True) (?u @ sample_frame @ [0]) = Some q"
    "processed q = processed (new_parser True) @ [?u, sample_frame]"
    using unchecked_head_accepted [OF _ crc _ sample_frame_ok, of "new_parser True" 0] by (auto simp: new_parser_def)
  then show ?thesis using crc by (intro exI [of _ ?u] exI [of _ q]) (simp add: new_parser_def)
qed

end
