(* ===== verification/User_Data.thy ===== *)
theory User_Data
  imports In_Parser
begin

text \<open>
  Messages of programs as packets of the inner protocol (\<open>udt_share.cpp\<close>: \<open>fill_header\<close>,
  \<open>serialize\<close>, \<open>deserialize_dg_head\<close>, \<open>deserialize\<close>; \<open>user_data_header_t\<close> and \<open>user_data_dg_t\<close>
  of \<open>internel_protocol.h\<close>). A packet is a head, a header of 40 bytes that counts the parts that
  follow, the handlers, destinations, route and registrators, the name of the protocol and the
  data. Names of protocols are ASCII. The bytes that a new buffer has before they are written
  are the parameter \<open>memory\<close>.
\<close>

section \<open>Headers of messages\<close>

text \<open>
  The flags are a byte: five bits that are not used, two for the byte order and one for the last
  part. \<open>FTypeH\<close> are the eight bytes of the message's header, copied as they are.
\<close>

record user_data_header_t =
  FUUIDFromH :: "64 word"
  FTypeH :: buffer
  FFlagsH :: "8 word"
  FEventListH :: "8 word"
  FSplitCounter :: "16 word"
  FDataOffsetH :: "32 word"
  FSplitCoefficient :: "16 word"
  FDestinationH :: "8 word"
  FRoutingH :: "8 word"
  FRegistratorsH :: "8 word"
  FProtocolNameH :: "8 word"
  FMinorH :: "8 word"
  FMajorH :: "8 word"
  FNumber :: "32 word"
  FDataSizeH :: "32 word"

definition user_header_size :: nat where "user_header_size = 8 * 5"

definition user_header_bytes :: "user_data_header_t \<Rightarrow> buffer" where
  "user_header_bytes h = le_bytes 8 (FUUIDFromH h) @ FTypeH h @ [FFlagsH h, FEventListH h] @ le_bytes 2 (FSplitCounter h)
     @ le_bytes 4 (FDataOffsetH h) @ le_bytes 2 (FSplitCoefficient h)
     @ [FDestinationH h, FRoutingH h, FRegistratorsH h, FProtocolNameH h, FMinorH h, FMajorH h]
     @ le_bytes 4 (FNumber h) @ le_bytes 4 (FDataSizeH h)"

definition user_header_of :: "buffer \<Rightarrow> user_data_header_t" where
  "user_header_of b =
     \<lparr>FUUIDFromH = le_word (take 8 b), FTypeH = take 8 (drop 8 b), FFlagsH = b ! 16, FEventListH = b ! 17,
      FSplitCounter = le_word (take 2 (drop 18 b)), FDataOffsetH = le_word (take 4 (drop 20 b)),
      FSplitCoefficient = le_word (take 2 (drop 24 b)), FDestinationH = b ! 26, FRoutingH = b ! 27,
      FRegistratorsH = b ! 28, FProtocolNameH = b ! 29, FMinorH = b ! 30, FMajorH = b ! 31,
      FNumber = le_word (take 4 (drop 32 b)), FDataSizeH = le_word (take 4 (drop 36 b))\<rparr>"

definition user_flags :: "eEndian \<Rightarrow> bool \<Rightarrow> 8 word" where
  "user_flags e isLast = push_bit 5 (endian_number e) OR (if isLast then push_bit 7 1 else 0)"

text \<open>Two bits can also be 2 and 3, which no program writes; they are not this machine's order.\<close>

definition flags_endian :: "8 word \<Rightarrow> eEndian" where
  "flags_endian f = (if take_bit 2 (drop_bit 5 f) = 0 then E_SHARE_LITTLE_ENDIAN else E_SHARE_BIG_ENDIAN)"

definition flags_last :: "8 word \<Rightarrow> bool" where
  "flags_last f = bit f 7"

text \<open>The bits of the flags of a machine with the other byte order are reversed.\<close>

definition reverse_bits :: "8 word \<Rightarrow> 8 word" where
  "reverse_bits p =
     (let p1 = drop_bit 4 (p AND 0xF0) OR push_bit 4 (p AND 0x0F);
          p2 = drop_bit 2 (p1 AND 0xCC) OR push_bit 2 (p1 AND 0x33)
      in drop_bit 1 (p2 AND 0xAA) OR push_bit 1 (p2 AND 0x55))"

definition MGetUserDataHeader :: "head_t \<Rightarrow> user_data_header_t \<Rightarrow> user_data_header_t" where
  "MGetUserDataHeader h u =
     (if head_MIsValidEndian h then u
      else u\<lparr>FUUIDFromH := swap_endian64 (FUUIDFromH u), FSplitCounter := swap_endian16 (FSplitCounter u),
             FDataOffsetH := swap_endian32 (FDataOffsetH u), FSplitCoefficient := swap_endian16 (FSplitCoefficient u),
             FNumber := swap_endian32 (FNumber u), FDataSizeH := swap_endian32 (FDataSizeH u),
             FFlagsH := reverse_bits (FFlagsH u)\<rparr>)"

section \<open>Writing\<close>

definition protocol_bytes :: "ctext \<Rightarrow> buffer" where
  "protocol_bytes t = (if chars t = [] then [] else map of_char (chars t) @ [0])"

definition get_full_size :: "user_data_info_t \<Rightarrow> nat" where
  "get_full_size i = user_header_size + length (protocol_bytes (FDataProtocol i))
     + 4 * length (FEventsList i) + 8 * length (FDestination i) + 8 * length (FRegistrators i)
     + 8 * length (FRoute (FRouting i))"

definition header_for :: "user_data_info_t \<Rightarrow> nat \<Rightarrow> user_data_header_t" where
  "header_for i aSize =
     \<lparr>FUUIDFromH = FUuid (FFrom (FRouting i)), FTypeH = message_bytes (FMessageHeader (FDataWhat i)),
      FFlagsH = user_flags (FEndian i) (FIsLast (FSplit i)), FEventListH = of_nat (length (FEventsList i)),
      FSplitCounter = FCounter (FSplit i), FDataOffsetH = FDataOffset i,
      FSplitCoefficient = FCoefficient (FSplit i), FDestinationH = of_nat (length (FDestination i)),
      FRoutingH = of_nat (length (FRoute (FRouting i))), FRegistratorsH = of_nat (length (FRegistrators i)),
      FProtocolNameH = (let n = length (chars (FDataProtocol i)) in if n = 0 then 0 else of_nat n + 1),
      FMinorH = FMinor (FVersion (FDataWhat i)), FMajorH = FMajor (FVersion (FDataWhat i)),
      FNumber = FPacketNumber i, FDataSizeH = of_nat aSize\<rparr>"

definition fill_header :: "user_data_info_t \<Rightarrow> nat \<Rightarrow> buffer option" where
  "fill_header i aSize =
     (let b = user_header_bytes (header_for i aSize) @ concat (map (le_bytes 4) (FEventsList i))
            @ concat (map (le_bytes 8) (FDestination i)) @ concat (map (le_bytes 8) (FRoute (FRouting i)))
            @ concat (map (le_bytes 8) (FRegistrators i)) @ protocol_bytes (FDataProtocol i)
      in if get_full_size i \<noteq> length b then None else Some b)"

text \<open>\<open>new user_data_dg_t\<close>: kind \<open>E_USER_DATA\<close>, version 0.2.\<close>

definition E_USER_DATA :: "8 word" where "E_USER_DATA = 21"

definition new_user_data_dg :: "(nat \<Rightarrow> byte) \<Rightarrow> head_t" where
  "new_user_data_dg memory = (new_head (memory 30) 0 2 E_USER_DATA)\<lparr>FHeadDataSize := of_nat user_header_size\<rparr>"

definition serialize ::
    "clock \<Rightarrow> (nat \<Rightarrow> byte) \<Rightarrow> uuid \<Rightarrow> user_data_info_t \<Rightarrow> nat \<Rightarrow> 32 word \<Rightarrow> (buffer \<times> 32 word) option" where
  "serialize clk memory my_id i aSize g =
     (let full_size = get_full_size i + E_HEAD_SIZE
      in fill_header i aSize \<bind> (\<lambda>u.
         let b = head_bytes (new_user_data_dg memory) @ u
         in if full_size \<noteq> length b then None
            else fill_dg_head clk b (full_size + aSize) my_id False g \<bind> (\<lambda>(b1, g1).
              if full_size + aSize \<noteq> unat (ucast (FHeadSize (head_of b1)) + MGetDataSize (head_of b1)) then None
              else Some (b1, g1))))"

text \<open>
  The other \<open>serialize\<close>, for a message with its data: the size of the data is already in
  \<open>get_full_size\<close> and is added again, and the data is not copied.
\<close>

definition serialize_data ::
    "clock \<Rightarrow> (nat \<Rightarrow> byte) \<Rightarrow> uuid \<Rightarrow> user_data_t \<Rightarrow> bool \<Rightarrow> 32 word \<Rightarrow> (buffer \<times> nat \<times> 32 word) option" where
  "serialize_data clk memory my_id d aIsNeedCrc g =
     (let size = length (FData d); full_size = (size + get_full_size (FDataId d)) + size
      in fill_header (FDataId d) size \<bind> (\<lambda>u.
         if full_size \<noteq> E_HEAD_SIZE + length u + size then None
         else
           (let b = head_bytes (new_user_data_dg memory) @ u @ map memory [E_HEAD_SIZE + length u..<full_size]
            in fill_dg_head clk b full_size my_id aIsNeedCrc g \<bind> (\<lambda>(b1, g1).
               if full_size \<noteq> unat (ucast (FHeadSize (head_of b1)) + MGetDataSize (head_of b1)) then None
               else Some (b1, full_size, g1)))))"

section \<open>Reading\<close>

fun read_words :: "nat \<Rightarrow> nat \<Rightarrow> buffer \<Rightarrow> 'a::len word list" where
  "read_words w 0 b = []"
| "read_words w (Suc n) b = le_word (take w b) # read_words w n (drop w b)"

text \<open>
  The lists are appended to what the message has already; \<open>None\<close> is a read behind the end of the
  bytes at \<open>aFrom\<close>. The name is read up to its zero byte, wherever that is.
\<close>

definition deserialize_dg_head ::
    "user_data_info_t \<Rightarrow> buffer \<Rightarrow> user_data_header_t \<Rightarrow> bool \<Rightarrow> (user_data_info_t \<times> nat \<times> nat) option" where
  "deserialize_dg_head u aFrom h aIsValidEndian =
     (let s32 = (if aIsValidEndian then id else swap_endian32);
          s64 = (if aIsValidEndian then id else swap_endian64);
          o1 = user_header_size; o2 = o1 + 4 * unat (FEventListH h); o3 = o2 + 8 * unat (FDestinationH h);
          o4 = o3 + 8 * unat (FRoutingH h); o5 = o4 + 8 * unat (FRegistratorsH h);
          name = drop o5 aFrom;
          i = u\<lparr>FPacketNumber := FNumber h, FDataOffset := FDataOffsetH h,
                FSplit := \<lparr>FIsLast = flags_last (FFlagsH h), FCounter = FSplitCounter h,
                          FCoefficient = FSplitCoefficient h\<rparr>,
                FDataWhat := \<lparr>FVersion = (FVersion (FDataWhat u))\<lparr>FMajor := FMajorH h, FMinor := FMinorH h\<rparr>,
                             FMessageHeader = message_word (FTypeH h)\<rparr>,
                FEndian := flags_endian (FFlagsH h),
                FEventsList := FEventsList u @ map s32 (read_words 4 (unat (FEventListH h)) (drop o1 aFrom)),
                FDestination := FDestination u @ map s64 (read_words 8 (unat (FDestinationH h)) (drop o2 aFrom)),
                FRouting := \<lparr>FRoute = FRoute (FRouting u) @ map s64 (read_words 8 (unat (FRoutingH h)) (drop o3 aFrom)),
                            FFrom = (FFrom (FRouting u))\<lparr>FUuid := FUUIDFromH h\<rparr>\<rparr>,
                FRegistrators := FRegistrators u @ map s64 (read_words 8 (unat (FRegistratorsH h)) (drop o4 aFrom))\<rparr>
      in if length aFrom < o5 \<or> FProtocolNameH h \<noteq> 0 \<and> 0 \<notin> set name then None
         else Some (if FProtocolNameH h = 0 then i
                    else i\<lparr>FDataProtocol := CText (map (\<lambda>b. char_of (unat b)) (takeWhile (\<lambda>b. b \<noteq> 0) name))\<rparr>,
                    o5 + unat (FProtocolNameH h), unat (FDataSizeH h)))"

text \<open>\<open>aP\<close> are the bytes of one packet, as the parser gives them.\<close>

definition deserialize :: "user_data_t \<Rightarrow> buffer \<Rightarrow> user_data_t option" where
  "deserialize u aP =
     (let h = head_of aP; header = MGetUserDataHeader h (user_header_of (drop E_HEAD_SIZE aP));
          whole = unat (MGetDataSize h + ucast (FHeadSize h))
      in if length aP < E_HEAD_SIZE + user_header_size then None
         else deserialize_dg_head (FDataId u) (drop E_HEAD_SIZE aP) header (head_MIsValidEndian h) \<bind> (\<lambda>(i, off, n).
           let data = (if n \<noteq> 0 then take n (drop (E_HEAD_SIZE + off) aP) else FData u)
           in if off + n + E_HEAD_SIZE \<noteq> whole \<or> length data \<noteq> n then None
              else Some \<lparr>FDataId = i, FData = data\<rparr>))"

definition new_user_data_info :: user_data_info_t where
  "new_user_data_info = \<lparr>FPacketNumber = 0, FDataProtocol = CText [], FDataOffset = 0, FEventsList = [],
     FDestination = [], FRegistrators = [], FRouting = \<lparr>FRoute = [], FFrom = id_of_uuid 0\<rparr>, FSplit = no_split,
     FEndian = E_SHARE_ENDIAN, FDataWhat = no_header\<rparr>"

definition new_user_data :: user_data_t where
  "new_user_data = \<lparr>FDataId = new_user_data_info, FData = []\<rparr>"

section \<open>Headers and their bytes\<close>

lemma length_user_header_bytes [simp]: "length (FTypeH h) = 8 \<Longrightarrow> length (user_header_bytes h) = 40"
  by (simp add: user_header_bytes_def)

lemma user_header_of_bytes [simp]: "length (FTypeH h) = 8 \<Longrightarrow> user_header_of (user_header_bytes h @ r) = h"
  by (simp add: user_header_of_def user_header_bytes_def nth_append le_word_bytes)

lemma flags_of [simp]: "flags_endian (user_flags e l) = e" "flags_last (user_flags e l) = l"
  by (cases e; cases l; simp add: flags_endian_def user_flags_def flags_last_def endian_number_def bit_simps)+

lemma length_words [simp]: "length (concat (map (le_bytes n) ws)) = n * length ws"
  by (induction ws) auto

lemma read_words_bytes:
  "LENGTH('a) \<le> 8 * w \<Longrightarrow> read_words w (length ws) (concat (map (le_bytes w) ws) @ r) = (ws :: 'a::len word list)"
  by (induction ws) (simp_all add: le_word_bytes)

lemma length_protocol_bytes: "length (protocol_bytes t) = (let n = length (chars t) in if n = 0 then 0 else n + 1)"
  by (simp add: protocol_bytes_def)

lemma fill_header_total:
  "fill_header i n = Some (user_header_bytes (header_for i n) @ concat (map (le_bytes 4) (FEventsList i))
     @ concat (map (le_bytes 8) (FDestination i)) @ concat (map (le_bytes 8) (FRoute (FRouting i)))
     @ concat (map (le_bytes 8) (FRegistrators i)) @ protocol_bytes (FDataProtocol i))"
  by (simp add: fill_header_def get_full_size_def header_for_def user_header_size_def)

text \<open>Messages whose parts the bytes of the header can count, with a name that can be read back.\<close>

definition fits :: "user_data_info_t \<Rightarrow> bool" where
  "fits i \<longleftrightarrow> length (FEventsList i) < 256 \<and> length (FDestination i) < 256 \<and> length (FRoute (FRouting i)) < 256
     \<and> length (FRegistrators i) < 256 \<and> length (chars (FDataProtocol i)) < 255
     \<and> list_all (\<lambda>c. of_char c \<noteq> (0::byte)) (chars (FDataProtocol i))"

text \<open>What of a message's information travels: of its sender the uuid, of a version two numbers.\<close>

definition carried :: "user_data_info_t \<Rightarrow> user_data_info_t" where
  "carried i = i\<lparr>FRouting := (FRouting i)\<lparr>FFrom := id_of_uuid (FUuid (FFrom (FRouting i)))\<rparr>,
     FDataWhat := (FDataWhat i)\<lparr>FVersion := (FVersion (FDataWhat i))\<lparr>FRelease := 0\<rparr>\<rparr>\<rparr>"

lemma carried_eq:
  "carried i = \<lparr>FPacketNumber = FPacketNumber i, FDataProtocol = FDataProtocol i, FDataOffset = FDataOffset i,
     FEventsList = FEventsList i, FDestination = FDestination i, FRegistrators = FRegistrators i,
     FRouting = \<lparr>FRoute = FRoute (FRouting i), FFrom = id_of_uuid (FUuid (FFrom (FRouting i)))\<rparr>,
     FSplit = \<lparr>FIsLast = FIsLast (FSplit i), FCounter = FCounter (FSplit i), FCoefficient = FCoefficient (FSplit i)\<rparr>,
     FEndian = FEndian i,
     FDataWhat = \<lparr>FVersion = \<lparr>FMajor = FMajor (FVersion (FDataWhat i)), FMinor = FMinor (FVersion (FDataWhat i)), FRelease = 0\<rparr>,
       FMessageHeader = FMessageHeader (FDataWhat i)\<rparr>\<rparr>"
  by (simp add: carried_def)

lemma protocol_read:
  assumes "list_all (\<lambda>c. of_char c \<noteq> (0::byte)) cs"
  shows "map (\<lambda>b. char_of (unat b)) (takeWhile (\<lambda>b. b \<noteq> 0) (map of_char cs @ (0::byte) # r)) = cs"
  using assms
proof (induction cs)
  case (Cons c cs)
  have "char_of (unat (of_char c :: byte)) = c"
  proof -
    have "(of_char c :: nat) < 256" by simp
    then have "unat (of_nat (of_char c) :: byte) = of_char c" by (simp add: unat_of_nat)
    then have "unat (of_char c :: byte) = of_char c" by (simp add: of_nat_of_char)
    then show ?thesis by simp
  qed
  with Cons show ?case by simp
qed simp


lemma read_back:
  fixes i :: user_data_info_t
  assumes "fits i" "n < 2 ^ 32"
  defines "b \<equiv> user_header_bytes (header_for i n) @ concat (map (le_bytes 4) (FEventsList i))
     @ concat (map (le_bytes 8) (FDestination i)) @ concat (map (le_bytes 8) (FRoute (FRouting i)))
     @ concat (map (le_bytes 8) (FRegistrators i)) @ protocol_bytes (FDataProtocol i)"
  shows "deserialize_dg_head new_user_data_info (b @ r) (user_header_of (b @ r)) True = Some (carried i, get_full_size i, n)"
proof -
  let ?h = "header_for i n" and ?name = "protocol_bytes (FDataProtocol i)"
  have type: "length (FTypeH ?h) = 8" by (simp add: header_for_def)
  have h: "user_header_of (b @ r) = ?h" using type by (simp add: b_def)
  have counts: "unat (FEventListH ?h) = length (FEventsList i)" "unat (FDestinationH ?h) = length (FDestination i)"
    "unat (FRoutingH ?h) = length (FRoute (FRouting i))" "unat (FRegistratorsH ?h) = length (FRegistrators i)"
    "unat (FDataSizeH ?h) = n"
    using assms(1,2) by (simp_all add: header_for_def fits_def unat_of_nat)
  have name: "unat (FProtocolNameH ?h) = length ?name" "FProtocolNameH ?h = 0 \<longleftrightarrow> chars (FDataProtocol i) = []"
    using assms(1) by (auto simp: header_for_def Let_def length_protocol_bytes fits_def unat_word_ariths unat_of_nat
        simp flip: unat_eq_0)
  define E D R G where lists: "E = concat (map (le_bytes 4) (FEventsList i))" "D = concat (map (le_bytes 8) (FDestination i))"
    "R = concat (map (le_bytes 8) (FRoute (FRouting i)))" "G = concat (map (le_bytes 8) (FRegistrators i))"
  have len: "length E = 4 * length (FEventsList i)" "length D = 8 * length (FDestination i)"
    "length R = 8 * length (FRoute (FRouting i))" "length G = 8 * length (FRegistrators i)" by (simp_all add: lists)
  have b: "b @ r = user_header_bytes ?h @ E @ D @ R @ G @ ?name @ r" by (simp add: b_def lists)
  have drops: "drop 40 (b @ r) = E @ D @ R @ G @ ?name @ r" "drop (40 + length E) (b @ r) = D @ R @ G @ ?name @ r"
    "drop (40 + length E + length D) (b @ r) = R @ G @ ?name @ r"
    "drop (40 + length E + length D + length R) (b @ r) = G @ ?name @ r"
    "drop (40 + length E + length D + length R + length G) (b @ r) = ?name @ r"
    unfolding b using type by simp_all
  have reads: "read_words 4 (length (FEventsList i)) (E @ x) = FEventsList i" "read_words 8 (length (FDestination i)) (D @ x) = FDestination i"
    "read_words 8 (length (FRoute (FRouting i))) (R @ x) = FRoute (FRouting i)"
    "read_words 8 (length (FRegistrators i)) (G @ x) = FRegistrators i" for x
    unfolding lists by (rule read_words_bytes, simp)+
  have enough: "\<not> length (b @ r) < 40 + length E + length D + length R + length G" unfolding b using type by simp
  have protocol: "chars (FDataProtocol i) \<noteq> [] \<Longrightarrow>
      CText (map (\<lambda>b. char_of (unat b)) (takeWhile (\<lambda>b. b \<noteq> 0) (?name @ r))) = FDataProtocol i \<and> 0 \<in> set (?name @ r)"
    using assms(1) protocol_read [of "chars (FDataProtocol i)" r] by (simp add: fits_def protocol_bytes_def ctext.expand)
  have size: "40 + length E + length D + length R + length G + length ?name = get_full_size i"
    by (simp add: get_full_size_def len user_header_size_def)
  have forty: "user_header_size = 40" by (simp add: user_header_size_def)
  show ?thesis
    unfolding deserialize_dg_head_def Let_def h counts len [symmetric] forty drops name size
    using enough protocol
    by (cases "chars (FDataProtocol i) = []")
      (simp_all add: reads carried_eq header_for_def new_user_data_info_def no_header_def no_version_def id_of_uuid_def
        ctext.expand del: length_append)
qed

lemma read_filled:
  assumes "fits i" "n < 2 ^ 32" "fill_header i n = Some b"
  shows "deserialize_dg_head new_user_data_info (b @ r) (user_header_of (b @ r)) True = Some (carried i, get_full_size i, n)"
proof -
  have "b = user_header_bytes (header_for i n) @ concat (map (le_bytes 4) (FEventsList i))
     @ concat (map (le_bytes 8) (FDestination i)) @ concat (map (le_bytes 8) (FRoute (FRouting i)))
     @ concat (map (le_bytes 8) (FRegistrators i)) @ protocol_bytes (FDataProtocol i)"
    using assms(3) by (simp add: fill_header_total)
  then show ?thesis using read_back [OF assms(1,2)] by (simp only:)
qed

section \<open>Packets of messages\<close>

definition clock_ok :: "clock \<Rightarrow> bool" where
  "clock_ok clk \<longleftrightarrow> \<not> sint (get_unix_time clk div 1000 - c_time clk) > 1"

definition message_fits :: "user_data_info_t \<Rightarrow> buffer \<Rightarrow> bool" where
  "message_fits i data \<longleftrightarrow> fits i \<and> E_HEAD_SIZE + get_full_size i + length data < 2 ^ 31"

lemma serialize_head:
  assumes "message_fits i data" "clock_ok clk" "fill_header i (length data) = Some u"
  shows "\<exists>h. serialize clk memory my_id i (length data) g = Some (head_bytes h @ u, g + 1)
    \<and> head_crc (head_bytes h) = head_check \<and> FHeadSize h = 32 \<and> head_MIsValidEndian h
    \<and> FHeadVersion h = \<lparr>FMajor = 0, FMinor = 2, FRelease = 0\<rparr> \<and> FHeadType h = E_USER_DATA
    \<and> unat (MGetDataSize h) = length (u @ data) \<and> MGetDataCRC h = 0"
proof -
  let ?b = "head_bytes (new_user_data_dg memory) @ u" and ?sz = "get_full_size i + E_HEAD_SIZE + length data"
  let ?h = "filled_head clk ?b ?sz my_id False (g + 1)"
  have len: "length u = get_full_size i" using assms(3) by (auto simp: fill_header_def Let_def split: if_splits)
  have new: "FHeadSize (new_user_data_dg memory) = 32" "head_MIsValidEndian (new_user_data_dg memory)"
    "FHeadVersion (new_user_data_dg memory) = \<lparr>FMajor = 0, FMinor = 2, FRelease = 0\<rparr>" "FHeadType (new_user_data_dg memory) = E_USER_DATA"
    by (simp_all add: new_user_data_dg_def new_head_def E_HEAD_SIZE_def head_MIsValidEndian_def)
  have fill: "fill_dg_head clk ?b ?sz my_id False g = Some (head_bytes ?h @ u, g + 1)"
  proof -
    have "E_HEAD_SIZE < ?sz" "?sz - E_HEAD_SIZE < 2 ^ 32" "MIsExist (FHeadVersion (new_user_data_dg memory))"
      using assms(1) new(3) by (simp_all add: message_fits_def get_full_size_def user_header_size_def MIsExist_def)
    then show ?thesis using fill_dg_head_fills [of ?sz ?b False clk my_id g] new(1,2) assms(2)
      by (simp add: clock_ok_def E_HEAD_SIZE_def)
  qed
  have h: "FHeadSize ?h = 32" "head_MIsValidEndian ?h" "FHeadVersion ?h = \<lparr>FMajor = 0, FMinor = 2, FRelease = 0\<rparr>"
    "FHeadType ?h = E_USER_DATA" "MGetDataCRC ?h = 0" "head_crc (head_bytes ?h) = head_check"
    using new by (simp_all add: filled_head_of head_MIsValidEndian_def MGetDataCRC_def)
  have data: "unat (MGetDataSize ?h) = get_full_size i + length data"
    using assms(1) h(2) by (simp add: MGetDataSize_def filled_head_of unat_of_nat message_fits_def del: of_nat_add)
  have "unat (ucast (FHeadSize ?h) + MGetDataSize ?h) = ?sz"
    using assms(1) data h(1) by (simp add: unat_word_ariths message_fits_def E_HEAD_SIZE_def)
  then have "serialize clk memory my_id i (length data) g = Some (head_bytes ?h @ u, g + 1)"
    using fill len assms(3) by (simp add: serialize_def Let_def E_HEAD_SIZE_def)
  then show ?thesis using h data len by auto
qed

lemma serialized_message:
  assumes "message_fits i data" "clock_ok clk"
  shows "\<exists>b. serialize clk memory my_id i (length data) g = Some (b, g + 1)
    \<and> (\<forall>kds. kds E_USER_DATA = Some (0, 2) \<longrightarrow> is_frame kds (b @ data) \<and> is_handled kds (b @ data))
    \<and> deserialize new_user_data (b @ data) = Some \<lparr>FDataId = carried i, FData = data\<rparr>"
proof -
  obtain u where u: "fill_header i (length data) = Some u" using fill_header_total by blast
  have len: "length u = get_full_size i" using u by (auto simp: fill_header_def Let_def split: if_splits)
  obtain h where h: "serialize clk memory my_id i (length data) g = Some (head_bytes h @ u, g + 1)"
    "head_crc (head_bytes h) = head_check" "FHeadSize h = 32" "head_MIsValidEndian h"
    "FHeadVersion h = \<lparr>FMajor = 0, FMinor = 2, FRelease = 0\<rparr>" "FHeadType h = E_USER_DATA"
    "unat (MGetDataSize h) = length (u @ data)" "MGetDataCRC h = 0"
    using serialize_head [OF assms u] by blast
  have small: "E_HEAD_SIZE + length u + length data < 2 ^ 31" using assms(1) len by (simp add: message_fits_def)
  have "is_frame kds (head_bytes h @ u @ data)" "is_handled kds (head_bytes h @ u @ data)"
    if "kds E_USER_DATA = Some (0, 2)" for kds
    using h(2-8) that small
    by (simp_all add: is_frame_def is_handled_def Let_def data_sum_ok_def MIsCompatibleWith_def E_HEAD_SIZE_def)
  moreover have "deserialize new_user_data (head_bytes h @ u @ data) = Some \<lparr>FDataId = carried i, FData = data\<rparr>"
  proof -
    have head: "drop E_HEAD_SIZE (head_bytes h @ u @ data) = u @ data" by (simp add: E_HEAD_SIZE_def)
    have "deserialize_dg_head new_user_data_info (u @ data) (user_header_of (u @ data)) True
        = Some (carried i, get_full_size i, length data)"
      using assms(1) u by (intro read_filled) (simp_all add: message_fits_def)
    moreover have "unat (MGetDataSize h + ucast (FHeadSize h)) = get_full_size i + length data + E_HEAD_SIZE"
      using h(3,7) len small by (simp add: unat_word_ariths E_HEAD_SIZE_def)
    moreover have "user_header_size \<le> length u" using len by (simp add: get_full_size_def)
    ultimately show ?thesis unfolding deserialize_def head Let_def head_of_bytes MGetUserDataHeader_def
      using h(4) len by (auto simp: new_user_data_def E_HEAD_SIZE_def)
  qed
  ultimately show ?thesis using h(1) by auto
qed

section \<open>Properties\<close>

text \<open>
  C14: a message that is serialized and sent with its data over a stream arrives: the receiver
  gets one packet, however the stream is cut, and reads from it the same message, of its sender
  the uuid alone and of the version two numbers.
\<close>

theorem message_travels:
  assumes "message_fits i data" "clock_ok clk" "kds E_USER_DATA = Some (0, 2)"
  shows "\<exists>b. serialize clk memory my_id i (length data) g = Some (b, g + 1)
    \<and> (\<forall>cs. concat cs = b @ data \<longrightarrow>
         (\<exists>q f. run_ops (MReceivedData kds) (new_parser True) cs = Some q \<and> FBuf q = [] \<and> processed q = [f]
            \<and> deserialize new_user_data f = Some \<lparr>FDataId = carried i, FData = data\<rparr>))"
proof -
  obtain b where b: "serialize clk memory my_id i (length data) g = Some (b, g + 1)"
    "is_frame kds (b @ data)" "is_handled kds (b @ data)"
    "deserialize new_user_data (b @ data) = Some \<lparr>FDataId = carried i, FData = data\<rparr>"
    using serialized_message [OF assms(1,2)] assms(3) by blast
  have "\<exists>q. run_ops (MReceivedData kds) (new_parser True) cs = Some q \<and> FBuf q = [] \<and> processed q = [b @ data]"
    if "concat cs = b @ data" for cs
    using chunks_received [of "[b @ data]" kds "new_parser True" cs] that b(2,3)
    by (auto simp: new_parser_def part_of_frame_def parsed_def)
  then show ?thesis using b(1,4) by blast
qed

definition sample_info :: user_data_info_t where
  "sample_info = new_user_data_info\<lparr>FDataProtocol := CText ''raw'', FEventsList := [5, 6], FDestination := [11],
     FRouting := \<lparr>FRoute = [11, 12], FFrom = id_of_uuid 7\<rparr>, FRegistrators := [12], FPacketNumber := 9\<rparr>"

theorem message_travels_witness:
  "\<exists>b q f. serialize \<lparr>get_unix_time = 5000, c_time = 5\<rparr> (\<lambda>_. 0) 7 sample_info (length [1, 2, 3]) 0 = Some (b, 1)
    \<and> run_ops (MReceivedData receives_main_channel) (new_parser True) [b, [1, 2, 3]] = Some q \<and> processed q = [f]
    \<and> deserialize new_user_data f = Some \<lparr>FDataId = sample_info, FData = [1, 2, 3]\<rparr>"
proof -
  have "message_fits sample_info [1, 2, 3]" "clock_ok \<lparr>get_unix_time = 5000, c_time = 5\<rparr>" "receives_main_channel E_USER_DATA = Some (0, 2)"
    "carried sample_info = sample_info"
    by (simp_all add: message_fits_def fits_def sample_info_def new_user_data_info_def get_full_size_def user_header_size_def
        protocol_bytes_def E_HEAD_SIZE_def clock_ok_def receives_main_channel_def E_USER_DATA_def carried_def no_header_def no_version_def id_of_uuid_def
        of_char_def)
  then obtain b where b: "serialize \<lparr>get_unix_time = 5000, c_time = 5\<rparr> (\<lambda>_. 0) 7 sample_info (length [1, 2, 3 :: byte]) 0 = Some (b, 1)"
    "\<And>cs. concat cs = b @ [1, 2, 3] \<Longrightarrow>
         \<exists>q f. run_ops (MReceivedData receives_main_channel) (new_parser True) cs = Some q \<and> FBuf q = [] \<and> processed q = [f]
            \<and> deserialize new_user_data f = Some \<lparr>FDataId = sample_info, FData = [1, 2, 3]\<rparr>"
    using message_travels [of sample_info "[1, 2, 3]" "\<lparr>get_unix_time = 5000, c_time = 5\<rparr>" receives_main_channel "\<lambda>_. 0" 7 0] by auto
  show ?thesis using b(1) b(2) [of "[b, [1, 2, 3]]"] by simp blast
qed

text \<open>
  The \<open>serialize\<close> that takes a message with its data stops the process unless the data has
  exactly as many bytes as a head, because it counts the data twice and the head not at all.
\<close>

theorem serialize_data_stops:
  "length (FData d) \<noteq> E_HEAD_SIZE \<Longrightarrow> serialize_data clk memory my_id d crc g = None"
proof -
  assume "length (FData d) \<noteq> E_HEAD_SIZE"
  moreover obtain u where u: "fill_header (FDataId d) (length (FData d)) = Some u" using fill_header_total by blast
  then have "length u = get_full_size (FDataId d)" by (auto simp: fill_header_def Let_def split: if_splits)
  ultimately show ?thesis using u by (simp add: serialize_data_def Let_def)
qed

theorem serialize_data_stops_witness:
  "serialize_data \<lparr>get_unix_time = 5000, c_time = 5\<rparr> (\<lambda>_. 0) 7 \<lparr>FDataId = sample_info, FData = [1, 2, 3]\<rparr> False 0 = None"
  using serialize_data_stops [of "\<lparr>FDataId = sample_info, FData = [1, 2, 3]\<rparr>"] by (simp add: E_HEAD_SIZE_def)

end
