(* ===== verification/Message_Filling.thy ===== *)
theory Message_Filling
  imports Subscriptions "HOL-Library.Multiset"
begin

text \<open>
  Filling in the receivers and the handlers of messages: the part of \<open>CRequiredDG.cpp\<close> from
  \<open>MFillByRawProtocol\<close> to \<open>MFillByUserProtocol\<close>. A packet of the raw protocol is one message. A
  packet of a user protocol is cut into messages by the parser of the protocol; what the parser
  leaves is kept and put before the next packet of the sender. Every message gets the programs
  that the table of \<open>Subscriptions\<close> has for it. Lists that the code splices between are returned:
  first the messages that go on, then those that are given back. The caller always passes a
  list for the errors. \<open>None\<close> is a failed \<open>CHECK\<close> or a read outside of a buffer.
\<close>

section \<open>State\<close>

text \<open>The members of \<open>CRequiredDG\<close> that the functions change, though \<open>const\<close>, and the errors.\<close>

record filling =
  fill_dg :: required_dg
  fill_errors :: "fail_send_t list"

definition add_errors :: "fail_send_t list \<Rightarrow> filling \<Rightarrow> filling" where
  "add_errors es st = st\<lparr>fill_errors := fill_errors st @ es\<rparr>"

section \<open>Receivers of one message\<close>

definition MCheckVersion :: "version_t \<Rightarrow> user_data_info_t \<Rightarrow> bool" where
  "MCheckVersion req aInfo =
     (if MIsExist req
      then (if MIsExist (FVersion (FDataWhat aInfo)) then MIsCompatibleWith req (FVersion (FDataWhat aInfo)) else True)
      else True)"

definition MAddUUIDToRoute :: "msg_handlers_t \<Rightarrow> uuid \<Rightarrow> user_data_info_t \<Rightarrow> user_data_info_t" where
  "MAddUUIDToRoute aM u aInfo =
     (let i = (if FNumberOfRealHandlers aM > 0 then aInfo\<lparr>FDestination := FDestination aInfo @ [u]\<rparr>
               else aInfo\<lparr>FRegistrators := FRegistrators aInfo @ [u]\<rparr>)
      in i\<lparr>FRouting := (FRouting i)\<lparr>FRoute := FRoute (FRouting i) @ [u]\<rparr>\<rparr>)"

definition MAddReceiverOfMsg :: "msg_handlers_t \<Rightarrow> uuid \<Rightarrow> user_data_info_t \<Rightarrow> error_type \<times> user_data_info_t" where
  "MAddReceiverOfMsg aHandlers u aInfo =
     (if MCheckVersion (FMsgVersion aHandlers) aInfo then (E_NO_ERROR, MAddUUIDToRoute aHandlers u aInfo)
      else (E_PROTOCOL_VERSION_IS_NOT_COMPATIBLE, aInfo))"

text \<open>One receiver: the message, the programs it is sent to by uuid, those with a wrong version.\<close>

definition fill_receiver ::
    "bool \<Rightarrow> uuid \<times> msg_handlers_t \<Rightarrow> user_data_info_t \<times> uuid list \<times> uuid list \<Rightarrow> user_data_info_t \<times> uuid list \<times> uuid list" where
  "fill_receiver is_by_subscriber k x =
     (case x of (i, sent_to, incorrect) \<Rightarrow>
        (if \<not> is_by_subscriber then
           (if fst k \<in> set sent_to then
              (case MAddReceiverOfMsg (snd k) (fst k) i of (e, j) \<Rightarrow>
                 (j, remove1 (fst k) sent_to, if e \<noteq> E_NO_ERROR then incorrect @ [fst k] else incorrect))
            else if MIsRegistrarExist (snd k) then (MAddUUIDToRoute (snd k) (fst k) i, sent_to, incorrect)
            else x)
         else
           (case MAddReceiverOfMsg (snd k) (fst k) i of (e, j) \<Rightarrow>
              (j, sent_to, if e \<noteq> E_NO_ERROR then incorrect @ [fst k] else incorrect))))"

definition sort_route :: "user_data_info_t \<Rightarrow> user_data_info_t" where
  "sort_route i = i\<lparr>FDestination := sort (FDestination i), FRegistrators := sort (FRegistrators i),
     FRouting := (FRouting i)\<lparr>FRoute := sort (FRoute (FRouting i))\<rparr>\<rparr>"

definition MFillRouteAndDestanationInfo ::
    "receivers_t \<Rightarrow> user_data_info_t \<Rightarrow> bool \<times> user_data_info_t \<times> fail_send_t list" where
  "MFillRouteAndDestanationInfo aRoute info =
     (let is_by_subscriber = (FDestination info = []);
          (i, sent_to, incorrect) =
            fold (fill_receiver is_by_subscriber) (FReceivers aRoute) (info\<lparr>FDestination := []\<rparr>, sort (FDestination info), []);
          e1 = (if sent_to \<noteq> [] then [fail_of_info_to i sent_to E_HANDLER_IS_NOT_EXIST] else []);
          e2 = (if incorrect \<noteq> [] then [fail_of_info_to i incorrect E_PROTOCOL_VERSION_IS_NOT_COMPATIBLE] else [])
      in (FRoute (FRouting i) \<noteq> [], sort_route i, e1 @ e2))"

text \<open>
  Shared by the protocols: a message goes on when there are real receivers and the route is not
  empty, otherwise it is given back.
\<close>

definition fill_message ::
    "receivers_t \<Rightarrow> user_data_t \<Rightarrow> bool \<times> user_data_t \<times> fail_send_t list" where
  "fill_message ru d =
     (if FReceivers ru \<noteq> [] \<and> FNumberOfRealReceivers ru \<noteq> 0
      then (case MFillRouteAndDestanationInfo ru (FDataId d) of (ok, i, es) \<Rightarrow> (ok, d\<lparr>FDataId := i\<rparr>, es))
      else (False, d, []))"

section \<open>The raw protocol\<close>

fun MFillByRawProtocol :: "user_datas_t \<Rightarrow> filling \<Rightarrow> user_datas_t \<times> user_datas_t \<times> filling" where
  "MFillByRawProtocol [] st = ([], [], st)"
| "MFillByRawProtocol (d # ds) st =
     (let u = FUuid (FFrom (FRouting (FDataId d)));
          s = MGetOrCreateExpectedListFor u RAW_PROTOCOL_NAME (fill_dg st);
          ex = FExpected (routing_of u RAW_PROTOCOL_NAME s);
          (ok, d1, es) = (if ex = [] then (False, d, [])
                          else fill_message (MGetUUIDsOfReceivers ex (FDataWhat (FDataId d))) d);
          (on, back, st1) = MFillByRawProtocol ds (add_errors es (st\<lparr>fill_dg := s\<rparr>))
      in if ok then (d1 # on, back, st1) else (on, d1 # back, st1))"

section \<open>User protocols\<close>

definition MNextPacketNumberMask :: "required_dg \<Rightarrow> 32 word \<times> required_dg" where
  "MNextPacketNumberMask s =
     (let n = FMsgID s + 1 in (push_bit 16 (ucast n), s\<lparr>FMsgID := n\<rparr>))"

definition MParseData :: "ext_parser \<Rightarrow> user_data_t \<Rightarrow> (obtained_dg_t list \<times> user_data_t \<times> buffer) option" where
  "MParseData p d =
     (let buf = FData d; msgs = MParserData p buf (FUuid (FFrom (FRouting (FDataId d))))
      in if msgs = [] then Some (msgs, d, buf)
         else if FEnd (last msgs) > length buf \<or> FBegin (hd msgs) \<noteq> 0 then None
         else Some (msgs, d\<lparr>FData := take (FEnd (last msgs)) buf\<rparr>, drop (FEnd (last msgs)) buf))"

definition MAppendBufferedData :: "data_routing_t \<Rightarrow> user_data_t \<Rightarrow> data_routing_t \<times> user_data_t" where
  "MAppendBufferedData r d =
     (if FBufferedData r \<noteq> [] then (r\<lparr>FBufferedData := []\<rparr>, d\<lparr>FData := FBufferedData r @ FData d\<rparr>) else (r, d))"

definition MBufferingDataIfNeed :: "data_routing_t \<Rightarrow> buffer \<Rightarrow> data_routing_t" where
  "MBufferingDataIfNeed r aData = (if aData \<noteq> [] then r\<lparr>FBufferedData := aData\<rparr> else r)"

text \<open>The bytes of a message are read from the packet, \<open>buf\<close>.\<close>

fun extract_each ::
    "obtained_dg_t list \<Rightarrow> buffer \<Rightarrow> user_data_info_t \<Rightarrow> ext_parser \<Rightarrow> required_dg \<Rightarrow> (user_datas_t \<times> required_dg) option" where
  "extract_each [] buf i p s = Some ([], s)"
| "extract_each (m # ms) buf i p s =
     (if \<not> FBegin m < FEnd m \<or> length buf < FEnd m then None
      else
        (let (mask, s1) = MNextPacketNumberMask s;
             d = \<lparr>FDataId = i\<lparr>FPacketNumber := FPacketNumber i OR mask, FDataWhat := FObtained m,
                             FDataOffset := of_nat (MDataOffset p (FObtained m))\<rparr>,
                  FData = take (FEnd m - FBegin m) (drop (FBegin m) buf)\<rparr>
         in map_option (\<lambda>(ds, s2). (d # ds, s2)) (extract_each ms buf i p s1)))"

definition MExtractMessages ::
    "obtained_dg_t list \<Rightarrow> buffer \<Rightarrow> user_data_t \<Rightarrow> ext_parser \<Rightarrow> required_dg \<Rightarrow> (user_datas_t \<times> required_dg) option" where
  "MExtractMessages msgs buf d p s =
     (if length msgs = 1
      then Some ([d\<lparr>FDataId := (FDataId d)\<lparr>FDataWhat := FObtained (hd msgs),
                               FDataOffset := of_nat (MDataOffset p (FObtained (hd msgs)))\<rparr>\<rparr>], s)
      else extract_each msgs buf (FDataId d) p s)"

text \<open>The messages that remain with their kinds, those given back and the errors.\<close>

fun MRemoveDataWithUserErrors ::
    "obtained_dg_t list \<Rightarrow> user_datas_t \<Rightarrow> (obtained_dg_t list \<times> user_datas_t \<times> user_datas_t \<times> fail_send_t list) option" where
  "MRemoveDataWithUserErrors [] ds = Some ([], ds, [], [])"
| "MRemoveDataWithUserErrors (m # ms) [] = None"
| "MRemoveDataWithUserErrors (m # ms) (d # ds) =
     map_option (\<lambda>(ms1, ds1, back, es).
        if FErrorCode m \<noteq> 0
        then (ms1, ds1, d # back,
              fail_MSetUserError (FErrorCode m) (fail_MSetError E_CANNOT_PARSE_BUFFER (fail_of_info (FDataId d))) # es)
        else (m # ms1, d # ds1, back, es))
     (MRemoveDataWithUserErrors ms ds)"

fun MAddReceiversForMessages ::
    "obtained_dg_t list \<Rightarrow> user_datas_t \<Rightarrow> expecting \<Rightarrow> (user_datas_t \<times> user_datas_t \<times> fail_send_t list) option" where
  "MAddReceiversForMessages [] ds ex = Some (ds, [], [])"
| "MAddReceiversForMessages (m # ms) [] ex = None"
| "MAddReceiversForMessages (m # ms) (d # ds) ex =
     map_option (\<lambda>(on, back, es).
        case fill_message (MGetUUIDsOfReceivers ex (FObtained m)) d of (ok, d1, es1) \<Rightarrow>
          (if ok then d1 # on else on, if ok then back else d1 # back, es1 @ es))
     (MAddReceiversForMessages ms ds ex)"

text \<open>
  One packet: the messages that go on, those given back, and whether there was no message left
  after the errors of the parser, in which case the loop gives back the packet that follows.
\<close>

definition fill_user_packet ::
    "parsers \<Rightarrow> user_data_t \<Rightarrow> filling \<Rightarrow> (bool \<times> user_datas_t \<times> user_datas_t \<times> filling) option" where
  "fill_user_packet ps d st =
     (let i = FDataId d; u = FUuid (FFrom (FRouting i)); pr = FDataProtocol i;
          s = MGetOrCreateExpectedListFor u pr (fill_dg st); r = routing_of u pr s; st1 = st\<lparr>fill_dg := s\<rparr>
      in if FExpected r = [] then Some (False, [], [d], st1)
         else if MIsMsgExist i
         then map_option (\<lambda>(on, back, es). (False, on, back, add_errors es st1))
                (MAddReceiversForMessages [\<lparr>FObtained = FDataWhat i, FErrorCode = 0, FBegin = 0, FEnd = length (FData d)\<rparr>]
                   [d\<lparr>FDataId := i\<lparr>FDataOffset := 0\<rparr>\<rparr>] (FExpected r))
         else case ps pr of
             None \<Rightarrow> Some (False, [], [d], add_errors [fail_of_info_to i (FDestination i) E_PARSER_IS_NOT_EXIST] st1)
           | Some p \<Rightarrow>
               (let (r1, d1) = MAppendBufferedData r d
                in MParseData p d1 \<bind> (\<lambda>(msgs, d2, tail).
                   let s2 = set_routing u pr (MBufferingDataIfNeed r1 tail) s
                   in if msgs = [] then Some (False, [], [d2], st1\<lparr>fill_dg := s2\<rparr>)
                      else MExtractMessages msgs (FData d1) d2 p s2 \<bind> (\<lambda>(ds, s3).
                        MRemoveDataWithUserErrors msgs ds \<bind> (\<lambda>(ms, ds1, bad, es).
                          map_option (\<lambda>(on, back, es1).
                            (ms = [], on, bad @ back, add_errors (es @ es1) (st1\<lparr>fill_dg := s3\<rparr>)))
                          (MAddReceiversForMessages ms ds1 (FExpected r)))))))"

fun MFillByUserProtocol ::
    "parsers \<Rightarrow> user_datas_t \<Rightarrow> filling \<Rightarrow> (user_datas_t \<times> user_datas_t \<times> filling) option" where
  "MFillByUserProtocol ps [] st = Some ([], [], st)"
| "MFillByUserProtocol ps (d # ds) st =
     fill_user_packet ps d st \<bind> (\<lambda>(no_msg, on, back, st1).
       case (no_msg, ds) of
         (True, e # es) \<Rightarrow>
           map_option (\<lambda>(on1, back1, st2). (on @ on1, back @ e # back1, st2)) (MFillByUserProtocol ps es st1)
       | _ \<Rightarrow> map_option (\<lambda>(on1, back1, st2). (on @ on1, back @ back1, st2)) (MFillByUserProtocol ps ds st1))"

section \<open>Receivers of packets\<close>

text \<open>The result: the packets given back to \<open>aFrom\<close>, the messages in \<open>aTo\<close>.\<close>

fun MFillMsgReceivers ::
    "parsers \<Rightarrow> user_datas_t \<Rightarrow> filling \<Rightarrow> (user_datas_t \<times> user_datas_t \<times> filling) option" where
  "MFillMsgReceivers ps [] st = Some ([], [], st)"
| "MFillMsgReceivers ps (d # ds) st =
     (if FData d = []
      then Some ([], [d], add_errors [fail_of_info_to (FDataId d) (FDestination (FDataId d)) E_UNKNOWN_ERROR] st)
      else if MIsRaw (FDataId d) then Some (MFillByRawProtocol [d] st)
      else MFillByUserProtocol ps [d] st) \<bind> (\<lambda>(on, back, st1).
     map_option (\<lambda>(from, to, st2). (back @ from, on @ to, st2)) (MFillMsgReceivers ps ds st1))"

section \<open>Handlers of messages\<close>

definition MGetHandlers :: "user_data_info_t \<Rightarrow> required_dg \<Rightarrow> msg_handlers_t option \<times> required_dg" where
  "MGetHandlers i s =
     (let u = FUuid (FFrom (FRouting i)); to = last (FRoute (FRouting i)); pr = data_protocol i;
          s1 = MGetOrCreateExpectedListFor u pr s;
          h = om_get (FExpected (routing_of u pr s1)) (FMessageHeader (FDataWhat i)) \<bind> (\<lambda>r. om_get (FReceivers r) to)
      in (case h of None \<Rightarrow> None | Some m \<Rightarrow> if FHandlers m = [] then None else Some m, s1))"

definition sMSwapEndian :: "parsers \<Rightarrow> user_data_t \<Rightarrow> error_type \<times> user_data_t" where
  "sMSwapEndian ps d =
     (let i = FDataId d; pr = data_protocol i
      in if FEndian i = E_SHARE_ENDIAN then (E_NO_ERROR, d)
         else case sMSwapHeaderEndian ps pr (FDataWhat i) of
             None \<Rightarrow> (E_CANNOT_SWAP_ENDIAN, d)
           | Some h \<Rightarrow>
               (case sMSwapMessageEndian ps pr h (FData d) of
                  None \<Rightarrow> (E_CANNOT_SWAP_ENDIAN, d\<lparr>FDataId := i\<lparr>FDataWhat := h\<rparr>\<rparr>)
                | Some b \<Rightarrow> (E_NO_ERROR, \<lparr>FDataId = i\<lparr>FDataWhat := h, FEndian := E_SHARE_ENDIAN\<rparr>, FData = b\<rparr>)))"

text \<open>One message: its error, or none and the message with its handlers.\<close>

definition fill_handlers ::
    "parsers \<Rightarrow> user_data_t \<Rightarrow> required_dg \<Rightarrow> error_type \<times> user_data_t \<times> required_dg" where
  "fill_handlers ps d s =
     (case sMSwapEndian ps d of (e, d1) \<Rightarrow>
        if e \<noteq> E_NO_ERROR then (e, d1, s)
        else case MGetHandlers (FDataId d1) s of
            (None, s1) \<Rightarrow> (E_HANDLER_IS_NOT_EXIST, d1, s1)
          | (Some h, s1) \<Rightarrow>
              (let i = FDataId d1; filled = d1\<lparr>FDataId := i\<lparr>FEventsList := FHandlers h\<rparr>\<rparr>
               in if MIsOnlyRealHandlers h \<or> MIsOnlyNonRealHandlers h then (E_NO_ERROR, filled, s1)
                  else if last (FRoute (FRouting i)) \<notin> set (FDestination i) then (E_INCORRECT_USING_OF_UDT_1, d1, s1)
                  else (E_NO_ERROR, filled, s1)))"

fun MFillMsgHandlersFor ::
    "parsers \<Rightarrow> user_datas_t \<Rightarrow> filling \<Rightarrow> (user_datas_t \<times> user_datas_t \<times> filling) option" where
  "MFillMsgHandlersFor ps [] st = Some ([], [], st)"
| "MFillMsgHandlersFor ps (d # ds) st =
     (if length (FRoute (FRouting (FDataId d))) \<noteq> 1 then None
      else case fill_handlers ps d (fill_dg st) of (e, d1, s) \<Rightarrow>
        (if e = E_NO_ERROR
         then map_option (\<lambda>(from, to, st1). (from, d1 # to, st1)) (MFillMsgHandlersFor ps ds (st\<lparr>fill_dg := s\<rparr>))
         else map_option (\<lambda>(from, to, st1). (d1 # from, to, st1))
                (MFillMsgHandlersFor ps ds (add_errors [fail_MSetError e (fail_of_info (FDataId d1))] (st\<lparr>fill_dg := s\<rparr>)))))"

section \<open>Who receives a message\<close>

text \<open>
  A message for all subscribers goes to those whose version fits; a message for certain programs
  goes to those of them that expect it and whose version fits, and to the registrators.
\<close>

definition asked :: "uuid list \<Rightarrow> uuid \<Rightarrow> bool" where
  "asked dest u \<longleftrightarrow> dest = [] \<or> u \<in> set dest"

definition receives :: "user_data_info_t \<Rightarrow> uuid \<times> msg_handlers_t \<Rightarrow> bool" where
  "receives i k \<longleftrightarrow>
     (if asked (FDestination i) (fst k) then MCheckVersion (FMsgVersion (snd k)) i else MIsRegistrarExist (snd k))"

abbreviation is_real :: "uuid \<times> msg_handlers_t \<Rightarrow> bool" where
  "is_real k \<equiv> FNumberOfRealHandlers (snd k) > 0"

definition extend_route :: "uuid list \<Rightarrow> uuid list \<Rightarrow> uuid list \<Rightarrow> user_data_info_t \<Rightarrow> user_data_info_t" where
  "extend_route ds gs us i = i\<lparr>FDestination := FDestination i @ ds, FRegistrators := FRegistrators i @ gs,
     FRouting := (FRouting i)\<lparr>FRoute := FRoute (FRouting i) @ us\<rparr>\<rparr>"

lemma extend_route_nil [simp]: "extend_route [] [] [] i = i"
  by (simp add: extend_route_def)

lemma extend_route_extend: "extend_route d2 g2 u2 (extend_route d1 g1 u1 i) = extend_route (d1 @ d2) (g1 @ g2) (u1 @ u2) i"
  by (simp add: extend_route_def)

lemma add_uuid_extends:
  "MAddUUIDToRoute h u i = extend_route (if FNumberOfRealHandlers h > 0 then [u] else []) (if FNumberOfRealHandlers h > 0 then [] else [u]) [u] i"
  by (simp add: MAddUUIDToRoute_def extend_route_def Let_def)

lemma check_version_extend [simp]: "MCheckVersion v (extend_route d g u i) = MCheckVersion v i"
  by (simp add: MCheckVersion_def extend_route_def)

lemma error_codes_differ: "E_PROTOCOL_VERSION_IS_NOT_COMPATIBLE \<noteq> E_NO_ERROR"
  by (simp add: error_codes)

lemma fill_receivers_fold:
  fixes i :: user_data_info_t and b :: bool
  assumes "distinct (map fst ks)" "distinct sent" "b \<longrightarrow> sent = []"
  defines "ver \<equiv> \<lambda>k :: uuid \<times> msg_handlers_t. MCheckVersion (FMsgVersion (snd k)) i"
    and "called \<equiv> \<lambda>s (k :: uuid \<times> msg_handlers_t). b \<or> fst k \<in> set s"
  defines "pick \<equiv> \<lambda>s k. if called s k then ver k else MIsRegistrarExist (snd k)"
  shows "fold (fill_receiver b) ks (extend_route d g us i, sent, bad)
    = (extend_route (d @ map fst (filter (\<lambda>k. pick sent k \<and> is_real k) ks))
         (g @ map fst (filter (\<lambda>k. pick sent k \<and> \<not> is_real k) ks)) (us @ map fst (filter (pick sent) ks)) i,
       filter (\<lambda>u. u \<notin> fst ` set ks) sent, bad @ map fst (filter (\<lambda>k. called sent k \<and> \<not> ver k) ks))"
  using assms(1-3)
proof (induction ks arbitrary: d g us sent bad)
  case Nil
  then show ?case by simp
next
  case (Cons k ks)
  let ?s = "if called sent k then remove1 (fst k) sent else sent"
  have k: "fst k \<notin> fst ` set ks" "distinct (map fst ks)" using Cons.prems(1) by auto
  have s: "distinct ?s" "b \<longrightarrow> ?s = []" using Cons.prems(2,3) by simp_all
  have "called ?s x = called sent x" if "x \<in> set ks" for x
  proof -
    have "fst x \<noteq> fst k" using that k(1) by (metis imageI)
    then show ?thesis using Cons.prems(2) by (auto simp: called_def)
  qed
  then have same: "filter (\<lambda>x. pick ?s x \<and> is_real x) ks = filter (\<lambda>x. pick sent x \<and> is_real x) ks"
    "filter (\<lambda>x. pick ?s x \<and> \<not> is_real x) ks = filter (\<lambda>x. pick sent x \<and> \<not> is_real x) ks"
    "filter (pick ?s) ks = filter (pick sent) ks"
    "filter (\<lambda>x. called ?s x \<and> \<not> ver x) ks = filter (\<lambda>x. called sent x \<and> \<not> ver x) ks"
    by (auto intro!: filter_cong simp: pick_def)
  have rest: "filter (\<lambda>u. u \<notin> fst ` set ks) ?s = filter (\<lambda>u. u \<notin> fst ` set (k # ks)) sent"
    using Cons.prems(2,3) k(1) by (auto simp: called_def distinct_remove1_removeAll removeAll_filter_not_eq intro!: filter_cong)
  define d' g' us' bad' where new: "d' = d @ (if pick sent k \<and> is_real k then [fst k] else [])"
    "g' = g @ (if pick sent k \<and> \<not> is_real k then [fst k] else [])" "us' = us @ (if pick sent k then [fst k] else [])"
    "bad' = bad @ (if called sent k \<and> \<not> ver k then [fst k] else [])"
  have step: "fill_receiver b k (extend_route d g us i, sent, bad) = (extend_route d' g' us' i, ?s, bad')"
    unfolding new
    using Cons.prems(3) error_codes_differ
    by (auto simp: fill_receiver_def MAddReceiverOfMsg_def add_uuid_extends extend_route_extend pick_def ver_def called_def)
  show ?case
    unfolding fold.simps comp_apply step Cons.IH [OF k(2) s, of d' g' us' bad'] same rest by (simp add: new)
qed

section \<open>Errors of one message\<close>

lemma fail_to_fields:
  "FRoute (FRouting (fail_of_info_to i us e)) = us" "FError (fail_of_info_to i us e) = e"
  by (simp_all add: fail_of_info_to_def fail_of_info_def fail_MSetError_def Let_def code_inner_error_def MSetFlag_def
      E_NO_ERROR_def user_data_info_t.defs fail_send_t.defs)

lemma sorted_keys: "om_ok m \<Longrightarrow> sorted (map fst (filter P m))"
  by (induction m) (auto simp: om_ok_Cons less_imp_le)

lemma filled_route:
  assumes "om_ok (FReceivers r)" "distinct (FDestination i)" "FRegistrators i = []" "FRoute (FRouting i) = []"
  defines "ks \<equiv> FReceivers r"
  shows "MFillRouteAndDestanationInfo r i =
    (filter (receives i) ks \<noteq> [],
     i\<lparr>FDestination := map fst (filter (\<lambda>k. receives i k \<and> is_real k) ks),
       FRegistrators := map fst (filter (\<lambda>k. receives i k \<and> \<not> is_real k) ks),
       FRouting := (FRouting i)\<lparr>FRoute := map fst (filter (receives i) ks)\<rparr>\<rparr>,
     snd (snd (MFillRouteAndDestanationInfo r i)))
    \<and> map (\<lambda>e. (FRoute (FRouting e), FError e)) (snd (snd (MFillRouteAndDestanationInfo r i)))
      = filter (\<lambda>x. fst x \<noteq> [])
          [(sort (filter (\<lambda>u. u \<notin> fst ` set ks) (FDestination i)), E_HANDLER_IS_NOT_EXIST),
           (map fst (filter (\<lambda>k. asked (FDestination i) (fst k) \<and> \<not> MCheckVersion (FMsgVersion (snd k)) i) ks),
            E_PROTOCOL_VERSION_IS_NOT_COMPATIBLE)]"
proof -
  let ?b = "FDestination i = []"
  have "distinct (map fst ks)" unfolding ks_def using assms(1) by (rule om_ok_distinct)
  moreover have version: "MCheckVersion v (i\<lparr>FDestination := []\<rparr>) = MCheckVersion v i" for v by (simp add: MCheckVersion_def)
  moreover have called: "(?b \<or> u \<in> set (sort (FDestination i))) = asked (FDestination i) u" for u by (auto simp: asked_def)
  ultimately have fold: "fold (fill_receiver ?b) ks (i\<lparr>FDestination := []\<rparr>, sort (FDestination i), [])
    = (extend_route (map fst (filter (\<lambda>k. receives i k \<and> is_real k) ks)) (map fst (filter (\<lambda>k. receives i k \<and> \<not> is_real k) ks))
         (map fst (filter (receives i) ks)) (i\<lparr>FDestination := []\<rparr>),
       filter (\<lambda>u. u \<notin> fst ` set ks) (sort (FDestination i)),
       map fst (filter (\<lambda>k. asked (FDestination i) (fst k) \<and> \<not> MCheckVersion (FMsgVersion (snd k)) i) ks))"
    using fill_receivers_fold [of ks "sort (FDestination i)" ?b "[]" "[]" "[]" "i\<lparr>FDestination := []\<rparr>" "[]"] assms(2)
    by (simp add: receives_def [abs_def] version called)
  have sorted: "sort (map fst (filter P ks)) = map fst (filter P ks)" for P
    unfolding ks_def by (intro sorted_sort_id sorted_keys assms(1))
  show ?thesis
    unfolding MFillRouteAndDestanationInfo_def Let_def ks_def [symmetric] fold
    by (auto simp: sort_route_def extend_route_def sorted assms(3,4) fail_to_fields filter_sort)
qed

section \<open>What a parser promises\<close>

text \<open>
  The contract of \<open>IExtParser::MParserData\<close>: the messages begin at the beginning of the buffer and
  follow each other without gaps; what is behind the last one is left for later.
\<close>

fun tiles :: "nat \<Rightarrow> obtained_dg_t list \<Rightarrow> nat \<Rightarrow> bool" where
  "tiles a [] n \<longleftrightarrow> a \<le> n"
| "tiles a (m # ms) n \<longleftrightarrow> FBegin m = a \<and> a < FEnd m \<and> tiles (FEnd m) ms n"

definition tiles_end :: "nat \<Rightarrow> obtained_dg_t list \<Rightarrow> nat" where
  "tiles_end a ms = (if ms = [] then a else FEnd (last ms))"

lemma tiles_end_bounds: "tiles a ms n \<Longrightarrow> a \<le> tiles_end a ms \<and> tiles_end a ms \<le> n"
  by (induction a ms n rule: tiles.induct) (auto simp: tiles_end_def split: if_splits)

lemma tiles_end_Cons: "tiles_end a (m # ms) = tiles_end (FEnd m) ms"
  by (simp add: tiles_end_def)

lemma extract_each_tiles:
  "tiles a ms (length buf) \<Longrightarrow>
     \<exists>ds n. extract_each ms buf i p s = Some (ds, s\<lparr>FMsgID := n\<rparr>) \<and> length ds = length ms
       \<and> concat (map FData ds) = take (tiles_end a ms - a) (drop a buf)"
proof (induction ms arbitrary: a s)
  case Nil
  then show ?case by (auto simp: tiles_end_def intro: exI [of _ "FMsgID s"])
next
  case (Cons m ms)
  have m: "FBegin m = a" "a < FEnd m" "tiles (FEnd m) ms (length buf)" using Cons.prems by simp_all
  then have e: "FEnd m \<le> tiles_end (FEnd m) ms" "tiles_end (FEnd m) ms \<le> length buf" using tiles_end_bounds by blast+
  obtain ds n where ds: "extract_each ms buf i p (s\<lparr>FMsgID := FMsgID s + 1\<rparr>) = Some (ds, s\<lparr>FMsgID := n\<rparr>)" "length ds = length ms"
    "concat (map FData ds) = take (tiles_end (FEnd m) ms - FEnd m) (drop (FEnd m) buf)"
    using Cons.IH [OF m(3), of "s\<lparr>FMsgID := FMsgID s + 1\<rparr>"] by auto
  have "take (FEnd m - a) (drop a buf) @ take (tiles_end (FEnd m) ms - FEnd m) (drop (FEnd m) buf)
      = take (tiles_end (FEnd m) ms - a) (drop a buf)"
    using take_add [of "FEnd m - a" "tiles_end (FEnd m) ms - FEnd m" "drop a buf"] m(2) e by simp
  then show ?case using ds m e by (auto simp: MNextPacketNumberMask_def Let_def tiles_end_Cons)
qed

locale framing_parser =
  fixes p :: ext_parser
  assumes parses: "tiles 0 (MParserData p b u) (length b)"
begin

lemma parse_total:
  "\<exists>ms d2 tail. MParseData p d = Some (ms, d2, tail) \<and> FDataId d2 = FDataId d
     \<and> (if ms = [] then d2 = d \<and> tail = FData d
        else tiles 0 ms (length (FData d)) \<and> FData d2 = take (tiles_end 0 ms) (FData d) \<and> FData d2 @ tail = FData d)"
proof -
  let ?ms = "MParserData p (FData d) (FUuid (FFrom (FRouting (FDataId d))))"
  have t: "tiles 0 ?ms (length (FData d))" by (rule parses)
  then have "FEnd (last ?ms) \<le> length (FData d)" if "?ms \<noteq> []" using tiles_end_bounds [OF t] that by (simp add: tiles_end_def)
  moreover have "FBegin (hd ?ms) = 0" if "?ms \<noteq> []" using t that by (cases ?ms) auto
  ultimately show ?thesis using t by (cases "?ms = []") (simp_all add: MParseData_def Let_def tiles_end_def)
qed

lemma extract_total:
  assumes "MParseData p d = Some (ms, d2, tail)" "ms \<noteq> []"
  shows "\<exists>ds n. MExtractMessages ms (FData d) d2 p s = Some (ds, s\<lparr>FMsgID := n\<rparr>) \<and> length ds = length ms
    \<and> concat (map FData ds) = FData d2"
proof -
  have t: "tiles 0 ms (length (FData d))" "FData d2 = take (tiles_end 0 ms) (FData d)"
    using parse_total [of d] assms by auto
  show ?thesis
  proof (cases "length ms = 1")
    case True
    then show ?thesis by (auto simp: MExtractMessages_def intro!: exI [of _ "FMsgID s"])
  next
    case False
    then show ?thesis using extract_each_tiles [OF t(1), of "FDataId d2" p s] t(2) by (simp add: MExtractMessages_def)
  qed
qed

end

lemma remove_errors_total:
  "length ms = length ds \<Longrightarrow>
     \<exists>ms1 ds1 back es. MRemoveDataWithUserErrors ms ds = Some (ms1, ds1, back, es) \<and> length ms1 = length ds1
       \<and> mset ds = mset ds1 + mset back \<and> length es = length back"
  by (induction ms ds rule: list_induct2) force+

lemma fill_message_data: "fill_message r d = (ok, d1, es) \<Longrightarrow> FData d1 = FData d"
  by (auto simp: fill_message_def split: if_splits prod.splits)

lemma add_receivers_total:
  "length ms = length ds \<Longrightarrow>
     \<exists>on back es. MAddReceiversForMessages ms ds ex = Some (on, back, es)
       \<and> mset (map FData ds) = mset (map FData on) + mset (map FData back)"
proof (induction ms ds rule: list_induct2)
  case (Cons m ms d ds)
  then obtain on given es where r: "MAddReceiversForMessages ms ds ex = Some (on, given, es)"
    "mset (map FData ds) = mset (map FData on) + mset (map FData given)" by blast
  obtain ok d1 es1 where f: "fill_message (MGetUUIDsOfReceivers ex (FObtained m)) d = (ok, d1, es1)" by (metis prod_cases3)
  then show ?case using r fill_message_data [OF f] by (cases ok) auto
qed simp

section \<open>No byte is lost\<close>

definition stream_packet :: "uuid \<Rightarrow> ctext \<Rightarrow> user_data_t \<Rightarrow> bool" where
  "stream_packet u pr d \<longleftrightarrow> FData d \<noteq> [] \<and> FUuid (FFrom (FRouting (FDataId d))) = u \<and> FDataProtocol (FDataId d) = pr
     \<and> \<not> MIsMsgExist (FDataId d) \<and> \<not> MIsRaw (FDataId d)"

text \<open>One packet: the bytes kept before and those of the packet are the messages and the bytes kept after.\<close>

definition conserves :: "uuid \<Rightarrow> ctext \<Rightarrow> buffer \<Rightarrow> filling \<Rightarrow> user_datas_t \<Rightarrow> user_datas_t \<Rightarrow> filling \<Rightarrow> bool" where
  "conserves u pr b st on given st1 \<longleftrightarrow>
     FExpected (routing_of u pr (fill_dg st1)) = FExpected (routing_of u pr (fill_dg st))
     \<and> (\<exists>ms. concat ms @ FBufferedData (routing_of u pr (fill_dg st1)) = FBufferedData (routing_of u pr (fill_dg st)) @ b
          \<and> mset (map FData on) \<subseteq># mset ms \<and> mset ms \<subseteq># mset (map FData on) + mset (map FData given))"

lemma conserves_nil: "conserves u pr [] st [] [] st"
  by (auto simp: conserves_def intro!: exI [of _ "[]"])

lemma conserves_trans:
  assumes "conserves u pr a st on given st1" "conserves u pr b st1 on1 given1 st2"
  shows "conserves u pr (a @ b) st (on @ on1) (given @ given1) st2"
proof -
  obtain ms ns where m: "concat ms @ FBufferedData (routing_of u pr (fill_dg st1)) = FBufferedData (routing_of u pr (fill_dg st)) @ a"
    "mset (map FData on) \<subseteq># mset ms" "mset ms \<subseteq># mset (map FData on) + mset (map FData given)"
    and n: "concat ns @ FBufferedData (routing_of u pr (fill_dg st2)) = FBufferedData (routing_of u pr (fill_dg st1)) @ b"
    "mset (map FData on1) \<subseteq># mset ns" "mset ns \<subseteq># mset (map FData on1) + mset (map FData given1)"
    using assms by (auto simp: conserves_def)
  have "concat (ms @ ns) @ FBufferedData (routing_of u pr (fill_dg st2)) = FBufferedData (routing_of u pr (fill_dg st)) @ a @ b"
    using m(1) n(1) by (metis append_assoc concat_append)
  moreover have "mset (map FData (on @ on1)) \<subseteq># mset (ms @ ns)" using subset_mset.add_mono [OF m(2) n(2)] by simp
  moreover have "mset (ms @ ns) \<subseteq># mset (map FData (on @ on1)) + mset (map FData (given @ given1))"
    using subset_mset.add_mono [OF m(3) n(3)] by (simp add: ac_simps)
  ultimately have "\<exists>ls. concat ls @ FBufferedData (routing_of u pr (fill_dg st2)) = FBufferedData (routing_of u pr (fill_dg st)) @ a @ b
      \<and> mset (map FData (on @ on1)) \<subseteq># mset ls \<and> mset ls \<subseteq># mset (map FData (on @ on1)) + mset (map FData (given @ given1))"
    by blast
  moreover have "FExpected (routing_of u pr (fill_dg st2)) = FExpected (routing_of u pr (fill_dg st))"
    using assms by (simp add: conserves_def)
  ultimately show ?thesis unfolding conserves_def by blast
qed

context framing_parser
begin

lemma user_packet_conserves:
  assumes "ps pr = Some p" "stream_packet u pr d" "FExpected (routing_of u pr (fill_dg st)) \<noteq> []"
  shows "\<exists>no on given st1. fill_user_packet ps d st = Some (no, on, given, st1) \<and> conserves u pr (FData d) st on given st1"
proof -
  let ?s = "MGetOrCreateExpectedListFor u pr (fill_dg st)" and ?r = "routing_of u pr (fill_dg st)"
  obtain r1 d1 where app: "MAppendBufferedData ?r d = (r1, d1)" by fastforce
  have d1: "FData d1 = FBufferedData ?r @ FData d" "FBufferedData r1 = []" "FExpected r1 = FExpected ?r"
    using app by (auto simp: MAppendBufferedData_def split: if_splits)
  obtain ms d2 tail where parsed: "MParseData p d1 = Some (ms, d2, tail)"
    "if ms = [] then d2 = d1 \<and> tail = FData d1
      else tiles 0 ms (length (FData d1)) \<and> FData d2 = take (tiles_end 0 ms) (FData d1) \<and> FData d2 @ tail = FData d1"
    using parse_total [of d1] by blast
  note parse = parsed(1)
  have kept: "if ms = [] then d2 = d1 \<and> tail = FData d1 else FData d2 @ tail = FData d1"
    using parsed(2) by argo
  define s2 where "s2 = set_routing u pr (MBufferingDataIfNeed r1 tail) ?s"
  have s2: "FBufferedData (routing_of u pr s2) = tail" "FExpected (routing_of u pr s2) = FExpected ?r"
    using d1(2,3) by (simp_all add: s2_def routing_of_set MBufferingDataIfNeed_def)
  have packet: "fill_user_packet ps d st =
      (if ms = [] then Some (False, [], [d2], st\<lparr>fill_dg := s2\<rparr>)
       else MExtractMessages ms (FData d1) d2 p s2 \<bind> (\<lambda>(ds, s3).
         MRemoveDataWithUserErrors ms ds \<bind> (\<lambda>(ms1, ds1, bad, es).
           map_option (\<lambda>(on, given, es1). (ms1 = [], on, bad @ given, add_errors (es @ es1) (st\<lparr>fill_dg := s3\<rparr>)))
             (MAddReceiversForMessages ms1 ds1 (FExpected ?r)))))"
    using assms parse app by (simp add: fill_user_packet_def Let_def stream_packet_def routing_of_create s2_def)
  show ?thesis
  proof (cases "ms = []")
    case True
    then show ?thesis using packet s2 kept d1(1) by (auto simp: conserves_def intro!: exI [of _ "[]"])
  next
    case False
    obtain ds n where ds: "MExtractMessages ms (FData d1) d2 p s2 = Some (ds, s2\<lparr>FMsgID := n\<rparr>)" "length ds = length ms"
      "concat (map FData ds) = FData d2" using extract_total [OF parse False] by blast
    obtain ms1 ds1 bad es where rm: "MRemoveDataWithUserErrors ms ds = Some (ms1, ds1, bad, es)" "length ms1 = length ds1"
      "mset ds = mset ds1 + mset bad" using remove_errors_total [of ms ds] ds(2) by auto
    obtain on given es1 where add: "MAddReceiversForMessages ms1 ds1 (FExpected ?r) = Some (on, given, es1)"
      "mset (map FData ds1) = mset (map FData on) + mset (map FData given)" using add_receivers_total [OF rm(2)] by blast
    have "mset (map FData ds) = mset (map FData on) + mset (map FData given) + mset (map FData bad)"
      using rm(3) add(2) by simp
    moreover have "routing_of u pr (s2\<lparr>FMsgID := n\<rparr>) = routing_of u pr s2" by (simp add: routing_of_def)
    ultimately show ?thesis using packet False ds rm(1) add(1) s2 kept d1(1)
      by (auto simp: conserves_def add_errors_def intro!: exI [of _ "map FData ds"])
  qed
qed

lemma stream_conserves:
  assumes "ps pr = Some p" "\<forall>d\<in>set ds. stream_packet u pr d" "FExpected (routing_of u pr (fill_dg st)) \<noteq> []"
  shows "\<exists>from to st1. MFillMsgReceivers ps ds st = Some (from, to, st1) \<and> conserves u pr (concat (map FData ds)) st to from st1"
  using assms(2,3)
proof (induction ds arbitrary: st)
  case Nil
  then show ?case by (simp add: conserves_nil)
next
  case (Cons d ds)
  then obtain no on given st1 where d: "fill_user_packet ps d st = Some (no, on, given, st1)" "conserves u pr (FData d) st on given st1"
    using user_packet_conserves [of ps pr u d st] assms(1) by auto
  have "FExpected (routing_of u pr (fill_dg st1)) \<noteq> []" using d(2) Cons.prems(2) by (simp add: conserves_def)
  then obtain f t st2 where ds: "MFillMsgReceivers ps ds st1 = Some (f, t, st2)" "conserves u pr (concat (map FData ds)) st1 t f st2"
    using Cons.IH [of st1] Cons.prems(1) by auto
  have "MFillByUserProtocol ps [d] st = Some (on, given, st1)" using d(1) by (simp split: bool.split)
  then have "MFillMsgReceivers ps (d # ds) st = Some (given @ f, on @ t, st2)"
    using Cons.prems(1) ds(1) by (simp add: stream_packet_def)
  then show ?case using conserves_trans [OF d(2) ds(2)] by auto
qed

end

section \<open>Handlers\<close>

text \<open>The handlers that the table has for a message of a sender at a receiver.\<close>

definition handlers_for :: "required_dg \<Rightarrow> user_data_info_t \<Rightarrow> msg_handlers_t option" where
  "handlers_for s i =
     om_get (FExpected (routing_of (FUuid (FFrom (FRouting i))) (data_protocol i) s)) (FMessageHeader (FDataWhat i))
       \<bind> (\<lambda>r. om_get (FReceivers r) (last (FRoute (FRouting i))))"

lemma get_handlers:
  "MGetHandlers i s = (case handlers_for s i of None \<Rightarrow> None | Some m \<Rightarrow> if FHandlers m = [] then None else Some m,
     MGetOrCreateExpectedListFor (FUuid (FFrom (FRouting i))) (data_protocol i) s)"
  by (simp add: MGetHandlers_def handlers_for_def Let_def routing_of_create)

definition same_tables :: "required_dg \<Rightarrow> required_dg \<Rightarrow> bool" where
  "same_tables s t \<longleftrightarrow> (\<forall>u pr. routing_of u pr s = routing_of u pr t)"

lemma same_tables_refl [simp]: "same_tables s s" and same_tables_create [simp]: "same_tables s (MGetOrCreateExpectedListFor u pr s)"
  and same_tables_trans: "same_tables s t \<Longrightarrow> same_tables t r \<Longrightarrow> same_tables s r"
  by (simp_all add: same_tables_def routing_of_create)

lemma handlers_for_same: "same_tables s t \<Longrightarrow> handlers_for s i = handlers_for t i"
  by (simp add: handlers_for_def same_tables_def)

text \<open>
  What is to become of a message: it is brought into the byte order of this machine; the table must
  have handlers for it at its receiver; and when these are real ones and registrators together, the
  receiver must be one of its destinations.
\<close>

definition own_order :: "parsers \<Rightarrow> user_data_t \<Rightarrow> user_data_t" where
  "own_order ps d = snd (sMSwapEndian ps d)"

definition both_kinds :: "msg_handlers_t \<Rightarrow> bool" where
  "both_kinds h \<longleftrightarrow> FNumberOfRealHandlers h \<noteq> 0 \<and> FNumberOfRealHandlers h \<noteq> int (length (FHandlers h))"

definition fault_of :: "parsers \<Rightarrow> required_dg \<Rightarrow> user_data_t \<Rightarrow> error_type" where
  "fault_of ps s d =
     (if fst (sMSwapEndian ps d) \<noteq> E_NO_ERROR then E_CANNOT_SWAP_ENDIAN
      else if (case handlers_for s (FDataId (own_order ps d)) of None \<Rightarrow> True | Some h \<Rightarrow> FHandlers h = []) then E_HANDLER_IS_NOT_EXIST
      else if both_kinds (the (handlers_for s (FDataId (own_order ps d))))
        \<and> last (FRoute (FRouting (FDataId d))) \<notin> set (FDestination (FDataId d)) then E_INCORRECT_USING_OF_UDT_1
      else E_NO_ERROR)"

definition with_handlers :: "required_dg \<Rightarrow> user_data_t \<Rightarrow> user_data_t" where
  "with_handlers s d = d\<lparr>FDataId := (FDataId d)\<lparr>FEventsList := FHandlers (the (handlers_for s (FDataId d)))\<rparr>\<rparr>"

definition deliverable :: "parsers \<Rightarrow> required_dg \<Rightarrow> user_datas_t \<Rightarrow> user_datas_t" where
  "deliverable ps s ds = map (with_handlers s \<circ> own_order ps) (filter (\<lambda>d. fault_of ps s d = E_NO_ERROR) ds)"

definition undeliverable :: "parsers \<Rightarrow> required_dg \<Rightarrow> user_datas_t \<Rightarrow> user_datas_t" where
  "undeliverable ps s ds = filter (\<lambda>d. fault_of ps s d \<noteq> E_NO_ERROR) ds"

definition fault_report :: "parsers \<Rightarrow> required_dg \<Rightarrow> user_data_t \<Rightarrow> fail_send_t" where
  "fault_report ps s d = fail_MSetError (fault_of ps s d) (fail_of_info (FDataId (own_order ps d)))"

lemma swap_own_order: "fst (sMSwapEndian ps d) = E_NO_ERROR \<Longrightarrow> FEndian (FDataId (own_order ps d)) = E_SHARE_ENDIAN"
  by (auto simp: own_order_def sMSwapEndian_def Let_def error_codes split: if_splits option.splits)

lemma swap_errors: "fst (sMSwapEndian ps d) = E_NO_ERROR \<or> fst (sMSwapEndian ps d) = E_CANNOT_SWAP_ENDIAN"
  by (simp add: sMSwapEndian_def Let_def split: option.splits)

lemma own_order_keeps:
  "FRouting (FDataId (own_order ps d)) = FRouting (FDataId d)" "FDestination (FDataId (own_order ps d)) = FDestination (FDataId d)"
  by (simp_all add: own_order_def sMSwapEndian_def Let_def split: option.splits)

lemma handlers_for_events [simp]: "handlers_for s (i\<lparr>FEventsList := hs\<rparr>) = handlers_for s i"
  by (simp add: handlers_for_def data_protocol_def MIsRaw_def)

lemma fault_same: "same_tables s t \<Longrightarrow> fault_of ps s = fault_of ps t \<and> with_handlers s = with_handlers t \<and> fault_report ps s = fault_report ps t"
proof -
  assume "same_tables s t"
  then have "handlers_for s = handlers_for t" by (simp add: fun_eq_iff handlers_for_same)
  then show ?thesis unfolding fault_report_def [abs_def] fault_of_def [abs_def] with_handlers_def [abs_def] by (simp only: simp_thms)
qed

lemma fill_handlers_result:
  "\<exists>s1. fill_handlers ps d s = (fault_of ps s d,
      if fault_of ps s d = E_NO_ERROR then with_handlers s (own_order ps d) else own_order ps d, s1) \<and> same_tables s s1"
proof -
  obtain e0 d0 where sw: "sMSwapEndian ps d = (e0, d0)" by fastforce
  have kept: "FRouting (FDataId d0) = FRouting (FDataId d)" "FDestination (FDataId d0) = FDestination (FDataId d)"
    using own_order_keeps [of ps d] by (simp_all add: own_order_def sw)
  have "e0 = E_NO_ERROR \<or> e0 = E_CANNOT_SWAP_ENDIAN" using swap_errors [of ps d] sw by simp
  moreover have "E_CANNOT_SWAP_ENDIAN \<noteq> E_NO_ERROR" "E_HANDLER_IS_NOT_EXIST \<noteq> E_NO_ERROR" "E_INCORRECT_USING_OF_UDT_1 \<noteq> E_NO_ERROR"
    by (simp_all add: error_codes)
  ultimately show ?thesis
    by (cases "handlers_for s (FDataId d0)")
      (auto simp: fill_handlers_def get_handlers Let_def fault_of_def with_handlers_def own_order_def sw kept both_kinds_def
        MIsOnlyRealHandlers_def MIsOnlyNonRealHandlers_def)
qed

lemma fill_all_handlers:
  "\<forall>d\<in>set ds. length (FRoute (FRouting (FDataId d))) = 1 \<Longrightarrow>
     \<exists>st1. MFillMsgHandlersFor ps ds st =
         Some (map (own_order ps) (undeliverable ps (fill_dg st) ds), deliverable ps (fill_dg st) ds, st1)
       \<and> same_tables (fill_dg st) (fill_dg st1)
       \<and> fill_errors st1 = fill_errors st @ map (fault_report ps (fill_dg st)) (undeliverable ps (fill_dg st) ds)"
proof (induction ds arbitrary: st)
  case (Cons d ds)
  let ?e = "fault_of ps (fill_dg st) d"
  obtain s where s: "fill_handlers ps d (fill_dg st) = (?e,
      if ?e = E_NO_ERROR then with_handlers (fill_dg st) (own_order ps d) else own_order ps d, s)" "same_tables (fill_dg st) s"
    using fill_handlers_result by blast
  define st0 where "st0 = (if ?e = E_NO_ERROR then st\<lparr>fill_dg := s\<rparr>
    else add_errors [fault_report ps (fill_dg st) d] (st\<lparr>fill_dg := s\<rparr>))"
  have st0: "same_tables (fill_dg st) (fill_dg st0)" using s(2) by (simp add: st0_def add_errors_def)
  have route: "length (FRoute (FRouting (FDataId d))) = 1" using Cons.prems by simp
  obtain st1 where "MFillMsgHandlersFor ps ds st0 =
         Some (map (own_order ps) (undeliverable ps (fill_dg st) ds), deliverable ps (fill_dg st) ds, st1)"
       "same_tables (fill_dg st0) (fill_dg st1)"
       "fill_errors st1 = fill_errors st0 @ map (fault_report ps (fill_dg st)) (undeliverable ps (fill_dg st) ds)"
    using Cons.IH [of st0] Cons.prems fault_same [OF st0, of ps] by (auto simp: deliverable_def undeliverable_def)
  then show ?case using s(1) route same_tables_trans [OF st0]
    by (cases "?e = E_NO_ERROR") (auto simp: st0_def add_errors_def deliverable_def undeliverable_def fault_report_def)
qed (simp add: deliverable_def undeliverable_def)

section \<open>Properties\<close>

text \<open>
  C16: who receives a message. A message for all subscribers goes to every program of the table
  whose version fits; a message for certain programs goes to those of them that expect it and
  whose version fits, and to registrators. Programs with real handlers are its destinations, the
  others its registrators, the route is both, all in order; the message goes on exactly when
  somebody receives it. Programs that were asked for and do not expect it, and programs whose
  version does not fit, are each reported in one error.
\<close>

theorem receivers_filled:
  assumes "om_ok (FReceivers r)" "distinct (FDestination i)" "FRegistrators i = []" "FRoute (FRouting i) = []"
  shows "\<exists>j es. MFillRouteAndDestanationInfo r i = (\<exists>k\<in>set (FReceivers r). receives i k, j, es)
    \<and> FRoute (FRouting j) = map fst (filter (receives i) (FReceivers r))
    \<and> FDestination j = map fst (filter (\<lambda>k. receives i k \<and> is_real k) (FReceivers r))
    \<and> FRegistrators j = map fst (filter (\<lambda>k. receives i k \<and> \<not> is_real k) (FReceivers r))
    \<and> map (\<lambda>e. (FRoute (FRouting e), FError e)) es = filter (\<lambda>x. fst x \<noteq> [])
        [(sort (filter (\<lambda>u. u \<notin> fst ` set (FReceivers r)) (FDestination i)), E_HANDLER_IS_NOT_EXIST),
         (map fst (filter (\<lambda>k. asked (FDestination i) (fst k) \<and> \<not> MCheckVersion (FMsgVersion (snd k)) i) (FReceivers r)),
          E_PROTOCOL_VERSION_IS_NOT_COMPATIBLE)]"
proof -
  have "(filter (receives i) (FReceivers r) \<noteq> []) = (\<exists>k\<in>set (FReceivers r). receives i k)" by (auto simp: filter_empty_conv)
  then show ?thesis using filled_route [OF assms] by (intro exI conjI) (erule conjunct1 [THEN trans], auto)
qed

definition sample_receivers :: receivers_t where
  "sample_receivers = \<lparr>FReceivers =
     [(3, \<lparr>FNumberOfRealHandlers = 1, FMsgVersion = no_version, FHandlers = [8], FPriorities = [0]\<rparr>),
      (5, \<lparr>FNumberOfRealHandlers = 0, FMsgVersion = no_version, FHandlers = [9], FPriorities = [0]\<rparr>)],
     FNumberOfRealReceivers = 1\<rparr>"

definition sample_message :: user_data_info_t where
  "sample_message = \<lparr>FPacketNumber = 1, FDataProtocol = CText ''raw'', FDataOffset = 0, FEventsList = [],
     FDestination = [3, 4], FRegistrators = [], FRouting = \<lparr>FRoute = [], FFrom = id_of_uuid 7\<rparr>, FSplit = no_split,
     FEndian = E_SHARE_ENDIAN, FDataWhat = no_header\<rparr>"

theorem receivers_filled_witness:
  "\<exists>j es. MFillRouteAndDestanationInfo sample_receivers sample_message = (True, j, es)
    \<and> FRoute (FRouting j) = [3, 5] \<and> FDestination j = [3] \<and> FRegistrators j = [5]
    \<and> map (\<lambda>e. (FRoute (FRouting e), FError e)) es = [([4], E_HANDLER_IS_NOT_EXIST)]"
  using receivers_filled [of sample_receivers sample_message]
  by (simp add: sample_receivers_def sample_message_def om_ok_def receives_def asked_def MCheckVersion_def no_version_def
      MIsExist_def MIsRegistrarExist_def)

text \<open>
  C17: filling in handlers does not stop when every message has one receiver left, and each message
  goes on or is given back as the table of demands says, in the order they came. A message goes on
  exactly when it can be brought into the byte order of this machine, the table has handlers for it
  at its receiver, and its receiver is one of its destinations if these handlers are real ones and
  registrators together; it has then exactly these handlers, in their order. Every other message is
  given back, and reported with the first of these conditions that it does not meet. The tables
  stay as they are.
\<close>

theorem handlers_filled:
  fixes ps ds st
  assumes "\<forall>d\<in>set ds. length (FRoute (FRouting (FDataId d))) = 1"
  defines "s \<equiv> fill_dg st" and "to \<equiv> filter (\<lambda>d. fault_of ps (fill_dg st) d = E_NO_ERROR) ds"
    and "given \<equiv> filter (\<lambda>d. fault_of ps (fill_dg st) d \<noteq> E_NO_ERROR) ds"
  shows "\<exists>st1. MFillMsgHandlersFor ps ds st = Some (map (own_order ps) given, map (with_handlers s \<circ> own_order ps) to, st1)
    \<and> same_tables s (fill_dg st1) \<and> fill_errors st1 = fill_errors st @ map (fault_report ps s) given
    \<and> (\<forall>d\<in>set (map (with_handlers s \<circ> own_order ps) to). FEndian (FDataId d) = E_SHARE_ENDIAN
         \<and> (\<exists>h. handlers_for s (FDataId d) = Some h \<and> FHandlers h \<noteq> [] \<and> FEventsList (FDataId d) = FHandlers h
             \<and> (FNumberOfRealHandlers h \<in> {0, int (length (FHandlers h))} \<or> set (FRoute (FRouting (FDataId d))) \<subseteq> set (FDestination (FDataId d)))))"
proof -
  have "FEndian (FDataId (own_order ps d)) = E_SHARE_ENDIAN
      \<and> (\<exists>h. handlers_for s (FDataId (own_order ps d)) = Some h \<and> FHandlers h \<noteq> []
          \<and> (both_kinds h \<longrightarrow> last (FRoute (FRouting (FDataId d))) \<in> set (FDestination (FDataId d))))" if "d \<in> set to" for d
    using that swap_own_order [of ps d] by (auto simp: to_def s_def fault_of_def error_codes split: if_splits option.splits)
  moreover have "set (FRoute (FRouting (FDataId d))) = {last (FRoute (FRouting (FDataId d)))}" if "d \<in> set to" for d
    using that assms(1) by (cases "FRoute (FRouting (FDataId d))") (auto simp: to_def)
  ultimately have "\<forall>d\<in>set (map (with_handlers s \<circ> own_order ps) to). FEndian (FDataId d) = E_SHARE_ENDIAN
      \<and> (\<exists>h. handlers_for s (FDataId d) = Some h \<and> FHandlers h \<noteq> [] \<and> FEventsList (FDataId d) = FHandlers h
          \<and> (FNumberOfRealHandlers h \<in> {0, int (length (FHandlers h))} \<or> set (FRoute (FRouting (FDataId d))) \<subseteq> set (FDestination (FDataId d))))"
    by (fastforce simp: with_handlers_def own_order_keeps both_kinds_def)
  then show ?thesis using fill_all_handlers [OF assms(1), of ps st]
    unfolding s_def to_def given_def deliverable_def undeliverable_def by blast
qed

text \<open>
  Program 8 has a handler and a registrator for the message, program 5 is only a registrator. A
  message for 8 goes on when 8 is one of its destinations; 4 has no handlers.
\<close>

definition sample_mixed :: required_dg where
  "sample_mixed = set_routing 7 RAW_PROTOCOL_NAME (no_routing\<lparr>FExpected := [(0, \<lparr>FReceivers =
     [(5, \<lparr>FNumberOfRealHandlers = 0, FMsgVersion = no_version, FHandlers = [6], FPriorities = [0]\<rparr>),
      (8, \<lparr>FNumberOfRealHandlers = 1, FMsgVersion = no_version, FHandlers = [2, 3], FPriorities = [0, 0]\<rparr>)],
     FNumberOfRealReceivers = 1\<rparr>)]\<rparr>) CRequiredDG"

definition sample_for :: "uuid \<Rightarrow> uuid list \<Rightarrow> user_data_t" where
  "sample_for u ds = \<lparr>FDataId = sample_message\<lparr>FDestination := ds, FRouting := \<lparr>FRoute = [u], FFrom = id_of_uuid 7\<rparr>\<rparr>, FData = [1]\<rparr>"

theorem handlers_filled_witness:
  "\<exists>st1. MFillMsgHandlersFor (\<lambda>_. None) [sample_for 8 [8], sample_for 8 [5], sample_for 4 [4], sample_for 5 []]
      \<lparr>fill_dg = sample_mixed, fill_errors = []\<rparr>
    = Some ([sample_for 8 [5], sample_for 4 [4]],
        [with_handlers sample_mixed (sample_for 8 [8]), with_handlers sample_mixed (sample_for 5 [])], st1)
    \<and> map FError (fill_errors st1) = [E_INCORRECT_USING_OF_UDT_1, E_HANDLER_IS_NOT_EXIST]
    \<and> FEventsList (FDataId (with_handlers sample_mixed (sample_for 8 [8]))) = [2, 3]"
proof -
  let ?ds = "[sample_for 8 [8], sample_for 8 [5], sample_for 4 [4], sample_for 5 []]"
  let ?st = "\<lparr>fill_dg = sample_mixed, fill_errors = []\<rparr>"
  have one: "\<forall>d\<in>set ?ds. length (FRoute (FRouting (FDataId d))) = 1" by (simp add: sample_for_def)
  have f: "map (fault_of (\<lambda>_. None) sample_mixed) ?ds = [E_NO_ERROR, E_INCORRECT_USING_OF_UDT_1, E_HANDLER_IS_NOT_EXIST, E_NO_ERROR]"
    by code_simp
  have own: "own_order (\<lambda>_. None) (sample_for u ds) = sample_for u ds" for u ds
    by (simp add: own_order_def sMSwapEndian_def sample_for_def sample_message_def Let_def)
  have ev: "FEventsList (FDataId (with_handlers sample_mixed (sample_for 8 [8]))) = [2, 3]" by code_simp
  have "map FError (map (fault_report (\<lambda>_. None) sample_mixed) [sample_for 8 [5], sample_for 4 [4]])
      = [E_INCORRECT_USING_OF_UDT_1, E_HANDLER_IS_NOT_EXIST]" by code_simp
  moreover have "filter (\<lambda>d. fault_of (\<lambda>_. None) sample_mixed d = E_NO_ERROR) ?ds = [sample_for 8 [8], sample_for 5 []]"
    "filter (\<lambda>d. fault_of (\<lambda>_. None) sample_mixed d \<noteq> E_NO_ERROR) ?ds = [sample_for 8 [5], sample_for 4 [4]]"
    using f by (auto simp: error_codes)
  moreover have "fill_dg ?st = sample_mixed" "fill_errors ?st = []" by simp_all
  ultimately show ?thesis using handlers_filled [OF one, of "\<lambda>_. None" ?st] ev
    by (elim exE conjE) (auto simp: own simp del: MFillMsgHandlersFor.simps)
qed

end
