(* ===== verification/Example_Parser.thy ===== *)
theory Example_Parser
  imports Message_Filling Wire_Head
begin

text \<open>
  The parser module of the example protocol (\<open>CExampleProtocolParser.cpp\<close> and
  \<open>udt_example_protocol.h\<close>), a parser as programs load it into the kernel, and the proof that it
  keeps the contract of parsers; with the properties of filling messages that rest on it.
\<close>

section \<open>The parser\<close>

definition msg_head_size :: nat where "msg_head_size = 4"
definition E_MSG_TEST :: nat where "E_MSG_TEST = 1"
definition E_MSG_SWAP_BYTE_TEST :: nat where "E_MSG_SWAP_BYTE_TEST = 2"
definition MSG_TEST_SIZE :: nat where "MSG_TEST_SIZE = 200000"
definition swap_byte_order_msg_size :: nat where "swap_byte_order_msg_size = 4 + 20"
definition E_INVALID_MSG_SIZE :: "8 word" where "E_INVALID_MSG_SIZE = 2"
definition E_INVALID_MSG_TYPE :: "8 word" where "E_INVALID_MSG_TYPE = 3"

lemmas example_numbers = msg_head_size_def E_MSG_TEST_def E_MSG_SWAP_BYTE_TEST_def MSG_TEST_SIZE_def
  swap_byte_order_msg_size_def

text \<open>\<open>msg_head_t\<close>: a byte for the type and three for the size.\<close>

definition head_type :: "buffer \<Rightarrow> nat" where
  "head_type b = unat (b ! 0)"

definition head_size :: "buffer \<Rightarrow> nat" where
  "head_size b = unat (le_word (take 3 (drop 1 b)) :: 32 word)"

definition found :: "buffer \<Rightarrow> 8 word \<Rightarrow> nat \<Rightarrow> nat \<Rightarrow> obtained_dg_t" where
  "found header e a z = \<lparr>FObtained = \<lparr>FVersion = no_version, FMessageHeader = message_word (header @ replicate (8 - length header) 0)\<rparr>,
     FErrorCode = e, FBegin = a, FEnd = z\<rparr>"

text \<open>
  The loop of \<open>MParserData\<close>: \<open>a\<close> is the place of \<open>b\<close> in the buffer. A wrong size passes over the
  head, a message that is not complete ends the loop, an unknown type takes the whole buffer.
\<close>

function example_parse :: "nat \<Rightarrow> buffer \<Rightarrow> obtained_dg_t list" where
  "example_parse a b =
     (let sz = head_size b
      in if length b < msg_head_size then []
         else if head_type b = E_MSG_TEST then
           (if sz \<noteq> MSG_TEST_SIZE
            then found [] E_INVALID_MSG_SIZE a (a + msg_head_size) # example_parse (a + msg_head_size) (drop msg_head_size b)
            else if length b < sz then []
            else found (take 4 b) 0 a (a + sz) # example_parse (a + sz) (drop sz b))
         else if head_type b = E_MSG_SWAP_BYTE_TEST then
           (if sz \<noteq> swap_byte_order_msg_size
            then found [] E_INVALID_MSG_SIZE a (a + msg_head_size) # example_parse (a + msg_head_size) (drop msg_head_size b)
            else if length b < sz then []
            else found (le_bytes 4 (2 :: 32 word)) 0 a (a + sz) # example_parse (a + sz) (drop sz b))
         else [found [] E_INVALID_MSG_TYPE a (a + length b)])"
  by auto
termination
  by (relation "measure (\<lambda>(a, b). length b)") (auto simp: example_numbers)

declare example_parse.simps [simp del]

text \<open>The fields of the message with their bytes turned round; such a message has 24 bytes.\<close>

definition example_swap_message :: "required_header_t \<Rightarrow> buffer \<Rightarrow> buffer option" where
  "example_swap_message h b =
     (if (le_word (take 4 (message_bytes (FMessageHeader h))) :: 32 word) = 2
      then Some (take 8 b @ rev (take 2 (drop 8 b)) @ rev (take 2 (drop 10 b)) @ rev (take 4 (drop 12 b))
             @ rev (take 4 (drop 16 b)) @ rev (take 4 (drop 20 b)) @ drop 24 b)
      else None)"

definition example_swap_header :: "required_header_t \<Rightarrow> required_header_t option" where
  "example_swap_header h =
     (let m = message_bytes (FMessageHeader h) in Some (h\<lparr>FMessageHeader := message_word (rev (take 4 m) @ drop 4 m)\<rparr>))"

definition example_parser :: ext_parser where
  "example_parser = \<lparr>MParserData = (\<lambda>b u. example_parse 0 b), swap_header = example_swap_header,
     swap_message = example_swap_message, MDataOffset = (\<lambda>h. msg_head_size)\<rparr>"

section \<open>The contract\<close>

lemma found_fields [simp]: "FBegin (found h e a z) = a" "FEnd (found h e a z) = z"
  by (simp_all add: found_def)

lemma example_parse_tiles: "tiles a (example_parse a b) (a + length b)"
proof (induction "length b" arbitrary: a b rule: less_induct)
  case less
  have rest: "tiles (a + n) (example_parse (a + n) (drop n b)) (a + length b)" if "0 < n" "n \<le> length b" for n
    using less [of "drop n b" "a + n"] that by simp
  have head: "tiles (a + 4) (example_parse (a + 4) (drop 4 b)) (a + length b)" if "4 \<le> length b"
    using rest [of 4] that by simp
  show ?case
    using rest [of "head_size b"] head
    by (subst example_parse.simps) (auto simp: Let_def example_numbers)
qed

interpretation ep: framing_parser example_parser
  by unfold_locales (use example_parse_tiles [of 0] in \<open>simp add: example_parser_def\<close>)

lemma swap_message_twice:
  assumes "length b = 24" "example_swap_message h b = Some c"
  shows "example_swap_message h c = Some b"
proof -
  have "b = take 8 b @ take 2 (drop 8 b) @ take 2 (drop 10 b) @ take 4 (drop 12 b) @ take 4 (drop 16 b) @ take 4 (drop 20 b)"
  proof -
    have "b = take (8 + (2 + (2 + (4 + (4 + 4))))) b" using assms(1) by simp
    also have "\<dots> = take 8 b @ take 2 (drop 8 b) @ take 2 (drop 10 b) @ take 4 (drop 12 b) @ take 4 (drop 16 b) @ take 4 (drop 20 b)"
      unfolding take_add drop_drop by simp
    finally show ?thesis .
  qed
  then show ?thesis using assms by (auto simp: example_swap_message_def split: if_splits)
qed

section \<open>Properties\<close>

text \<open>
  The parser of the example protocol keeps the contract of parsers on every buffer: its
  messages begin at the beginning, none is empty, they follow each other without gaps and stay
  inside of the buffer.
\<close>

lemma example_parser_keeps_contract: "tiles 0 (MParserData example_parser b u) (length b)"
  by (rule ep.parses)

text \<open>
  C15: however a sender cuts its stream into packets, no byte is lost and none is doubled: filling
  in receivers does not stop; what was kept before and the bytes of the packets are the messages
  in their order and what is kept after; every message goes on or is given back, and none goes
  on twice. The parser of the protocol is any that keeps the contract of parsers.
\<close>

theorem stream_bytes_conserved:
  assumes "framing_parser p" "ps pr = Some p" "\<forall>d\<in>set ds. stream_packet u pr d"
    and "FExpected (routing_of u pr (fill_dg st)) \<noteq> []"
  shows "\<exists>from to st1 ms. MFillMsgReceivers ps ds st = Some (from, to, st1)
    \<and> concat ms @ FBufferedData (routing_of u pr (fill_dg st1)) = FBufferedData (routing_of u pr (fill_dg st)) @ concat (map FData ds)
    \<and> mset (map FData to) \<subseteq># mset ms \<and> mset ms \<subseteq># mset (map FData to) + mset (map FData from)"
  using framing_parser.stream_conserves [OF assms(1), of ps pr ds u st] assms(2-4) unfolding conserves_def by blast

definition example_state :: filling where
  "example_state = \<lparr>fill_dg = CRequiredDG\<lparr>FWhatIsSendingBy := [(7, [(CText ''pudt'',
     \<lparr>FBufferedData = [2, 24], FExpected = [(1, no_receivers)]\<rparr>)])]\<rparr>, fill_errors = []\<rparr>"

definition example_packet :: user_data_t where
  "example_packet = \<lparr>FDataId = \<lparr>FPacketNumber = 1, FDataProtocol = CText ''pudt'', FDataOffset = 0, FEventsList = [],
     FDestination = [], FRegistrators = [], FRouting = \<lparr>FRoute = [], FFrom = id_of_uuid 7\<rparr>, FSplit = no_split,
     FEndian = E_SHARE_ENDIAN, FDataWhat = no_header\<rparr>, FData = replicate 24 0\<rparr>"

theorem stream_bytes_conserved_witness:
  "\<exists>from to st1 ms. MFillMsgReceivers [CText ''pudt'' \<mapsto> example_parser] [example_packet] example_state = Some (from, to, st1)
    \<and> concat ms @ FBufferedData (routing_of 7 (CText ''pudt'') (fill_dg st1)) = [2, 24] @ replicate 24 0
    \<and> mset (map FData to) \<subseteq># mset ms"
proof -
  have r: "routing_of 7 (CText ''pudt'') (fill_dg example_state) = \<lparr>FBufferedData = [2, 24], FExpected = [(1, no_receivers)]\<rparr>"
    by (simp add: routing_of_def example_state_def get_or_def)
  have d: "\<forall>d\<in>set [example_packet]. stream_packet 7 (CText ''pudt'') d"
    by (simp add: stream_packet_def example_packet_def id_of_uuid_def MIsMsgExist_def no_header_def MIsRaw_def RAW_PROTOCOL_NAME_def)
  have "FData example_packet = replicate 24 0" by (simp add: example_packet_def)
  then show ?thesis
    using stream_bytes_conserved [OF ep.framing_parser_axioms _ d, of "[CText ''pudt'' \<mapsto> example_parser]" example_state]
    unfolding r by auto
qed

end
