(* ===== verification/Genealogy.thy ===== *)
theory Genealogy
  imports Subscriptions
begin

text \<open>
  The genealogy of messages (\<open>CRequiredDG::MInitializeMsgInheritance\<close> and what it calls). The
  parser of a protocol says which message is the direct heir of which, in its own protocol or
  in another one; from that the kernel works out, for every message, all its heirs with their
  distances and all its ancestors. Subscriptions to a message are widened to its heirs, the
  handlers of a message are found through its ancestors.

  What the parsers say (\<open>MGetInheritances\<close> of each, in the order of the factory) is an
  argument, \<open>info\<close>. The genealogy is a map of protocols in the order of \<open>CText::compare\<close>, each
  with a map of messages in the order of their header bytes. \<open>back()\<close> of an empty vector and a
  walk that does not end are \<open>None\<close>.
\<close>

section \<open>Texts in their own order\<close>

fun compare_chars :: "string \<Rightarrow> string \<Rightarrow> int" where
  "compare_chars [] [] = 0"
| "compare_chars [] (b # bs) = -1"
| "compare_chars (a # as) [] = 1"
| "compare_chars (a # as) (b # bs) =
     (if a = b then compare_chars as bs
      else if (of_char a :: nat) < of_char b then -1 else 1)"

definition compare :: "ctext \<Rightarrow> ctext \<Rightarrow> int" where
  "compare a b = compare_chars (chars a) (chars b)"

text \<open>\<open>operator[]\<close> and assignment on a map of texts in that order.\<close>

fun tm_set :: "ctext \<Rightarrow> 'v \<Rightarrow> (ctext, 'v) omap \<Rightarrow> (ctext, 'v) omap" where
  "tm_set k v [] = [(k, v)]"
| "tm_set k v (e # m) =
     (if compare (fst e) k < 0 then e # tm_set k v m
      else if fst e = k then (k, v) # m
      else (k, v) # e # m)"

section \<open>Families\<close>

definition no_family :: msg_family_t where
  "no_family = \<lparr>FBaseMessages = [], FSubMessages = []\<rparr>"

text \<open>\<open>operator==\<close>, which leaves the depth out; and what \<open>operator<\<close> compares.\<close>

definition same_msg :: "inheritance_msg_header_t \<Rightarrow> inheritance_msg_header_t \<Rightarrow> bool" where
  "same_msg a b \<longleftrightarrow> FProtcol a = FProtcol b \<and> FHeader a = FHeader b"

definition msg_key :: "inheritance_msg_header_t \<Rightarrow> ctext \<times> 64 word" where
  "msg_key a = (FProtcol a, FMessageHeader (FHeader a))"

definition MIsParent :: "inheritance_msg_header_t \<Rightarrow> msg_family_t \<Rightarrow> bool" where
  "MIsParent a f \<longleftrightarrow> list_ex (\<lambda>x. same_msg x a) (FBaseMessages f)"

definition MIsChild :: "inheritance_msg_header_t \<Rightarrow> msg_family_t \<Rightarrow> bool" where
  "MIsChild a f \<longleftrightarrow> list_ex (\<lambda>x. same_msg x a) (FSubMessages f)"

definition MPutParrent :: "inheritance_msg_header_t \<Rightarrow> msg_family_t \<Rightarrow> bool \<times> msg_family_t" where
  "MPutParrent a f = (True, f\<lparr>FBaseMessages := FBaseMessages f @ [a]\<rparr>)"

definition sMBaseMSGCompare :: "inheritance_msg_header_t \<Rightarrow> inheritance_msg_header_t \<Rightarrow> bool" where
  "sMBaseMSGCompare a b \<longleftrightarrow> FDepth a < FDepth b"

text \<open>
  \<open>lower_bound\<close> in a vector that is sorted by depth is the first place that is not less; only
  the message at that place is compared with the new one.
\<close>

definition MPutChild :: "inheritance_msg_header_t \<Rightarrow> msg_family_t \<Rightarrow> bool \<times> msg_family_t" where
  "MPutChild c f =
     (let less = takeWhile (\<lambda>x. sMBaseMSGCompare x c) (FSubMessages f);
          rest = dropWhile (\<lambda>x. sMBaseMSGCompare x c) (FSubMessages f);
          is_exist = (case rest of [] \<Rightarrow> False | x # _ \<Rightarrow> same_msg x c)
      in (is_exist, if is_exist then f else f\<lparr>FSubMessages := less @ c # rest\<rparr>))"

definition deeper :: "inheritance_msg_header_t \<Rightarrow> inheritance_msg_header_t" where
  "deeper c = c\<lparr>FDepth := FDepth c + 1\<rparr>"

fun put_children :: "inheritance_msg_header_t list \<Rightarrow> nat \<Rightarrow> msg_family_t \<Rightarrow> nat \<times> msg_family_t" where
  "put_children [] n f = (n, f)"
| "put_children (c # cs) n f =
     (let (b, f1) = MPutChild (deeper c) f in put_children cs (if b then n + 1 else n) f1)"

definition MPutChildrenOfChild ::
    "inheritance_msg_header_t list \<Rightarrow> msg_family_t \<Rightarrow> nat \<times> msg_family_t" where
  "MPutChildrenOfChild cs f = put_children cs 0 f"

section \<open>Messages of a genealogy\<close>

definition g_get :: "msg_inheritances_t \<Rightarrow> ctext \<times> 64 word \<Rightarrow> (required_header_t \<times> msg_family_t) option" where
  "g_get g m = om_get g (fst m) \<bind> (\<lambda>tree. om_get tree (snd m))"

text \<open>
  \<open>g[protocol][header] = family\<close>: the key of an entry that is already there stays as it is.
\<close>

definition g_put :: "ctext \<Rightarrow> required_header_t \<Rightarrow> msg_family_t \<Rightarrow> msg_inheritances_t \<Rightarrow> msg_inheritances_t" where
  "g_put p h f g =
     (let tree = get_or [] g p;
          k = FMessageHeader h;
          key = (case om_get tree k of None \<Rightarrow> h | Some e \<Rightarrow> fst e)
      in tm_set p (om_set k (key, f) tree) g)"

definition g_family :: "ctext \<Rightarrow> required_header_t \<Rightarrow> msg_inheritances_t \<Rightarrow> msg_family_t" where
  "g_family p h g = (case g_get g (p, FMessageHeader h) of None \<Rightarrow> no_family | Some e \<Rightarrow> snd e)"

section \<open>Direct heirs\<close>

record msg_inheritance_t =
  FBase :: required_header_t
  FChildHeader :: required_header_t
  FChildProtcol :: ctext

type_synonym parsers_info = "(ctext \<times> msg_inheritance_t list) list"

definition direct_heir :: "ctext \<Rightarrow> msg_inheritance_t \<Rightarrow> inheritance_msg_header_t" where
  "direct_heir p i =
     \<lparr>FProtcol = (if chars (FChildProtcol i) = [] then p else FChildProtcol i),
      FHeader = FChildHeader i, FDepth = 0\<rparr>"

fun read_heirs :: "ctext \<Rightarrow> msg_inheritance_t list \<Rightarrow> msg_inheritances_t \<Rightarrow> msg_inheritances_t" where
  "read_heirs p [] g = g"
| "read_heirs p (i # is) g =
     read_heirs p is (g_put p (FBase i) (snd (MPutChild (direct_heir p i) (g_family p (FBase i) g))) g)"

fun read_parsers :: "parsers_info \<Rightarrow> msg_inheritances_t \<Rightarrow> msg_inheritances_t" where
  "read_parsers [] g = g"
| "read_parsers ((p, is) # ps) g = read_parsers ps (read_heirs p is g)"

definition MReadMsgChild :: "parsers_info \<Rightarrow> msg_inheritances_t" where
  "MReadMsgChild info = read_parsers info []"

section \<open>From direct heirs to all heirs\<close>

text \<open>
  One message of the tree of direct heirs. While its heir still has a direct heir of its own
  the message is left for the next round; otherwise the heirs of its heir are already known,
  and it moves to the genealogy.
\<close>

definition resolve_msg ::
    "ctext \<Rightarrow> required_header_t \<Rightarrow> msg_family_t \<Rightarrow> msg_inheritances_t \<times> msg_inheritances_t
       \<Rightarrow> (msg_inheritances_t \<times> msg_inheritances_t) option" where
  "resolve_msg p h fam dt =
     (let (d, to) = dt in
      if FSubMessages fam = [] then None
      else let c = last (FSubMessages fam) in
        if sMGetMessageChildren (FProtcol c) (FHeader c) d = []
        then let to1 = g_put (FProtcol c) (FHeader c) (g_family (FProtcol c) (FHeader c) to) to;
                 cs = FSubMessages (g_family (FProtcol c) (FHeader c) to1);
                 fam1 = (if cs \<noteq> [] then snd (MPutChildrenOfChild cs fam) else fam)
             in Some (tm_set p (om_erase (FMessageHeader h) (get_or [] d p)) d, g_put p h fam1 to1)
        else Some (d, to))"

fun walk_tree ::
    "ctext \<Rightarrow> (64 word \<times> required_header_t \<times> msg_family_t) list \<Rightarrow> msg_inheritances_t \<times> msg_inheritances_t
       \<Rightarrow> (msg_inheritances_t \<times> msg_inheritances_t) option" where
  "walk_tree p [] dt = Some dt"
| "walk_tree p ((k, h, fam) # es) dt = resolve_msg p h fam dt \<bind> walk_tree p es"

definition visit_protocol ::
    "ctext \<Rightarrow> msg_inheritances_t \<times> msg_inheritances_t \<Rightarrow> (msg_inheritances_t \<times> msg_inheritances_t) option" where
  "visit_protocol p dt =
     om_get (fst dt) p \<bind> (\<lambda>tree. walk_tree p tree dt \<bind> (\<lambda>(d, to).
       Some (if get_or [] d p = [] then om_erase p d else d, to)))"

text \<open>
  The iterator is the list of the protocols that it has still to visit; \<open>[]\<close> is \<open>end()\<close>. Only
  the protocol it points to is ever erased.
\<close>

partial_function (option) genealogy_loop ::
    "nat \<Rightarrow> ctext list \<Rightarrow> nat \<Rightarrow> msg_inheritances_t \<times> msg_inheritances_t
       \<Rightarrow> (nat \<times> msg_inheritances_t \<times> msg_inheritances_t) option" where
  "genealogy_loop max_depth rest depth dt =
     (if fst dt = [] \<or> max_depth \<le> depth then Some (depth, dt)
      else let rest1 = (if rest = [] then map fst (fst dt) else rest);
               depth1 = (if rest = [] then depth + 1 else depth)
           in visit_protocol (hd rest1) dt \<bind> (\<lambda>dt1. genealogy_loop max_depth (tl rest1) depth1 dt1))"

declare genealogy_loop.simps [code]

definition MCreateGenealogyTreeFromChildInfo ::
    "nat \<Rightarrow> msg_inheritances_t \<Rightarrow> msg_inheritances_t
       \<Rightarrow> (nat \<times> msg_inheritances_t \<times> msg_inheritances_t) option" where
  "MCreateGenealogyTreeFromChildInfo max_depth aChildInfo aTo =
     genealogy_loop max_depth (map fst aChildInfo) 0 (aChildInfo, aTo)"

section \<open>Ancestors\<close>

text \<open>
  Every message is put into the list of ancestors of each of its heirs. The walk changes lists
  of ancestors only, so that the messages and their heirs are those at its start.
\<close>

definition put_parent ::
    "ctext \<Rightarrow> required_header_t \<Rightarrow> inheritance_msg_header_t \<Rightarrow> msg_inheritances_t \<Rightarrow> bool \<times> msg_inheritances_t" where
  "put_parent p h c g =
     (case g_get g (msg_key c) of
        None \<Rightarrow> (False, g)
      | Some (key, fam) \<Rightarrow>
          (True, g_put (FProtcol c) (FHeader c)
                   (snd (MPutParrent \<lparr>FProtcol = p, FHeader = h, FDepth = FDepth c\<rparr> fam)) g))"

fun put_parents ::
    "(ctext \<times> required_header_t \<times> inheritance_msg_header_t) list \<Rightarrow> msg_inheritances_t
       \<Rightarrow> bool \<times> msg_inheritances_t" where
  "put_parents [] g = (True, g)"
| "put_parents ((p, h, c) # ws) g =
     (let (b, g1) = put_parent p h c g in if b then put_parents ws g1 else (False, g1))"

definition heirs_walk :: "msg_inheritances_t \<Rightarrow> (ctext \<times> required_header_t \<times> inheritance_msg_header_t) list" where
  "heirs_walk g =
     concat (map (\<lambda>(p, tree). concat (map (\<lambda>(k, h, fam). map (\<lambda>c. (p, h, c)) (FSubMessages fam)) tree)) g)"

definition MParentInfo :: "msg_inheritances_t \<Rightarrow> bool \<times> msg_inheritances_t" where
  "MParentInfo g = put_parents (heirs_walk g) g"

section \<open>Validation\<close>

text \<open>
  The heirs of one message, up to the first error: each heir once, itself not among them, each
  in the tree and, with \<open>parents\<close>, with the message among its ancestors. \<open>uniq\<close> is the set of
  the messages seen.
\<close>

fun heirs_correct ::
    "msg_inheritances_t \<Rightarrow> bool \<Rightarrow> inheritance_msg_header_t \<Rightarrow> (ctext \<times> 64 word) list
       \<Rightarrow> inheritance_msg_header_t list \<Rightarrow> bool" where
  "heirs_correct g parents me uniq [] = True"
| "heirs_correct g parents me uniq (c # cs) =
     (msg_key c \<notin> set uniq
      \<and> (case g_get g (msg_key c) of
           None \<Rightarrow> False
         | Some (key, fam) \<Rightarrow> parents \<longrightarrow> MIsParent me fam)
      \<and> heirs_correct g parents me (msg_key c # uniq) cs)"

fun ancestors_correct ::
    "msg_inheritances_t \<Rightarrow> inheritance_msg_header_t \<Rightarrow> inheritance_msg_header_t list \<Rightarrow> bool" where
  "ancestors_correct g me [] = True"
| "ancestors_correct g me (a # as) =
     ((case g_get g (msg_key a) of
         None \<Rightarrow> False
       | Some (key, fam) \<Rightarrow> MIsChild me fam)
      \<and> ancestors_correct g me as)"

definition family_correct ::
    "msg_inheritances_t \<Rightarrow> bool \<Rightarrow> ctext \<Rightarrow> required_header_t \<Rightarrow> msg_family_t \<Rightarrow> bool" where
  "family_correct g parents p h fam =
     (let me = \<lparr>FProtcol = p, FHeader = h, FDepth = 0\<rparr>
      in if FSubMessages fam \<noteq> [] then heirs_correct g parents me [msg_key me] (FSubMessages fam)
         else if parents \<and> FBaseMessages fam = [] then False
         else if parents then ancestors_correct g me (FBaseMessages fam)
         else True)"

fun check_tree ::
    "msg_inheritances_t \<Rightarrow> bool \<Rightarrow> ctext \<Rightarrow> (64 word \<times> required_header_t \<times> msg_family_t) list
       \<Rightarrow> 32 word \<times> msg_inheritances_t \<Rightarrow> 32 word \<times> msg_inheritances_t" where
  "check_tree g parents p [] nb = nb"
| "check_tree g parents p ((k, h, fam) # es) nb =
     check_tree g parents p es
       (if family_correct g parents p h fam then nb else (fst nb + 1, g_put p h fam (snd nb)))"

fun check_protocols ::
    "msg_inheritances_t \<Rightarrow> bool \<Rightarrow> msg_inheritances_t \<Rightarrow> 32 word \<times> msg_inheritances_t
       \<Rightarrow> 32 word \<times> msg_inheritances_t" where
  "check_protocols g parents [] nb = nb"
| "check_protocols g parents ((p, tree) # ps) nb =
     (if chars p = [] then (1, snd nb)
      else check_protocols g parents ps (check_tree g parents p tree nb))"

text \<open>The number of errors and the families that have them.\<close>

definition sMCheckCorrectionOfGenealogyTree :: "msg_inheritances_t \<Rightarrow> bool \<Rightarrow> 32 word \<times> msg_inheritances_t" where
  "sMCheckCorrectionOfGenealogyTree g parents = check_protocols g parents g (0, [])"

section \<open>Initialisation\<close>

definition DEFAULT_MAX_INHERITANCE_DEPTH :: nat where
  "DEFAULT_MAX_INHERITANCE_DEPTH = 20"

definition MInitializeMsgInheritance :: "parsers_info \<Rightarrow> required_dg \<Rightarrow> (bool \<times> required_dg) option" where
  "MInitializeMsgInheritance info s =
     MCreateGenealogyTreeFromChildInfo DEFAULT_MAX_INHERITANCE_DEPTH (MReadMsgChild info) []
       \<bind> (\<lambda>(depth, left, g).
         Some (True, if fst (sMCheckCorrectionOfGenealogyTree g False) = 0
                     then s\<lparr>FMsgsGenealogy := snd (MParentInfo g)\<rparr> else s))"

section \<open>Look-ups\<close>

text \<open>\<open>CText::compare\<close> is the lexicographic order of the code points.\<close>

lemma compare_chars_less:
  "compare_chars a b < 0 \<longleftrightarrow> (map of_char a :: nat list) < map of_char b"
  by (induction a b rule: compare_chars.induct) auto

definition tm_ok :: "(ctext, 'v) omap \<Rightarrow> bool" where
  "tm_ok m \<longleftrightarrow> sorted_wrt (\<lambda>a b. compare a b < 0) (map fst m)"

lemma compare_trans: "compare a b < 0 \<Longrightarrow> compare b c < 0 \<Longrightarrow> compare a c < 0"
  by (auto simp: compare_def compare_chars_less)

lemma compare_irrefl [simp]: "\<not> compare a a < 0"
  by (simp add: compare_def compare_chars_less)

lemma compare_total:
  assumes "\<not> compare a b < 0" "a \<noteq> b"
  shows "compare b a < 0"
proof -
  have "map (of_char :: char \<Rightarrow> nat) (chars a) \<noteq> map of_char (chars b)"
  proof
    assume "map (of_char :: char \<Rightarrow> nat) (chars a) = map of_char (chars b)"
    then have "chars a = chars b" by (rule map_injective) (simp add: inj_def)
    with assms(2) show False by (simp add: ctext.expand)
  qed
  with assms(1) show ?thesis by (simp add: compare_def compare_chars_less)
qed

lemma tm_ok_Nil [simp, om_intros]: "tm_ok []"
  by (simp add: tm_ok_def)

lemma tm_ok_Cons: "tm_ok (e # m) \<longleftrightarrow> tm_ok m \<and> (\<forall>x\<in>set m. compare (fst e) (fst x) < 0)"
  by (auto simp: tm_ok_def)

lemma tm_ok_distinct: "tm_ok m \<Longrightarrow> distinct (map fst m)"
  by (induction m) (auto simp: tm_ok_Cons)

lemma tm_get_set [om_simps]: "om_get (tm_set k v m) x = (if x = k then Some v else om_get m x)"
  by (induction m) auto

lemma tm_set_subset: "set (tm_set k v m) \<subseteq> insert (k, v) (set m)"
  by (induction m) auto

lemma tm_set_keys: "fst ` set (tm_set k v m) = insert k (fst ` set m)"
  by (induction m) auto

lemma tm_ok_set [om_intros]: "tm_ok m \<Longrightarrow> tm_ok (tm_set k v m)"
proof (induction m)
  case Nil
  then show ?case by (simp add: tm_ok_def)
next
  case (Cons e m)
  show ?case
  proof (cases "compare (fst e) k < 0")
    case True
    have "\<forall>x\<in>set (tm_set k v m). compare (fst e) (fst x) < 0"
      using True Cons.prems tm_set_subset [of k v m] by (auto simp: tm_ok_Cons)
    with True Cons show ?thesis by (simp add: tm_ok_Cons)
  next
    case False
    then show ?thesis
      using Cons.prems compare_total [of "fst e" k] by (auto simp: tm_ok_Cons intro: compare_trans)
  qed
qed

lemma tm_ok_erase [om_intros]: "tm_ok m \<Longrightarrow> tm_ok (om_erase k m)"
  by (induction m) (auto simp: om_erase_def tm_ok_Cons)

text \<open>A genealogy is in order when its protocols and the messages of each are.\<close>

definition g_ok :: "msg_inheritances_t \<Rightarrow> bool" where
  "g_ok g \<longleftrightarrow> tm_ok g \<and> (\<forall>e\<in>set g. om_ok (snd e))"

lemma g_ok_tree: "g_ok g \<Longrightarrow> om_ok (get_or [] g p)"
  by (fastforce simp: g_ok_def get_or_def split: option.splits dest: map_of_SomeD)

lemma g_ok_set: "g_ok g \<Longrightarrow> om_ok t \<Longrightarrow> g_ok (tm_set p t g)"
  using tm_set_subset [of p t g] by (auto simp: g_ok_def tm_ok_set)

lemma g_ok_put [om_intros]: "g_ok g \<Longrightarrow> g_ok (g_put p h f g)"
  by (simp add: g_put_def Let_def g_ok_set om_ok_set g_ok_tree)

lemma g_ok_drop [om_intros]: "g_ok g \<Longrightarrow> g_ok (om_erase p g)"
  by (auto simp: g_ok_def tm_ok_erase) (auto simp: om_erase_def)

lemma g_get_Nil [simp]: "g_get [] m = None"
  by (simp add: g_get_def)

lemma g_get_tree: "g_get g (p, k) = om_get (get_or [] g p) k"
  by (simp add: g_get_def get_or_def split: option.splits)

lemma g_get_put [om_simps]:
  "g_get (g_put p h f g) m =
     (if m = (p, FMessageHeader h)
      then Some (case g_get g m of None \<Rightarrow> h | Some e \<Rightarrow> fst e, f) else g_get g m)"
  by (cases m) (auto simp: g_put_def Let_def g_get_tree get_or_def om_get_set tm_get_set)

lemma g_get_take [om_simps]:
  "g_get (tm_set p (om_erase k (get_or [] g p)) g) m = (if m = (p, k) then None else g_get g m)"
  by (cases m) (auto simp: g_get_tree get_or_def om_get_erase tm_get_set)

lemma g_get_drop:
  "get_or [] g p = [] \<Longrightarrow> g_get (om_erase p g) m = g_get g m"
  by (cases m) (auto simp: g_get_tree get_or_def om_get_erase split: option.splits)

section \<open>Insertion of heirs\<close>

lemma put_child_last:
  assumes "\<forall>x\<in>set (FSubMessages f). FDepth x < FDepth c"
  shows "MPutChild c f = (False, f\<lparr>FSubMessages := FSubMessages f @ [c]\<rparr>)"
  using assms by (simp add: MPutChild_def sMBaseMSGCompare_def Let_def takeWhile_eq_all_conv [THEN iffD2] dropWhile_eq_Nil_conv [THEN iffD2])

text \<open>Heirs of the depths that follow one another, from \<open>n\<close> on.\<close>

fun depths_from :: "nat \<Rightarrow> inheritance_msg_header_t list \<Rightarrow> bool" where
  "depths_from n [] \<longleftrightarrow> True"
| "depths_from n (c # cs) \<longleftrightarrow> FDepth c = of_nat n \<and> depths_from (Suc n) cs"

lemma depths_deeper: "depths_from n cs \<Longrightarrow> depths_from (Suc n) (map deeper cs)"
  by (induction cs arbitrary: n) (auto simp: deeper_def algebra_simps)

lemma depths_less:
  "depths_from n cs \<Longrightarrow> n + length cs < 2 ^ 32 \<Longrightarrow> x \<in> set cs \<Longrightarrow> unat (FDepth x) < n + length cs \<and> n \<le> unat (FDepth x)"
proof (induction cs arbitrary: n)
  case Nil
  then show ?case by simp
next
  case (Cons c cs)
  have "unat (of_nat n :: 32 word) = n" using Cons.prems(2) by (simp add: unat_of_nat take_bit_nat_eq_self)
  with Cons show ?case by fastforce
qed

lemma put_children_appends:
  assumes "depths_from n cs" "\<forall>x\<in>set (FSubMessages f). unat (FDepth x) < Suc n" "Suc n + length cs < 2 ^ 32"
  shows "snd (put_children cs i f) = f\<lparr>FSubMessages := FSubMessages f @ map deeper cs\<rparr>"
  using assms
proof (induction cs arbitrary: n i f)
  case Nil
  then show ?case by simp
next
  case (Cons c cs)
  have u: "unat (FDepth (deeper c)) = Suc n"
  proof -
    have "FDepth (deeper c) = of_nat (Suc n)" using Cons.prems(1) by (simp add: deeper_def algebra_simps)
    then show ?thesis using Cons.prems(3) by (simp add: unat_of_nat take_bit_nat_eq_self del: of_nat_Suc)
  qed
  then have put: "MPutChild (deeper c) f = (False, f\<lparr>FSubMessages := FSubMessages f @ [deeper c]\<rparr>)"
    using Cons.prems(2) by (intro put_child_last) (auto simp: word_less_nat_alt)
  have "snd (put_children cs i (f\<lparr>FSubMessages := FSubMessages f @ [deeper c]\<rparr>))
      = f\<lparr>FSubMessages := (FSubMessages f @ [deeper c]) @ map deeper cs\<rparr>"
    using Cons.prems u by (subst Cons.IH [of "Suc n"]) (auto simp: less_Suc_eq)
  then show ?case by (simp add: put)
qed

section \<open>The walk ends\<close>

text \<open>
  Rules for the two loops: a property of the messages that are left to visit, and one of the
  protocols that are left.
\<close>

lemma walk_rule:
  assumes step: "\<And>k h fam es dt. J ((k, h, fam) # es) dt \<Longrightarrow> \<exists>dt1. resolve_msg p h fam dt = Some dt1 \<and> J es dt1"
  shows "J es dt \<Longrightarrow> \<exists>dt1. walk_tree p es dt = Some dt1 \<and> J [] dt1"
proof (induction es arbitrary: dt)
  case Nil
  then show ?case by simp
next
  case (Cons e es)
  obtain k h fam where e: "e = (k, h, fam)" by (metis prod.exhaust)
  with step Cons.prems obtain dt1 where "resolve_msg p h fam dt = Some dt1" "J es dt1" by blast
  with Cons.IH [of dt1] e show ?case by simp
qed

lemma genealogy_loop_rule:
  assumes next_round: "\<And>depth dt. I [] depth dt \<Longrightarrow> fst dt \<noteq> [] \<Longrightarrow> depth < n \<Longrightarrow> I (map fst (fst dt)) (depth + 1) dt"
    and visit: "\<And>p ps depth dt. I (p # ps) depth dt \<Longrightarrow> \<exists>dt1. visit_protocol p dt = Some dt1 \<and> I ps depth dt1"
  shows "I rest depth dt \<Longrightarrow>
    \<exists>rest1 depth1 dt1. genealogy_loop n rest depth dt = Some (depth1, dt1) \<and> I rest1 depth1 dt1
      \<and> (fst dt1 = [] \<or> n \<le> depth1)"
proof (induction "n - depth" arbitrary: rest depth dt rule: less_induct)
  case less
  note outer = less.hyps
  from less.prems show ?case
  proof (induction rest arbitrary: dt)
    case Nil
    show ?case
    proof (cases "fst dt = [] \<or> n \<le> depth")
      case True
      then show ?thesis using Nil by (subst genealogy_loop.simps) auto
    next
      case False
      then obtain p ps where ps: "map fst (fst dt) = p # ps" by (cases "fst dt") auto
      have "I (p # ps) (depth + 1) dt" using next_round [OF Nil] False ps by simp
      then obtain dt1 where dt1: "visit_protocol p dt = Some dt1" "I ps (depth + 1) dt1" using visit by blast
      have "genealogy_loop n [] depth dt = genealogy_loop n ps (depth + 1) dt1"
        using False ps dt1 by (subst genealogy_loop.simps) simp
      moreover have "n - (depth + 1) < n - depth" using False by linarith
      ultimately show ?thesis using outer [OF _ dt1(2)] by simp
    qed
  next
    case (Cons p ps)
    show ?case
    proof (cases "fst dt = [] \<or> n \<le> depth")
      case True
      have "genealogy_loop n (p # ps) depth dt = Some (depth, dt)"
        using True by (subst genealogy_loop.simps) auto
      with True Cons.prems show ?thesis by blast
    next
      case False
      obtain dt1 where dt1: "visit_protocol p dt = Some dt1" "I ps depth dt1" using visit Cons.prems by blast
      have "genealogy_loop n (p # ps) depth dt = genealogy_loop n ps depth dt1"
        using False dt1 by (subst genealogy_loop.simps) simp
      with Cons.IH [OF dt1(2)] show ?thesis by simp
    qed
  qed
qed

text \<open>Trees of direct heirs: in order, filed under the bytes of their header, never without an heir.\<close>

definition heirs_ok :: "msg_inheritances_t \<Rightarrow> bool" where
  "heirs_ok d \<longleftrightarrow> g_ok d \<and> (\<forall>m h f. g_get d m = Some (h, f) \<longrightarrow> FMessageHeader h = snd m \<and> FSubMessages f \<noteq> [])"

definition msgs_left :: "ctext \<Rightarrow> msg_inheritances_t \<Rightarrow> (64 word \<times> required_header_t \<times> msg_family_t) list \<Rightarrow> bool" where
  "msgs_left p d es \<longleftrightarrow> distinct (map fst es) \<and> p \<in> fst ` set d
     \<and> (\<forall>k h fam. (k, h, fam) \<in> set es \<longrightarrow> g_get d (p, k) = Some (h, fam))"

definition take_msg :: "ctext \<Rightarrow> 64 word \<Rightarrow> msg_inheritances_t \<Rightarrow> msg_inheritances_t" where
  "take_msg p k d = tm_set p (om_erase k (get_or [] d p)) d"

lemma take_msg_get [om_simps]: "g_get (take_msg p k d) m = (if m = (p, k) then None else g_get d m)"
  by (simp add: take_msg_def g_get_take)

lemma take_msg_keys: "fst ` set (take_msg p k d) = insert p (fst ` set d)"
  by (simp add: take_msg_def tm_set_keys)

lemma heirs_ok_take: "heirs_ok d \<Longrightarrow> heirs_ok (take_msg p k d)"
  by (auto simp: heirs_ok_def take_msg_get) (simp add: take_msg_def g_ok_set g_ok_tree om_ok_erase)

lemma msgs_left_take:
  "msgs_left p d ((k, e) # es) \<Longrightarrow> msgs_left p (take_msg p k d) es"
  by (force simp: msgs_left_def take_msg_keys take_msg_get)

lemma msgs_left_tl: "msgs_left p d (e # es) \<Longrightarrow> msgs_left p d es"
  by (simp add: msgs_left_def)

definition resolved :: "ctext \<Rightarrow> required_header_t \<Rightarrow> msg_family_t \<Rightarrow> msg_inheritances_t \<Rightarrow> msg_inheritances_t" where
  "resolved p h fam to =
     (let c = last (FSubMessages fam);
          to1 = g_put (FProtcol c) (FHeader c) (g_family (FProtcol c) (FHeader c) to) to;
          cs = FSubMessages (g_family (FProtcol c) (FHeader c) to1)
      in g_put p h (if cs \<noteq> [] then snd (MPutChildrenOfChild cs fam) else fam) to1)"

lemma g_put_keys: "fst ` set (g_put p h f g) = insert p (fst ` set g)"
  by (simp add: g_put_def Let_def tm_set_keys)

lemma resolved_keys:
  "fst ` set (resolved p h fam to) = insert p (insert (FProtcol (last (FSubMessages fam))) (fst ` set to))"
  by (simp add: resolved_def Let_def g_put_keys)

lemma resolve_msg_cases:
  assumes "heirs_ok d" "msgs_left p d ((k, h, fam) # es)"
  shows "resolve_msg p h fam (d, to) =
    (let c = last (FSubMessages fam)
     in Some (if sMGetMessageChildren (FProtcol c) (FHeader c) d = []
              then (take_msg p k d, resolved p h fam to) else (d, to)))"
proof -
  have "g_get d (p, k) = Some (h, fam)" using assms(2) by (simp add: msgs_left_def)
  then have "FMessageHeader h = k" "FSubMessages fam \<noteq> []" using assms(1) by (auto simp: heirs_ok_def)
  then show ?thesis by (simp add: resolve_msg_def resolved_def take_msg_def Let_def)
qed

definition rounds_ok :: "nat \<Rightarrow> ctext list \<Rightarrow> nat \<Rightarrow> msg_inheritances_t \<times> msg_inheritances_t \<Rightarrow> bool" where
  "rounds_ok n rest depth dt \<longleftrightarrow> heirs_ok (fst dt) \<and> distinct rest \<and> set rest \<subseteq> fst ` set (fst dt) \<and> depth \<le> n"

lemma tree_left:
  assumes "heirs_ok d" "om_get d p = Some tree"
  shows "msgs_left p d tree"
proof -
  have "om_ok tree" using assms g_ok_tree [of d p] by (simp add: heirs_ok_def get_or_def)
  moreover have "p \<in> fst ` set d" using assms(2) by (force dest: map_of_SomeD)
  ultimately show ?thesis
    using assms(2) by (auto simp: msgs_left_def g_get_def om_ok_distinct om_get_mem)
qed

lemma heirs_ok_drop: "heirs_ok d \<Longrightarrow> get_or [] d p = [] \<Longrightarrow> heirs_ok (om_erase p d)"
  by (auto simp: heirs_ok_def g_get_drop g_ok_drop)

text \<open>The visit of a protocol, with what its walk over the messages establishes (\<open>E\<close>).\<close>

lemma visit_rule:
  assumes ok: "heirs_ok d" "p \<in> fst ` set d"
    and start: "E (the (om_get d p)) (d, to)"
    and step: "\<And>k h fam es d to. heirs_ok d \<Longrightarrow> msgs_left p d ((k, h, fam) # es) \<Longrightarrow> E ((k, h, fam) # es) (d, to)
      \<Longrightarrow> E es (let c = last (FSubMessages fam)
                in if sMGetMessageChildren (FProtcol c) (FHeader c) d = []
                   then (take_msg p k d, resolved p h fam to) else (d, to))"
    and stop: "\<And>d to. heirs_ok d \<Longrightarrow> get_or [] d p = [] \<Longrightarrow> E [] (d, to) \<Longrightarrow> E [] (om_erase p d, to)"
  shows "\<exists>d1 to1. visit_protocol p (d, to) = Some (d1, to1) \<and> heirs_ok d1 \<and> fst ` set d - {p} \<subseteq> fst ` set d1
    \<and> E [] (d1, to1)"
proof -
  from ok(2) obtain tree where tree: "om_get d p = Some tree"
    by (metis map_of_eq_None_iff option.exhaust)
  define J where "J es dt \<longleftrightarrow> heirs_ok (fst dt) \<and> msgs_left p (fst dt) es \<and> fst ` set (fst dt) = fst ` set d \<and> E es dt" for es dt
  have "\<exists>dt1. walk_tree p tree (d, to) = Some dt1 \<and> J [] dt1"
  proof (rule walk_rule)
    show "J tree (d, to)" using ok tree start by (simp add: J_def tree_left)
    fix k h fam es and dt :: "msg_inheritances_t \<times> msg_inheritances_t"
    assume J: "J ((k, h, fam) # es) dt"
    obtain d' to' where dt: "dt = (d', to')" by (cases dt)
    let ?c = "last (FSubMessages fam)"
    let ?dt1 = "if sMGetMessageChildren (FProtcol ?c) (FHeader ?c) d' = []
                then (take_msg p k d', resolved p h fam to') else (d', to')"
    have "p \<in> fst ` set d'" using J unfolding J_def dt msgs_left_def fst_conv by blast
    moreover have "E es ?dt1" using step J by (simp add: J_def dt Let_def)
    ultimately have "J es ?dt1"
      using J by (auto simp: J_def dt heirs_ok_take take_msg_keys msgs_left_tl intro: msgs_left_take)
    moreover have "resolve_msg p h fam dt = Some ?dt1"
      using J by (simp add: J_def dt resolve_msg_cases [of d' p k h fam es] Let_def)
    ultimately show "\<exists>dt1. resolve_msg p h fam dt = Some dt1 \<and> J es dt1" by blast
  qed
  then obtain d1 to1 where w: "walk_tree p tree (d, to) = Some (d1, to1)" "J [] (d1, to1)" by auto
  let ?d2 = "if get_or [] d1 p = [] then om_erase p d1 else d1"
  have "heirs_ok ?d2" "E [] (?d2, to1)" using w(2) stop by (auto simp: J_def heirs_ok_drop)
  moreover have "fst ` set d - {p} \<subseteq> fst ` set ?d2" using w(2) by (auto simp: J_def om_erase_def)
  moreover have "visit_protocol p (d, to) = Some (?d2, to1)" using tree w(1) by (simp add: visit_protocol_def)
  ultimately show ?thesis by blast
qed

lemma rounds_visit:
  assumes "rounds_ok n (p # ps) depth dt"
  shows "\<exists>dt1. visit_protocol p dt = Some dt1 \<and> rounds_ok n ps depth dt1"
proof -
  obtain d to where dt: "dt = (d, to)" by (cases dt)
  have "\<exists>d1 to1. visit_protocol p (d, to) = Some (d1, to1) \<and> heirs_ok d1 \<and> fst ` set d - {p} \<subseteq> fst ` set d1 \<and> True"
    by (rule visit_rule) (use assms in \<open>auto simp: rounds_ok_def dt\<close>)
  then show ?thesis using assms by (fastforce simp: rounds_ok_def dt)
qed

lemma rounds_next:
  "rounds_ok n [] depth dt \<Longrightarrow> depth < n \<Longrightarrow> rounds_ok n (map fst (fst dt)) (depth + 1) dt"
  by (auto simp: rounds_ok_def heirs_ok_def g_ok_def tm_ok_distinct)

lemma put_child_some: "FSubMessages (snd (MPutChild c f)) \<noteq> []"
  by (auto simp: MPutChild_def Let_def split: list.splits)

lemma heirs_ok_put: "heirs_ok g \<Longrightarrow> FSubMessages f \<noteq> [] \<Longrightarrow> heirs_ok (g_put p h f g)"
  by (auto simp: heirs_ok_def g_ok_put g_get_put split: option.splits)

lemma heirs_ok_read_heirs: "heirs_ok g \<Longrightarrow> heirs_ok (read_heirs p is g)"
  by (induction p "is" g rule: read_heirs.induct) (auto simp: heirs_ok_put put_child_some)

lemma heirs_ok_read_parsers: "heirs_ok g \<Longrightarrow> heirs_ok (read_parsers ps g)"
  by (induction ps g rule: read_parsers.induct) (auto simp: heirs_ok_read_heirs)

lemma heirs_ok_read: "heirs_ok (MReadMsgChild info)"
  unfolding MReadMsgChild_def by (rule heirs_ok_read_parsers) (simp add: heirs_ok_def g_ok_def)

lemma rounds_start: "heirs_ok d \<Longrightarrow> rounds_ok n (map fst d) 0 (d, to)"
  by (auto simp: rounds_ok_def heirs_ok_def g_ok_def tm_ok_distinct)

text \<open>
  C20: Whatever the parsers declare, cycles of messages included, the walk over the direct heirs
  ends after at most as many rounds as the limit says, and the initialisation returns.
\<close>

theorem genealogy_returns:
  "(\<exists>depth left g. MCreateGenealogyTreeFromChildInfo n (MReadMsgChild info) to = Some (depth, left, g) \<and> depth \<le> n)
   \<and> (\<exists>t. MInitializeMsgInheritance info s = Some (True, t))"
proof -
  have ends: "\<exists>depth left g. MCreateGenealogyTreeFromChildInfo n (MReadMsgChild info) to = Some (depth, left, g) \<and> depth \<le> n"
    for n to
  proof -
    have "rounds_ok n (map fst (MReadMsgChild info)) 0 (MReadMsgChild info, to)"
      by (simp add: rounds_start heirs_ok_read)
    then have "\<exists>rest1 depth1 dt1. genealogy_loop n (map fst (MReadMsgChild info)) 0 (MReadMsgChild info, to)
        = Some (depth1, dt1) \<and> rounds_ok n rest1 depth1 dt1 \<and> (fst dt1 = [] \<or> n \<le> depth1)"
      by (rule genealogy_loop_rule [of "rounds_ok n", rotated 2]) (blast intro: rounds_next rounds_visit)+
    then show ?thesis by (auto simp: MCreateGenealogyTreeFromChildInfo_def rounds_ok_def)
  qed
  moreover have "\<exists>t. MInitializeMsgInheritance info s = Some (True, t)"
    using ends [of DEFAULT_MAX_INHERITANCE_DEPTH "[]"] by (auto simp: MInitializeMsgInheritance_def)
  ultimately show ?thesis by blast
qed

section \<open>Lines of heirs\<close>

text \<open>
  The specification. \<open>declared\<close> lists the direct heirs that the parsers declare for a message,
  \<open>lineage\<close> is the line of a message: its heir, the heir of its heir and so on, until one has
  none, each with its depth. A message on or before a cycle has no line.
\<close>

definition declared :: "parsers_info \<Rightarrow> ctext \<times> 64 word \<Rightarrow> inheritance_msg_header_t list" where
  "declared info m =
     concat (map (\<lambda>(p, is). if p = fst m
       then map (direct_heir p) (filter (\<lambda>i. FMessageHeader (FBase i) = snd m) is) else []) info)"

inductive lineage :: "parsers_info \<Rightarrow> ctext \<times> 64 word \<Rightarrow> inheritance_msg_header_t list \<Rightarrow> bool" for info where
  childless: "declared info m = [] \<Longrightarrow> lineage info m []"
| heir: "c \<in> set (declared info m) \<Longrightarrow> lineage info (msg_key c) cs
    \<Longrightarrow> lineage info m (c # map (\<lambda>x. x\<lparr>FDepth := FDepth x + 1\<rparr>) cs)"

inductive_cases lineageE: "lineage info m cs"

lemma deeper_abs: "(\<lambda>x. x\<lparr>FDepth := FDepth x + 1\<rparr>) = deeper"
  by (simp add: fun_eq_iff deeper_def)

lemmas lineage_heir = lineage.heir [unfolded deeper_abs]
lemmas lineage_induct = lineage.induct [unfolded deeper_abs, consumes 1, case_names childless heir]
lemmas lineage_cases = lineageE [unfolded deeper_abs]

text \<open>
  What the parsers owe the kernel: one parser per protocol, with a name; one heir per message
  (\<open>IExtParser.h\<close>: multiple inheritance is illegal); and where an heir is itself a base, versions
  that agree.
\<close>

definition heir_version_fits :: "parsers_info \<Rightarrow> ctext \<Rightarrow> msg_inheritance_t \<Rightarrow> bool" where
  "heir_version_fits info p i =
     list_all (\<lambda>(q, js). list_all (\<lambda>j.
       msg_key (direct_heir p i) = (q, FMessageHeader (FBase j)) \<and> MIsExist (FVersion (FChildHeader i))
         \<longrightarrow> MIsCompatibleWith (FVersion (FBase j)) (FVersion (FChildHeader i))) js) info"

definition well_declared :: "parsers_info \<Rightarrow> bool" where
  "well_declared info \<longleftrightarrow>
     distinct (map fst info)
     \<and> list_all (\<lambda>(p, is). chars p \<noteq> [] \<and> distinct (map (\<lambda>i. FMessageHeader (FBase i)) is)
         \<and> list_all (heir_version_fits info p) is) info"

text \<open>What the parsers declare is what is read.\<close>

definition family_of :: "inheritance_msg_header_t \<Rightarrow> msg_family_t" where
  "family_of c = \<lparr>FBaseMessages = [], FSubMessages = [c]\<rparr>"

lemma put_child_first: "snd (MPutChild c no_family) = family_of c"
  by (simp add: MPutChild_def no_family_def family_of_def)

lemma read_heirs_get:
  assumes "distinct (map (\<lambda>i. FMessageHeader (FBase i)) is)"
    and "\<forall>i\<in>set is. g_get g (p, FMessageHeader (FBase i)) = None"
  shows "g_get (read_heirs p is g) m =
    (case List.find (\<lambda>i. m = (p, FMessageHeader (FBase i))) is of
       None \<Rightarrow> g_get g m | Some i \<Rightarrow> Some (FBase i, family_of (direct_heir p i)))"
  using assms
proof (induction "is" arbitrary: g)
  case Nil
  then show ?case by simp
next
  case (Cons i "is")
  let ?g = "g_put p (FBase i) (family_of (direct_heir p i)) g"
  have read: "read_heirs p (i # is) g = read_heirs p is ?g"
    using Cons.prems by (simp add: g_family_def put_child_first)
  have "\<forall>j\<in>set is. g_get ?g (p, FMessageHeader (FBase j)) = None"
    using Cons.prems by (auto simp: g_get_put image_iff)
  with Cons have IH: "g_get (read_heirs p is ?g) m =
    (case List.find (\<lambda>i. m = (p, FMessageHeader (FBase i))) is of
       None \<Rightarrow> g_get ?g m | Some i \<Rightarrow> Some (FBase i, family_of (direct_heir p i)))" by simp
  have "List.find (\<lambda>j. m = (p, FMessageHeader (FBase j))) is = None" if "m = (p, FMessageHeader (FBase i))"
    using that Cons.prems(1) by (force simp: find_None_iff)
  then show ?case unfolding read using IH Cons.prems(2) by (auto simp: g_get_put split: option.splits)
qed

definition base_of :: "parsers_info \<Rightarrow> ctext \<times> 64 word \<Rightarrow> msg_inheritance_t option" where
  "base_of info m = om_get info (fst m) \<bind> List.find (\<lambda>i. m = (fst m, FMessageHeader (FBase i)))"

lemma base_of_None: "fst m \<notin> fst ` set info \<Longrightarrow> base_of info m = None"
proof -
  assume "fst m \<notin> fst ` set info"
  then have "om_get info (fst m) = None" by (simp add: map_of_eq_None_iff)
  then show ?thesis by (simp add: base_of_def)
qed

lemma base_of_Cons:
  "base_of ((p, is) # ps) m = (if p = fst m then List.find (\<lambda>i. m = (fst m, FMessageHeader (FBase i))) is
     else base_of ps m)"
  by (simp add: base_of_def)

lemma read_parsers_get:
  assumes "distinct (map fst ps)" "\<forall>(p, is)\<in>set ps. distinct (map (\<lambda>i. FMessageHeader (FBase i)) is)"
    and "\<forall>p\<in>fst ` set ps. \<forall>k. g_get g (p, k) = None"
  shows "g_get (read_parsers ps g) m =
    (case base_of ps m of None \<Rightarrow> g_get g m | Some i \<Rightarrow> Some (FBase i, family_of (direct_heir (fst m) i)))"
  using assms
proof (induction ps arbitrary: g)
  case Nil
  then show ?case by (simp add: base_of_def)
next
  case (Cons e ps)
  obtain p "is" where e: "e = (p, is)" by (cases e)
  have here: "g_get (read_heirs p is g) x =
    (case List.find (\<lambda>i. x = (p, FMessageHeader (FBase i))) is of
       None \<Rightarrow> g_get g x | Some i \<Rightarrow> Some (FBase i, family_of (direct_heir p i)))" for x
    by (rule read_heirs_get) (use Cons.prems e in \<open>auto simp: comp_def\<close>)
  have other: "g_get (read_heirs p is g) x = g_get g x" if "fst x \<noteq> p" for x
  proof -
    have "List.find (\<lambda>i. x = (p, FMessageHeader (FBase i))) is = None"
      using that by (auto simp: find_None_iff)
    then show ?thesis by (simp add: here)
  qed
  have "g_get (read_heirs p is g) (q, k) = None" if q: "q \<in> fst ` set ps" for q k
  proof -
    have "q \<noteq> p" using q Cons.prems(1) e by auto
    then show ?thesis using other [of "(q, k)"] q Cons.prems(3) by simp
  qed
  then have IH: "g_get (read_parsers ps (read_heirs p is g)) m =
    (case base_of ps m of None \<Rightarrow> g_get (read_heirs p is g) m
     | Some i \<Rightarrow> Some (FBase i, family_of (direct_heir (fst m) i)))"
    using Cons.prems e by (intro Cons.IH) auto
  show ?case
  proof (cases "p = fst m")
    case True
    then have "base_of ps m = None"
      using Cons.prems(1) e by (simp add: base_of_None)
    with IH here [of m] True e show ?thesis by (simp add: base_of_Cons cong: option.case_cong)
  next
    case False
    with IH other [of m] e show ?thesis by (simp add: base_of_Cons cong: option.case_cong)
  qed
qed

lemma read_get:
  "well_declared info \<Longrightarrow> g_get (MReadMsgChild info) m =
     map_option (\<lambda>i. (FBase i, family_of (direct_heir (fst m) i))) (base_of info m)"
  unfolding MReadMsgChild_def
  by (subst read_parsers_get) (auto simp: well_declared_def list_all_iff split: option.splits)

lemma filter_one:
  "distinct (map f xs) \<Longrightarrow> filter (\<lambda>x. f x = k) xs = (case List.find (\<lambda>x. f x = k) xs of None \<Rightarrow> [] | Some x \<Rightarrow> [x])"
  by (induction xs) (auto simp: filter_empty_conv find_Some_iff split: option.splits)

lemma declared_one:
  assumes "distinct (map fst info)" "\<forall>(p, is)\<in>set info. distinct (map (\<lambda>i. FMessageHeader (FBase i)) is)"
  shows "declared info m = (case base_of info m of None \<Rightarrow> [] | Some i \<Rightarrow> [direct_heir (fst m) i])"
  using assms
proof (induction info)
  case Nil
  then show ?case by (simp add: declared_def base_of_def)
next
  case (Cons e info)
  obtain p "is" where e: "e = (p, is)" by (cases e)
  have IH: "declared info m = (case base_of info m of None \<Rightarrow> [] | Some i \<Rightarrow> [direct_heir (fst m) i])"
    using Cons by simp
  have "base_of info m = None" if "p = fst m"
    using that Cons.prems(1) e by (simp add: base_of_None)
  moreover have "filter (\<lambda>i. FMessageHeader (FBase i) = snd m) is =
      (case List.find (\<lambda>i. FMessageHeader (FBase i) = snd m) is of None \<Rightarrow> [] | Some i \<Rightarrow> [i])"
    using Cons.prems(2) e filter_one [of "\<lambda>i. FMessageHeader (FBase i)" "is" "snd m"] by simp
  moreover have "List.find (\<lambda>i. m = (fst m, FMessageHeader (FBase i))) is
      = List.find (\<lambda>i. FMessageHeader (FBase i) = snd m) is"
    by (cases m) (metis fst_conv snd_conv)
  ultimately show ?case
    using IH e by (auto simp: declared_def base_of_Cons split: option.splits)
qed

lemma well_declared_one:
  "well_declared info \<Longrightarrow> declared info m = (case base_of info m of None \<Rightarrow> [] | Some i \<Rightarrow> [direct_heir (fst m) i])"
  by (rule declared_one) (auto simp: well_declared_def list_all_iff)

lemma lineage_depths: "lineage info m cs \<Longrightarrow> depths_from 0 cs"
proof (induction rule: lineage_induct)
  case (heir c m cs)
  then have "FDepth c = 0" by (auto simp: declared_def direct_heir_def split: if_splits)
  with heir depths_deeper [of 0 cs] show ?case by simp
qed simp

lemma lineage_unique:
  assumes "well_declared info"
  shows "lineage info m cs \<Longrightarrow> lineage info m ds \<Longrightarrow> cs = ds"
proof (induction arbitrary: ds rule: lineage_induct)
  case (childless m)
  then show ?case by (auto elim: lineage_cases)
next
  case (heir c m cs)
  have "declared info m = [c]"
    using heir.hyps(1) by (cases "base_of info m") (auto simp: well_declared_one [OF assms])
  with heir.prems obtain es where "ds = c # map deeper es" "lineage info (msg_key c) es"
    by (auto elim: lineage_cases)
  with heir.IH show ?case by simp
qed

section \<open>The genealogy is made of lines\<close>

lemma msg_key_deeper [simp]: "msg_key (deeper c) = msg_key c"
  by (simp add: msg_key_def deeper_def)

lemma msg_key_comp_deeper [simp]: "msg_key \<circ> deeper = msg_key"
  by (simp add: fun_eq_iff)

definition bases :: "parsers_info \<Rightarrow> (ctext \<times> 64 word) list" where
  "bases info = concat (map (\<lambda>(p, is). map (\<lambda>i. (p, FMessageHeader (FBase i))) is) info)"

text \<open>
  Between the direct heirs \<open>d\<close> that are left and the genealogy \<open>to\<close>: what is left is as it was
  read; every message of the genealogy has its line there, and its heirs are there too; what
  is no longer left is there.
\<close>

definition line_ok :: "parsers_info \<Rightarrow> msg_inheritances_t \<Rightarrow> ctext \<times> 64 word \<Rightarrow> required_header_t \<times> msg_family_t \<Rightarrow> bool" where
  "line_ok info to m e \<longleftrightarrow> FMessageHeader (fst e) = snd m \<and> FBaseMessages (snd e) = []
     \<and> lineage info m (FSubMessages (snd e))
     \<and> (\<forall>c\<in>set (FSubMessages (snd e)). g_get to (msg_key c) \<noteq> None)"

definition gen_inv :: "parsers_info \<Rightarrow> msg_inheritances_t \<times> msg_inheritances_t \<Rightarrow> bool" where
  "gen_inv info dt \<longleftrightarrow>
     (case dt of (d, to) \<Rightarrow>
       g_ok to \<and> (\<forall>p\<in>fst ` set to. chars p \<noteq> [])
       \<and> g_get d \<subseteq>\<^sub>m g_get (MReadMsgChild info)
       \<and> (\<forall>m e. g_get to m = Some e \<longrightarrow> g_get d m = None \<and> line_ok info to m e
            \<and> length (FSubMessages (snd e)) + card (dom (g_get d)) \<le> length (bases info))
       \<and> (\<forall>m. g_get (MReadMsgChild info) m \<noteq> None \<longrightarrow> g_get d m = None \<longrightarrow> g_get to m \<noteq> None))"

lemma read_dom:
  assumes "well_declared info"
  shows "dom (g_get (MReadMsgChild info)) \<subseteq> set (bases info)"
proof
  fix m assume "m \<in> dom (g_get (MReadMsgChild info))"
  then obtain i where "base_of info m = Some i" by (auto simp: read_get [OF assms])
  then obtain "is" where "(fst m, is) \<in> set info" "i \<in> set is" "m = (fst m, FMessageHeader (FBase i))"
    by (auto simp: base_of_def find_Some_iff bind_eq_Some_conv dest: map_of_SomeD)
  then show "m \<in> set (bases info)" unfolding bases_def by force
qed

lemma gen_start:
  assumes "well_declared info"
  shows "gen_inv info (MReadMsgChild info, [])"
  by (simp add: gen_inv_def g_ok_def)

lemma left_family:
  assumes "well_declared info" "g_get d \<subseteq>\<^sub>m g_get (MReadMsgChild info)" "g_get d (p, k) = Some (h, fam)"
  obtains i where "base_of info (p, k) = Some i" "h = FBase i" "fam = family_of (direct_heir p i)"
proof -
  have "g_get (MReadMsgChild info) (p, k) = Some (h, fam)"
    using assms(2,3) by (metis domI map_le_def)
  then show thesis using that by (auto simp: read_get [OF assms(1)])
qed

lemma heir_left:
  assumes wd: "well_declared info" and left: "g_get d \<subseteq>\<^sub>m g_get (MReadMsgChild info)"
    and i: "base_of info (p, k) = Some i"
  shows "sMGetMessageChildren (FProtcol (direct_heir p i)) (FHeader (direct_heir p i)) d = []
    \<longleftrightarrow> g_get d (msg_key (direct_heir p i)) = None"
proof (cases "g_get d (msg_key (direct_heir p i))")
  case None
  then show ?thesis
    by (auto simp: sMGetMessageChildren_def g_get_def msg_key_def split: option.splits)
next
  case (Some e)
  obtain q l where c: "msg_key (direct_heir p i) = (q, l)" by (cases "msg_key (direct_heir p i)")
  obtain h fam where e: "e = (h, fam)" by (cases e)
  obtain j where j: "base_of info (q, l) = Some j" "h = FBase j" "fam = family_of (direct_heir q j)"
    using left_family [OF wd left] Some c e by metis
  obtain "is" where "(p, is) \<in> set info" "i \<in> set is"
    using i by (auto simp: base_of_def find_Some_iff bind_eq_Some_conv dest: map_of_SomeD)
  then have "heir_version_fits info p i" using wd by (auto simp: well_declared_def list_all_iff)
  moreover obtain js where "(q, js) \<in> set info" "j \<in> set js" "FMessageHeader (FBase j) = l"
    using j(1) by (auto simp: base_of_def find_Some_iff bind_eq_Some_conv dest: map_of_SomeD)
  ultimately have "MIsExist (FVersion (FChildHeader i)) \<longrightarrow> MIsCompatibleWith (FVersion (FBase j)) (FVersion (FChildHeader i))"
    using c by (fastforce simp: heir_version_fits_def list_all_iff)
  then have "sMGetMessageChildren (FProtcol (direct_heir p i)) (FHeader (direct_heir p i)) d = [direct_heir q j]"
    using Some c e j
    by (auto simp: sMGetMessageChildren_def g_get_def msg_key_def direct_heir_def family_of_def bind_eq_Some_conv)
  with Some show ?thesis by simp
qed

lemma gen_inv_line:
  assumes "gen_inv info (d, to)" "g_get to m = Some e"
  shows "g_get d m = None \<and> line_ok info to m e \<and> length (FSubMessages (snd e)) + card (dom (g_get d)) \<le> length (bases info)"
  using assms unfolding gen_inv_def prod.case by blast

lemma gen_inv_there:
  "gen_inv info (d, to) \<Longrightarrow> g_get (MReadMsgChild info) m \<noteq> None \<Longrightarrow> g_get d m = None \<Longrightarrow> g_get to m \<noteq> None"
  unfolding gen_inv_def prod.case by blast

text \<open>One message resolved: its heir is filed, and its line is the heir and the line of the heir.\<close>

lemma resolved_get:
  assumes "g_get to (msg_key c) = None \<Longrightarrow> cs = []"
    and "\<And>e. g_get to (msg_key c) = Some e \<Longrightarrow> FSubMessages (snd e) = cs"
    and "FDepth c = 0" "depths_from 0 cs" "Suc (length cs) < 2 ^ 32" "msg_key c \<noteq> (p, FMessageHeader h)"
  shows "g_get (resolved p h (family_of c) to) m =
    (if m = (p, FMessageHeader h)
     then Some (case g_get to m of None \<Rightarrow> h | Some e \<Rightarrow> fst e, (family_of c)\<lparr>FSubMessages := c # map deeper cs\<rparr>)
     else if m = msg_key c
     then Some (case g_get to m of None \<Rightarrow> (FHeader c, no_family) | Some e \<Rightarrow> e)
     else g_get to m)"
proof -
  have last: "last (FSubMessages (family_of c)) = c" by (simp add: family_of_def)
  let ?to1 = "g_put (FProtcol c) (FHeader c) (g_family (FProtcol c) (FHeader c) to) to"
  have to1: "g_get ?to1 x = (if x = msg_key c then Some (case g_get to x of None \<Rightarrow> (FHeader c, no_family) | Some e \<Rightarrow> e)
      else g_get to x)" for x
    by (auto simp: g_get_put g_family_def msg_key_def split: option.splits)
  have fam: "FSubMessages (g_family (FProtcol c) (FHeader c) ?to1) = cs"
    using assms(1,2) to1 [of "msg_key c"]
    by (auto simp: g_family_def msg_key_def no_family_def split: option.splits)
  have "snd (MPutChildrenOfChild cs (family_of c)) = (family_of c)\<lparr>FSubMessages := c # map deeper cs\<rparr>"
    using put_children_appends [of 0 cs "family_of c" 0] assms(3-5)
    by (simp add: MPutChildrenOfChild_def family_of_def)
  moreover have "family_of c = (family_of c)\<lparr>FSubMessages := c # map deeper cs\<rparr>" if "cs = []"
    using that by (simp add: family_of_def)
  ultimately have fam1: "(if cs \<noteq> [] then snd (MPutChildrenOfChild cs (family_of c)) else family_of c)
      = (family_of c)\<lparr>FSubMessages := c # map deeper cs\<rparr>" by auto
  show ?thesis
    unfolding resolved_def Let_def last fam fam1 by (subst g_get_put) (use assms(6) in \<open>auto simp: to1\<close>)
qed

lemma left_in_bases:
  assumes "well_declared info" "g_get d \<subseteq>\<^sub>m g_get (MReadMsgChild info)"
  shows "finite (dom (g_get d))" "card (dom (g_get d)) \<le> length (bases info)"
proof -
  have dom: "dom (g_get d) \<subseteq> set (bases info)"
    using map_le_implies_dom_le [OF assms(2)] read_dom [OF assms(1)] by (rule subset_trans)
  then show "finite (dom (g_get d))" by (rule finite_subset) simp
  show "card (dom (g_get d)) \<le> length (bases info)"
    using card_mono [OF finite_set dom] card_length [of "bases info"] by linarith
qed

lemma take_card:
  assumes "finite (dom (g_get d))" "g_get d (p, k) = Some e"
  shows "card (dom (g_get d)) = Suc (card (dom (g_get (take_msg p k d))))"
proof -
  have "dom (g_get (take_msg p k d)) = dom (g_get d) - {(p, k)}" by (auto simp: take_msg_get split: if_splits)
  moreover have "(p, k) \<in> dom (g_get d)" using assms(2) by blast
  ultimately show ?thesis using card_Suc_Diff1 [OF assms(1), of "(p, k)"] by metis
qed

text \<open>The line of an heir that is no longer left.\<close>

lemma heir_line:
  assumes wd: "well_declared info" and inv: "gen_inv info (d, to)" and free: "g_get d (msg_key c) = None"
  obtains cs where "lineage info (msg_key c) cs" "g_get to (msg_key c) = None \<Longrightarrow> cs = []"
    "\<And>e. g_get to (msg_key c) = Some e \<Longrightarrow> FSubMessages (snd e) = cs"
    "length cs + card (dom (g_get d)) \<le> length (bases info)"
proof (cases "g_get to (msg_key c)")
  case None
  then have "g_get (MReadMsgChild info) (msg_key c) = None" using gen_inv_there [OF inv] free by blast
  then have "lineage info (msg_key c) []"
    by (intro lineage.childless) (simp add: read_get [OF wd] well_declared_one [OF wd])
  moreover have "card (dom (g_get d)) \<le> length (bases info)"
    using inv left_in_bases(2) [OF wd] by (simp add: gen_inv_def)
  ultimately show thesis by (intro that [of "[]"]) (simp_all add: None)
next
  case (Some e)
  then have "lineage info (msg_key c) (FSubMessages (snd e))"
    "length (FSubMessages (snd e)) + card (dom (g_get d)) \<le> length (bases info)"
    using gen_inv_line [OF inv Some] by (simp_all add: line_ok_def)
  then show thesis by (intro that [of "FSubMessages (snd e)"]) (simp_all add: Some)
qed

text \<open>
  A genealogy \<open>to'\<close> that differs from \<open>to\<close> by the message \<open>(p, k)\<close> with its line, and by its heir
  \<open>c\<close> where that was not there.
\<close>

definition extends_line ::
    "ctext \<Rightarrow> required_header_t \<Rightarrow> inheritance_msg_header_t \<Rightarrow> inheritance_msg_header_t list
       \<Rightarrow> msg_inheritances_t \<Rightarrow> msg_inheritances_t \<Rightarrow> bool" where
  "extends_line p h c cs to to' \<longleftrightarrow> (\<forall>m. g_get to' m =
    (if m = (p, FMessageHeader h)
     then Some (case g_get to m of None \<Rightarrow> h | Some e \<Rightarrow> fst e, (family_of c)\<lparr>FSubMessages := c # map deeper cs\<rparr>)
     else if m = msg_key c
     then Some (case g_get to m of None \<Rightarrow> (FHeader c, no_family) | Some e \<Rightarrow> e)
     else g_get to m))"

lemma extended_lines:
  assumes inv: "gen_inv info (d, to)" and left: "g_get d (p, k) = Some e0" and k: "FMessageHeader h = k"
    and dec: "c \<in> set (declared info (p, k))" and c_free: "g_get d (msg_key c) = None"
    and cs: "lineage info (msg_key c) cs" "g_get to (msg_key c) = None \<Longrightarrow> cs = []"
      "\<And>e. g_get to (msg_key c) = Some e \<Longrightarrow> FSubMessages (snd e) = cs"
    and len: "length cs + card (dom (g_get d)) \<le> length (bases info)"
    and card: "card (dom (g_get d)) = Suc (card (dom (g_get (take_msg p k d))))"
    and ext: "extends_line p h c cs to to'" and at: "g_get to' m = Some e"
  shows "g_get (take_msg p k d) m = None \<and> line_ok info to' m e
      \<and> length (FSubMessages (snd e)) + card (dom (g_get (take_msg p k d))) \<le> length (bases info)"
proof -
  note get = ext [unfolded extends_line_def k, rule_format]
  have mono: "g_get to' x \<noteq> None" if "g_get to x \<noteq> None \<or> x = msg_key c" for x
    using that by (auto simp: get)
  have old: "g_get (take_msg p k d) x = None \<and> line_ok info to' x y
      \<and> length (FSubMessages (snd y)) + card (dom (g_get (take_msg p k d))) \<le> length (bases info)"
    if "g_get to x = Some y" for x y
    using gen_inv_line [OF inv that] mono card by (auto simp: take_msg_get line_ok_def)
  consider "m = (p, k)" | "m \<noteq> (p, k)" "m = msg_key c" "g_get to m = None" | "m \<noteq> (p, k)" "g_get to m = Some e"
    using at get [of m] by (cases "m = (p, k)"; cases "m = msg_key c"; cases "g_get to m") simp_all
  then show ?thesis
  proof cases
    case 1
    have "g_get to m = None" using gen_inv_line [OF inv, of m] left 1 by (cases "g_get to m") auto
    then have e: "e = (h, (family_of c)\<lparr>FSubMessages := c # map deeper cs\<rparr>)" using at 1 by (simp add: get)
    have "g_get to' (msg_key x) \<noteq> None" if "x \<in> set cs" for x
      using that old cs(2,3) by (cases "g_get to (msg_key c)") (auto simp: line_ok_def)
    moreover have "lineage info m (c # map deeper cs)" using dec cs(1) 1 by (simp add: lineage_heir)
    ultimately show ?thesis
      using e mono [of "msg_key c"] k 1 len card by (auto simp: line_ok_def family_of_def take_msg_get)
  next
    case 2
    then have "e = (FHeader c, no_family)" using at by (simp add: get)
    moreover have "lineage info m []" using cs(1,2) 2 by simp
    ultimately show ?thesis
      using len card c_free 2 by (auto simp: line_ok_def no_family_def msg_key_def take_msg_get)
  next
    case 3
    then show ?thesis using old by blast
  qed
qed

lemma gen_step:
  assumes wd: "well_declared info" "length (bases info) < 2 ^ 32 - 1"
    and inv: "gen_inv info (d, to)" and ok: "heirs_ok d" and left: "g_get d (p, k) = Some (h, fam)"
    and free: "sMGetMessageChildren (FProtcol (last (FSubMessages fam))) (FHeader (last (FSubMessages fam))) d = []"
  shows "gen_inv info (take_msg p k d, resolved p h fam to)"
proof -
  have le: "g_get d \<subseteq>\<^sub>m g_get (MReadMsgChild info)" using inv by (simp add: gen_inv_def)
  then obtain i where i: "base_of info (p, k) = Some i" "fam = family_of (direct_heir p i)"
    using left_family [OF wd(1) _ left] by metis
  define c where "c = direct_heir p i"
  have fam: "fam = family_of c" using i(2) by (simp add: c_def)
  have k: "FMessageHeader h = k" using ok left by (auto simp: heirs_ok_def)
  have c_free: "g_get d (msg_key c) = None"
    using free heir_left [OF wd(1) le i(1)] i(2) by (simp add: c_def family_of_def)
  have dec: "c \<in> set (declared info (p, k))" using i(1) by (simp add: well_declared_one [OF wd(1)] c_def)
  obtain cs where cs: "lineage info (msg_key c) cs" "g_get to (msg_key c) = None \<Longrightarrow> cs = []"
    "\<And>e. g_get to (msg_key c) = Some e \<Longrightarrow> FSubMessages (snd e) = cs"
    and len: "length cs + card (dom (g_get d)) \<le> length (bases info)"
    using heir_line [OF wd(1) inv c_free] by metis
  note card = take_card [OF left_in_bases(1) [OF wd(1) le] left]
  have "msg_key c \<noteq> (p, k)" using c_free left by auto
  then have ext: "extends_line p h c cs to (resolved p h fam to)"
    unfolding extends_line_def fam using cs lineage_depths [OF cs(1)] len card wd(2) k
    by (intro allI resolved_get) (auto simp: c_def direct_heir_def)
  note lines = extended_lines [OF inv left k dec c_free cs len card ext]
  have "g_get (resolved p h fam to) m \<noteq> None"
    if "g_get (MReadMsgChild info) m \<noteq> None" "g_get (take_msg p k d) m = None" for m
    using that gen_inv_there [OF inv that(1)] k
    by (auto simp: ext [unfolded extends_line_def, rule_format] take_msg_get split: if_splits)
  moreover have "g_ok (resolved p h fam to)" using inv by (simp add: gen_inv_def resolved_def Let_def g_ok_put)
  moreover have "\<forall>q\<in>fst ` set (resolved p h fam to). chars q \<noteq> []"
  proof -
    have "p \<in> fst ` set info"
      using i(1) base_of_None [of "(p, k)" info] by (cases "p \<in> fst ` set info") auto
    then have "chars p \<noteq> []" using wd(1) by (auto simp: well_declared_def list_all_iff)
    moreover from this have "chars (FProtcol c) \<noteq> []" by (simp add: c_def direct_heir_def)
    ultimately show ?thesis using inv by (auto simp: resolved_keys fam family_of_def gen_inv_def)
  qed
  moreover have "g_get (take_msg p k d) \<subseteq>\<^sub>m g_get (MReadMsgChild info)"
    using le by (auto simp: map_le_def take_msg_get split: if_splits)
  ultimately show ?thesis using lines unfolding gen_inv_def prod.case by blast
qed

section \<open>Rounds\<close>

text \<open>After as many rounds as a line is long, its message is no longer left.\<close>

definition lines_done :: "parsers_info \<Rightarrow> nat \<Rightarrow> msg_inheritances_t \<Rightarrow> bool" where
  "lines_done info n d \<longleftrightarrow> (\<forall>m cs. lineage info m cs \<longrightarrow> length cs \<le> n \<longrightarrow> g_get d m = None)"

definition round_under_way ::
    "parsers_info \<Rightarrow> nat \<Rightarrow> ctext set \<Rightarrow> (ctext \<times> 64 word) set \<Rightarrow> msg_inheritances_t \<times> msg_inheritances_t \<Rightarrow> bool" where
  "round_under_way info n ps ms dt \<longleftrightarrow> gen_inv info dt \<and> lines_done info n (fst dt)
     \<and> (\<forall>m cs. lineage info m cs \<longrightarrow> length cs \<le> Suc n \<longrightarrow> fst m \<notin> ps \<longrightarrow> m \<notin> ms \<longrightarrow> g_get (fst dt) m = None)"

lemma round_next:
  "round_under_way info n {} {} dt \<Longrightarrow> round_under_way info (Suc n) (fst ` set (fst dt)) {} dt"
proof -
  assume r: "round_under_way info n {} {} dt"
  have "g_get (fst dt) m = None" if "fst m \<notin> fst ` set (fst dt)" for m
  proof -
    have "om_get (fst dt) (fst m) = None" using that by (simp add: map_of_eq_None_iff)
    then show ?thesis by (simp add: g_get_def)
  qed
  with r show ?thesis by (auto simp: round_under_way_def lines_done_def)
qed

lemma round_msg:
  assumes wd: "well_declared info" "length (bases info) < 2 ^ 32 - 1"
    and r: "round_under_way info n ps (insert (p, k) ms) (d, to)" and ok: "heirs_ok d"
    and left: "g_get d (p, k) = Some (h, fam)"
  shows "round_under_way info n ps ms
    (let c = last (FSubMessages fam)
     in if sMGetMessageChildren (FProtcol c) (FHeader c) d = []
        then (take_msg p k d, resolved p h fam to) else (d, to))"
proof (cases "sMGetMessageChildren (FProtcol (last (FSubMessages fam))) (FHeader (last (FSubMessages fam))) d = []")
  case True
  have "gen_inv info (take_msg p k d, resolved p h fam to)"
    using gen_step [OF wd _ ok left True] r by (simp add: round_under_way_def)
  then show ?thesis using r True by (auto simp: round_under_way_def lines_done_def take_msg_get Let_def)
next
  case False
  have le: "g_get d \<subseteq>\<^sub>m g_get (MReadMsgChild info)" using r by (simp add: round_under_way_def gen_inv_def)
  then obtain i where i: "base_of info (p, k) = Some i" "fam = family_of (direct_heir p i)"
    using left_family [OF wd(1) _ left] by metis
  have c: "g_get d (msg_key (direct_heir p i)) \<noteq> None"
    using False heir_left [OF wd(1) le i(1)] i(2) by (simp add: family_of_def)
  have "\<not> length cs \<le> Suc n" if line: "lineage info (p, k) cs" for cs
  proof
    assume "length cs \<le> Suc n"
    moreover have "declared info (p, k) = [direct_heir p i]" by (simp add: well_declared_one [OF wd(1)] i(1))
    with line obtain ds where "cs = direct_heir p i # map deeper ds" "lineage info (msg_key (direct_heir p i)) ds"
      by (auto elim: lineage_cases)
    moreover have "lines_done info n d" using r by (simp add: round_under_way_def)
    ultimately show False using c by (simp add: lines_done_def del: split_paired_All)
  qed
  then show ?thesis using r False by (auto simp: round_under_way_def Let_def)
qed

definition rounds_inv :: "parsers_info \<Rightarrow> nat \<Rightarrow> ctext list \<Rightarrow> nat \<Rightarrow> msg_inheritances_t \<times> msg_inheritances_t \<Rightarrow> bool" where
  "rounds_inv info n rest depth dt \<longleftrightarrow> rounds_ok n rest depth dt \<and> round_under_way info depth (set rest) {} dt"

lemma rounds_inv_visit:
  assumes wd: "well_declared info" "length (bases info) < 2 ^ 32 - 1"
    and r: "rounds_inv info n (p # ps) depth dt"
  shows "\<exists>dt1. visit_protocol p dt = Some dt1 \<and> rounds_inv info n ps depth dt1"
proof -
  obtain d to where dt: "dt = (d, to)" by (cases dt)
  define E where "E es x \<longleftrightarrow> round_under_way info depth (set ps) (Pair p ` fst ` set es) x"
    for es :: "(64 word \<times> required_header_t \<times> msg_family_t) list" and x
  have p: "p \<in> fst ` set d" using r by (simp add: dt rounds_inv_def rounds_ok_def)
  then obtain tree where tree: "om_get d p = Some tree" by (metis map_of_eq_None_iff option.exhaust)
  have "\<exists>d1 to1. visit_protocol p (d, to) = Some (d1, to1) \<and> heirs_ok d1 \<and> fst ` set d - {p} \<subseteq> fst ` set d1
      \<and> E [] (d1, to1)"
  proof (rule visit_rule)
    show "heirs_ok d" "p \<in> fst ` set d" using r p by (simp_all add: dt rounds_inv_def rounds_ok_def)
    have run: "round_under_way info depth (set (p # ps)) {} (d, to)" using r by (simp add: rounds_inv_def dt)
    have "g_get d m = None" if "lineage info m cs" "length cs \<le> Suc depth" "fst m \<notin> set ps"
      "m \<notin> Pair p ` fst ` set tree" for m cs
    proof (cases "fst m = p")
      case True
      with that(4) have "snd m \<notin> fst ` set tree" by (cases m) auto
      then have "om_get tree (snd m) = None" by (simp add: map_of_eq_None_iff)
      with True tree show ?thesis by (simp add: g_get_def)
    next
      case False
      with that run show ?thesis by (simp add: round_under_way_def del: split_paired_All)
    qed
    with run tree show "E (the (om_get d p)) (d, to)"
      by (simp add: E_def round_under_way_def del: split_paired_All)
  next
    fix k h fam es and d to :: msg_inheritances_t
    assume "heirs_ok d" "msgs_left p d ((k, h, fam) # es)" "E ((k, h, fam) # es) (d, to)"
    then show "E es (let c = last (FSubMessages fam)
                in if sMGetMessageChildren (FProtcol c) (FHeader c) d = []
                   then (take_msg p k d, resolved p h fam to) else (d, to))"
      unfolding E_def by (intro round_msg [OF wd]) (simp_all add: msgs_left_def)
  next
    fix d to :: msg_inheritances_t
    assume "get_or [] d p = []" "E [] (d, to)"
    moreover from this have "g_get (om_erase p d) = g_get d" by (simp add: g_get_drop fun_eq_iff)
    ultimately show "E [] (om_erase p d, to)"
      by (simp add: E_def round_under_way_def lines_done_def gen_inv_def)
  qed
  then obtain d1 to1 where d1: "visit_protocol p (d, to) = Some (d1, to1)" "heirs_ok d1"
    "fst ` set d - {p} \<subseteq> fst ` set d1" "E [] (d1, to1)" by blast
  then have "rounds_inv info n ps depth (d1, to1)"
    using r by (auto simp: rounds_inv_def rounds_ok_def dt E_def)
  with d1(1) dt show ?thesis by blast
qed

lemma rounds_inv_next:
  assumes "rounds_inv info n [] depth dt" "depth < n"
  shows "rounds_inv info n (map fst (fst dt)) (depth + 1) dt"
  using assms round_next [of info depth dt] rounds_next [of n depth dt] by (simp add: rounds_inv_def)

lemma genealogy_created:
  assumes wd: "well_declared info" "length (bases info) < 2 ^ 32 - 1"
  shows "\<exists>depth left g. MCreateGenealogyTreeFromChildInfo n (MReadMsgChild info) [] = Some (depth, left, g)
    \<and> gen_inv info (left, g) \<and> lines_done info n left"
proof -
  let ?d = "MReadMsgChild info"
  have "g_get ?d m = None" if "lineage info m []" for m
    using that by (auto elim!: lineage_cases simp: well_declared_one [OF wd(1)] read_get [OF wd(1)] split: option.splits)
  then have "lines_done info 0 ?d" by (simp add: lines_done_def)
  moreover have "g_get ?d m = None" if "fst m \<notin> fst ` set ?d" for m
  proof -
    have "om_get ?d (fst m) = None" using that by (simp add: map_of_eq_None_iff)
    then show ?thesis by (simp add: g_get_def)
  qed
  ultimately have "rounds_inv info n (map fst ?d) 0 (?d, [])"
    using gen_start [OF wd(1)] rounds_start [OF heirs_ok_read]
    by (auto simp: rounds_inv_def round_under_way_def)
  then have "\<exists>rest depth dt. genealogy_loop n (map fst ?d) 0 (?d, []) = Some (depth, dt)
      \<and> rounds_inv info n rest depth dt \<and> (fst dt = [] \<or> n \<le> depth)"
    by (rule genealogy_loop_rule [of "rounds_inv info n", rotated 2])
      (blast intro: rounds_inv_next rounds_inv_visit [OF wd])+
  then obtain rest depth left g where res: "genealogy_loop n (map fst ?d) 0 (?d, []) = Some (depth, left, g)"
    "rounds_inv info n rest depth (left, g)" "left = [] \<or> n \<le> depth" by auto
  have "lines_done info n left"
    using res(2,3) by (auto simp: rounds_inv_def rounds_ok_def round_under_way_def lines_done_def)
  with res show ?thesis
    by (auto simp: MCreateGenealogyTreeFromChildInfo_def rounds_inv_def round_under_way_def)
qed

section \<open>Validation succeeds\<close>

lemma lineage_tail:
  "lineage info m cs \<Longrightarrow> c \<in> set cs \<Longrightarrow> \<exists>ds. lineage info (msg_key c) ds \<and> length ds < length cs"
proof (induction arbitrary: c rule: lineage_induct)
  case (heir c' m cs)
  show ?case
  proof (cases "c = c'")
    case True
    then show ?thesis using heir.hyps(2) by auto
  next
    case False
    then obtain b where b: "b \<in> set cs" "msg_key c = msg_key b" using heir.prems by auto
    with heir.IH obtain ds where "lineage info (msg_key b) ds" "length ds < length cs" by blast
    then show ?thesis using b(2) by auto
  qed
qed simp

lemma lineage_distinct:
  assumes "well_declared info" "lineage info m cs"
  shows "distinct (m # map msg_key cs)"
proof -
  have self: "m \<notin> msg_key ` set cs" if line: "lineage info m cs" for m cs
  proof
    assume "m \<in> msg_key ` set cs"
    then obtain ds where "lineage info m ds" "length ds < length cs" using lineage_tail [OF line] by auto
    then show False using lineage_unique [OF assms(1) line] by auto
  qed
  from assms(2) show ?thesis
  proof (induction rule: lineage_induct)
    case (heir c m cs)
    with self [OF lineage_heir, OF heir.hyps] show ?case by (simp add: image_image)
  qed simp
qed

lemma heirs_correct_iff:
  "heirs_correct g False me uniq cs \<longleftrightarrow> distinct (map msg_key cs) \<and> set uniq \<inter> msg_key ` set cs = {}
     \<and> (\<forall>c\<in>set cs. g_get g (msg_key c) \<noteq> None)"
  by (induction cs arbitrary: uniq) (auto split: option.splits)

lemma check_tree_ok:
  "\<forall>(k, h, fam)\<in>set es. family_correct g parents p h fam \<Longrightarrow> check_tree g parents p es nb = nb"
  by (induction g parents p es nb rule: check_tree.induct) auto

lemma check_protocols_ok:
  assumes "\<forall>(p, tree)\<in>set ps. chars p \<noteq> [] \<and> (\<forall>(k, h, fam)\<in>set tree. family_correct g parents p h fam)"
  shows "check_protocols g parents ps nb = nb"
  using assms by (induction g parents ps nb rule: check_protocols.induct) (auto simp: check_tree_ok)

lemma g_ok_mem:
  assumes "g_ok g" "(p, tree) \<in> set g"
  shows "(k, h, fam) \<in> set tree \<longleftrightarrow> g_get g (p, k) = Some (h, fam)"
proof -
  have "om_get g p = Some tree" using assms by (simp add: g_ok_def tm_ok_distinct)
  moreover have "om_ok tree" using assms by (auto simp: g_ok_def)
  ultimately show ?thesis by (simp add: g_get_def om_get_mem)
qed

lemma genealogy_correct:
  assumes wd: "well_declared info" and inv: "gen_inv info (left, g)"
  shows "fst (sMCheckCorrectionOfGenealogyTree g False) = 0"
proof -
  have ok: "g_ok g" "\<forall>p\<in>fst ` set g. chars p \<noteq> []" using inv by (simp_all add: gen_inv_def)
  have "family_correct g False p h fam" if at: "g_get g (p, k) = Some (h, fam)" for p k h fam
  proof -
    have l: "line_ok info g (p, k) (h, fam)" using gen_inv_line [OF inv at] by blast
    then have "lineage info (p, k) (FSubMessages fam)" "FMessageHeader h = k" by (simp_all add: line_ok_def)
    then show ?thesis
      using l lineage_distinct [OF wd, of "(p, k)" "FSubMessages fam"]
      by (auto simp: family_correct_def Let_def heirs_correct_iff msg_key_def line_ok_def)
  qed
  then have "check_protocols g False g (0, []) = (0, [])"
    using ok by (intro check_protocols_ok) (auto simp: g_ok_mem [OF ok(1)])
  then show ?thesis by (simp add: sMCheckCorrectionOfGenealogyTree_def)
qed

section \<open>Ancestors mirror heirs\<close>

definition ancestor_of :: "ctext \<times> required_header_t \<times> inheritance_msg_header_t \<Rightarrow> inheritance_msg_header_t" where
  "ancestor_of w = \<lparr>FProtcol = fst w, FHeader = fst (snd w), FDepth = FDepth (snd (snd w))\<rparr>"

definition add_ancestors ::
    "inheritance_msg_header_t list \<Rightarrow> required_header_t \<times> msg_family_t \<Rightarrow> required_header_t \<times> msg_family_t" where
  "add_ancestors as e = (fst e, (snd e)\<lparr>FBaseMessages := FBaseMessages (snd e) @ as\<rparr>)"

lemma add_ancestors_Nil [simp]: "add_ancestors [] e = e"
  by (simp add: add_ancestors_def)

lemma add_ancestors_twice: "add_ancestors as (add_ancestors bs e) = add_ancestors (bs @ as) e"
  by (simp add: add_ancestors_def)

lemma put_parent_get:
  assumes "g_get g (msg_key c) \<noteq> None"
  shows "fst (put_parent p h c g)"
    and "g_get (snd (put_parent p h c g)) m =
      map_option (add_ancestors (if msg_key c = m then [ancestor_of (p, h, c)] else [])) (g_get g m)"
  using assms
  by (auto simp: put_parent_def g_get_put MPutParrent_def ancestor_of_def add_ancestors_def msg_key_def
      option.map_ident_strong split: option.splits)

lemma put_parents_get:
  assumes "\<forall>w\<in>set ws. g_get g (msg_key (snd (snd w))) \<noteq> None"
  shows "fst (put_parents ws g) \<and> g_get (snd (put_parents ws g)) m =
    map_option (add_ancestors (map ancestor_of (filter (\<lambda>w. msg_key (snd (snd w)) = m) ws))) (g_get g m)"
  using assms
proof (induction ws arbitrary: g)
  case Nil
  then show ?case by (simp add: option.map_ident_strong)
next
  case (Cons w ws)
  obtain p h c where w: "w = (p, h, c)" by (metis prod.exhaust)
  have c: "g_get g (msg_key c) \<noteq> None" using Cons.prems w by simp
  obtain g1 where g1: "put_parent p h c g = (True, g1)"
    using put_parent_get(1) [OF c, of p h] by (metis fst_conv surj_pair)
  have get: "g_get g1 x = map_option (add_ancestors (if msg_key c = x then [ancestor_of (p, h, c)] else [])) (g_get g x)" for x
    using put_parent_get(2) [OF c, of p h x] g1 by simp
  have "\<forall>w\<in>set ws. g_get g1 (msg_key (snd (snd w))) \<noteq> None" using Cons.prems get by simp
  note IH = Cons.IH [OF this]
  show ?case using IH by (cases "g_get g m") (simp_all add: w g1 get add_ancestors_twice)
qed

lemma heirs_walk_mem:
  assumes "g_ok g"
  shows "(p, h, c) \<in> set (heirs_walk g) \<longleftrightarrow> (\<exists>k fam. g_get g (p, k) = Some (h, fam) \<and> c \<in> set (FSubMessages fam))"
proof -
  have "(p, h, c) \<in> set (heirs_walk g) \<longleftrightarrow>
      (\<exists>tree k fam. (p, tree) \<in> set g \<and> (k, h, fam) \<in> set tree \<and> c \<in> set (FSubMessages fam))"
    unfolding heirs_walk_def by (fastforce simp: image_iff)
  also have "\<dots> \<longleftrightarrow> (\<exists>k fam. g_get g (p, k) = Some (h, fam) \<and> c \<in> set (FSubMessages fam))"
  proof
    assume "\<exists>k fam. g_get g (p, k) = Some (h, fam) \<and> c \<in> set (FSubMessages fam)"
    then obtain k fam where at: "g_get g (p, k) = Some (h, fam)" "c \<in> set (FSubMessages fam)" by blast
    then obtain tree where "om_get g p = Some tree" by (auto simp: g_get_def bind_eq_Some_conv)
    then have "(p, tree) \<in> set g" by (rule map_of_SomeD)
    with at g_ok_mem [OF assms, of p tree] show
      "\<exists>tree k fam. (p, tree) \<in> set g \<and> (k, h, fam) \<in> set tree \<and> c \<in> set (FSubMessages fam)" by blast
  qed (use g_ok_mem [OF assms] in blast)
  finally show ?thesis .
qed

lemma parent_info_get:
  assumes "gen_inv info (left, g)"
  shows "g_get (snd (MParentInfo g)) m =
    map_option (add_ancestors (map ancestor_of (filter (\<lambda>w. msg_key (snd (snd w)) = m) (heirs_walk g)))) (g_get g m)"
proof -
  have ok: "g_ok g" using assms by (simp add: gen_inv_def)
  have "g_get g (msg_key c) \<noteq> None" if "(p, h, c) \<in> set (heirs_walk g)" for p h c
  proof -
    obtain k fam where "g_get g (p, k) = Some (h, fam)" "c \<in> set (FSubMessages fam)"
      using \<open>(p, h, c) \<in> set (heirs_walk g)\<close> by (auto simp: heirs_walk_mem [OF ok])
    then show ?thesis using gen_inv_line [OF assms] by (fastforce simp: line_ok_def)
  qed
  then have "\<forall>w\<in>set (heirs_walk g). g_get g (msg_key (snd (snd w))) \<noteq> None" by (metis surj_pair snd_conv)
  then show ?thesis using put_parents_get unfolding MParentInfo_def by blast
qed

lemma genealogy_installed:
  assumes wd: "well_declared info" "length (bases info) < 2 ^ 32 - 1"
  shows "\<exists>left g. gen_inv info (left, g) \<and> lines_done info DEFAULT_MAX_INHERITANCE_DEPTH left
    \<and> MInitializeMsgInheritance info s = Some (True, s\<lparr>FMsgsGenealogy := snd (MParentInfo g)\<rparr>)"
proof -
  obtain depth left g where
    "MCreateGenealogyTreeFromChildInfo DEFAULT_MAX_INHERITANCE_DEPTH (MReadMsgChild info) [] = Some (depth, left, g)"
    and res: "gen_inv info (left, g)" "lines_done info DEFAULT_MAX_INHERITANCE_DEPTH left"
    using genealogy_created [OF wd] by blast
  then show ?thesis
    using genealogy_correct [OF wd(1) res(1)] by (auto simp: MInitializeMsgInheritance_def)
qed

text \<open>The look-ups of the kernel, in terms of entries.\<close>

lemma children_of_entry:
  "MGetMessageChildren p h t =
     (case g_get (FMsgsGenealogy t) (p, FMessageHeader h) of
        None \<Rightarrow> []
      | Some e \<Rightarrow> if MIsExist (FVersion h) \<and> \<not> MIsCompatibleWith (FVersion (fst e)) (FVersion h) then []
                  else FSubMessages (snd e))"
  by (auto simp: MGetMessageChildren_def sMGetMessageChildren_def g_get_def split: option.splits)

lemma parents_of_entry:
  "MGetMessageParents p h t =
     (case g_get (FMsgsGenealogy t) (p, FMessageHeader h) of None \<Rightarrow> [] | Some e \<Rightarrow> FBaseMessages (snd e))"
  by (auto simp: MGetMessageParents_def g_get_def split: option.splits)

text \<open>
  C18: When the parsers keep their part, the initialisation installs a genealogy in which the heirs
  of a message, with their depths, are its line: whatever the kernel finds for a message is its
  line, and for a message whose line has at most 20 heirs, asked for without a version, the
  kernel finds the whole line. A message on a cycle, or before one, has no heirs there.
\<close>

theorem heirs_are_lineage:
  assumes "well_declared info" "length (bases info) < 2 ^ 32 - 1"
  shows "\<exists>t. MInitializeMsgInheritance info s = Some (True, t)
    \<and> t = s\<lparr>FMsgsGenealogy := FMsgsGenealogy t\<rparr>
    \<and> (\<forall>p h. MGetMessageChildren p h t \<noteq> [] \<longrightarrow>
         lineage info (p, FMessageHeader h) (MGetMessageChildren p h t))
    \<and> (\<forall>p h cs. lineage info (p, FMessageHeader h) cs \<and> length cs \<le> DEFAULT_MAX_INHERITANCE_DEPTH
         \<and> \<not> MIsExist (FVersion h) \<longrightarrow> MGetMessageChildren p h t = cs)"
proof -
  obtain left g where inv: "gen_inv info (left, g)" "lines_done info DEFAULT_MAX_INHERITANCE_DEPTH left"
    and ini: "MInitializeMsgInheritance info s = Some (True, s\<lparr>FMsgsGenealogy := snd (MParentInfo g)\<rparr>)"
    using genealogy_installed [OF assms, of s] by blast
  define t where "t = s\<lparr>FMsgsGenealogy := snd (MParentInfo g)\<rparr>"
  have get: "\<exists>as. g_get (FMsgsGenealogy t) m = map_option (add_ancestors as) (g_get g m)" for m
    using parent_info_get [OF inv(1)] by (auto simp: t_def)
  have line: "lineage info m (FSubMessages (snd e))" if at: "g_get (FMsgsGenealogy t) m = Some e" for m e
  proof -
    obtain e' where "g_get g m = Some e'" "FSubMessages (snd e') = FSubMessages (snd e)"
      using get [of m] at by (cases "g_get g m") (auto simp: add_ancestors_def)
    then show ?thesis using gen_inv_line [OF inv(1)] by (metis line_ok_def)
  qed
  have found: "MGetMessageChildren p h t = cs"
    if cs: "lineage info (p, FMessageHeader h) cs" "length cs \<le> DEFAULT_MAX_INHERITANCE_DEPTH" "\<not> MIsExist (FVersion h)"
    for p h cs
  proof (cases "g_get (FMsgsGenealogy t) (p, FMessageHeader h)")
    case None
    then have "g_get g (p, FMessageHeader h) = None" using get [of "(p, FMessageHeader h)"] by auto
    moreover have "g_get left (p, FMessageHeader h) = None" using inv(2) cs(1,2) unfolding lines_done_def by blast
    ultimately have "g_get (MReadMsgChild info) (p, FMessageHeader h) = None" using gen_inv_there [OF inv(1)] by blast
    then have "lineage info (p, FMessageHeader h) []"
      by (intro lineage.childless) (simp add: read_get [OF assms(1)] well_declared_one [OF assms(1)])
    with cs(1) have "cs = []" using lineage_unique [OF assms(1)] by blast
    with None show ?thesis by (simp add: children_of_entry)
  next
    case (Some e)
    have "cs = FSubMessages (snd e)" by (rule lineage_unique [OF assms(1) cs(1) line [OF Some]])
    with Some cs(3) show ?thesis by (simp add: children_of_entry)
  qed
  have "lineage info (p, FMessageHeader h) (MGetMessageChildren p h t)" if "MGetMessageChildren p h t \<noteq> []" for p h
    using that line by (auto simp: children_of_entry split: option.splits if_splits)
  moreover have "t = s\<lparr>FMsgsGenealogy := FMsgsGenealogy t\<rparr>" by (simp add: t_def)
  ultimately show ?thesis using ini found by (auto simp: t_def)
qed

text \<open>
  C19: The ancestors that the kernel finds for a message are exactly the messages of the genealogy
  that have it among their heirs, each with the depth at which it is their heir.
\<close>

theorem ancestors_mirror_heirs:
  assumes "well_declared info" "length (bases info) < 2 ^ 32 - 1"
  shows "\<exists>t. MInitializeMsgInheritance info s = Some (True, t)
    \<and> (\<forall>p h x. x \<in> set (MGetMessageParents p h t) \<longleftrightarrow>
         (\<exists>f c. g_get (FMsgsGenealogy t) (msg_key x) = Some (FHeader x, f) \<and> c \<in> set (FSubMessages f)
            \<and> msg_key c = (p, FMessageHeader h) \<and> FDepth c = FDepth x))"
proof -
  obtain left g where inv: "gen_inv info (left, g)"
    and ini: "MInitializeMsgInheritance info s = Some (True, s\<lparr>FMsgsGenealogy := snd (MParentInfo g)\<rparr>)"
    using genealogy_installed [OF assms, of s] by blast
  define t where "t = s\<lparr>FMsgsGenealogy := snd (MParentInfo g)\<rparr>"
  have ok: "g_ok g" using inv by (simp add: gen_inv_def)
  have get: "g_get (FMsgsGenealogy t) m =
    map_option (add_ancestors (map ancestor_of (filter (\<lambda>w. msg_key (snd (snd w)) = m) (heirs_walk g)))) (g_get g m)" for m
    using parent_info_get [OF inv] by (simp add: t_def)
  have entry: "(\<exists>f. g_get (FMsgsGenealogy t) m = Some (h, f) \<and> c \<in> set (FSubMessages f)) \<longleftrightarrow>
      (\<exists>f. g_get g m = Some (h, f) \<and> c \<in> set (FSubMessages f))" for m h c
    by (auto simp: get add_ancestors_def)
  have walk: "(p, h, c) \<in> set (heirs_walk g) \<longleftrightarrow>
      (\<exists>f. g_get g (p, FMessageHeader h) = Some (h, f) \<and> c \<in> set (FSubMessages f))" for p h c
    using gen_inv_line [OF inv] by (fastforce simp: heirs_walk_mem [OF ok] line_ok_def)
  have "x \<in> set (MGetMessageParents p h t) \<longleftrightarrow>
      (\<exists>c. (FProtcol x, FHeader x, c) \<in> set (heirs_walk g) \<and> msg_key c = (p, FMessageHeader h) \<and> FDepth c = FDepth x)"
    (is "_ \<longleftrightarrow> ?walk") for p h x
  proof -
    have anc: "x \<in> ancestor_of ` {w \<in> set (heirs_walk g). msg_key (snd (snd w)) = (p, FMessageHeader h)} \<longleftrightarrow> ?walk"
      by (cases x) (force simp: ancestor_of_def image_iff)
    have "g_get g (p, FMessageHeader h) \<noteq> None" if ?walk
      using that gen_inv_line [OF inv] unfolding walk by (fastforce simp: line_ok_def)
    moreover have "FBaseMessages (snd e) = []" if "g_get g m = Some e" for m e
      using gen_inv_line [OF inv that] by (simp add: line_ok_def)
    ultimately show ?thesis
      using anc by (cases "g_get g (p, FMessageHeader h)") (auto simp: parents_of_entry get add_ancestors_def)
  qed
  then show ?thesis
    using ini unfolding walk by (auto simp: t_def [symmetric] msg_key_def entry [symmetric] simp flip: ex_simps)
qed

section \<open>A sample\<close>

text \<open>
  A message of one protocol whose line goes over to another protocol, and a cycle with a
  message before it.
\<close>

definition sample_header :: "64 word \<Rightarrow> required_header_t" where
  "sample_header n = \<lparr>FVersion = no_version, FMessageHeader = n\<rparr>"

definition sample_inheritance :: "64 word \<Rightarrow> 64 word \<Rightarrow> string \<Rightarrow> msg_inheritance_t" where
  "sample_inheritance a b p = \<lparr>FBase = sample_header a, FChildHeader = sample_header b, FChildProtcol = CText p\<rparr>"

definition sample_info :: parsers_info where
  "sample_info =
     [(CText ''base'', [sample_inheritance 1 2 [], sample_inheritance 2 3 ''derived'',
        sample_inheritance 7 8 [], sample_inheritance 8 7 [], sample_inheritance 6 7 []]),
      (CText ''derived'', [sample_inheritance 3 4 []])]"

definition sample_heir :: "string \<Rightarrow> 64 word \<Rightarrow> 32 word \<Rightarrow> inheritance_msg_header_t" where
  "sample_heir p n d = \<lparr>FProtcol = CText p, FHeader = sample_header n, FDepth = d\<rparr>"

lemma sample_well_declared:
  shows "well_declared sample_info" "length (bases sample_info) < 2 ^ 32 - 1"
  by code_simp (simp add: bases_def sample_info_def)

lemma sample_line:
  "lineage sample_info (CText ''base'', 1)
     [sample_heir ''base'' 2 0, sample_heir ''derived'' 3 1, sample_heir ''derived'' 4 2]"
proof -
  have decl: "declared sample_info (CText ''derived'', 4) = []"
    "declared sample_info (CText ''derived'', 3) = [sample_heir ''derived'' 4 0]"
    "declared sample_info (CText ''base'', 2) = [sample_heir ''derived'' 3 0]"
    "declared sample_info (CText ''base'', 1) = [sample_heir ''base'' 2 0]" by code_simp+
  have key: "msg_key (sample_heir p n d) = (CText p, n)" "deeper (sample_heir p n d) = sample_heir p n (d + 1)"
    for p n d by (simp_all add: msg_key_def sample_heir_def sample_header_def deeper_def)
  have "lineage sample_info (CText ''derived'', 4) []" using decl(1) by (rule lineage.childless)
  then have "lineage sample_info (CText ''derived'', 3) [sample_heir ''derived'' 4 0]"
    using lineage_heir [of "sample_heir ''derived'' 4 0" sample_info "(CText ''derived'', 3)" "[]"] decl(2) by (simp add: key)
  then have "lineage sample_info (CText ''base'', 2) [sample_heir ''derived'' 3 0, sample_heir ''derived'' 4 1]"
    using lineage_heir [of "sample_heir ''derived'' 3 0" sample_info "(CText ''base'', 2)" "[sample_heir ''derived'' 4 0]"] decl(3)
    by (simp add: key)
  then show ?thesis
    using lineage_heir [of "sample_heir ''base'' 2 0" sample_info "(CText ''base'', 1)"
        "[sample_heir ''derived'' 3 0, sample_heir ''derived'' 4 1]"] decl(4)
    by (simp add: key)
qed

theorem heirs_are_lineage_witness:
  "\<exists>t. MInitializeMsgInheritance sample_info CRequiredDG = Some (True, t)
     \<and> MGetMessageChildren (CText ''base'') (sample_header 1) t
       = [sample_heir ''base'' 2 0, sample_heir ''derived'' 3 1, sample_heir ''derived'' 4 2]"
proof -
  obtain t where t: "MInitializeMsgInheritance sample_info CRequiredDG = Some (True, t)"
    "\<forall>p h cs. lineage sample_info (p, FMessageHeader h) cs \<and> length cs \<le> DEFAULT_MAX_INHERITANCE_DEPTH
       \<and> \<not> MIsExist (FVersion h) \<longrightarrow> MGetMessageChildren p h t = cs"
    using heirs_are_lineage [OF sample_well_declared, of CRequiredDG] by blast
  have "FMessageHeader (sample_header 1) = 1" "\<not> MIsExist (FVersion (sample_header 1))"
    by (simp_all add: sample_header_def MIsExist_def no_version_def)
  then have "MGetMessageChildren (CText ''base'') (sample_header 1) t
      = [sample_heir ''base'' 2 0, sample_heir ''derived'' 3 1, sample_heir ''derived'' 4 2]"
    using t(2) sample_line by (simp add: DEFAULT_MAX_INHERITANCE_DEPTH_def)
  with t(1) show ?thesis by blast
qed

theorem ancestors_mirror_heirs_witness:
  "\<exists>t. MInitializeMsgInheritance sample_info CRequiredDG = Some (True, t)
     \<and> MGetMessageParents (CText ''derived'') (sample_header 4) t \<noteq> []
     \<and> (\<forall>x \<in> set (MGetMessageParents (CText ''derived'') (sample_header 4) t).
          \<exists>f c. g_get (FMsgsGenealogy t) (msg_key x) = Some (FHeader x, f) \<and> c \<in> set (FSubMessages f)
            \<and> msg_key c = (CText ''derived'', 4))"
proof -
  have "map_option (\<lambda>r. MGetMessageParents (CText ''derived'') (sample_header 4) (snd r) \<noteq> [])
      (MInitializeMsgInheritance sample_info CRequiredDG) = Some True" by code_simp
  moreover have "FMessageHeader (sample_header 4) = 4" by (simp add: sample_header_def)
  ultimately show ?thesis using ancestors_mirror_heirs [OF sample_well_declared, of CRequiredDG] by fastforce
qed

text \<open>
  \<open>FBaseMessages\<close> is documented as sorted by depth. The list has the order of the walk over the
  protocols and the headers; here protocol \<open>a\<close> is walked first.
\<close>

lemma ancestors_in_walk_order:
  "map_option (\<lambda>r. map FDepth (MGetMessageParents (CText ''a'') (sample_header 4) (snd r)))
     (MInitializeMsgInheritance
        [(CText ''b'', [sample_inheritance 1 2 [], sample_inheritance 2 3 ''a'']), (CText ''a'', [sample_inheritance 3 4 []])]
        CRequiredDG)
   = Some [0, 2, 1]"
  by code_simp

end
