(* ===== verification/Info_Service.thy ===== *)
theory Info_Service
  imports Route_Graph Descriptors
begin

text \<open>
  The network as a kernel sees it (\<open>CInfoService\<close> of \<open>services/CInfoService.h/.cpp\<close>). \<open>FNet\<close> has
  every known kernel with the programs that are linked to it; \<open>FUUIDFrom\<close> (here \<open>FKernelFrom\<close>) has
  the connections from which a kernel was heard of; \<open>FGraph\<close> is the graph of the links, and
  \<open>FDestianationCache\<close> the next connection on the way to a program. The service reacts to
  connections that open and close and to the networks that other kernels send; what it sends
  and pushes is part of the result.

  \<open>my\<close> is \<open>get_my_id()\<close>. A \<open>std::set\<close> of kernels or of links is ordered by the uuid of the program
  and is a map from it. The service handles one event at a time, under \<open>FUpdateMutex\<close>; a failed
  \<open>CHECK\<close> is \<open>None\<close>. \<open>std::set::swap\<close> leaves the number of changes where it is.
\<close>

section \<open>State\<close>

type_synonym kernel_list_t = "(uuid, kernel_infos_t) omap"

record kernel_infos_array_t =
  FKernels :: kernel_list_t
  FNumberOfChange :: "32 word"

definition MWasChanged :: "kernel_infos_array_t \<Rightarrow> kernel_infos_array_t" where
  "MWasChanged n = n\<lparr>FNumberOfChange := FNumberOfChange n + 1\<rparr>"

type_synonym k_diff_t = "(kernel_infos_t \<times> bool) list"

record kernel_infos_diff_t =
  FOpened :: k_diff_t
  FClosed :: k_diff_t

definition no_diff :: kernel_infos_diff_t where
  "no_diff = \<lparr>FOpened = [], FClosed = []\<rparr>"

definition diff_MIsValid :: "kernel_infos_diff_t \<Rightarrow> bool" where
  "diff_MIsValid f \<longleftrightarrow> FOpened f \<noteq> [] \<or> FClosed f \<noteq> []"

type_synonym uuid_from_t = "(uuid, descriptor list) omap"

record data_info_t =
  FNet :: kernel_infos_array_t
  FKernelFrom :: uuid_from_t
  FGraph :: route_graph
  FDestianationCache :: "(uuid, descriptor list) omap"
  FAllDescriptors :: "descriptor list"

datatype info_event =
    SendTo descriptor kernel_infos_array_t
  | Push kernel_infos_diff_t

definition data_MResetCache :: "data_info_t \<Rightarrow> data_info_t" where
  "data_MResetCache d = d\<lparr>FGraph := Route_Graph.MResetCache (FGraph d), FDestianationCache := []\<rparr>"

section \<open>Kernels of the net\<close>

text \<open>
  The list of changes, the sources and the net that an operation works on.
\<close>

record kernel_run =
  changed :: k_diff_t
  sources :: uuid_from_t
  kernels :: kernel_list_t

definition sources_of :: "uuid_from_t \<Rightarrow> uuid \<Rightarrow> descriptor list" where
  "sources_of m u = (case om_get m u of None \<Rightarrow> [] | Some s \<Rightarrow> s)"

definition MPutKernel :: "kernel_infos_t \<Rightarrow> descriptor \<Rightarrow> kernel_run \<Rightarrow> kernel_run" where
  "MPutKernel aNew aFrom r =
     (let u = kernel_uuid aNew
      in \<lparr>changed = changed r @ [(aNew, True)],
          sources = om_set u (os_insert aFrom (sources_of (sources r) u)) (sources r),
          kernels = om_insert u aNew (kernels r)\<rparr>)"

definition MPopKernel :: "kernel_infos_t \<Rightarrow> descriptor \<Rightarrow> kernel_run \<Rightarrow> kernel_run option" where
  "MPopKernel aOld aFrom r =
     (let u = kernel_uuid aOld
      in case om_get (sources r) u of
           None \<Rightarrow> None
         | Some s \<Rightarrow>
             (let s1 = os_erase aFrom s
              in Some (if aFrom \<in> set s \<and> s1 = []
                       then r\<lparr>changed := changed r @ [(aOld, True)], sources := om_erase u (sources r)\<rparr>
                       else r\<lparr>sources := om_set u s1 (sources r), kernels := om_insert u aOld (kernels r)\<rparr>)))"

definition MInit :: "program_id_t \<Rightarrow> data_info_t" where
  "MInit my =
     (let r = MPutKernel (kernel_infos_of my) INVALID \<lparr>changed = [], sources = [], kernels = []\<rparr>
      in \<lparr>FNet = \<lparr>FKernels = kernels r, FNumberOfChange = 1\<rparr>, FKernelFrom = sources r, FGraph = empty_graph,
          FDestianationCache = [], FAllDescriptors = []\<rparr>)"

section \<open>Links of this kernel\<close>

text \<open>The entry of this kernel is taken out, changed and put back with the next number.\<close>

definition change_my_links ::
    "program_id_t \<Rightarrow> (kern_links_t \<Rightarrow> kern_links_t) \<Rightarrow> kernel_infos_array_t \<Rightarrow> kernel_infos_array_t option" where
  "change_my_links my f n =
     map_option (\<lambda>k. MWasChanged (n\<lparr>FKernels := om_set (FUuid (FId my))
         (k\<lparr>FCustomerInfo := f (FCustomerInfo k), FIndexNumber := FIndexNumber k + 1\<rparr>) (FKernels n)\<rparr>))
       (om_get (FKernels n) (FUuid (FId my)))"

definition my_link_diff :: "program_id_t \<Rightarrow> kernel_link \<Rightarrow> kernel_infos_t \<times> bool" where
  "my_link_diff my l = ((kernel_infos_of my)\<lparr>FCustomerInfo := [(link_uuid l, l)]\<rparr>, False)"

definition MPutConsumerToMyInfo ::
    "program_id_t \<Rightarrow> descriptor \<Rightarrow> kernel_link \<Rightarrow> data_info_t \<Rightarrow> k_diff_t \<Rightarrow> (data_info_t \<times> k_diff_t) option" where
  "MPutConsumerToMyInfo my aFrom aNew d aAdded =
     map_option (\<lambda>n. (d\<lparr>FNet := n, FAllDescriptors := FAllDescriptors d @ [aFrom]\<rparr>, aAdded @ [my_link_diff my aNew]))
       (change_my_links my (om_insert (link_uuid aNew) aNew) (FNet d))"

definition MPopConsumerFromMyInfo ::
    "program_id_t \<Rightarrow> descriptor \<Rightarrow> kernel_link \<Rightarrow> data_info_t \<Rightarrow> k_diff_t \<Rightarrow> (data_info_t \<times> k_diff_t) option" where
  "MPopConsumerFromMyInfo my aFrom aNew d aRemoved =
     map_option (\<lambda>n. (d\<lparr>FNet := n, FAllDescriptors := filter (\<lambda>x. x \<noteq> aFrom) (FAllDescriptors d)\<rparr>,
         aRemoved @ [my_link_diff my aNew]))
       (change_my_links my (om_erase (link_uuid aNew)) (FNet d))"

definition info_MIsCustomer :: "program_id_t \<Rightarrow> kernel_link \<Rightarrow> data_info_t \<Rightarrow> bool" where
  "info_MIsCustomer my l d =
     (case om_get (FKernels (FNet d)) (FUuid (FId my)) of
        None \<Rightarrow> False
      | Some k \<Rightarrow> om_has (link_uuid l) (FCustomerInfo k))"

text \<open>The connections that are open when the service starts.\<close>

fun put_open_consumers ::
    "program_id_t \<Rightarrow> (descriptor \<times> descriptor_info_t option) list \<Rightarrow> data_info_t \<Rightarrow> data_info_t option" where
  "put_open_consumers my [] d = Some d"
| "put_open_consumers my ((x, i) # cs) d =
     (case i of
        None \<Rightarrow> Some d
      | Some l \<Rightarrow> map_option fst (MPutConsumerToMyInfo my x l d [])) \<bind> put_open_consumers my cs"

definition MStart :: "program_id_t \<Rightarrow> descriptors \<Rightarrow> data_info_t \<Rightarrow> (bool \<times> data_info_t) option" where
  "MStart my ds d = map_option (Pair True) (put_open_consumers my (MGetAll ds) d)"

section \<open>Connections open and close\<close>

definition MAddKernel ::
    "kernel_link \<Rightarrow> descriptor \<Rightarrow> data_info_t \<Rightarrow> kernel_infos_diff_t \<Rightarrow> bool \<times> data_info_t \<times> kernel_infos_diff_t" where
  "MAddKernel aInfo aFrom d diff =
     (case om_get (FKernelFrom d) (link_uuid aInfo) of
        None \<Rightarrow>
          (let r = MPutKernel (kernel_infos_of (FProgramm aInfo)) aFrom
                     \<lparr>changed = FOpened diff, sources = FKernelFrom d, kernels = FKernels (FNet d)\<rparr>
           in (True, d\<lparr>FKernelFrom := sources r, FNet := (FNet d)\<lparr>FKernels := kernels r\<rparr>\<rparr>,
               diff\<lparr>FOpened := changed r\<rparr>))
      | Some s \<Rightarrow>
          (aFrom \<notin> set s, d\<lparr>FKernelFrom := om_set (link_uuid aInfo) (os_insert aFrom s) (FKernelFrom d)\<rparr>, diff))"

definition link_latency :: "kernel_link \<Rightarrow> int" where
  "link_latency l = int (unat (FLatency l))"

definition MSynchronize :: "descriptor list \<Rightarrow> kernel_infos_diff_t \<Rightarrow> data_info_t \<Rightarrow> info_event list" where
  "MSynchronize sent_to diff d = map (\<lambda>x. SendTo x (FNet d)) sent_to @ [Push diff]"

definition synchronize_if_valid :: "descriptor list \<Rightarrow> kernel_infos_diff_t \<Rightarrow> data_info_t \<Rightarrow> info_event list \<times> data_info_t" where
  "synchronize_if_valid sent_to diff d = (if diff_MIsValid diff then MSynchronize sent_to diff d else [], d)"

definition MHandleOpen ::
    "program_id_t \<Rightarrow> descriptor \<Rightarrow> descriptor_info_t \<Rightarrow> data_info_t \<Rightarrow> (info_event list \<times> data_info_t) option" where
  "MHandleOpen my aFrom aInfo d = do {
     (d1, added) \<leftarrow> MPutConsumerToMyInfo my aFrom aInfo d [];
     let diff = no_diff\<lparr>FOpened := added\<rparr>;
     let (sent_to, d2, diff2) =
       (case FType (FProgramm aInfo) of
          E_CONSUMER \<Rightarrow> (FAllDescriptors d1, d1, diff)
        | E_KERNEL \<Rightarrow>
            (let (is_new, d2, diff2) = MAddKernel aInfo aFrom d1 diff
             in (if is_new then [aFrom] else FAllDescriptors d2, d2, diff2)));
     g \<leftarrow> MAddNode (FUuid (FId my)) [(link_uuid aInfo, link_latency aInfo)] (FGraph d2);
     Some (synchronize_if_valid sent_to diff2 (data_MResetCache (d2\<lparr>FGraph := g\<rparr>)))
   }"

text \<open>The loop over the kernels of the net.\<close>

fun remove_from_kernels :: "descriptor \<Rightarrow> kernel_list_t \<Rightarrow> kernel_run \<Rightarrow> kernel_run option" where
  "remove_from_kernels aFrom [] r = Some r"
| "remove_from_kernels aFrom ((u, k) # ks) r =
     (case om_get (sources r) (kernel_uuid k) of
        None \<Rightarrow> None
      | Some s \<Rightarrow>
          (let s1 = os_erase aFrom s
           in remove_from_kernels aFrom ks
                (if aFrom \<in> set s \<and> s1 = []
                 then r\<lparr>changed := changed r @ [(k, True)], sources := om_erase (kernel_uuid k) (sources r),
                        kernels := om_erase u (kernels r)\<rparr>
                 else r\<lparr>sources := om_set (kernel_uuid k) s1 (sources r)\<rparr>)))"

definition MRemoveKernel ::
    "descriptor \<Rightarrow> data_info_t \<Rightarrow> kernel_infos_diff_t \<Rightarrow> (data_info_t \<times> kernel_infos_diff_t) option" where
  "MRemoveKernel aFrom d diff =
     map_option (\<lambda>r. (d\<lparr>FKernelFrom := sources r, FNet := (FNet d)\<lparr>FKernels := kernels r\<rparr>\<rparr>,
         diff\<lparr>FClosed := changed r\<rparr>))
       (remove_from_kernels aFrom (FKernels (FNet d))
         \<lparr>changed = FClosed diff, sources = FKernelFrom d, kernels = FKernels (FNet d)\<rparr>)"

definition links_of :: "kernel_infos_t \<Rightarrow> vertexs_t" where
  "links_of k = map (\<lambda>(u, l). (u, link_latency l)) (FCustomerInfo k)"

fun add_kernel_nodes :: "kernel_list_t \<Rightarrow> route_graph \<Rightarrow> route_graph option" where
  "add_kernel_nodes [] g = Some g"
| "add_kernel_nodes ((u, k) # ks) g = MAddNode (kernel_uuid k) (links_of k) g \<bind> add_kernel_nodes ks"

definition MRebuildGraph :: "data_info_t \<Rightarrow> data_info_t option" where
  "MRebuildGraph d =
     map_option (\<lambda>g. d\<lparr>FGraph := g\<rparr>) (add_kernel_nodes (FKernels (FNet d)) (MReset (FGraph d)))"

definition MHandleClose ::
    "program_id_t \<Rightarrow> descriptor \<Rightarrow> descriptor_info_t \<Rightarrow> data_info_t \<Rightarrow> (info_event list \<times> data_info_t) option" where
  "MHandleClose my aFrom aInfo d = do {
     (d1, removed) \<leftarrow> MPopConsumerFromMyInfo my aFrom aInfo d [];
     let diff = no_diff\<lparr>FClosed := removed\<rparr>;
     let sent_to = FAllDescriptors d1;
     (d2, diff2) \<leftarrow>
       (case FType (FProgramm aInfo) of
          E_CONSUMER \<Rightarrow> Some (d1\<lparr>FGraph := snd (MRemoveNode (link_uuid aInfo) (FGraph d1))\<rparr>, diff)
        | E_KERNEL \<Rightarrow> MRemoveKernel aFrom d1 diff \<bind> (\<lambda>(d2, diff2).
            map_option (\<lambda>d3. (d3, diff2)) (MRebuildGraph d2)));
     Some (synchronize_if_valid sent_to diff2 (data_MResetCache d2))
   }"

section \<open>Networks of other kernels\<close>

text \<open>\<open>std::set_difference\<close> compares links by the uuid of their program.\<close>

definition links_difference :: "kern_links_t \<Rightarrow> kern_links_t \<Rightarrow> kern_links_t" where
  "links_difference a b = filter (\<lambda>e. \<not> om_has (fst e) b) a"

definition customer_change :: "kernel_infos_t \<Rightarrow> kern_links_t \<Rightarrow> k_diff_t" where
  "customer_change k ls =
     (if ls = [] then []
      else [(\<lparr>FKernelInfo = FKernelInfo k, FCustomerInfo = ls, FIndexNumber = FIndexNumber k\<rparr>, False)])"

definition MGetCustomerDiff ::
    "kernel_infos_t \<Rightarrow> kernel_infos_t \<Rightarrow> k_diff_t \<times> k_diff_t \<Rightarrow> k_diff_t \<times> k_diff_t" where
  "MGetCustomerDiff old new ra =
     (fst ra @ customer_change new (links_difference (FCustomerInfo old) (FCustomerInfo new)),
      snd ra @ customer_change old (links_difference (FCustomerInfo new) (FCustomerInfo old)))"

text \<open>The state of the merge of two networks.\<close>

record merge_run =
  was_removed :: k_diff_t
  was_added :: k_diff_t
  merge_from :: uuid_from_t
  new_net :: kernel_list_t

definition merge_put :: "kernel_infos_t \<Rightarrow> descriptor \<Rightarrow> merge_run \<Rightarrow> merge_run" where
  "merge_put k aFrom m =
     (let r = MPutKernel k aFrom \<lparr>changed = was_added m, sources = merge_from m, kernels = new_net m\<rparr>
      in m\<lparr>was_added := changed r, merge_from := sources r, new_net := kernels r\<rparr>)"

definition merge_pop :: "kernel_infos_t \<Rightarrow> descriptor \<Rightarrow> merge_run \<Rightarrow> merge_run option" where
  "merge_pop k aFrom m =
     map_option (\<lambda>r. m\<lparr>was_removed := changed r, merge_from := sources r, new_net := kernels r\<rparr>)
       (MPopKernel k aFrom \<lparr>changed = was_removed m, sources = merge_from m, kernels = new_net m\<rparr>)"

definition merge_both :: "kernel_infos_t \<Rightarrow> kernel_infos_t \<Rightarrow> merge_run \<Rightarrow> merge_run" where
  "merge_both new old m =
     (if FIndexNumber new > FIndexNumber old
      then (let (r, a) = MGetCustomerDiff old new (was_removed m, was_added m)
            in m\<lparr>was_removed := r, was_added := a, new_net := om_insert (kernel_uuid new) new (new_net m)\<rparr>)
      else m\<lparr>new_net := om_insert (kernel_uuid old) old (new_net m)\<rparr>)"

fun merge_nets :: "descriptor \<Rightarrow> kernel_list_t \<Rightarrow> kernel_list_t \<Rightarrow> merge_run \<Rightarrow> merge_run option" where
  "merge_nets aFrom [] [] m = Some m"
| "merge_nets aFrom (n # ns) [] m = merge_nets aFrom ns [] (merge_put (snd n) aFrom m)"
| "merge_nets aFrom [] (k # ks) m = merge_pop (snd k) aFrom m \<bind> merge_nets aFrom [] ks"
| "merge_nets aFrom (n # ns) (k # ks) m =
     (if fst n < fst k then merge_nets aFrom ns (k # ks) (merge_put (snd n) aFrom m)
      else if fst k < fst n then merge_pop (snd k) aFrom m \<bind> merge_nets aFrom (n # ns) ks
      else merge_nets aFrom ns ks (merge_both (snd n) (snd k) m))"

definition MSynchronizeNetInfo ::
    "kernel_infos_array_t \<Rightarrow> descriptor \<Rightarrow> data_info_t \<Rightarrow> kernel_infos_diff_t
       \<Rightarrow> (bool \<times> data_info_t \<times> kernel_infos_diff_t) option" where
  "MSynchronizeNetInfo aNewNet aFrom d diff =
     map_option (\<lambda>m.
         let is_changed = was_removed m \<noteq> [] \<or> was_added m \<noteq> [];
             d1 = d\<lparr>FKernelFrom := merge_from m\<rparr>
         in (is_changed,
             if is_changed then d1\<lparr>FNet := MWasChanged ((FNet d)\<lparr>FKernels := new_net m\<rparr>)\<rparr> else d1,
             \<lparr>FOpened = was_added m, FClosed = was_removed m\<rparr>))
       (merge_nets aFrom (FKernels aNewNet) (FKernels (FNet d))
         \<lparr>was_removed = FClosed diff, was_added = FOpened diff, merge_from = FKernelFrom d, new_net = []\<rparr>)"

definition MHandle ::
    "kernel_infos_array_t \<Rightarrow> descriptor \<Rightarrow> data_info_t \<Rightarrow> (info_event list \<times> data_info_t) option" where
  "MHandle aNet aFrom d =
     MSynchronizeNetInfo aNet aFrom d no_diff \<bind> (\<lambda>(is_change, d1, diff).
       if is_change
       then let sent_to = (if aFrom \<in> set (FAllDescriptors d1)
                           then filter (\<lambda>x. x \<noteq> aFrom) (FAllDescriptors d1) else [])
            in map_option (synchronize_if_valid sent_to diff) (MRebuildGraph (data_MResetCache d1))
       else Some (synchronize_if_valid [] diff d1))"

section \<open>Questions to the service\<close>

definition MNextDestinations ::
    "program_id_t \<Rightarrow> descriptors \<Rightarrow> uuid \<Rightarrow> data_info_t \<Rightarrow> (descriptor list \<times> data_info_t) option" where
  "MNextDestinations my ds aTo d =
     (case om_get (FDestianationCache d) aTo of
        Some next \<Rightarrow> Some (next, d)
      | None \<Rightarrow>
          MShortestPath (FUuid (FId my)) aTo (FGraph d) \<bind> (\<lambda>(short, g).
          (if short = [] then Some []
           else MGet_uuid (hd short) ds \<bind> (\<lambda>v. Some (if v \<noteq> INVALID then [v] else []))) \<bind> (\<lambda>next.
             Some (next, d\<lparr>FGraph := g, FDestianationCache := om_set aTo next (FDestianationCache d)\<rparr>))))"

definition info_MIsVertex :: "uuid \<Rightarrow> data_info_t \<Rightarrow> bool" where
  "info_MIsVertex u d = MIsVertex u (FGraph d)"

definition MGetOtherKernelds :: "program_id_t \<Rightarrow> data_info_t \<Rightarrow> uuid list" where
  "MGetOtherKernelds my d =
     map (kernel_uuid \<circ> snd) (filter (\<lambda>e. kernel_uuid (snd e) \<noteq> FUuid (FId my)) (FKernels (FNet d)))"

text \<open>
  Never called. The second comparison repeats the one that ended the search, so that a link that
  is there is never replaced, and the result is always false.
\<close>

definition MAddOrUpdateClientTo :: "kernel_infos_t \<Rightarrow> kernel_link \<Rightarrow> bool \<times> kernel_infos_t" where
  "MAddOrUpdateClientTo aTo aCustomer =
     (False,
      case find (\<lambda>e. program_id_eq (FProgramm (snd e)) (FProgramm aCustomer)) (FCustomerInfo aTo) of
        Some _ \<Rightarrow> aTo
      | None \<Rightarrow> aTo\<lparr>FCustomerInfo := om_insert (link_uuid aCustomer) aCustomer (FCustomerInfo aTo)\<rparr>)"

section \<open>What a merge of two networks gives\<close>

text \<open>
  The specification, for one kernel: what the other network says of it (\<open>n\<close>), what was known of it
  (\<open>k\<close>), and the connections it was heard of from (\<open>s\<close>). A kernel that the other network no longer
  has is forgotten when it was heard of from there only.
\<close>

fun merged_kernel ::
    "descriptor \<Rightarrow> descriptor list \<Rightarrow> kernel_infos_t option \<Rightarrow> kernel_infos_t option \<Rightarrow> kernel_infos_t option" where
  "merged_kernel src s None None = None"
| "merged_kernel src s (Some n) None = Some n"
| "merged_kernel src s None (Some k) = (if s = [src] then None else Some k)"
| "merged_kernel src s (Some n) (Some k) = Some (if FIndexNumber n > FIndexNumber k then n else k)"

fun merged_sources ::
    "descriptor \<Rightarrow> descriptor list \<Rightarrow> kernel_infos_t option \<Rightarrow> kernel_infos_t option \<Rightarrow> descriptor list" where
  "merged_sources src s (Some n) None = os_insert src s"
| "merged_sources src s None (Some k) = os_erase src s"
| "merged_sources src s n k = s"

definition kernels_ok :: "kernel_list_t \<Rightarrow> bool" where
  "kernels_ok ks \<longleftrightarrow> om_ok ks \<and> (\<forall>(u, k)\<in>set ks. kernel_uuid k = u \<and> om_ok (FCustomerInfo k))"

text \<open>The connections of a kernel are a set, and never an empty one.\<close>

definition sources_ok :: "uuid_from_t \<Rightarrow> bool" where
  "sources_ok m \<longleftrightarrow> om_ok m \<and> (\<forall>(u, s)\<in>set m. os_ok s \<and> s \<noteq> [])"

lemma kernels_ok_get:
  assumes "kernels_ok ks" "om_get ks u = Some k"
  shows "kernel_uuid k = u" "om_ok (FCustomerInfo k)"
  using assms by (auto simp: kernels_ok_def dest!: map_of_SomeD)

lemma kernels_okI:
  assumes "om_ok ks" "\<And>u k. om_get ks u = Some k \<Longrightarrow> kernel_uuid k = u \<and> om_ok (FCustomerInfo k)"
  shows "kernels_ok ks"
  using assms by (auto simp: kernels_ok_def om_get_mem)

lemma sources_ok_iff:
  "sources_ok m \<longleftrightarrow> om_ok m \<and> (\<forall>u s. om_get m u = Some s \<longrightarrow> os_ok s \<and> s \<noteq> [])"
  by (auto simp: sources_ok_def om_get_mem) (auto dest!: map_of_SomeD)

lemma sources_ok_of: "sources_ok m \<Longrightarrow> os_ok (sources_of m u)"
  by (auto simp: sources_ok_iff sources_of_def split: option.splits)

lemma sources_of_has: "sources_ok m \<Longrightarrow> om_has u m \<longleftrightarrow> sources_of m u \<noteq> []"
  by (auto simp: sources_ok_iff sources_of_def om_has_def split: option.splits)

lemma only_source: "os_ok s \<Longrightarrow> x \<in> set s \<and> os_erase x s = [] \<longleftrightarrow> s = [x]"
proof
  assume "os_ok s" "x \<in> set s \<and> os_erase x s = []"
  then have "set s = {x}" using set_os_erase [of x s] by auto
  with \<open>os_ok s\<close> show "s = [x]" by (auto simp: os_ok_def intro: sorted_distinct_set_unique)
qed (simp add: os_erase_def)

lemma os_insert_not_Nil [simp]: "os_insert x s \<noteq> []"
  by (metis empty_iff insertI1 list.set(1) set_os_insert)

lemma os_erase_only: "os_ok s \<Longrightarrow> s \<noteq> [] \<Longrightarrow> s \<noteq> [x] \<Longrightarrow> os_erase x s \<noteq> []"
proof
  assume s: "os_ok s" "s \<noteq> []" "s \<noteq> [x]" "os_erase x s = []"
  then have "x \<in> set s" by (cases s) (auto simp: os_erase_def split: if_splits)
  with s only_source [of s x] show False by simp
qed

text \<open>The three steps, as look-ups.\<close>

lemma merge_put_get:
  fixes src :: descriptor
  assumes "kernel_uuid k = u" "\<not> om_has u (new_net m)" "sources_ok (merge_from m)"
  defines "m' \<equiv> merge_put k src m"
  shows "om_get (new_net m') x = (if x = u then Some k else om_get (new_net m) x)"
    and "sources_of (merge_from m') x = (if x = u then os_insert src (sources_of (merge_from m) u) else sources_of (merge_from m) x)"
    and "sources_ok (merge_from m')" "om_ok (new_net m) \<Longrightarrow> om_ok (new_net m')"
    and "was_added m' \<noteq> []" "was_removed m' = was_removed m"
  using assms sources_ok_of [OF assms(3)]
  by (auto simp: merge_put_def MPutKernel_def Let_def om_simps sources_of_def sources_ok_iff om_intros
      split: option.splits if_splits)

lemma merge_pop_get:
  assumes "kernel_uuid k = u" "\<not> om_has u (new_net m)" "sources_ok (merge_from m)" "om_has u (merge_from m)"
  defines "s \<equiv> sources_of (merge_from m) u"
  shows "\<exists>m'. merge_pop k src m = Some m'
    \<and> (\<forall>x. om_get (new_net m') x = (if x = u then (if s = [src] then None else Some k) else om_get (new_net m) x))
    \<and> (\<forall>x. sources_of (merge_from m') x = (if x = u then os_erase src s else sources_of (merge_from m) x))
    \<and> sources_ok (merge_from m') \<and> (om_ok (new_net m) \<longrightarrow> om_ok (new_net m'))
    \<and> was_added m' = was_added m \<and> (was_removed m' = [] \<longleftrightarrow> was_removed m = [] \<and> s \<noteq> [src])"
proof -
  obtain t where t: "om_get (merge_from m) u = Some t" using assms(4) by (auto simp: om_has_def)
  then have s: "s = t" "os_ok t" "t \<noteq> []" using assms(3) by (auto simp: s_def sources_of_def sources_ok_iff)
  show ?thesis
  proof (cases "t = [src]")
    case True
    then have "src \<in> set t \<and> os_erase src t = []" using only_source [OF s(2)] by blast
    then show ?thesis using assms(1-3) t s True
      by (auto simp: merge_pop_def MPopKernel_def Let_def om_simps sources_of_def sources_ok_iff om_intros om_has_def)
  next
    case False
    then have "\<not> (src \<in> set t \<and> os_erase src t = [])" using only_source [OF s(2)] by blast
    then show ?thesis using assms(1-3) t s False os_erase_only [OF s(2,3) False]
      by (auto simp: merge_pop_def MPopKernel_def Let_def om_simps sources_of_def sources_ok_iff om_intros)
  qed
qed

lemma merge_both_get:
  assumes "kernel_uuid n = u" "kernel_uuid k = u" "\<not> om_has u (new_net m)"
  defines "m' \<equiv> merge_both n k m"
  shows "om_get (new_net m') x = (if x = u then Some (if FIndexNumber n > FIndexNumber k then n else k) else om_get (new_net m) x)"
    and "merge_from m' = merge_from m" "om_ok (new_net m) \<Longrightarrow> om_ok (new_net m')"
    and "was_added m' = [] \<Longrightarrow> was_added m = []" "was_removed m' = [] \<Longrightarrow> was_removed m = []"
  using assms by (auto simp: merge_both_def MGetCustomerDiff_def Let_def om_simps om_intros split: if_splits prod.splits)

text \<open>The whole merge: every kernel of either network as the specification says.\<close>

definition merge_ready :: "kernel_list_t \<Rightarrow> kernel_list_t \<Rightarrow> merge_run \<Rightarrow> bool" where
  "merge_ready ns ks m \<longleftrightarrow> kernels_ok ns \<and> kernels_ok ks \<and> sources_ok (merge_from m) \<and> om_ok (new_net m)
     \<and> (\<forall>u. om_has u ks \<longrightarrow> om_has u (merge_from m))
     \<and> (\<forall>u. om_has u ns \<or> om_has u ks \<longrightarrow> \<not> om_has u (new_net m))"

definition merge_result :: "descriptor \<Rightarrow> kernel_list_t \<Rightarrow> kernel_list_t \<Rightarrow> merge_run \<Rightarrow> merge_run \<Rightarrow> bool" where
  "merge_result src ns ks m m' \<longleftrightarrow> sources_ok (merge_from m') \<and> om_ok (new_net m')
     \<and> (\<forall>u. om_get (new_net m') u = (if om_has u ns \<or> om_has u ks
          then merged_kernel src (sources_of (merge_from m) u) (om_get ns u) (om_get ks u) else om_get (new_net m) u))
     \<and> (\<forall>u. sources_of (merge_from m') u = merged_sources src (sources_of (merge_from m) u) (om_get ns u) (om_get ks u))
     \<and> (was_added m' = [] \<longrightarrow> was_added m = [] \<and> (\<forall>u. om_has u ns \<longrightarrow> om_has u ks))
     \<and> (was_removed m' = [] \<longrightarrow> was_removed m = []
          \<and> (\<forall>u. om_has u ks \<longrightarrow> \<not> om_has u ns \<longrightarrow> sources_of (merge_from m) u \<noteq> [src]))"

lemma kernels_ok_Cons:
  assumes "kernels_ok (e # ks)"
  shows "kernels_ok ks" "kernel_uuid (snd e) = fst e" "om_get ks (fst e) = None" "\<And>u. om_has u ks \<Longrightarrow> fst e < u"
proof -
  show "kernels_ok ks" "kernel_uuid (snd e) = fst e" using assms by (auto simp: kernels_ok_def om_ok_Cons)
  show less: "\<And>u. om_has u ks \<Longrightarrow> fst e < u" using assms by (auto simp: kernels_ok_def om_ok_Cons om_has_iff)
  show "om_get ks (fst e) = None" using less [of "fst e"] by (cases "om_get ks (fst e)") (auto simp: om_has_def)
qed

lemma om_get_Cons: "om_get (e # m) u = (if u = fst e then Some (snd e) else om_get m u)"
  by (cases e) auto

lemma om_has_Cons: "om_has u (e # m) \<longleftrightarrow> u = fst e \<or> om_has u m"
  by (simp add: om_has_def om_get_Cons)

lemma om_has_Nil [simp]: "\<not> om_has u []"
  by (simp add: om_has_def)

lemma merge_put_has:
  assumes "kernel_uuid k = u"
  shows "om_has x (merge_from (merge_put k src m)) \<longleftrightarrow> x = u \<or> om_has x (merge_from m)"
    and "om_has x (new_net (merge_put k src m)) \<longleftrightarrow> x = u \<or> om_has x (new_net m)"
  using assms by (simp_all add: merge_put_def MPutKernel_def Let_def om_simps)

lemma merge_step_put:
  assumes ready: "merge_ready (n # ns) ks m" and first: "\<And>u. om_has u ks \<Longrightarrow> fst n < u"
    and rest: "merge_ready ns ks (merge_put (snd n) src m)
      \<Longrightarrow> \<exists>m'. merge_nets src ns ks (merge_put (snd n) src m) = Some m' \<and> merge_result src ns ks (merge_put (snd n) src m) m'"
  shows "\<exists>m'. merge_nets src ns ks (merge_put (snd n) src m) = Some m' \<and> merge_result src (n # ns) ks m m'"
proof -
  let ?m = "merge_put (snd n) src m"
  have ok: "kernels_ok (n # ns)" "sources_ok (merge_from m)" "\<not> om_has (fst n) (new_net m)"
    using ready by (auto simp: merge_ready_def om_has_Cons)
  note n = kernels_ok_Cons [OF ok(1)]
  note put = merge_put_get [OF n(2) ok(3,2), where src = src]
  have key: "\<not> om_has (fst n) ns" "\<not> om_has (fst n) ks" using n(4) first by blast+
  then have none: "om_get ks (fst n) = None" by (simp add: om_has_def)
  have "merge_ready ns ks ?m"
    unfolding merge_ready_def merge_put_has [OF n(2)]
    using ready n(1) put(3,4) key by (auto simp: merge_ready_def om_has_Cons)
  then obtain m' where res: "merge_nets src ns ks ?m = Some m'" "merge_result src ns ks ?m m'" using rest by blast
  have "merge_result src (n # ns) ks m m'"
    using res(2) n put key none unfolding merge_result_def by (simp add: om_get_Cons om_has_Cons) metis
  with res(1) show ?thesis by blast
qed

lemma merge_step_pop:
  assumes ready: "merge_ready ns (k # ks) m" and first: "\<And>u. om_has u ns \<Longrightarrow> fst k < u"
    and rest: "\<And>m1. merge_pop (snd k) src m = Some m1 \<Longrightarrow> merge_ready ns ks m1
      \<Longrightarrow> \<exists>m'. merge_nets src ns ks m1 = Some m' \<and> merge_result src ns ks m1 m'"
  shows "\<exists>m'. merge_pop (snd k) src m \<bind> merge_nets src ns ks = Some m' \<and> merge_result src ns (k # ks) m m'"
proof -
  have ok: "kernels_ok (k # ks)" "sources_ok (merge_from m)" "\<not> om_has (fst k) (new_net m)" "om_has (fst k) (merge_from m)"
    using ready by (auto simp: merge_ready_def om_has_Cons)
  note k = kernels_ok_Cons [OF ok(1)]
  obtain m1 where m1: "merge_pop (snd k) src m = Some m1"
    "\<And>x. om_get (new_net m1) x = (if x = fst k then (if sources_of (merge_from m) (fst k) = [src] then None else Some (snd k))
       else om_get (new_net m) x)"
    "\<And>x. sources_of (merge_from m1) x = (if x = fst k then os_erase src (sources_of (merge_from m) (fst k)) else sources_of (merge_from m) x)"
    "sources_ok (merge_from m1)" "om_ok (new_net m) \<longrightarrow> om_ok (new_net m1)" "was_added m1 = was_added m"
    "was_removed m1 = [] \<longleftrightarrow> was_removed m = [] \<and> sources_of (merge_from m) (fst k) \<noteq> [src]"
    using merge_pop_get [OF k(2) ok(3,2,4)] by blast
  have key: "\<not> om_has (fst k) ks" "\<not> om_has (fst k) ns" using k(4) first by blast+
  then have none: "om_get ns (fst k) = None" by (simp add: om_has_def)
  have has: "om_has x (merge_from m1) \<longleftrightarrow> om_has x (merge_from m)" "om_has x (new_net m1) \<longleftrightarrow> om_has x (new_net m)"
    if "x \<noteq> fst k" for x
    using that m1(2,3) sources_of_has [OF ok(2)] sources_of_has [OF m1(4)] by (simp_all add: om_has_def)
  have "merge_ready ns ks m1"
    using ready k(1) m1(4,5) key has unfolding merge_ready_def om_has_Cons by metis
  then obtain m' where "merge_nets src ns ks m1 = Some m'" "merge_result src ns ks m1 m'"
    using rest [OF m1(1)] by blast
  then show ?thesis
    using m1 k key none unfolding merge_result_def by (simp add: om_get_Cons om_has_Cons) metis
qed

lemma merge_step_both:
  assumes ready: "merge_ready (n # ns) (k # ks) m" and same: "fst n = fst k"
    and rest: "merge_ready ns ks (merge_both (snd n) (snd k) m)
      \<Longrightarrow> \<exists>m'. merge_nets src ns ks (merge_both (snd n) (snd k) m) = Some m'
        \<and> merge_result src ns ks (merge_both (snd n) (snd k) m) m'"
  shows "\<exists>m'. merge_nets src ns ks (merge_both (snd n) (snd k) m) = Some m' \<and> merge_result src (n # ns) (k # ks) m m'"
proof -
  let ?m = "merge_both (snd n) (snd k) m"
  have ok: "kernels_ok (n # ns)" "kernels_ok (k # ks)" "\<not> om_has (fst n) (new_net m)"
    using ready by (auto simp: merge_ready_def om_has_Cons)
  note n = kernels_ok_Cons [OF ok(1)] and k = kernels_ok_Cons [OF ok(2), folded same]
  note both = merge_both_get [OF n(2) k(2) ok(3)]
  have key: "\<not> om_has (fst n) ns" "\<not> om_has (fst n) ks" using n(4) k(4) by blast+
  have "om_has x (new_net ?m) \<longleftrightarrow> x = fst n \<or> om_has x (new_net m)" for x
    using both(1) by (simp add: om_has_def)
  then have "merge_ready ns ks ?m"
    unfolding merge_ready_def both(2) using ready n(1) k(1) both(3) key
    by (auto simp: merge_ready_def om_has_Cons)
  then obtain m' where res: "merge_nets src ns ks ?m = Some m'" "merge_result src ns ks ?m m'" using rest by blast
  have "merge_result src (n # ns) (k # ks) m m'"
    using res(2) n k both key same unfolding merge_result_def by (simp add: om_get_Cons om_has_Cons)
  with res(1) show ?thesis by blast
qed

lemma merge_nets_result:
  "merge_ready ns ks m \<Longrightarrow> \<exists>m'. merge_nets src ns ks m = Some m' \<and> merge_result src ns ks m m'"
proof (induction src ns ks m rule: merge_nets.induct)
  case (1 src m)
  then show ?case by (simp add: merge_ready_def merge_result_def)
next
  case (2 src n ns m)
  show ?case using merge_step_put [OF 2(2) _ 2(1)] by simp
next
  case (3 src k ks m)
  show ?case using merge_step_pop [OF 3(2) _ 3(1)] by simp
next
  case (4 src n ns k ks m)
  have ok: "kernels_ok (n # ns)" "kernels_ok (k # ks)" using 4(4) by (simp_all add: merge_ready_def)
  note n = kernels_ok_Cons(4) [OF ok(1)] and k = kernels_ok_Cons(4) [OF ok(2)]
  consider "fst n < fst k" | "\<not> fst n < fst k" "fst k < fst n" | "\<not> fst n < fst k" "\<not> fst k < fst n" "fst n = fst k"
    by (metis less_linear)
  then show ?case
  proof cases
    case 1
    have "fst n < u" if "om_has u (k # ks)" for u using that k [of u] 1 by (auto simp: om_has_Cons intro: less_trans)
    then show ?thesis using merge_step_put [OF 4(4) _ 4(1) [OF 1]] 1 by simp
  next
    case 2
    have "fst k < u" if "om_has u (n # ns)" for u using that n [of u] 2 by (auto simp: om_has_Cons intro: less_trans)
    then show ?thesis using merge_step_pop [OF 4(4) _ 4(2) [OF 2]] 2 by simp
  next
    case 3
    then show ?thesis using merge_step_both [OF 4(4) 3(3) 4(3) [OF 3(1,2)]] by simp
  qed
qed

section \<open>The graph of the net\<close>

definition net_link :: "kernel_list_t \<Rightarrow> uuid \<Rightarrow> uuid \<Rightarrow> int option" where
  "net_link ks u v = om_get ks u \<bind> (\<lambda>k. map_option link_latency (om_get (FCustomerInfo k) v))"

lemma link_latency_bounds: "0 \<le> link_latency l" "link_latency l \<le> 65535"
  using unsigned_less [where 'a = int, of "FLatency l"] by (simp_all add: link_latency_def)

lemma links_of_get: "om_get (links_of k) v = map_option link_latency (om_get (FCustomerInfo k) v)"
  unfolding links_of_def by (rule om_get_map_values)

lemma links_of_allowed: "om_ok (FCustomerInfo k) \<Longrightarrow> graph_allowed g (AddNode u (links_of k))"
  using link_latency_bounds by (auto simp: links_of_def om_intros)

lemma add_node_step:
  assumes "graph_ok g" "latency16 g" "graph_allowed g (AddNode u es)"
  shows "\<exists>g'. MAddNode u es g = Some g' \<and> graph_ok g' \<and> latency16 g' \<and> om_has u (FVertices g')
    \<and> (\<forall>a v. edge g' a v = (if a = u \<and> edge g a v = None then om_get es v else edge g a v))
    \<and> (\<forall>a. om_has a (FVertices g) \<longrightarrow> om_has a (FVertices g'))"
proof -
  obtain g' where g': "MAddNode u es g = Some g'" "graph_ok g'" "latency16 g'"
    using graph_step_total [OF assms] by auto
  then show ?thesis
    using edge_MAddNode [OF g'(1)] vertices_MAddNode [OF g'(1)] by (auto split: option.splits)
qed

lemma add_kernel_nodes_ok:
  assumes "kernels_ok ks" "graph_ok g" "latency16 g" "\<forall>u. om_has u ks \<longrightarrow> (\<forall>v. edge g u v = None)"
  shows "\<exists>g'. add_kernel_nodes ks g = Some g' \<and> graph_ok g' \<and> latency16 g'
    \<and> (\<forall>u v. edge g' u v = (if om_has u ks then net_link ks u v else edge g u v))
    \<and> (\<forall>u. om_has u ks \<or> om_has u (FVertices g) \<longrightarrow> om_has u (FVertices g'))"
  using assms
proof (induction ks arbitrary: g)
  case Nil
  then show ?case by simp
next
  case (Cons e ks)
  note k = kernels_ok_Cons [OF Cons.prems(1)]
  have "om_ok (FCustomerInfo (snd e))" using Cons.prems(1) by (auto simp: kernels_ok_def)
  then obtain g1 where g1: "MAddNode (fst e) (links_of (snd e)) g = Some g1" "graph_ok g1" "latency16 g1"
    "om_has (fst e) (FVertices g1)" "\<forall>a. om_has a (FVertices g) \<longrightarrow> om_has a (FVertices g1)"
    and edges: "\<forall>a v. edge g1 a v = (if a = fst e \<and> edge g a v = None then om_get (links_of (snd e)) v else edge g a v)"
    using add_node_step [OF Cons.prems(2,3) links_of_allowed, of "snd e" "fst e"] by blast
  have other: "\<not> om_has (fst e) ks" using k(4) by blast
  have "\<forall>u. om_has u ks \<longrightarrow> (\<forall>v. edge g1 u v = None)"
    using Cons.prems(4) edges other by (auto simp: om_has_Cons)
  from Cons.IH [OF k(1) g1(2,3) this] obtain g' where g': "add_kernel_nodes ks g1 = Some g'" "graph_ok g'" "latency16 g'"
    "\<forall>u v. edge g' u v = (if om_has u ks then net_link ks u v else edge g1 u v)"
    "\<forall>u. om_has u ks \<or> om_has u (FVertices g1) \<longrightarrow> om_has u (FVertices g')" by blast
  have "add_kernel_nodes (e # ks) g = Some g'" using g1(1) g'(1) k(2) by (cases e) simp
  moreover have "edge g' u v = (if om_has u (e # ks) then net_link (e # ks) u v else edge g u v)" for u v
    using g'(4) edges other Cons.prems(4)
    by (auto simp: net_link_def om_get_Cons om_has_Cons links_of_get)
  ultimately show ?case using g' g1 by (auto simp: om_has_Cons)
qed

section \<open>Invariant\<close>

text \<open>
  The net and the sources have the same kernels, this kernel among them for good; the graph has
  exactly the links of the net; a kept destination has a way to it.
\<close>

definition net_ok :: "program_id_t \<Rightarrow> kernel_list_t \<Rightarrow> uuid_from_t \<Rightarrow> bool" where
  "net_ok my ks fm \<longleftrightarrow> kernels_ok ks \<and> sources_ok fm \<and> (\<forall>u. om_has u fm \<longleftrightarrow> om_has u ks)
     \<and> INVALID \<in> set (sources_of fm (FUuid (FId my)))"

definition info_ok :: "program_id_t \<Rightarrow> data_info_t \<Rightarrow> bool" where
  "info_ok my d \<longleftrightarrow>
     net_ok my (FKernels (FNet d)) (FKernelFrom d)
     \<and> graph_ok (FGraph d) \<and> latency16 (FGraph d)
     \<and> (\<forall>u v. edge (FGraph d) u v = net_link (FKernels (FNet d)) u v)
     \<and> (\<forall>t next. om_get (FDestianationCache d) t = Some next \<longrightarrow> next \<noteq> [] \<longrightarrow>
          t \<noteq> FUuid (FId my) \<and> reachable (FGraph d) (FUuid (FId my)) t)"

lemma info_okI:
  assumes "net_ok my (FKernels (FNet d)) (FKernelFrom d)" "graph_ok (FGraph d)" "latency16 (FGraph d)"
    "\<And>u v. edge (FGraph d) u v = net_link (FKernels (FNet d)) u v" "FDestianationCache d = []"
  shows "info_ok my d"
  using assms by (simp add: info_ok_def)

lemma my_kernel_there:
  assumes "net_ok my ks fm"
  obtains k where "om_get ks (FUuid (FId my)) = Some k"
proof -
  have "sources_of fm (FUuid (FId my)) \<noteq> []" using assms by (auto simp: net_ok_def)
  then have "om_has (FUuid (FId my)) ks" using assms sources_of_has [of fm] by (simp add: net_ok_def)
  then show thesis using that by (auto simp: om_has_def)
qed

lemma graph_ok_cache: "graph_ok g \<Longrightarrow> graph_ok (Route_Graph.MResetCache g)"
  by (simp add: graph_ok_def Route_Graph.MResetCache_def)

lemma cache_reset_simps [simp]:
  "edge (Route_Graph.MResetCache g) u v = edge g u v" "latency16 (Route_Graph.MResetCache g) = latency16 g"
  "FVertices (Route_Graph.MResetCache g) = FVertices g"
  by (simp_all add: edge_def latency16_def Route_Graph.MResetCache_def)

lemma data_reset_simps [simp]:
  "FNet (data_MResetCache d) = FNet d" "FKernelFrom (data_MResetCache d) = FKernelFrom d"
  "FGraph (data_MResetCache d) = Route_Graph.MResetCache (FGraph d)" "FDestianationCache (data_MResetCache d) = []"
  "FAllDescriptors (data_MResetCache d) = FAllDescriptors d"
  by (simp_all add: data_MResetCache_def)

lemma synchronize_state [simp]: "snd (synchronize_if_valid s f d) = d"
  by (simp add: synchronize_if_valid_def)

lemma info_init_ok: "info_ok my (MInit my)"
  by (rule info_okI)
    (auto simp: net_ok_def MInit_def MPutKernel_def Let_def kernels_ok_def sources_ok_def kernel_infos_of_def kernel_uuid_def
      om_insert_def om_has_def sources_of_def empty_graph_def graph_ok_def vertices_ok_def latency16_def
      edge_def net_link_def om_ok_def os_ok_insert)

lemma rebuild_ok:
  assumes "kernels_ok (FKernels (FNet d))"
  shows "\<exists>g. MRebuildGraph d = Some (d\<lparr>FGraph := g\<rparr>) \<and> graph_ok g \<and> latency16 g
    \<and> (\<forall>u v. edge g u v = net_link (FKernels (FNet d)) u v) \<and> (\<forall>u. om_has u (FKernels (FNet d)) \<longrightarrow> om_has u (FVertices g))"
proof -
  have "graph_ok (MReset (FGraph d))" "latency16 (MReset (FGraph d))" "\<And>u v. edge (MReset (FGraph d)) u v = None"
    by (simp_all add: MReset_def Route_Graph.MResetCache_def graph_ok_def vertices_ok_def latency16_def edge_def)
  then obtain g where "add_kernel_nodes (FKernels (FNet d)) (MReset (FGraph d)) = Some g" "graph_ok g" "latency16 g"
    "\<forall>u v. edge g u v = (if om_has u (FKernels (FNet d)) then net_link (FKernels (FNet d)) u v else None)"
    "\<forall>u. om_has u (FKernels (FNet d)) \<longrightarrow> om_has u (FVertices g)"
    using add_kernel_nodes_ok [OF assms] by fastforce
  then show ?thesis by (auto simp: MRebuildGraph_def net_link_def om_has_def)
qed

section \<open>Operations keep the invariant\<close>

lemma my_links_changed:
  assumes ok: "net_ok my (FKernels n) fm" and f: "\<And>m. om_ok m \<Longrightarrow> om_ok (f m)"
    and k: "om_get (FKernels n) (FUuid (FId my)) = Some k"
  shows "\<exists>n'. change_my_links my f n = Some n' \<and> net_ok my (FKernels n') fm
    \<and> (\<forall>u v. net_link (FKernels n') u v =
         (if u = FUuid (FId my) then map_option link_latency (om_get (f (FCustomerInfo k)) v) else net_link (FKernels n) u v))"
proof -
  let ?k = "k\<lparr>FCustomerInfo := f (FCustomerInfo k), FIndexNumber := FIndexNumber k + 1\<rparr>"
  let ?ks = "om_set (FUuid (FId my)) ?k (FKernels n)"
  have ks: "kernels_ok (FKernels n)" using ok by (simp add: net_ok_def)
  then have "kernels_ok ?ks"
    using kernels_ok_get [OF ks] k f
    by (intro kernels_okI) (auto simp: om_simps kernel_uuid_def kernels_ok_def intro: om_ok_set split: if_splits)
  moreover have "om_has u ?ks \<longleftrightarrow> om_has u (FKernels n)" for u using k by (auto simp: om_simps om_has_def)
  ultimately have "net_ok my ?ks fm" using ok by (simp add: net_ok_def)
  then show ?thesis using k by (auto simp: change_my_links_def MWasChanged_def net_link_def om_simps)
qed

lemma add_kernel_ok:
  assumes ok: "net_ok my (FKernels (FNet d)) (FKernelFrom d)" and add: "MAddKernel i x d diff = (b, d', diff')"
  shows "net_ok my (FKernels (FNet d')) (FKernelFrom d') \<and> net_link (FKernels (FNet d')) = net_link (FKernels (FNet d))
    \<and> FGraph d' = FGraph d"
proof (cases "om_get (FKernelFrom d) (link_uuid i)")
  case None
  let ?k = "kernel_infos_of (FProgramm i)"
  have u: "kernel_uuid ?k = link_uuid i" by (simp add: kernel_uuid_def kernel_infos_of_def link_uuid_def)
  have new: "\<not> om_has (link_uuid i) (FKernels (FNet d))" using None ok unfolding net_ok_def om_has_def by blast
  have d': "FKernels (FNet d') = om_set (link_uuid i) ?k (FKernels (FNet d))"
    "FKernelFrom d' = om_set (link_uuid i) (os_insert x []) (FKernelFrom d)" "FGraph d' = FGraph d"
    using add None new u by (auto simp: MAddKernel_def MPutKernel_def Let_def sources_of_def om_insert_def)
  have ks: "kernels_ok (FKernels (FNet d))" using ok by (simp add: net_ok_def)
  have "kernels_ok (FKernels (FNet d'))"
    using kernels_ok_get [OF ks] ks u unfolding d'(1)
    by (intro kernels_okI) (auto simp: om_simps kernels_ok_def kernel_infos_of_def intro: om_ok_set split: if_splits)
  moreover have "sources_ok (FKernelFrom d')"
    using ok unfolding d'(2) by (auto simp: net_ok_def sources_ok_iff om_simps os_ok_insert om_intros split: if_splits)
  moreover have "net_link (FKernels (FNet d')) = net_link (FKernels (FNet d))"
    using new unfolding d'(1) by (auto simp: fun_eq_iff net_link_def om_simps kernel_infos_of_def om_has_def)
  moreover have "om_has w (FKernelFrom d') \<longleftrightarrow> om_has w (FKernels (FNet d'))" for w
    using ok unfolding d'(1,2) by (simp add: om_simps net_ok_def)
  moreover have "INVALID \<in> set (sources_of (FKernelFrom d') (FUuid (FId my)))"
  proof -
    have at: "INVALID \<in> set (sources_of (FKernelFrom d) (FUuid (FId my)))" using ok by (simp add: net_ok_def)
    then have "FUuid (FId my) \<noteq> link_uuid i" using None by (cases "FUuid (FId my) = link_uuid i") (simp_all add: sources_of_def)
    with at show ?thesis unfolding d'(2) by (simp add: sources_of_def om_simps)
  qed
  ultimately show ?thesis using d'(3) by (simp add: net_ok_def)
next
  case (Some s)
  then have d': "d' = d\<lparr>FKernelFrom := om_set (link_uuid i) (os_insert x s) (FKernelFrom d)\<rparr>"
    using add by (simp add: MAddKernel_def)
  have "sources_ok (FKernelFrom d')"
    using ok Some unfolding d' by (auto simp: net_ok_def sources_ok_iff om_simps os_ok_insert om_intros split: if_splits)
  moreover have "om_has w (FKernelFrom d') \<longleftrightarrow> om_has w (FKernels (FNet d'))" for w
    using ok Some unfolding d' by (auto simp: om_simps net_ok_def om_has_def)
  moreover have "INVALID \<in> set (sources_of (FKernelFrom d') (FUuid (FId my)))"
  proof -
    have "INVALID \<in> set (sources_of (FKernelFrom d) (FUuid (FId my)))" using ok by (simp add: net_ok_def)
    then show ?thesis using Some by (cases "FUuid (FId my) = link_uuid i") (simp_all add: d' sources_of_def om_simps)
  qed
  ultimately show ?thesis using ok by (simp add: net_ok_def d')
qed

lemma open_ok:
  assumes ok: "info_ok my d"
  shows "\<exists>ev d'. MHandleOpen my x i d = Some (ev, d') \<and> info_ok my d' \<and> om_has (FUuid (FId my)) (FVertices (FGraph d'))"
proof -
  let ?me = "FUuid (FId my)" and ?ins = "om_insert (link_uuid i) i"
  have net: "net_ok my (FKernels (FNet d)) (FKernelFrom d)" using ok by (simp add: info_ok_def)
  then obtain k where k: "om_get (FKernels (FNet d)) ?me = Some k" by (rule my_kernel_there)
  have ins: "\<And>m. om_ok m \<Longrightarrow> om_ok (?ins m)" by (rule om_ok_insert)
  obtain n where n: "change_my_links my ?ins (FNet d) = Some n" "net_ok my (FKernels n) (FKernelFrom d)"
    and link: "\<forall>u v. net_link (FKernels n) u v =
      (if u = ?me then map_option link_latency (om_get (?ins (FCustomerInfo k)) v) else net_link (FKernels (FNet d)) u v)"
    using my_links_changed [of my "FNet d" "FKernelFrom d" ?ins, OF net ins k] by blast
  let ?d1 = "d\<lparr>FNet := n, FAllDescriptors := FAllDescriptors d @ [x]\<rparr>"
  let ?diff = "no_diff\<lparr>FOpened := [my_link_diff my i]\<rparr>"
  define s where "s = (case FType (FProgramm i) of
      E_CONSUMER \<Rightarrow> (FAllDescriptors ?d1, ?d1, ?diff)
    | E_KERNEL \<Rightarrow> (let (is_new, d2, diff2) = MAddKernel i x ?d1 ?diff
        in (if is_new then [x] else FAllDescriptors d2, d2, diff2)))"
  obtain sent d2 diff2 where s2: "s = (sent, d2, diff2)" by (cases s)
  have d2: "net_ok my (FKernels (FNet d2)) (FKernelFrom d2)" "net_link (FKernels (FNet d2)) = net_link (FKernels n)"
    "FGraph d2 = FGraph d"
    using s2 n(2) add_kernel_ok [of my ?d1 i x ?diff]
    by (auto simp: s_def split: eProgramType.splits prod.splits)
  have "graph_allowed (FGraph d) (AddNode ?me [(link_uuid i, link_latency i)])"
    using link_latency_bounds by (simp add: om_ok_def)
  then obtain g where g: "MAddNode ?me [(link_uuid i, link_latency i)] (FGraph d) = Some g" "graph_ok g" "latency16 g"
    "om_has ?me (FVertices g)"
    and edges: "\<forall>a v. edge g a v = (if a = ?me \<and> edge (FGraph d) a v = None
       then om_get [(link_uuid i, link_latency i)] v else edge (FGraph d) a v)"
    using add_node_step [of "FGraph d"] ok unfolding info_ok_def by blast
  let ?d3 = "data_MResetCache (d2\<lparr>FGraph := g\<rparr>)"
  have "MHandleOpen my x i d = Some (synchronize_if_valid sent diff2 ?d3)"
    using n(1) s2 g(1) d2(3) by (simp add: MHandleOpen_def MPutConsumerToMyInfo_def s_def)
  moreover have "edge g u v = net_link (FKernels n) u v" for u v
    using ok edges link k by (auto simp: info_ok_def net_link_def om_simps om_has_def)
  then have "info_ok my ?d3" using d2 g by (intro info_okI) (simp_all add: graph_ok_cache)
  ultimately show ?thesis using g(4) by (simp add: synchronize_if_valid_def)
qed

lemma remove_from_kernels_ok:
  assumes "kernels_ok ks" "sources_ok (sources r)" "om_ok (kernels r)" "\<forall>u. om_has u ks \<longrightarrow> om_has u (sources r)"
  shows "\<exists>r'. remove_from_kernels x ks r = Some r' \<and> sources_ok (sources r') \<and> om_ok (kernels r')
    \<and> (\<forall>u. om_get (kernels r') u = (if om_has u ks \<and> sources_of (sources r) u = [x] then None else om_get (kernels r) u))
    \<and> (\<forall>u. sources_of (sources r') u = (if om_has u ks then os_erase x (sources_of (sources r) u) else sources_of (sources r) u))"
  using assms
proof (induction ks arbitrary: r)
  case Nil
  then show ?case by simp
next
  case (Cons e ks)
  note k = kernels_ok_Cons [OF Cons.prems(1)]
  have "om_has (fst e) (sources r)" using Cons.prems(4) by (simp add: om_has_Cons)
  then obtain s where s: "om_get (sources r) (fst e) = Some s" by (auto simp: om_has_def)
  then have sok: "os_ok s" "s \<noteq> []" "sources_of (sources r) (fst e) = s"
    using Cons.prems(2) by (auto simp: sources_ok_iff sources_of_def)
  define r1 where "r1 = (if s = [x]
      then r\<lparr>changed := changed r @ [(snd e, True)], sources := om_erase (fst e) (sources r), kernels := om_erase (fst e) (kernels r)\<rparr>
      else r\<lparr>sources := om_set (fst e) (os_erase x s) (sources r)\<rparr>)"
  have step: "remove_from_kernels x (e # ks) r = remove_from_kernels x ks r1"
    using s k(2) only_source [OF sok(1), of x] by (cases e) (simp add: r1_def Let_def)
  have src: "sources_of (sources r1) u = (if u = fst e then os_erase x s else sources_of (sources r) u)" for u
    by (simp add: r1_def sources_of_def om_simps os_erase_def)
  have ok1: "sources_ok (sources r1)" "om_ok (kernels r1)"
    using Cons.prems(2,3) sok os_erase_only [OF sok(1,2)]
    by (auto simp: r1_def sources_ok_iff om_simps om_intros split: if_splits)
  have other: "\<not> om_has (fst e) ks" using k(4) by blast
  have "\<forall>u. om_has u ks \<longrightarrow> om_has u (sources r1)"
    using Cons.prems(2,4) other src sources_of_has [OF ok1(1)] sources_of_has [OF Cons.prems(2)] by (auto simp: om_has_Cons)
  from Cons.IH [OF k(1) ok1 this] obtain r' where r': "remove_from_kernels x ks r1 = Some r'"
    "sources_ok (sources r')" "om_ok (kernels r')"
    "\<forall>u. om_get (kernels r') u = (if om_has u ks \<and> sources_of (sources r1) u = [x] then None else om_get (kernels r1) u)"
    "\<forall>u. sources_of (sources r') u = (if om_has u ks then os_erase x (sources_of (sources r1) u) else sources_of (sources r1) u)"
    by blast
  have "om_get (kernels r1) u = (if u = fst e \<and> s = [x] then None else om_get (kernels r) u)" for u
    by (simp add: r1_def om_simps)
  then show ?case using r' other sok(3) by (auto simp: step src om_has_Cons)
qed

lemma remove_kernel_ok:
  assumes ok: "net_ok my (FKernels (FNet d)) (FKernelFrom d)" and x: "x \<noteq> INVALID"
  shows "\<exists>d' diff'. MRemoveKernel x d diff = Some (d', diff') \<and> net_ok my (FKernels (FNet d')) (FKernelFrom d')
    \<and> FGraph d' = FGraph d"
proof -
  let ?ks = "FKernels (FNet d)"
  let ?r = "\<lparr>changed = FClosed diff, sources = FKernelFrom d, kernels = ?ks\<rparr>"
  have ks: "kernels_ok ?ks" "sources_ok (FKernelFrom d)" "\<And>u. om_has u (FKernelFrom d) \<longleftrightarrow> om_has u ?ks"
    using ok by (simp_all add: net_ok_def)
  obtain r where r: "remove_from_kernels x ?ks ?r = Some r" "sources_ok (sources r)" "om_ok (kernels r)"
    "\<And>u. om_get (kernels r) u = (if om_has u ?ks \<and> sources_of (FKernelFrom d) u = [x] then None else om_get ?ks u)"
    "\<And>u. sources_of (sources r) u = (if om_has u ?ks then os_erase x (sources_of (FKernelFrom d) u) else sources_of (FKernelFrom d) u)"
    using remove_from_kernels_ok [of ?ks ?r x] ks by (auto simp: kernels_ok_def)
  have "kernels_ok (kernels r)"
    using r(3,4) kernels_ok_get [OF ks(1)] by (intro kernels_okI) (auto split: if_splits)
  moreover have "om_has u (sources r) \<longleftrightarrow> om_has u (kernels r)" for u
  proof -
    have "sources_of (FKernelFrom d) u \<noteq> [] \<longleftrightarrow> om_has u ?ks" using sources_of_has [OF ks(2)] ks(3) by simp
    then have "sources_of (sources r) u \<noteq> [] \<longleftrightarrow> om_has u ?ks \<and> sources_of (FKernelFrom d) u \<noteq> [x]"
      using r(5) os_erase_only [OF sources_ok_of [OF ks(2)], of u x] by (auto simp: os_erase_def)
    then show ?thesis using r(4) sources_of_has [OF r(2)] by (auto simp: om_has_def)
  qed
  moreover have "INVALID \<in> set (sources_of (sources r) (FUuid (FId my)))"
    using ok x r(5) by (auto simp: net_ok_def)
  ultimately show ?thesis using r(1,2) by (auto simp: MRemoveKernel_def net_ok_def)
qed

text \<open>
  A customer that leaves is linked to this kernel only, and is no kernel.
\<close>

definition leaves_alone :: "program_id_t \<Rightarrow> kernel_link \<Rightarrow> data_info_t \<Rightarrow> bool" where
  "leaves_alone my i d \<longleftrightarrow> FType (FProgramm i) = E_CONSUMER \<longrightarrow>
     list_all (\<lambda>(u, k). u \<noteq> link_uuid i \<and> (u = FUuid (FId my) \<or> \<not> om_has (link_uuid i) (FCustomerInfo k)))
       (FKernels (FNet d))"

lemma close_ok:
  assumes ok: "info_ok my d" and x: "x \<noteq> INVALID" and alone: "leaves_alone my i d"
  shows "\<exists>ev d'. MHandleClose my x i d = Some (ev, d') \<and> info_ok my d'"
proof -
  let ?me = "FUuid (FId my)" and ?del = "om_erase (link_uuid i)"
  have net: "net_ok my (FKernels (FNet d)) (FKernelFrom d)" using ok by (simp add: info_ok_def)
  then obtain k where k: "om_get (FKernels (FNet d)) ?me = Some k" by (rule my_kernel_there)
  have del: "\<And>m. om_ok m \<Longrightarrow> om_ok (?del m)" by (rule om_ok_erase)
  obtain n where n: "change_my_links my ?del (FNet d) = Some n" "net_ok my (FKernels n) (FKernelFrom d)"
    and link: "\<forall>u v. net_link (FKernels n) u v =
      (if u = ?me then map_option link_latency (om_get (?del (FCustomerInfo k)) v) else net_link (FKernels (FNet d)) u v)"
    using my_links_changed [of my "FNet d" "FKernelFrom d" ?del, OF net del k] by blast
  let ?d1 = "d\<lparr>FNet := n, FAllDescriptors := filter (\<lambda>y. y \<noteq> x) (FAllDescriptors d)\<rparr>"
  let ?diff = "no_diff\<lparr>FClosed := [my_link_diff my i]\<rparr>"
  have "\<exists>d2 diff2. (case FType (FProgramm i) of
          E_CONSUMER \<Rightarrow> Some (?d1\<lparr>FGraph := snd (MRemoveNode (link_uuid i) (FGraph ?d1))\<rparr>, ?diff)
        | E_KERNEL \<Rightarrow> MRemoveKernel x ?d1 ?diff \<bind> (\<lambda>(d2, diff2). map_option (\<lambda>d3. (d3, diff2)) (MRebuildGraph d2)))
      = Some (d2, diff2) \<and> info_ok my (data_MResetCache d2)"
  proof (cases "FType (FProgramm i)")
    case E_KERNEL
    obtain d2 diff2 where d2: "MRemoveKernel x ?d1 ?diff = Some (d2, diff2)" "net_ok my (FKernels (FNet d2)) (FKernelFrom d2)"
      using remove_kernel_ok [of my ?d1 x ?diff] n(2) x by auto
    then obtain g where "MRebuildGraph d2 = Some (d2\<lparr>FGraph := g\<rparr>)" "graph_ok g" "latency16 g"
      "\<forall>u v. edge g u v = net_link (FKernels (FNet d2)) u v"
      using rebuild_ok [of d2] by (auto simp: net_ok_def)
    then show ?thesis using d2 E_KERNEL by (auto intro!: info_okI simp: graph_ok_cache)
  next
    case E_CONSUMER
    obtain es g where g: "MRemoveNode (link_uuid i) (FGraph d) = (es, g)" by fastforce
    have gok: "graph_ok (FGraph d)" "latency16 (FGraph d)" using ok by (simp_all add: info_ok_def)
    have g_ok: "graph_ok g" "latency16 g"
      using graph_step_total [OF gok, of "RemoveNode (link_uuid i)"] g by auto
    have none: "edge (FGraph d) u (link_uuid i) = None" if "\<not> om_has (link_uuid i) (FVertices (FGraph d))" for u
      using that edge_ok [of "FGraph d" u "link_uuid i"] gok(1)
      by (cases "edge (FGraph d) u (link_uuid i)") (auto simp: graph_ok_def)
    have apart: "link_uuid i \<noteq> u \<and> (u = ?me \<or> om_get (FCustomerInfo k') (link_uuid i) = None)"
      if "om_get (FKernels (FNet d)) u = Some k'" for u k'
      using map_of_SomeD [OF that] alone E_CONSUMER by (auto simp: leaves_alone_def list_all_iff om_has_def)
    have "edge g u v = net_link (FKernels n) u v" for u v
    proof -
      have old: "edge (FGraph d) u v = net_link (FKernels (FNet d)) u v" using ok by (simp add: info_ok_def)
      have "edge g u v = (if u = link_uuid i \<or> v = link_uuid i then None else edge (FGraph d) u v)"
        using none [of u] by (auto simp: edge_MRemoveNode [OF g])
      then show ?thesis
        using apart [of u] k link old by (cases "om_get (FKernels (FNet d)) u") (auto simp: net_link_def om_simps)
    qed
    then show ?thesis using E_CONSUMER g g_ok n(2) by (auto intro!: info_okI simp: graph_ok_cache)
  qed
  then obtain d2 diff2 where "MHandleClose my x i d =
      Some (synchronize_if_valid (FAllDescriptors ?d1) diff2 (data_MResetCache d2))" "info_ok my (data_MResetCache d2)"
    using n(1) by (auto simp: MHandleClose_def MPopConsumerFromMyInfo_def)
  then show ?thesis by (simp add: synchronize_if_valid_def)
qed

text \<open>The result of a merge is a net with its sources again.\<close>

lemma merge_net_ok:
  assumes ok: "net_ok my ks fm" and n: "kernels_ok ns" and x: "x \<noteq> INVALID"
  shows "\<exists>m. merge_nets x ns ks \<lparr>was_removed = [], was_added = [], merge_from = fm, new_net = []\<rparr> = Some m
    \<and> net_ok my (new_net m) (merge_from m)
    \<and> (was_removed m = [] \<and> was_added m = [] \<longrightarrow> net_ok my ks (merge_from m))
    \<and> merge_result x ns ks \<lparr>was_removed = [], was_added = [], merge_from = fm, new_net = []\<rparr> m"
proof -
  let ?m = "\<lparr>was_removed = [], was_added = [], merge_from = fm, new_net = []\<rparr> :: merge_run"
  have ks: "kernels_ok ks" "sources_ok fm" "\<And>u. om_has u fm \<longleftrightarrow> om_has u ks" using ok by (simp_all add: net_ok_def)
  then have "merge_ready ns ks ?m" using n by (simp add: merge_ready_def)
  then obtain m where m: "merge_nets x ns ks ?m = Some m" "merge_result x ns ks ?m m"
    using merge_nets_result by blast
  have get: "om_get (new_net m) u = merged_kernel x (sources_of fm u) (om_get ns u) (om_get ks u)"
    and src: "sources_of (merge_from m) u = merged_sources x (sources_of fm u) (om_get ns u) (om_get ks u)" for u
    using m(2) by (auto simp: merge_result_def om_has_def)
  have m_ok: "sources_ok (merge_from m)" "om_ok (new_net m)" using m(2) by (simp_all add: merge_result_def)
  have known: "sources_of fm u \<noteq> [] \<longleftrightarrow> om_has u ks" for u using sources_of_has [OF ks(2)] ks(3) by simp
  have "kernels_ok (new_net m)"
  proof (rule kernels_okI [OF m_ok(2)])
    fix u k assume "om_get (new_net m) u = Some k"
    then have "om_get ns u = Some k \<or> om_get ks u = Some k"
      unfolding get by (cases "om_get ns u"; cases "om_get ks u") (auto split: if_splits)
    then show "kernel_uuid k = u \<and> om_ok (FCustomerInfo k)"
      using kernels_ok_get [OF n] kernels_ok_get [OF ks(1)] by blast
  qed
  moreover have keys: "sources_of (merge_from m) u \<noteq> [] \<longleftrightarrow> om_has u (new_net m)" for u
    unfolding src om_has_def get
    using known [of u] os_erase_only [OF sources_ok_of [OF ks(2)], of u x]
    by (cases "om_get ns u"; cases "om_get ks u") (auto simp: om_has_def os_erase_def)
  moreover have inv: "INVALID \<in> set (sources_of (merge_from m) (FUuid (FId my)))"
  proof -
    have "INVALID \<in> set (sources_of fm (FUuid (FId my)))" using ok by (simp add: net_ok_def)
    then show ?thesis unfolding src using x
      by (cases "om_get ns (FUuid (FId my))"; cases "om_get ks (FUuid (FId my))") auto
  qed
  ultimately have "net_ok my (new_net m) (merge_from m)" using m_ok by (simp add: net_ok_def sources_of_has)
  moreover have "net_ok my ks (merge_from m)" if same: "was_removed m = []" "was_added m = []"
  proof -
    have kept: "\<And>u. om_has u ns \<Longrightarrow> om_has u ks" "\<And>u. om_has u ks \<Longrightarrow> \<not> om_has u ns \<Longrightarrow> sources_of fm u \<noteq> [x]"
      using m(2) same by (simp_all add: merge_result_def)
    have "sources_of (merge_from m) u \<noteq> [] \<longleftrightarrow> om_has u ks" for u
      unfolding src using kept [of u] known [of u] os_erase_only [OF sources_ok_of [OF ks(2)], of u x]
      by (cases "om_get ns u"; cases "om_get ks u") (simp_all add: om_has_def)
    then show ?thesis using ks(1) m_ok(1) inv by (simp add: net_ok_def sources_of_has)
  qed
  ultimately show ?thesis using m by blast
qed

lemma handle_ok:
  assumes ok: "info_ok my d" and x: "x \<noteq> INVALID" and n: "kernels_ok (FKernels net)"
  shows "\<exists>ev d'. MHandle net x d = Some (ev, d') \<and> info_ok my d'"
proof -
  have net: "net_ok my (FKernels (FNet d)) (FKernelFrom d)" using ok by (simp add: info_ok_def)
  obtain m where m: "merge_nets x (FKernels net) (FKernels (FNet d))
      \<lparr>was_removed = [], was_added = [], merge_from = FKernelFrom d, new_net = []\<rparr> = Some m"
    "net_ok my (new_net m) (merge_from m)"
    "was_removed m = [] \<and> was_added m = [] \<longrightarrow> net_ok my (FKernels (FNet d)) (merge_from m)"
    using merge_net_ok [OF net n x] by blast
  let ?diff = "\<lparr>FOpened = was_added m, FClosed = was_removed m\<rparr>"
  show ?thesis
  proof (cases "was_removed m \<noteq> [] \<or> was_added m \<noteq> []")
    case True
    let ?d1 = "data_MResetCache (d\<lparr>FKernelFrom := merge_from m, FNet := MWasChanged ((FNet d)\<lparr>FKernels := new_net m\<rparr>)\<rparr>)"
    have "kernels_ok (FKernels (FNet ?d1))" using m(2) by (simp add: MWasChanged_def net_ok_def)
    then obtain g where g: "MRebuildGraph ?d1 = Some (?d1\<lparr>FGraph := g\<rparr>)" "graph_ok g" "latency16 g"
      "\<forall>u v. edge g u v = net_link (FKernels (FNet ?d1)) u v" using rebuild_ok by blast
    have "info_ok my (?d1\<lparr>FGraph := g\<rparr>)" using m(2) g by (intro info_okI) (simp_all add: MWasChanged_def)
    moreover have "\<exists>ev. MHandle net x d = Some (ev, ?d1\<lparr>FGraph := g\<rparr>)"
      using m(1) True g(1)
      by (auto simp: MHandle_def MSynchronizeNetInfo_def no_diff_def synchronize_if_valid_def Let_def)
    ultimately show ?thesis by blast
  next
    case False
    have "info_ok my (d\<lparr>FKernelFrom := merge_from m\<rparr>)" using ok m(3) False by (simp add: info_ok_def)
    moreover have "\<exists>ev. MHandle net x d = Some (ev, d\<lparr>FKernelFrom := merge_from m\<rparr>)"
      using m(1) False by (auto simp: MHandle_def MSynchronizeNetInfo_def no_diff_def synchronize_if_valid_def)
    ultimately show ?thesis by blast
  qed
qed

section \<open>The next connection on the way\<close>

text \<open>What a client of a provider of ways makes of its answer: the connection of the first hop.\<close>

definition connection_of_hop :: "(uuid \<Rightarrow> descriptor option) \<Rightarrow> uuid list \<Rightarrow> descriptor list option" where
  "connection_of_hop look_up p =
     (if p = [] then Some [] else look_up (hd p) \<bind> (\<lambda>v. Some (if v \<noteq> INVALID then [v] else [])))"

context path_provider
begin

lemma next_connection:
  assumes "ready a g" "\<And>u. \<exists>v. look_up u = Some v"
  shows "\<exists>p g' nx. path a b g = Some (p, g') \<and> connection_of_hop look_up p = Some nx \<and> ready a g'
    \<and> can_reach g' = can_reach g \<and> neighbour g' = neighbour g
    \<and> (if a \<noteq> b \<and> can_reach g a b
       then \<exists>v x. neighbour g a v \<and> can_reach g v b \<and> look_up v = Some x \<and> nx = (if x \<noteq> INVALID then [x] else [])
       else nx = [])"
proof -
  obtain p g' where p: "path a b g = Some (p, g')" "ready a g'" "can_reach g' = can_reach g" "neighbour g' = neighbour g"
    "p \<noteq> [] \<longleftrightarrow> a \<noteq> b \<and> can_reach g a b" "p \<noteq> [] \<Longrightarrow> neighbour g a (hd p) \<and> can_reach g (hd p) b"
    using first_hop [OF assms(1)] by metis
  obtain x where x: "look_up (hd p) = Some x" using assms(2) by blast
  then show ?thesis using p by (cases "p = []") (auto simp: connection_of_hop_def)
qed

end

fun net_walk :: "kernel_list_t \<Rightarrow> uuid \<Rightarrow> uuid list \<Rightarrow> bool" where
  "net_walk ks u [] = True"
| "net_walk ks u (v # vs) = (net_link ks u v \<noteq> None \<and> net_walk ks v vs)"

definition net_reaches :: "kernel_list_t \<Rightarrow> uuid \<Rightarrow> uuid \<Rightarrow> bool" where
  "net_reaches ks a b \<longleftrightarrow> (\<exists>p. net_walk ks a p \<and> last (a # p) = b)"

lemma reachable_net:
  assumes "info_ok my d"
  shows "reachable (FGraph d) = net_reaches (FKernels (FNet d))"
proof -
  have "is_walk (FGraph d) u p = net_walk (FKernels (FNet d)) u p" for u p
    using assms by (induction p arbitrary: u) (simp_all add: info_ok_def)
  then show ?thesis by (simp add: fun_eq_iff reachable_def net_reaches_def)
qed

lemma next_destinations_miss:
  "om_get (FDestianationCache d) t = None \<Longrightarrow> MNextDestinations my ds t d =
     MShortestPath (FUuid (FId my)) t (FGraph d) \<bind> (\<lambda>(p, g).
       connection_of_hop (\<lambda>u. MGet_uuid u ds) p \<bind> (\<lambda>nx.
         Some (nx, d\<lparr>FGraph := g, FDestianationCache := om_set t nx (FDestianationCache d)\<rparr>)))"
  by (simp add: MNextDestinations_def connection_of_hop_def)

lemma next_ok:
  assumes ok: "info_ok my d" and v: "search_ready (FUuid (FId my)) (FGraph d)" and ds: "descriptors_ok ds"
    and miss: "om_get (FDestianationCache d) t = None"
  defines "ks \<equiv> FKernels (FNet d)" and "me \<equiv> FUuid (FId my)"
  shows "\<exists>nx d'. MNextDestinations my ds t d = Some (nx, d') \<and> info_ok my d'
    \<and> FNet d' = FNet d \<and> om_get (FDestianationCache d') t = Some nx
    \<and> (if t \<noteq> me \<and> net_reaches ks me t
       then \<exists>v. net_link ks me v \<noteq> None \<and> net_reaches ks v t
          \<and> nx = (case om_get (FByUUIDs ds) v of Some x \<Rightarrow> if x \<noteq> INVALID then [x] else [] | None \<Rightarrow> [])
       else nx = [])"
proof -
  have total: "\<And>u. \<exists>x. MGet_uuid u ds = Some x" using MGet_uuid_ok [OF ds] by blast
  obtain p g nx where p: "MShortestPath me t (FGraph d) = Some (p, g)"
    "connection_of_hop (\<lambda>u. MGet_uuid u ds) p = Some nx" "search_ready me g"
    "reachable g = reachable (FGraph d)" "(\<lambda>u v. edge g u v \<noteq> None) = (\<lambda>u v. edge (FGraph d) u v \<noteq> None)"
    and hop: "if me \<noteq> t \<and> reachable (FGraph d) me t
      then \<exists>v x. edge (FGraph d) me v \<noteq> None \<and> reachable (FGraph d) v t \<and> MGet_uuid v ds = Some x
        \<and> nx = (if x \<noteq> INVALID then [x] else []) else nx = []"
    using rp.next_connection [of me "FGraph d" "\<lambda>u. MGet_uuid u ds" t, OF v [folded me_def] total] by blast
  have vertices: "FVertices g = FVertices (FGraph d)"
    using search_step [OF v [folded me_def], of t] p(1) by (metis option.inject prod.inject)
  let ?d = "d\<lparr>FGraph := g, FDestianationCache := om_set t nx (FDestianationCache d)\<rparr>"
  have "info_ok my ?d"
    using ok p(3) hop same_vertices [OF vertices]
    by (auto simp: info_ok_def search_ready_def om_simps me_def split: if_splits)
  moreover have "MNextDestinations my ds t d = Some (nx, ?d)"
    using p(1,2) by (simp add: next_destinations_miss [OF miss] me_def)
  moreover have "if t \<noteq> me \<and> net_reaches ks me t
       then \<exists>v. net_link ks me v \<noteq> None \<and> net_reaches ks v t
          \<and> nx = (case om_get (FByUUIDs ds) v of Some x \<Rightarrow> if x \<noteq> INVALID then [x] else [] | None \<Rightarrow> [])
       else nx = []"
  proof (cases "t \<noteq> me \<and> net_reaches ks me t")
    case True
    then have way: "me \<noteq> t \<and> reachable (FGraph d) me t" using reachable_net [OF ok] by (auto simp: ks_def)
    obtain v x where h: "edge (FGraph d) me v \<noteq> None" "reachable (FGraph d) v t" "MGet_uuid v ds = Some x"
      "nx = (if x \<noteq> INVALID then [x] else [])"
      using hop [unfolded if_P [OF way]] by blast
    moreover have "edge (FGraph d) me v = net_link ks me v" using ok by (simp add: info_ok_def ks_def)
    moreover have "nx = (case om_get (FByUUIDs ds) v of Some x \<Rightarrow> if x \<noteq> INVALID then [x] else [] | None \<Rightarrow> [])"
      using h(3,4) by (auto simp: MGet_uuid_ok [OF ds] split: option.splits)
    moreover have "net_reaches ks v t" using h(2) reachable_net [OF ok] by (simp add: ks_def)
    ultimately show ?thesis unfolding if_P [OF True] by metis
  next
    case False
    then have "\<not> (me \<noteq> t \<and> reachable (FGraph d) me t)" using reachable_net [OF ok] by (auto simp: ks_def)
    then have "nx = []" using hop by (simp only: if_False)
    with False show ?thesis by (simp only: if_False)
  qed
  ultimately show ?thesis by (auto simp: om_simps)
qed

section \<open>Runs of the service\<close>

datatype info_op =
    ServiceStarted descriptors
  | LinkOpened descriptor descriptor_info_t
  | LinkClosed descriptor descriptor_info_t
  | NetCame kernel_infos_array_t descriptor
  | WayAsked descriptors uuid

fun info_step :: "program_id_t \<Rightarrow> data_info_t \<Rightarrow> info_op \<Rightarrow> data_info_t option" where
  "info_step my d (ServiceStarted ds) = map_option snd (MStart my ds d)"
| "info_step my d (LinkOpened x i) = map_option snd (MHandleOpen my x i d)"
| "info_step my d (LinkClosed x i) = map_option snd (MHandleClose my x i d)"
| "info_step my d (NetCame n x) = map_option snd (MHandle n x d)"
| "info_step my d (WayAsked ds t) = map_option snd (MNextDestinations my ds t d)"

text \<open>
  The conditions of a run: the service is started while no connection is open, numbers of connections
  are not the invalid one, a customer that leaves is linked to this kernel only, a net that comes
  is a set of kernels, and ways are asked for once this kernel is in the graph, which the first
  connection brings about. The lemmas at the end of this theory show what happens otherwise.
\<close>

fun info_allowed :: "program_id_t \<Rightarrow> data_info_t \<Rightarrow> info_op \<Rightarrow> bool" where
  "info_allowed my d (ServiceStarted ds) \<longleftrightarrow> list_all (\<lambda>(x, i). i = None) (MGetAll ds)"
| "info_allowed my d (LinkOpened x i) \<longleftrightarrow> True"
| "info_allowed my d (LinkClosed x i) \<longleftrightarrow> x \<noteq> INVALID \<and> leaves_alone my i d"
| "info_allowed my d (NetCame n x) \<longleftrightarrow> x \<noteq> INVALID \<and> kernels_ok (FKernels n)"
| "info_allowed my d (WayAsked ds t) \<longleftrightarrow> descriptors_ok ds \<and> search_ready (FUuid (FId my)) (FGraph d)"

lemma put_open_consumers_none: "list_all (\<lambda>(x, i). i = None) cs \<Longrightarrow> put_open_consumers my cs d = Some d"
  by (induction cs) auto

lemma info_step_ok:
  assumes "info_ok my d" "info_allowed my d x"
  shows "\<exists>d'. info_step my d x = Some d' \<and> info_ok my d'"
proof (cases x)
  case (ServiceStarted ds)
  then show ?thesis using assms by (simp add: MStart_def put_open_consumers_none)
next
  case (LinkOpened y i)
  then show ?thesis using open_ok [OF assms(1), of y i] by auto
next
  case (LinkClosed y i)
  then show ?thesis using close_ok [OF assms(1), of y i] assms(2) by auto
next
  case (NetCame n y)
  then show ?thesis using handle_ok [OF assms(1), of y n] assms(2) by auto
next
  case (WayAsked ds t)
  then show ?thesis
  proof (cases "om_get (FDestianationCache d) t")
    case None
    then show ?thesis using next_ok [OF assms(1) _ _ None, of ds] assms(2) WayAsked by auto
  next
    case (Some s)
    then show ?thesis using assms(1) WayAsked by (simp add: MNextDestinations_def)
  qed
qed

interpretation nt: operation_driven "info_step my" "info_allowed my" "info_ok my" for my
  by unfold_locales (use info_step_ok in fastforce)+

section \<open>A sample\<close>

definition sample_program :: "uuid \<Rightarrow> eProgramType \<Rightarrow> program_id_t" where
  "sample_program u t = default_program_id\<lparr>FId := id_of_uuid u, FType := t\<rparr>"

definition sample_kernel_link :: "uuid \<Rightarrow> eProgramType \<Rightarrow> kernel_link" where
  "sample_kernel_link u t = \<lparr>FProgramm = sample_program u t, FConnectTime = 0, FTypeLink = [], FLatency = 1\<rparr>"

definition sample_kernel :: "uuid \<Rightarrow> uuid list \<Rightarrow> 32 word \<Rightarrow> kernel_infos_t" where
  "sample_kernel u vs n = \<lparr>FKernelInfo = sample_program u E_KERNEL,
     FCustomerInfo = map (\<lambda>v. (v, sample_kernel_link v E_CONSUMER)) vs, FIndexNumber = n\<rparr>"

definition sample_net :: kernel_infos_array_t where
  "sample_net = \<lparr>FKernels = [(20, sample_kernel 20 [21] 1), (30, sample_kernel 30 [31] 1)], FNumberOfChange = 1\<rparr>"

text \<open>Kernel 20 connects to kernel 10 and sends its net, in which program 21 is linked to it.\<close>

definition sample_events :: "info_op list" where
  "sample_events =
     [ServiceStarted CDescriptors, LinkOpened 2 (sample_kernel_link 20 E_KERNEL), NetCame sample_net 2,
      LinkOpened 3 (sample_kernel_link 11 E_CONSUMER), LinkClosed 3 (sample_kernel_link 11 E_CONSUMER)]"

definition sample_connections :: descriptors where
  "sample_connections = \<lparr>FLast = 2, FDescriptors = [(2, Some (sample_kernel_link 20 E_KERNEL))], FByUUIDs = [(20, 2)]\<rparr>"

section \<open>Properties\<close>



text \<open>
  C21: Asked for the way to a program that it has no kept answer for, the service answers with the
  connection of a neighbour from which the links of the net lead to the program, and with nothing
  when no links lead there or the neighbour has no connection. The answer is kept, and a
  kept answer that names a connection is for a program to which links lead.
\<close>

theorem next_destination_exact:
  assumes "info_ok my d" "search_ready (FUuid (FId my)) (FGraph d)" "descriptors_ok ds"
  defines "ks \<equiv> FKernels (FNet d)" and "me \<equiv> FUuid (FId my)"
  shows "\<exists>nx d'. MNextDestinations my ds t d = Some (nx, d') \<and> FNet d' = FNet d
    \<and> MNextDestinations my ds2 t d' = Some (nx, d')
    \<and> (nx \<noteq> [] \<longrightarrow> t \<noteq> me \<and> net_reaches ks me t)
    \<and> (om_get (FDestianationCache d) t = None \<longrightarrow>
        (if t \<noteq> me \<and> net_reaches ks me t
         then \<exists>v. net_link ks me v \<noteq> None \<and> net_reaches ks v t
            \<and> nx = (case om_get (FByUUIDs ds) v of Some x \<Rightarrow> if x \<noteq> INVALID then [x] else [] | None \<Rightarrow> [])
         else nx = []))"
proof (cases "om_get (FDestianationCache d) t")
  case None
  obtain nx d' where n: "MNextDestinations my ds t d = Some (nx, d')" "FNet d' = FNet d"
    "om_get (FDestianationCache d') t = Some nx"
    and way: "if t \<noteq> me \<and> net_reaches ks me t
       then \<exists>v. net_link ks me v \<noteq> None \<and> net_reaches ks v t
          \<and> nx = (case om_get (FByUUIDs ds) v of Some x \<Rightarrow> if x \<noteq> INVALID then [x] else [] | None \<Rightarrow> [])
       else nx = []"
    using next_ok [OF assms(1-3) None] unfolding ks_def me_def by blast
  have "MNextDestinations my ds2 t d' = Some (nx, d')" using n(3) by (simp add: MNextDestinations_def)
  moreover have "nx \<noteq> [] \<longrightarrow> t \<noteq> me \<and> net_reaches ks me t" using way by argo
  ultimately show ?thesis using n(1,2) way by blast
next
  case (Some s)
  then have "s \<noteq> [] \<longrightarrow> t \<noteq> me \<and> net_reaches ks me t"
    using assms(1) reachable_net [OF assms(1)] by (simp add: info_ok_def ks_def me_def)
  then show ?thesis using Some by (simp add: MNextDestinations_def)
qed

theorem next_destination_exact_witness:
  "\<exists>d nx d'. run_ops (info_step (sample_program 10 E_KERNEL)) (MInit (sample_program 10 E_KERNEL)) sample_events = Some d
     \<and> MNextDestinations (sample_program 10 E_KERNEL) sample_connections 21 d = Some (nx, d')
     \<and> MNextDestinations (sample_program 10 E_KERNEL) sample_connections 21 d' = Some (nx, d')"
proof -
  let ?my = "sample_program 10 E_KERNEL"
  have dis: "disciplined (info_step ?my) (info_allowed ?my) (MInit ?my) sample_events" by code_simp
  obtain d where d: "run_ops (info_step ?my) (MInit ?my) sample_events = Some d" "info_ok ?my d"
    using nt.run_total_inv [OF info_init_ok dis] by blast
  have "map_option (\<lambda>d. search_ready (FUuid (FId ?my)) (FGraph d)) (run_ops (info_step ?my) (MInit ?my) sample_events) = Some True"
    by code_simp
  then have "search_ready (FUuid (FId ?my)) (FGraph d)" using d(1) by simp
  moreover have "descriptors_ok sample_connections" by code_simp
  ultimately show ?thesis using next_destination_exact [OF d(2)] d(1) by blast
qed

text \<open>
  C23: A net that comes from a connection is merged kernel by kernel: new kernels are taken over, of
  two versions the one with the greater number is kept, and a kernel that the net does not have
  is forgotten when it was heard of from this connection only. Where something changed,
  every other connection is sent the merged net and the changes are published; where nothing
  changed the net stays as it was and nothing is sent.
\<close>

theorem network_merged:
  assumes "info_ok my d" "x \<noteq> INVALID" "kernels_ok (FKernels n)"
  shows "\<exists>ev d'. MHandle n x d = Some (ev, d')
    \<and> (\<forall>u. sources_of (FKernelFrom d') u =
         merged_sources x (sources_of (FKernelFrom d) u) (om_get (FKernels n) u) (om_get (FKernels (FNet d)) u))
    \<and> FAllDescriptors d' = FAllDescriptors d
    \<and> (ev = [] \<longrightarrow> FNet d' = FNet d
         \<and> (\<forall>u. om_has u (FKernels n) \<longrightarrow> om_has u (FKernels (FNet d)))
         \<and> (\<forall>u. om_has u (FKernels (FNet d)) \<longrightarrow> \<not> om_has u (FKernels n) \<longrightarrow> sources_of (FKernelFrom d) u \<noteq> [x]))
    \<and> (ev \<noteq> [] \<longrightarrow>
         (\<forall>u. om_get (FKernels (FNet d')) u =
            merged_kernel x (sources_of (FKernelFrom d) u) (om_get (FKernels n) u) (om_get (FKernels (FNet d)) u))
         \<and> (\<exists>diff. ev = (if x \<in> set (FAllDescriptors d)
              then map (\<lambda>y. SendTo y (FNet d')) (filter (\<lambda>y. y \<noteq> x) (FAllDescriptors d)) else []) @ [Push diff]))"
proof -
  let ?ks = "FKernels (FNet d)" and ?fm = "FKernelFrom d"
  let ?m0 = "\<lparr>was_removed = [], was_added = [], merge_from = ?fm, new_net = []\<rparr> :: merge_run"
  have net: "net_ok my ?ks ?fm" using assms(1) by (simp add: info_ok_def)
  obtain m where m: "merge_nets x (FKernels n) ?ks ?m0 = Some m" "net_ok my (new_net m) (merge_from m)"
    "merge_result x (FKernels n) ?ks ?m0 m"
    using merge_net_ok [OF net assms(3,2)] by blast
  have get: "om_get (new_net m) u = merged_kernel x (sources_of ?fm u) (om_get (FKernels n) u) (om_get ?ks u)"
    and src: "sources_of (merge_from m) u = merged_sources x (sources_of ?fm u) (om_get (FKernels n) u) (om_get ?ks u)" for u
    using m(3) by (auto simp: merge_result_def om_has_def)
  show ?thesis
  proof (cases "was_removed m \<noteq> [] \<or> was_added m \<noteq> []")
    case True
    let ?d1 = "data_MResetCache (d\<lparr>FKernelFrom := merge_from m, FNet := MWasChanged ((FNet d)\<lparr>FKernels := new_net m\<rparr>)\<rparr>)"
    have "kernels_ok (FKernels (FNet ?d1))" using m(2) by (simp add: MWasChanged_def net_ok_def)
    then obtain g where g: "MRebuildGraph ?d1 = Some (?d1\<lparr>FGraph := g\<rparr>)" using rebuild_ok by blast
    have "MHandle n x d = Some (synchronize_if_valid
        (if x \<in> set (FAllDescriptors d) then filter (\<lambda>y. y \<noteq> x) (FAllDescriptors d) else [])
        \<lparr>FOpened = was_added m, FClosed = was_removed m\<rparr> (?d1\<lparr>FGraph := g\<rparr>))"
      using m(1) True g by (auto simp: MHandle_def MSynchronizeNetInfo_def no_diff_def Let_def)
    then show ?thesis
      using get src True by (auto simp: synchronize_if_valid_def diff_MIsValid_def MSynchronize_def MWasChanged_def)
  next
    case False
    then have "MHandle n x d = Some ([], d\<lparr>FKernelFrom := merge_from m\<rparr>)"
      using m(1) by (simp add: MHandle_def MSynchronizeNetInfo_def no_diff_def synchronize_if_valid_def diff_MIsValid_def)
    moreover have "\<And>u. om_has u (FKernels n) \<Longrightarrow> om_has u ?ks"
      "\<And>u. om_has u ?ks \<Longrightarrow> \<not> om_has u (FKernels n) \<Longrightarrow> sources_of ?fm u \<noteq> [x]"
      using m(3) False by (simp_all add: merge_result_def)
    ultimately show ?thesis using src by auto
  qed
qed

theorem network_merged_witness:
  "\<exists>d ev d'. MHandleOpen (sample_program 10 E_KERNEL) 2 (sample_kernel_link 20 E_KERNEL) (MInit (sample_program 10 E_KERNEL))
       = Some ([SendTo 2 (FNet d), Push \<lparr>FOpened = [my_link_diff (sample_program 10 E_KERNEL) (sample_kernel_link 20 E_KERNEL),
           (kernel_infos_of (sample_program 20 E_KERNEL), True)], FClosed = []\<rparr>], d)
     \<and> MHandle sample_net 2 d = Some (ev, d') \<and> FAllDescriptors d' = FAllDescriptors d"
proof -
  let ?my = "sample_program 10 E_KERNEL" and ?i = "sample_kernel_link 20 E_KERNEL"
  obtain ev d where d: "MHandleOpen ?my 2 ?i (MInit ?my) = Some (ev, d)" "info_ok ?my d"
    using open_ok [OF info_init_ok, of ?my 2 ?i] by blast
  have "map_option (\<lambda>(ev, d). ev = [SendTo 2 (FNet d), Push \<lparr>FOpened = [my_link_diff ?my ?i,
      (kernel_infos_of (sample_program 20 E_KERNEL), True)], FClosed = []\<rparr>]) (MHandleOpen ?my 2 ?i (MInit ?my)) = Some True"
    by code_simp
  moreover have "kernels_ok (FKernels sample_net)" by code_simp
  moreover have "2 \<noteq> INVALID" by (simp add: INVALID_def)
  ultimately show ?thesis using network_merged [OF d(2), of 2 sample_net] d(1) by auto
qed

section \<open>Places where the invariant does not hold\<close>

text \<open>
  Connections that are open before the service starts come into the net and not into the graph,
  so that no way to them is found. A kernel without any link is not a vertex, and to ask it for
  a way stops the process.
\<close>

lemma started_links_not_in_graph:
  "map_option (\<lambda>(_, d). (net_link (FKernels (FNet d)) 10 20, edge (FGraph d) 10 20))
     (MStart (sample_program 10 E_KERNEL) sample_connections (MInit (sample_program 10 E_KERNEL))) = Some (Some 1, None)"
  by code_simp

lemma way_without_links_stops:
  "MNextDestinations (sample_program 10 E_KERNEL) sample_connections 20 (MInit (sample_program 10 E_KERNEL)) = None"
  by code_simp

text \<open>
  Program 21 is linked to this kernel and to kernel 20. When its connection here closes, its vertex
  is removed with the link from kernel 20, which the net still has.
\<close>

lemma other_links_lost:
  "map_option (\<lambda>d. (net_link (FKernels (FNet d)) 20 21, edge (FGraph d) 20 21))
     (run_ops (info_step (sample_program 10 E_KERNEL)) (MInit (sample_program 10 E_KERNEL))
        [LinkOpened 2 (sample_kernel_link 20 E_KERNEL), NetCame sample_net 2,
         LinkOpened 3 (sample_kernel_link 21 E_CONSUMER), LinkClosed 3 (sample_kernel_link 21 E_CONSUMER)])
   = Some (Some 1, None)"
  by code_simp

end
