(* ===== verification/Buffering.thy ===== *)
theory Buffering
  imports Udt_Types
begin

text \<open>
  The buffer of a channel (\<open>CBuffering\<close> of \<open>io/CBuffering.h/.cpp\<close>): messages wait in it until a
  thread takes all of them. The number of bytes in the buffer of a channel is limited, and so is
  the number of bytes of shared memory in the buffers of all channels together; that number is
  the static variable \<open>g_current_SM_buffer\<close> (argument \<open>sm\<close>), which \<open>FCurrentSMBuffer\<close> refers to. A
  message is paired with a flag that says whether its data lies in shared memory
  (\<open>MIsAllocatorEqual\<close> of the default allocator fails); \<open>deep_copy\<close> takes it out of there. \<open>size_t\<close>
  has 64 bits and \<open>unsigned\<close> 32; a failed \<open>CHECK_EQ\<close> is \<open>None\<close>.
\<close>

section \<open>State\<close>

type_synonym placed_t = "user_data_t \<times> bool"

record diagnostic_t =
  FMaxBuffering :: "64 word"
  FMaxSmBuffering :: "64 word"
  FHandledDataSize :: "64 word"

record buffering =
  FDataList :: "placed_t list"
  FMaxBufferSizeForChannel :: "32 word"
  FMaxSMBufferSize :: "32 word"
  FBuffer :: "64 word"
  FSMBuffer :: "64 word"
  FHandlingBuffer :: "64 word"
  FDoingThread :: "32 word"
  FDiagnostic :: diagnostic_t

text \<open>The entries \<open>maxbuf\<close>, \<open>maxsmbuf\<close> and \<open>sm\<close> of the configuration, where they are set.\<close>

record buffer_conf =
  conf_maxbuf :: "32 word option"
  conf_maxsmbuf :: "32 word option"
  conf_sm :: "bool option"

definition buf_channel_size :: "buffer_conf \<Rightarrow> 32 word" where
  "buf_channel_size c = (case conf_maxbuf c of None \<Rightarrow> 0 | Some n \<Rightarrow> n)"

definition buf_sm_size :: "buffer_conf \<Rightarrow> 32 word" where
  "buf_sm_size c =
     (if conf_sm c = Some True then 0 else case conf_maxsmbuf c of None \<Rightarrow> 0 | Some n \<Rightarrow> n)"

definition new_buffering :: "32 word \<Rightarrow> 32 word \<Rightarrow> buffering" where
  "new_buffering aMaxBufferSizeForChannel aMaxSMBufferSize =
     \<lparr>FDataList = [], FMaxBufferSizeForChannel = aMaxBufferSizeForChannel, FMaxSMBufferSize = aMaxSMBufferSize,
      FBuffer = 0, FSMBuffer = 0, FHandlingBuffer = 0, FDoingThread = 0,
      FDiagnostic = \<lparr>FMaxBuffering = 0, FMaxSmBuffering = 0, FHandledDataSize = 0\<rparr>\<rparr>"

definition CBuffering :: "buffer_conf \<Rightarrow> buffering" where
  "CBuffering aConf = new_buffering (buf_channel_size aConf) (buf_sm_size aConf)"

definition CBuffering_for_sm :: "32 word \<Rightarrow> buffering" where
  "CBuffering_for_sm aMaxBufferSizeForChannel = new_buffering aMaxBufferSizeForChannel 0"

section \<open>Operations\<close>

definition MIsEmpty :: "buffering \<Rightarrow> bool" where
  "MIsEmpty b \<longleftrightarrow> FDataList b = []"

definition MIsWorking :: "buffering \<Rightarrow> bool" where
  "MIsWorking b \<longleftrightarrow> FDoingThread b > 0"

definition data_size :: "user_data_t \<Rightarrow> 64 word" where
  "data_size d = of_nat (length (FData d))"

text \<open>\<open>th\<close> is the number of the calling thread. The list is what is appended to \<open>aTo\<close>.\<close>

definition MTry ::
    "32 word \<Rightarrow> 32 word \<Rightarrow> buffering \<Rightarrow> (bool \<times> placed_t list \<times> 32 word \<times> buffering) option" where
  "MTry th sm b =
     (if MIsEmpty b then Some (False, [], sm, b)
      else if FDoingThread b \<noteq> 0 then None
      else Some (True, FDataList b, sm - ucast (FSMBuffer b),
             b\<lparr>FDataList := [], FHandlingBuffer := FBuffer b, FSMBuffer := 0, FDoingThread := th,
               FDiagnostic := (FDiagnostic b)
                 \<lparr>FMaxSmBuffering := max (FMaxSmBuffering (FDiagnostic b)) (FSMBuffer b)\<rparr>\<rparr>))"

text \<open>The result: what is left in \<open>aNoSent\<close>, and the buffer.\<close>

definition MFinish ::
    "32 word \<Rightarrow> placed_t list \<Rightarrow> bool \<Rightarrow> buffering \<Rightarrow> (placed_t list \<times> buffering) option" where
  "MFinish th aNoSent aTryAgain b =
     (let g = FDiagnostic b;
          num = sum_list (map (data_size \<circ> fst) aNoSent);
          g1 = g\<lparr>FMaxBuffering := max (FMaxBuffering g) (FBuffer b),
                 FHandledDataSize := FHandledDataSize g + FHandlingBuffer b - num\<rparr>
      in if FDoingThread b \<noteq> th then None
         else Some (if aTryAgain then [] else aNoSent,
           b\<lparr>FDiagnostic := g1,
             FBuffer := (if aNoSent = [] then FBuffer b - FHandlingBuffer b else FBuffer b + num),
             FDataList := (if aTryAgain then aNoSent @ FDataList b else FDataList b),
             FDoingThread := 0, FHandlingBuffer := 0\<rparr>))"

definition sm_limited :: "buffering \<Rightarrow> bool" where
  "sm_limited b \<longleftrightarrow> FMaxSMBufferSize b \<noteq> 0
     \<and> (FMaxSMBufferSize b < FMaxBufferSizeForChannel b \<or> FMaxBufferSizeForChannel b = 0)"

text \<open>A message is counted in shared memory, or copied out of it when the limit is reached.\<close>

definition put_shared :: "64 word \<Rightarrow> bool \<Rightarrow> 32 word \<Rightarrow> buffering \<Rightarrow> bool \<times> 32 word \<times> buffering" where
  "put_shared n shared sm b =
     (if sm_limited b \<and> shared
      then (if ucast sm + n < ucast (FMaxSMBufferSize b)
            then (True, sm + ucast n, b\<lparr>FSMBuffer := FSMBuffer b + n\<rparr>)
            else (False, sm, b))
      else (shared, sm, b))"

fun put_loop ::
    "placed_t list \<Rightarrow> 32 word \<Rightarrow> buffering \<Rightarrow> placed_t list \<times> 32 word \<times> buffering" where
  "put_loop [] sm b = ([], sm, b)"
| "put_loop ((d, shared) # ds) sm b =
     (let n = data_size d; limit = FMaxBufferSizeForChannel b
      in if limit \<noteq> 0 \<and> FBuffer b + n > ucast limit then ((d, shared) # ds, sm, b)
         else (let b1 = (if limit \<noteq> 0 then b\<lparr>FBuffer := FBuffer b + n\<rparr> else b);
                   (shared1, sm1, b2) = put_shared n shared sm b1
               in put_loop ds sm1 (b2\<lparr>FDataList := FDataList b2 @ [(d, shared1)]\<rparr>)))"

text \<open>The messages that do not fit stay in \<open>aData\<close>, the first of the result.\<close>

definition MPut ::
    "placed_t list \<Rightarrow> 32 word \<Rightarrow> buffering \<Rightarrow> bool \<times> placed_t list \<times> 32 word \<times> buffering" where
  "MPut aData sm b =
     (let (rest, sm1, b1) =
        (if FMaxBufferSizeForChannel b > 0 \<or> FMaxSMBufferSize b > 0 then put_loop aData sm b
         else ([], sm, b\<lparr>FDataList := FDataList b @ aData\<rparr>))
      in (rest = [], rest, sm1, b1))"

definition MClearImidiatle :: "buffering \<Rightarrow> placed_t list \<times> buffering" where
  "MClearImidiatle b = (FDataList b, b\<lparr>FDataList := []\<rparr>)"


section \<open>Invariant\<close>

definition placed_bytes :: "placed_t list \<Rightarrow> nat" where
  "placed_bytes ds = sum_list (map (length \<circ> FData \<circ> fst) ds)"

definition shared_bytes :: "placed_t list \<Rightarrow> nat" where
  "shared_bytes ds = placed_bytes (filter snd ds)"

lemma placed_bytes_simps [simp]:
  "placed_bytes [] = 0" "placed_bytes (d # ds) = length (FData (fst d)) + placed_bytes ds"
  "placed_bytes (ds @ es) = placed_bytes ds + placed_bytes es"
  by (simp_all add: placed_bytes_def)

lemma shared_bytes_simps [simp]:
  "shared_bytes [] = 0"
  "shared_bytes (d # ds) = (if snd d then length (FData (fst d)) else 0) + shared_bytes ds"
  "shared_bytes (ds @ es) = shared_bytes ds + shared_bytes es"
  by (simp_all add: shared_bytes_def)

text \<open>
  A channel with a limit counts what waits and what a thread is sending, and the count is within
  the limit; without a limit nothing is counted. Where shared memory is limited, the shared
  bytes that wait are counted.
\<close>

definition buffer_ok :: "buffering \<Rightarrow> bool" where
  "buffer_ok b \<longleftrightarrow>
     (if FMaxBufferSizeForChannel b = 0 then FBuffer b = 0 \<and> FHandlingBuffer b = 0
      else unat (FBuffer b) = unat (FHandlingBuffer b) + placed_bytes (FDataList b)
         \<and> unat (FBuffer b) \<le> unat (FMaxBufferSizeForChannel b))
     \<and> (FDoingThread b = 0 \<longrightarrow> FHandlingBuffer b = 0)
     \<and> FSMBuffer b = (if sm_limited b then of_nat (shared_bytes (FDataList b)) else 0)"

definition same_limits :: "buffering \<Rightarrow> buffering \<Rightarrow> bool" where
  "same_limits a b \<longleftrightarrow> FMaxBufferSizeForChannel a = FMaxBufferSizeForChannel b
     \<and> FMaxSMBufferSize a = FMaxSMBufferSize b \<and> FDoingThread a = FDoingThread b
     \<and> FHandlingBuffer a = FHandlingBuffer b"

text \<open>Messages of real buffers: adding one size to a count below \<open>2\<^sup>3\<^sup>2\<close> does not wrap.\<close>

definition MAX_SIZE :: int where "MAX_SIZE = 9223372036854775808"

definition real_sizes :: "placed_t list \<Rightarrow> bool" where
  "real_sizes ds \<longleftrightarrow> (\<forall>(d, s)\<in>set ds. int (length (FData d)) < MAX_SIZE)"

lemma new_buffering_ok [simp]: "buffer_ok (new_buffering m n)" "FDataList (new_buffering m n) = []"
  "FDoingThread (new_buffering m n) = 0" "FSMBuffer (new_buffering m n) = 0"
  by (simp_all add: buffer_ok_def new_buffering_def)

lemma same_limits_refl [simp]: "same_limits b b"
  by (simp add: same_limits_def)

lemma same_limits_trans: "same_limits a b \<Longrightarrow> same_limits b c \<Longrightarrow> same_limits a c"
  by (simp add: same_limits_def)

lemma same_limits_sm: "same_limits a b \<Longrightarrow> sm_limited a = sm_limited b"
  by (simp add: same_limits_def sm_limited_def)

lemma fits_no_wrap:
  fixes u :: "64 word" and m :: "32 word"
  assumes "unat u \<le> unat m" "int n < MAX_SIZE"
  shows "unat (u + of_nat n) = unat u + n" "(ucast m < u + of_nat n) = (unat m < unat u + n)"
proof -
  have m: "unat m < 2 ^ 32" using unsigned_less [where 'a = nat, of m] by simp
  then have "unat u + n < 2 ^ 64" using assms by (simp add: MAX_SIZE_def)
  moreover have n: "unat (of_nat n :: 64 word) = n" using assms(2) by (simp add: MAX_SIZE_def unat_of_nat take_bit_nat_eq_self)
  ultimately show 1: "unat (u + of_nat n) = unat u + n"
    by (subst unat_word_ariths) simp
  have "unat (ucast m :: 64 word) = unat m" using m by (simp add: unsigned_ucast_eq take_bit_nat_eq_self)
  then show "(ucast m < u + of_nat n) = (unat m < unat u + n)" using 1 by (simp add: word_less_nat_alt)
qed

lemma ucast_add_32: "(ucast (a + b :: 64 word) :: 32 word) = ucast a + ucast b"
proof -
  have "uint (ucast (a + b :: 64 word) :: 32 word) = (uint a + uint b) mod 2 ^ 64 mod 2 ^ 32"
    by (simp add: unsigned_ucast_eq uint_word_ariths take_bit_eq_mod)
  also have "\<dots> = (uint a + uint b) mod 2 ^ 32" by (rule mod_mod_cancel) simp
  also have "\<dots> = uint (ucast a + ucast b :: 32 word)"
    by (simp add: uint_word_ariths unsigned_ucast_eq take_bit_eq_mod mod_add_eq)
  finally show ?thesis by (simp only: word_uint_eq_iff)
qed

lemma ucast_of_nat_32: "(ucast (of_nat n :: 64 word) :: 32 word) = of_nat n"
  by (induction n) (simp_all add: ucast_add_32)

lemma put_one:
  assumes "buffer_ok b" "int (length (FData d)) < MAX_SIZE"
    and fits: "FMaxBufferSizeForChannel b = 0 \<or> \<not> FBuffer b + data_size d > ucast (FMaxBufferSizeForChannel b)"
  defines "b1 \<equiv> (if FMaxBufferSizeForChannel b \<noteq> 0 then b\<lparr>FBuffer := FBuffer b + data_size d\<rparr> else b)"
  assumes put: "put_shared (data_size d) shared sm b1 = (shared1, sm1, b2)"
  defines "b3 \<equiv> b2\<lparr>FDataList := FDataList b2 @ [(d, shared1)]\<rparr>"
  shows "buffer_ok b3" "same_limits b b3" "FDataList b3 = FDataList b @ [(d, shared1)]"
    "sm1 - ucast (FSMBuffer b3) = sm - ucast (FSMBuffer b)"
proof -
  have lim: "sm_limited b1 = sm_limited b" by (simp add: b1_def sm_limited_def)
  show l: "same_limits b b3" and dl: "FDataList b3 = FDataList b @ [(d, shared1)]"
    using put by (auto simp: put_shared_def same_limits_def b1_def b3_def split: if_splits)
  show "sm1 - ucast (FSMBuffer b3) = sm - ucast (FSMBuffer b)"
    using put by (auto simp: put_shared_def b1_def b3_def ucast_add_32 split: if_splits)
  have sm: "FSMBuffer b3 = FSMBuffer b + (if sm_limited b \<and> shared1 then data_size d else 0)"
    using put lim by (auto simp: put_shared_def b1_def b3_def split: if_splits)
  have buf: "FBuffer b3 = FBuffer b1" using put by (auto simp: put_shared_def b3_def split: if_splits)
  have "FMaxBufferSizeForChannel b \<noteq> 0 \<Longrightarrow> unat (FBuffer b3) = unat (FBuffer b) + length (FData d)
      \<and> unat (FBuffer b3) \<le> unat (FMaxBufferSizeForChannel b)"
    using fits_no_wrap [of "FBuffer b" "FMaxBufferSizeForChannel b" "length (FData d)"] assms(1,2) fits
    by (auto simp: buf b1_def buffer_ok_def data_size_def not_less)
  moreover have "FMaxBufferSizeForChannel b = 0 \<Longrightarrow> FBuffer b3 = FBuffer b" by (simp add: buf b1_def)
  ultimately show "buffer_ok b3"
    using assms(1) l by (auto simp: buffer_ok_def dl sm same_limits_def sm_limited_def data_size_def)
qed

lemma put_loop_ok:
  assumes "put_loop ds sm b = (rest, sm', b')" "buffer_ok b" "real_sizes ds"
  shows "\<exists>acc. FDataList b' = FDataList b @ acc \<and> map fst ds = map fst acc @ map fst rest
    \<and> buffer_ok b' \<and> same_limits b b' \<and> sm' - ucast (FSMBuffer b') = sm - ucast (FSMBuffer b)
    \<and> (rest \<noteq> [] \<longrightarrow> FMaxBufferSizeForChannel b \<noteq> 0
         \<and> unat (FMaxBufferSizeForChannel b) < unat (FBuffer b') + length (FData (fst (hd rest))))"
  using assms
proof (induction ds arbitrary: sm b)
  case Nil
  then show ?case by (intro exI [of _ "[]"]) auto
next
  case (Cons e ds)
  obtain d shared where e: "e = (d, shared)" by fastforce
  note prems = Cons.prems [unfolded e]
  let ?over = "FMaxBufferSizeForChannel b \<noteq> 0 \<and> FBuffer b + data_size d > ucast (FMaxBufferSizeForChannel b)"
  have size: "int (length (FData d)) < MAX_SIZE" and sizes: "real_sizes ds" using prems(3) by (auto simp: real_sizes_def)
  show ?case
  proof (cases ?over)
    case True
    then have eq: "rest = (d, shared) # ds" "sm' = sm" "b' = b" using prems(1) by auto
    have "unat (FMaxBufferSizeForChannel b) < unat (FBuffer b) + length (FData d)"
      using True fits_no_wrap(2) [of "FBuffer b" "FMaxBufferSizeForChannel b" "length (FData d)"] prems(2) size
      by (simp add: buffer_ok_def data_size_def)
    then show ?thesis using eq prems(2) True e by (intro exI [of _ "[]"]) auto
  next
    case False
    let ?b1 = "if FMaxBufferSizeForChannel b \<noteq> 0 then b\<lparr>FBuffer := FBuffer b + data_size d\<rparr> else b"
    obtain shared1 sm1 b2 where put: "put_shared (data_size d) shared sm ?b1 = (shared1, sm1, b2)"
      by (metis prod_cases3)
    let ?b3 = "b2\<lparr>FDataList := FDataList b2 @ [(d, shared1)]\<rparr>"
    note one = put_one [OF prems(2) size _ put]
    have b3: "buffer_ok ?b3" "same_limits b ?b3" "FDataList ?b3 = FDataList b @ [(d, shared1)]"
      "sm1 - ucast (FSMBuffer ?b3) = sm - ucast (FSMBuffer b)"
      using one False by blast+
    have loop: "put_loop ds sm1 ?b3 = (rest, sm', b')"
      using prems(1) False put by (simp only: put_loop.simps Let_def split_beta fst_conv snd_conv if_False)
    obtain acc where acc: "FDataList b' = FDataList ?b3 @ acc" "map fst ds = map fst acc @ map fst rest"
      "buffer_ok b'" "same_limits ?b3 b'" "sm' - ucast (FSMBuffer b') = sm1 - ucast (FSMBuffer ?b3)"
      "rest \<noteq> [] \<longrightarrow> FMaxBufferSizeForChannel ?b3 \<noteq> 0
         \<and> unat (FMaxBufferSizeForChannel ?b3) < unat (FBuffer b') + length (FData (fst (hd rest)))"
      using Cons.IH [OF loop b3(1) sizes] by blast
    show ?thesis
      using acc b3(2-4) same_limits_trans [OF b3(2) acc(4)] e
      by (intro exI [of _ "(d, shared1) # acc"]) (auto simp: same_limits_def)
  qed
qed

lemma MPut_ok:
  assumes "MPut ds sm b = (all, rest, sm', b')" "buffer_ok b" "real_sizes ds"
  shows "\<exists>acc. FDataList b' = FDataList b @ acc \<and> map fst ds = map fst acc @ map fst rest
    \<and> all = (rest = []) \<and> buffer_ok b' \<and> same_limits b b' \<and> sm' - ucast (FSMBuffer b') = sm - ucast (FSMBuffer b)
    \<and> (rest \<noteq> [] \<longrightarrow> FMaxBufferSizeForChannel b \<noteq> 0
         \<and> unat (FMaxBufferSizeForChannel b) < unat (FBuffer b') + length (FData (fst (hd rest))))"
proof (cases "FMaxBufferSizeForChannel b > 0 \<or> FMaxSMBufferSize b > 0")
  case True
  then have "all = (rest = [])" "put_loop ds sm b = (rest, sm', b')"
    using assms(1) by (auto simp: MPut_def split: prod.splits)
  with put_loop_ok [OF this(2) assms(2,3)] show ?thesis by blast
next
  case False
  then have "all = True" "rest = []" "sm' = sm" "b' = b\<lparr>FDataList := FDataList b @ ds\<rparr>"
    using assms(1) by (simp_all add: MPut_def)
  moreover have "FMaxBufferSizeForChannel b = 0" "FMaxSMBufferSize b = 0" using False by (simp_all add: word_gt_0)
  ultimately show ?thesis using assms(2)
    by (intro exI [of _ ds]) (simp add: buffer_ok_def same_limits_def sm_limited_def)
qed

lemma MTry_takes:
  assumes "FDataList b \<noteq> []" "FDoingThread b = 0"
  obtains b' where "MTry th sm b = Some (True, FDataList b, sm - ucast (FSMBuffer b), b')"
    "FDataList b' = []" "FDoingThread b' = th" "FSMBuffer b' = 0" "buffer_ok b \<Longrightarrow> th \<noteq> 0 \<Longrightarrow> buffer_ok b'"
    "FMaxBufferSizeForChannel b' = FMaxBufferSizeForChannel b" "FMaxSMBufferSize b' = FMaxSMBufferSize b"
proof -
  let ?b = "snd (snd (snd (the (MTry th sm b))))"
  have some: "MTry th sm b = Some (True, FDataList b, sm - ucast (FSMBuffer b), ?b)"
    using assms by (simp add: MTry_def MIsEmpty_def)
  have eq: "FDataList ?b = []" "FDoingThread ?b = th" "FSMBuffer ?b = 0" "FHandlingBuffer ?b = FBuffer b"
    "FBuffer ?b = FBuffer b" "FMaxBufferSizeForChannel ?b = FMaxBufferSizeForChannel b"
    "FMaxSMBufferSize ?b = FMaxSMBufferSize b"
    using assms by (simp_all add: MTry_def MIsEmpty_def)
  have "buffer_ok b \<Longrightarrow> th \<noteq> 0 \<Longrightarrow> buffer_ok ?b" by (auto simp: buffer_ok_def eq)
  then show ?thesis using that some eq by blast
qed

lemma MTry_empty: "FDataList b = [] \<Longrightarrow> MTry th sm b = Some (False, [], sm, b)"
  by (simp add: MTry_def MIsEmpty_def)

lemma MFinish_all_sent:
  assumes "FDoingThread b = th"
  obtains b' where "MFinish th [] again b = Some ([], b')" "FDataList b' = FDataList b" "FDoingThread b' = 0"
    "FSMBuffer b' = FSMBuffer b" "buffer_ok b \<Longrightarrow> buffer_ok b'"
    "FMaxBufferSizeForChannel b' = FMaxBufferSizeForChannel b" "FMaxSMBufferSize b' = FMaxSMBufferSize b"
proof -
  let ?b = "snd (the (MFinish th [] again b))"
  have some: "MFinish th [] again b = Some ([], ?b)" using assms by (simp add: MFinish_def Let_def)
  have eq: "FDataList ?b = FDataList b" "FDoingThread ?b = 0" "FSMBuffer ?b = FSMBuffer b" "FHandlingBuffer ?b = 0"
    "FMaxBufferSizeForChannel ?b = FMaxBufferSizeForChannel b" "FMaxSMBufferSize ?b = FMaxSMBufferSize b"
    "FBuffer ?b = FBuffer b - FHandlingBuffer b"
    using assms by (simp_all add: MFinish_def Let_def)
  have "buffer_ok ?b" if ok: "buffer_ok b"
  proof -
    have "unat (FBuffer b - FHandlingBuffer b) = unat (FBuffer b) - unat (FHandlingBuffer b)"
      if "FMaxBufferSizeForChannel b \<noteq> 0"
      using ok that by (intro unat_sub) (simp add: buffer_ok_def word_le_nat_alt)
    then show ?thesis using ok by (auto simp: buffer_ok_def eq sm_limited_def)
  qed
  then show ?thesis using that some eq by blast
qed

section \<open>Runs of a buffer\<close>

text \<open>
  A channel is filled by any thread and emptied by one thread at a time, which says that it is
  done before the next one begins. \<open>others\<close> is the shared memory in the buffers of the other
  channels.
\<close>

datatype buf_op = OpPut "placed_t list" | OpTry "32 word" | OpFinish "32 word"

fun buf_step :: "32 word \<times> buffering \<Rightarrow> buf_op \<Rightarrow> (32 word \<times> buffering) option" where
  "buf_step (sm, b) (OpPut ds) = Some (snd (snd (MPut ds sm b)))"
| "buf_step (sm, b) (OpTry th) = map_option (snd \<circ> snd) (MTry th sm b)"
| "buf_step (sm, b) (OpFinish th) = map_option (\<lambda>r. (sm, snd r)) (MFinish th [] False b)"

fun buf_allowed :: "32 word \<times> buffering \<Rightarrow> buf_op \<Rightarrow> bool" where
  "buf_allowed (sm, b) (OpPut ds) = list_all (\<lambda>d. int (length (FData (fst d))) < MAX_SIZE) ds"
| "buf_allowed (sm, b) (OpTry th) = (th \<noteq> 0 \<and> \<not> MIsWorking b)"
| "buf_allowed (sm, b) (OpFinish th) = (MIsWorking b \<and> FDoingThread b = th)"

definition others :: "32 word \<times> buffering \<Rightarrow> 32 word" where
  "others s = fst s - ucast (FSMBuffer (snd s))"

definition limits_of :: "32 word \<times> buffering \<Rightarrow> 32 word \<times> 32 word" where
  "limits_of s = (FMaxBufferSizeForChannel (snd s), FMaxSMBufferSize (snd s))"

lemma buf_step_ok:
  assumes "buffer_ok (snd s)" "buf_allowed s x"
  shows "\<exists>t. buf_step s x = Some t \<and> buffer_ok (snd t) \<and> others t = others s \<and> limits_of t = limits_of s"
proof -
  obtain sm b where s: "s = (sm, b)" by fastforce
  show ?thesis
  proof (cases x)
    case (OpPut ds)
    obtain all rest sm' b' where put: "MPut ds sm b = (all, rest, sm', b')" by (metis prod_cases4)
    have "real_sizes ds" using assms(2) OpPut s by (auto simp: real_sizes_def list_all_iff)
    then have "buffer_ok b' \<and> same_limits b b' \<and> sm' - ucast (FSMBuffer b') = sm - ucast (FSMBuffer b)"
      using MPut_ok [OF put] assms(1) s by auto
    then show ?thesis using OpPut s put by (auto simp: others_def limits_of_def same_limits_def)
  next
    case (OpTry th)
    then have free: "FDoingThread b = 0" "th \<noteq> 0" using assms(2) s by (auto simp: MIsWorking_def word_gt_0)
    show ?thesis
    proof (cases "FDataList b = []")
      case True
      then show ?thesis using assms(1) OpTry s by (simp add: MTry_empty)
    next
      case False
      obtain b' where "MTry th sm b = Some (True, FDataList b, sm - ucast (FSMBuffer b), b')"
        "FSMBuffer b' = 0" "buffer_ok b \<Longrightarrow> th \<noteq> 0 \<Longrightarrow> buffer_ok b'"
        "FMaxBufferSizeForChannel b' = FMaxBufferSizeForChannel b" "FMaxSMBufferSize b' = FMaxSMBufferSize b"
        using MTry_takes [OF False free(1), of th sm] by metis
      then show ?thesis using assms(1) OpTry s free(2) by (simp add: others_def limits_of_def)
    qed
  next
    case (OpFinish th)
    then have "FDoingThread b = th" using assms(2) s by simp
    from MFinish_all_sent [OF this, of False] obtain b' where "MFinish th [] False b = Some ([], b')" "FSMBuffer b' = FSMBuffer b"
      "buffer_ok b \<Longrightarrow> buffer_ok b'"
      "FMaxBufferSizeForChannel b' = FMaxBufferSizeForChannel b" "FMaxSMBufferSize b' = FMaxSMBufferSize b"
      by metis
    then show ?thesis using assms(1) OpFinish s by (simp add: others_def limits_of_def)
  qed
qed

interpretation bf: refined_component buf_step buf_allowed "\<lambda>s. buffer_ok (snd s)"
  "\<lambda>s. (others s, limits_of s)" "\<lambda>_ a. a"
  using buf_step_ok by unfold_locales fastforce+

lemma new_limits [simp]: "limits_of (sm, new_buffering m n) = (m, n)" "others (sm, new_buffering m n) = sm"
  by (simp_all add: limits_of_def others_def new_buffering_def)

text \<open>
  What is not sent and put back is counted twice: once in the count of what was being sent, which
  is not taken off, and once more. The room that the channel has for messages shrinks by
  it for good. No caller puts messages back today.
\<close>

lemma put_back_counted_twice:
  assumes "buffer_ok b" "FMaxBufferSizeForChannel b \<noteq> 0" "FDoingThread b = th" "th \<noteq> 0"
    "ns \<noteq> []" "placed_bytes ns \<le> unat (FHandlingBuffer b)"
  shows "\<exists>b'. MFinish th ns True b = Some ([], b') \<and> FDoingThread b' = 0 \<and> FDataList b' = ns @ FDataList b
    \<and> unat (FBuffer b') = placed_bytes (FDataList b') + unat (FHandlingBuffer b)"
proof -
  have num: "sum_list (map (data_size \<circ> fst) ns) = of_nat (placed_bytes ns)"
    by (induction ns) (simp_all add: data_size_def)
  have m: "unat (FMaxBufferSizeForChannel b) < 2 ^ 32"
    using unsigned_less [where 'a = nat, of "FMaxBufferSizeForChannel b"] by simp
  have le: "unat (FBuffer b) \<le> unat (FMaxBufferSizeForChannel b)"
    "unat (FBuffer b) = unat (FHandlingBuffer b) + placed_bytes (FDataList b)"
    using assms(1,2) by (simp_all add: buffer_ok_def)
  then have "int (placed_bytes ns) < MAX_SIZE" using m assms(6) by (simp add: MAX_SIZE_def)
  then have "unat (FBuffer b + of_nat (placed_bytes ns)) = unat (FBuffer b) + placed_bytes ns"
    using fits_no_wrap(1) [OF le(1)] by blast
  then show ?thesis using assms(3-5) le(2) by (simp add: MFinish_def Let_def num)
qed

section \<open>Samples\<close>

definition sample_data :: "nat \<Rightarrow> user_data_t" where
  "sample_data n = \<lparr>FDataId = \<lparr>FPacketNumber = 1, FDataProtocol = CText ''raw'', FDataOffset = 0, FEventsList = [],
     FDestination = [], FRegistrators = [], FRouting = \<lparr>FRoute = [], FFrom = id_of_uuid 9\<rparr>, FSplit = no_split,
     FEndian = E_SHARE_ENDIAN, FDataWhat = \<lparr>FVersion = no_version, FMessageHeader = 2\<rparr>\<rparr>, FData = replicate n 7\<rparr>"

definition sample_buf_ops :: "buf_op list" where
  "sample_buf_ops = [OpPut [(sample_data 3, True), (sample_data 4, True), (sample_data 6, False)], OpTry 5,
     OpPut [(sample_data 2, True), (sample_data 9, False)], OpFinish 5]"

section \<open>Properties\<close>

text \<open>
  C28: In every run of a channel's buffer no check fails. What waits together with what is being sent
  never exceeds the limit of the channel, and the count of shared memory of all channels is that of
  the others and the shared bytes that wait here.
\<close>

theorem buffer_stays_in_limits:
  assumes "disciplined buf_step buf_allowed (sm0, new_buffering m n) ops"
  shows "\<exists>sm b. run_ops buf_step (sm0, new_buffering m n) ops = Some (sm, b)
    \<and> (m \<noteq> 0 \<longrightarrow> unat (FHandlingBuffer b) + placed_bytes (FDataList b) \<le> unat m)
    \<and> sm = sm0 + (if n \<noteq> 0 \<and> (n < m \<or> m = 0) then of_nat (shared_bytes (FDataList b)) else 0)"
proof -
  obtain t where t: "run_ops buf_step (sm0, new_buffering m n) ops = Some t" "buffer_ok (snd t)"
    "(others t, limits_of t) = fold (\<lambda>_ a. a) ops (sm0, m, n)"
    using bf.run_refines [OF _ assms] by auto
  obtain sm b where tb: "t = (sm, b)" by fastforce
  have "fold (\<lambda>_ a. a) ops (sm0, m, n) = (sm0, m, n)" by (induction ops) simp_all
  then have lim: "FMaxBufferSizeForChannel b = m" "FMaxSMBufferSize b = n" "sm - ucast (FSMBuffer b) = sm0"
    using t(3) by (simp_all add: tb others_def limits_of_def)
  have "(ucast (of_nat (shared_bytes (FDataList b)) :: 64 word) :: 32 word) = of_nat (shared_bytes (FDataList b))"
    by (rule ucast_of_nat_32)
  then have "sm = sm0 + (if n \<noteq> 0 \<and> (n < m \<or> m = 0) then of_nat (shared_bytes (FDataList b)) else 0)"
    using t(2) lim(3) by (auto simp: buffer_ok_def sm_limited_def tb lim(1,2) algebra_simps split: if_splits)
  moreover have "m \<noteq> 0 \<longrightarrow> unat (FHandlingBuffer b) + placed_bytes (FDataList b) \<le> unat m"
    using t(2) by (auto simp: buffer_ok_def tb lim(1,2))
  ultimately show ?thesis using t(1) tb by blast
qed

theorem buffer_stays_in_limits_witness:
  "\<exists>sm b. run_ops buf_step (100, new_buffering 14 8) sample_buf_ops = Some (sm, b) \<and> placed_bytes (FDataList b) \<le> 14"
proof -
  have "disciplined buf_step buf_allowed (100, new_buffering 14 8) sample_buf_ops"
    by code_simp
  from buffer_stays_in_limits [OF this] show ?thesis by auto
qed

text \<open>
  Messages that are put into a buffer are appended to it in their order. Only those are refused
  that follow a message for which the channel has no room; with no limit none is refused. The
  next thread takes all that waits, in order, and leaves the buffer empty.
\<close>

theorem buffer_is_fifo:
  assumes "buffer_ok b" "list_all (\<lambda>d. int (length (FData (fst d))) < MAX_SIZE) ds" "FDoingThread b = 0" "th \<noteq> 0"
  shows "\<exists>rest sm1 b1 acc. MPut ds sm b = (rest = [], rest, sm1, b1)
    \<and> FDataList b1 = FDataList b @ acc \<and> map fst ds = map fst acc @ map fst rest
    \<and> (rest \<noteq> [] \<longrightarrow> FMaxBufferSizeForChannel b \<noteq> 0
         \<and> unat (FMaxBufferSizeForChannel b) < placed_bytes (FDataList b1) + length (FData (fst (hd rest))))
    \<and> (FDataList b1 \<noteq> [] \<longrightarrow> (\<exists>sm2 b2. MTry th sm1 b1 = Some (True, FDataList b @ acc, sm2, b2)
         \<and> FDataList b2 = [] \<and> MIsWorking b2))"
proof -
  obtain all rest sm1 b1 where put: "MPut ds sm b = (all, rest, sm1, b1)" by (metis prod_cases4)
  have "real_sizes ds" using assms(2) by (auto simp: real_sizes_def list_all_iff)
  then obtain acc where acc: "FDataList b1 = FDataList b @ acc" "map fst ds = map fst acc @ map fst rest"
    "all = (rest = [])" "buffer_ok b1" "same_limits b b1"
    "rest \<noteq> [] \<longrightarrow> FMaxBufferSizeForChannel b \<noteq> 0
         \<and> unat (FMaxBufferSizeForChannel b) < unat (FBuffer b1) + length (FData (fst (hd rest)))"
    using MPut_ok [OF put assms(1)] by blast
  have free: "FDoingThread b1 = 0" "FHandlingBuffer b1 = 0"
    using acc(4,5) assms(3) by (auto simp: same_limits_def buffer_ok_def)
  have over: "rest \<noteq> [] \<longrightarrow> FMaxBufferSizeForChannel b \<noteq> 0
         \<and> unat (FMaxBufferSizeForChannel b) < placed_bytes (FDataList b1) + length (FData (fst (hd rest)))"
    using acc(4-6) free(2) by (auto simp: buffer_ok_def same_limits_def)
  have "\<exists>sm2 b2. MTry th sm1 b1 = Some (True, FDataList b @ acc, sm2, b2)
         \<and> FDataList b2 = [] \<and> MIsWorking b2" if ne: "FDataList b1 \<noteq> []"
  proof -
    obtain b2 where b2: "MTry th sm1 b1 = Some (True, FDataList b1, sm1 - ucast (FSMBuffer b1), b2)"
      "FDataList b2 = []" "FDoingThread b2 = th"
      using MTry_takes [OF ne free(1), of th sm1] by metis
    then show ?thesis using b2 acc(1) assms(4) by (auto simp: MIsWorking_def word_gt_0)
  qed
  then show ?thesis using put acc(1-3) over by blast
qed

theorem buffer_is_fifo_witness:
  "\<exists>rest sm1 b1 acc. MPut [(sample_data 3, True), (sample_data 4, False)] 100 (new_buffering 5 0) = (rest = [], rest, sm1, b1)
     \<and> FDataList b1 = acc \<and> [sample_data 3, sample_data 4] = map fst acc @ map fst rest"
proof -
  have "list_all (\<lambda>d. int (length (FData (fst d))) < MAX_SIZE) [(sample_data 3, True), (sample_data 4, False)]"
    by (simp add: sample_data_def MAX_SIZE_def)
  from buffer_is_fifo [OF new_buffering_ok(1) [of 5 0] this, of 1 100] show ?thesis by auto
qed

end
