(* ===== verification/Kernel_Io.thy ===== *)
theory Kernel_Io
  imports Info_Service Packet_Divisor Buffering
begin

text \<open>
  The channels of a kernel (\<open>CKernelIo\<close> of \<open>io/CKernelIo.h/.cpp\<close>). Every connection has a manager,
  which is the module that drives the channel and a buffer. Small messages between kernels go to
  the channel at once; user data is divided for the channel, waits in its buffer, and an
  operation of the thread pool sends it. The locks delimit what other threads can see: \<open>begin_pop\<close>,
  \<open>begin_try\<close>, \<open>MNextSend\<close> and \<open>MPutUserDataToSendFifo\<close> run under a lock from their beginning to
  their end. The operations that need other services are in \<open>Routing_Service\<close>.

  The channel itself is input and output: what is handed to it is noted in \<open>FLog\<close>, and its answer
  is a parameter (\<open>link\<close>) that may depend on all that went before. \<open>place\<close> says which data lies in
  shared memory. The queue \<open>FRoutings\<close> is \<open>CThreadSafeQueue\<close> (\<open>SHARE/UType/CSafeQueue.h\<close>).
\<close>

section \<open>State\<close>

text \<open>What the template functions are instantiated with.\<close>

datatype kernel_msg =
    NetProgram program_id_t
  | NetKernels kernel_infos_array_t
  | NetFail fail_send_t
  | NetDemandsFor demand_dgs_for_t
  | NetDemands demand_dgs_t

record error_info_t =
  FErrorCode :: error_type
  FWhere :: id_t
  FErrorTo :: "uuid list"

definition no_error_info :: error_info_t where
  "no_error_info = \<lparr>FErrorCode = E_NO_ERROR, FWhere = id_of_uuid 0, FErrorTo = []\<rparr>"

definition error_info_MIsValid :: "error_info_t \<Rightarrow> bool" where
  "error_info_MIsValid e \<longleftrightarrow> FErrorCode e \<noteq> E_NO_ERROR"

definition no_route :: routing_t where
  "no_route = \<lparr>FRoute = [], FFrom = id_of_uuid 0\<rparr>"

datatype channel_event =
    SentMsg descriptor kernel_msg routing_t error_info_t
  | SentData descriptor user_data_t
  | CloseLink descriptor
  | OpenModule string
  | CloseModule string

type_synonym channel_link = "channel_event list \<Rightarrow> channel_event \<Rightarrow> bool"
type_synonym output_user_data_t = "(descriptor \<times> user_datas_t) list"

record routing_op_t =
  FOpDesc :: descriptor
  FOpTo :: routing_t
  FOpData :: kernel_msg

record manager_t =
  FWho :: string
  FDataBuffer :: buffering

text \<open>Operations that were given to the thread pool (\<open>CDataObject::MPutOperation\<close>).\<close>

datatype io_operation = SendUserOp | RouteOp

record kernel_io =
  FIsInited :: bool
  FRegistry :: "string list"
  FIoManagers :: "(descriptor, manager_t) omap"
  FOperartionSendFor :: "descriptor list"
  FRoutings :: "routing_op_t list"
  g_current_SM_buffer :: "32 word"
  FDivisor :: packet_divisor
  FOperations :: "io_operation list"
  FLog :: "channel_event list"

definition CKernelIo :: kernel_io where
  "CKernelIo = \<lparr>FIsInited = False, FRegistry = [], FIoManagers = [], FOperartionSendFor = [], FRoutings = [],
     g_current_SM_buffer = 0, FDivisor = CPacketDivisor, FOperations = [], FLog = []\<rparr>"

section \<open>Modules\<close>

text \<open>Opening and closing a module is noted; what it does is input and output.\<close>

definition MFactoryAdded :: "string \<Rightarrow> kernel_io \<Rightarrow> kernel_io" where
  "MFactoryAdded aType s = (if FIsInited s then s\<lparr>FLog := FLog s @ [OpenModule aType]\<rparr> else s)"

definition MStart :: "kernel_io \<Rightarrow> bool \<times> kernel_io" where
  "MStart s = (if FIsInited s then (False, s) else (True, fold MFactoryAdded (FRegistry s) (s\<lparr>FIsInited := True\<rparr>)))"

definition MStop :: "kernel_io \<Rightarrow> kernel_io" where
  "MStop s =
     (if \<not> FIsInited s then s
      else s\<lparr>FIsInited := False, FLog := FLog s @ map CloseModule (FRegistry s), FRegistry := []\<rparr>)"

section \<open>Channels come and go\<close>

text \<open>
  The section \<open>buffers\<close> of the configuration: for a kind of channel the settings that the module
  chooses for a connection, its default, and a default for all.
\<close>

record io_buffers_conf =
  conf_for :: "descriptor \<Rightarrow> buffer_conf option"
  conf_io_default :: "buffer_conf option"

record buffers_conf =
  conf_io :: "(string \<times> io_buffers_conf) list"
  conf_default :: "buffer_conf option"

definition no_conf :: buffer_conf where
  "no_conf = \<lparr>conf_maxbuf = None, conf_maxsmbuf = None, conf_sm = None\<rparr>"

definition MBufferingConfFor :: "buffers_conf option \<Rightarrow> descriptor \<Rightarrow> string \<Rightarrow> buffer_conf" where
  "MBufferingConfFor conf aName aWhere =
     (case conf of
        None \<Rightarrow> no_conf
      | Some c \<Rightarrow>
          (case map_of (conf_io c) aWhere of
             Some io \<Rightarrow>
               (case conf_for io aName of
                  Some f \<Rightarrow> f
                | None \<Rightarrow> (case conf_default c of Some f \<Rightarrow> f | None \<Rightarrow> no_conf))
           | None \<Rightarrow> (case conf_default c of Some f \<Rightarrow> f | None \<Rightarrow> no_conf)))"

definition MAddChannelFor ::
    "buffers_conf option \<Rightarrow> descriptor \<Rightarrow> string \<Rightarrow> split_info \<Rightarrow> kernel_io \<Rightarrow> kernel_io option" where
  "MAddChannelFor conf aVal aWhere aLimits s =
     (if om_has aVal (FIoManagers s) then Some s
      else if aWhere \<notin> set (FRegistry s) then None
      else Some (s\<lparr>FIoManagers := om_insert aVal
                      \<lparr>FWho = aWhere, FDataBuffer = CBuffering (MBufferingConfFor conf aVal aWhere)\<rparr> (FIoManagers s),
                   FDivisor := MSetLimitsFor aVal aLimits (FDivisor s)\<rparr>))"

definition MRemoveManagerFor :: "descriptor \<Rightarrow> kernel_io \<Rightarrow> placed_t list \<times> kernel_io" where
  "MRemoveManagerFor aVal s =
     (let s1 = s\<lparr>FOperartionSendFor := os_erase aVal (FOperartionSendFor s)\<rparr>
      in case om_get (FIoManagers s) aVal of
           None \<Rightarrow> ([], s1)
         | Some m \<Rightarrow> (fst (MClearImidiatle (FDataBuffer m)), s1\<lparr>FIoManagers := om_erase aVal (FIoManagers s)\<rparr>))"

definition MClose :: "descriptor \<Rightarrow> kernel_io \<Rightarrow> kernel_io" where
  "MClose aVal s =
     (if \<not> sMIsValid aVal \<or> \<not> om_has aVal (FIoManagers s) then s else s\<lparr>FLog := FLog s @ [CloseLink aVal]\<rparr>)"

section \<open>Messages between kernels\<close>

definition MSend :: "channel_link \<Rightarrow> channel_event \<Rightarrow> kernel_io \<Rightarrow> bool \<times> kernel_io" where
  "MSend link e s = (link (FLog s) e, s\<lparr>FLog := FLog s @ [e]\<rparr>)"

definition MSendTo_error ::
    "channel_link \<Rightarrow> descriptor \<Rightarrow> kernel_msg \<Rightarrow> routing_t \<Rightarrow> error_info_t \<Rightarrow> kernel_io \<Rightarrow> bool \<times> kernel_io" where
  "MSendTo_error link aBy aVal aTo aError s =
     (if \<not> sMIsValid aBy \<or> \<not> FIsInited s \<or> \<not> om_has aBy (FIoManagers s) then (False, s)
      else MSend link (SentMsg aBy aVal aTo aError) s)"

definition MSendTo_route :: "channel_link \<Rightarrow> descriptor \<Rightarrow> kernel_msg \<Rightarrow> routing_t \<Rightarrow> kernel_io \<Rightarrow> bool \<times> kernel_io" where
  "MSendTo_route link aBy aVal aTo s = MSendTo_error link aBy aVal aTo no_error_info s"

definition MSendTo_one :: "channel_link \<Rightarrow> descriptor \<Rightarrow> kernel_msg \<Rightarrow> kernel_io \<Rightarrow> bool \<times> kernel_io" where
  "MSendTo_one link aVal aWhat s = MSendTo_route link aVal aWhat no_route s"

definition MIsForMe :: "program_id_t \<Rightarrow> routing_t \<Rightarrow> bool" where
  "MIsForMe my aRoute \<longleftrightarrow> FUuid (FId my) \<in> set (FRoute aRoute)"

text \<open>\<open>push\<close> of the queue says whether there was something in it; the first one starts an operation.\<close>

definition MRouting :: "routing_t \<Rightarrow> kernel_msg \<Rightarrow> descriptor \<Rightarrow> kernel_io \<Rightarrow> kernel_io" where
  "MRouting aRoute aWhat aFrom s =
     (let s1 = s\<lparr>FRoutings := FRoutings s @ [\<lparr>FOpDesc = aFrom, FOpTo = aRoute, FOpData = aWhat\<rparr>]\<rparr>
      in if FRoutings s = [] then s1\<lparr>FOperations := FOperations s @ [RouteOp]\<rparr> else s1)"

section \<open>User data into the buffers\<close>

definition set_buffer :: "descriptor \<Rightarrow> manager_t \<Rightarrow> buffering \<Rightarrow> 32 word \<Rightarrow> kernel_io \<Rightarrow> kernel_io" where
  "set_buffer d m b sm s =
     s\<lparr>FIoManagers := om_set d (m\<lparr>FDataBuffer := b\<rparr>) (FIoManagers s), g_current_SM_buffer := sm\<rparr>"

definition put_operation :: "descriptor \<Rightarrow> kernel_io \<Rightarrow> kernel_io" where
  "put_operation aBy s =
     (if aBy \<in> set (FOperartionSendFor s) then s
      else s\<lparr>FOperartionSendFor := os_insert aBy (FOperartionSendFor s), FOperations := FOperations s @ [SendUserOp]\<rparr>)"

text \<open>The error, what is left of the data, and the next state.\<close>

definition MPutUserDataToSendFifo ::
    "(user_data_t \<Rightarrow> bool) \<Rightarrow> descriptor \<Rightarrow> user_datas_t \<Rightarrow> kernel_io \<Rightarrow> (error_type \<times> user_datas_t \<times> kernel_io) option" where
  "MPutUserDataToSendFifo place aBy aData s =
     (case om_get (FIoManagers s) aBy of
        None \<Rightarrow> Some (E_SOCKET_CLOSED, aData, s)
      | Some m \<Rightarrow>
          if aData = [] then None
          else (let (all, rest, sm, b) = MPut (map (\<lambda>d. (d, place d)) aData) (g_current_SM_buffer s) (FDataBuffer m);
                    s1 = set_buffer aBy m b sm s
                in Some (if all then E_NO_ERROR else E_BUFFER_IS_FULL, map fst rest,
                         if MIsWorking b then s1 else put_operation aBy s1)))"

definition MSendUserData ::
    "(user_data_t \<Rightarrow> bool) \<Rightarrow> descriptor \<Rightarrow> user_datas_t \<Rightarrow> kernel_io \<Rightarrow> (error_type \<times> user_datas_t \<times> kernel_io) option" where
  "MSendUserData place aBy aData s =
     (if \<not> sMIsValid aBy then Some (E_SOCKET_CLOSED, aData, s)
      else if aData = [] then Some (E_NO_ERROR, aData, s)
      else MPutUserDataToSendFifo place aBy aData s)"

definition send_failed :: "error_type \<Rightarrow> user_data_t \<Rightarrow> fail_send_t" where
  "send_failed e d = fail_MSetError e (fail_of_info (FDataId d))"

text \<open>What is appended to the list of errors and to the failed data, and the next state.\<close>

fun MSendTo ::
    "(user_data_t \<Rightarrow> bool) \<Rightarrow> output_user_data_t \<Rightarrow> kernel_io
       \<Rightarrow> (fail_send_t list \<times> user_datas_t \<times> kernel_io) option" where
  "MSendTo place [] s = Some ([], [], s)"
| "MSendTo place ((d, ds) # os) s = do {
     (to, failed, errs, v) \<leftarrow> MSplitOrMergeIfNeed d ds (FDivisor s);
     (e, rest, s1) \<leftarrow> MSendUserData place d to (s\<lparr>FDivisor := v\<rparr>);
     (errs2, failed2, s2) \<leftarrow> MSendTo place os s1;
     Some (if e = E_NO_ERROR then (errs @ errs2, failed @ failed2, s2)
           else (errs @ map (send_failed e) rest @ errs2, failed @ rest @ failed2, s2))
   }"

section \<open>User data out of the buffers\<close>

definition begin_pop :: "kernel_io \<Rightarrow> descriptor option \<times> kernel_io" where
  "begin_pop s =
     (case FOperartionSendFor s of
        [] \<Rightarrow> (None, s)
      | d # ds \<Rightarrow> (Some d, s\<lparr>FOperartionSendFor := ds\<rparr>))"

definition begin_try ::
    "32 word \<Rightarrow> descriptor \<Rightarrow> kernel_io \<Rightarrow> ((descriptor \<times> placed_t list) option \<times> kernel_io) option" where
  "begin_try th d s =
     (case om_get (FIoManagers s) d of
        None \<Rightarrow> Some (None, s)
      | Some m \<Rightarrow>
          if MIsWorking (FDataBuffer m) then Some (None, s)
          else map_option (\<lambda>(is, ds, sm, b). (if is then Some (d, ds) else None, set_buffer d m b sm s))
                 (MTry th (g_current_SM_buffer s) (FDataBuffer m)))"

definition MBeginSend :: "32 word \<Rightarrow> kernel_io \<Rightarrow> ((descriptor \<times> placed_t list) option \<times> kernel_io) option" where
  "MBeginSend th s =
     (case begin_pop s of
        (None, s1) \<Rightarrow> Some (None, s1)
      | (Some d, s1) \<Rightarrow> begin_try th d s1)"

text \<open>Whether there is more, what \<open>_data\<close> holds afterwards, and the next state.\<close>

definition MNextSend ::
    "32 word \<Rightarrow> descriptor \<Rightarrow> placed_t list \<Rightarrow> kernel_io \<Rightarrow> (bool \<times> placed_t list \<times> kernel_io) option" where
  "MNextSend th aDesc aData s =
     (case om_get (FIoManagers s) aDesc of
        None \<Rightarrow> Some (False, aData, s)
      | Some m \<Rightarrow>
          MFinish th aData False (FDataBuffer m) \<bind> (\<lambda>(left, b1).
          MTry th (g_current_SM_buffer s) b1 \<bind> (\<lambda>(is, ds, sm, b2).
            Some (is, left @ ds, set_buffer aDesc m b2 sm s))))"

text \<open>
  \<open>CDescriptors\<close>, here \<open>cs\<close>, is asked at every failure whether it knows the descriptor, until it does
  not. The result: the errors and the data not sent.
\<close>

fun sending_loop ::
    "channel_link \<Rightarrow> descriptors \<Rightarrow> descriptor \<Rightarrow> bool \<Rightarrow> user_datas_t \<Rightarrow> kernel_io
       \<Rightarrow> fail_send_t list \<times> user_datas_t \<times> kernel_io" where
  "sending_loop link cs aTo not_closed [] s = ([], [], s)"
| "sending_loop link cs aTo not_closed (d # ds) s =
     (let (sent, s1) = (if not_closed then MSend link (SentData aTo d) s else (False, s))
      in if sent then sending_loop link cs aTo not_closed ds s1
         else (let nc = (not_closed \<and> snd (MGet_info aTo cs));
                   e = send_failed (if nc then E_SOCKET_CLOSED else E_UNKNOWN_ERROR) d;
                   (es, fs, s2) = sending_loop link cs aTo nc ds s1
               in (e # es, d # fs, s2)))"

definition MSendingUserDataTo ::
    "channel_link \<Rightarrow> descriptors \<Rightarrow> descriptor \<Rightarrow> user_datas_t \<Rightarrow> kernel_io
       \<Rightarrow> fail_send_t list \<times> user_datas_t \<times> kernel_io" where
  "MSendingUserDataTo link cs aTo aData s = sending_loop link cs aTo True aData s"


section \<open>Steps on one channel\<close>

lemma set_buffer_simps [simp]:
  "FIoManagers (set_buffer d m b sm s) = om_set d (m\<lparr>FDataBuffer := b\<rparr>) (FIoManagers s)"
  "FOperartionSendFor (set_buffer d m b sm s) = FOperartionSendFor s"
  "FOperations (set_buffer d m b sm s) = FOperations s" "FLog (set_buffer d m b sm s) = FLog s"
  "g_current_SM_buffer (set_buffer d m b sm s) = sm"
  "FRegistry (set_buffer d m b sm s) = FRegistry s" "FIsInited (set_buffer d m b sm s) = FIsInited s"
  "FDivisor (set_buffer d m b sm s) = FDivisor s"
  by (simp_all add: set_buffer_def)

lemma put_operation_simps [simp]:
  "FIoManagers (put_operation d s) = FIoManagers s"
  "set (FOperartionSendFor (put_operation d s)) = insert d (set (FOperartionSendFor s))"
  "os_ok (FOperartionSendFor s) \<Longrightarrow> os_ok (FOperartionSendFor (put_operation d s))"
  "FLog (put_operation d s) = FLog s"
  by (auto simp: put_operation_def intro: om_intros)

lemma put_operation_count:
  assumes "length (FOperartionSendFor s) \<le> count_list (FOperations s) SendUserOp" "os_ok (FOperartionSendFor s)"
  shows "length (FOperartionSendFor (put_operation d s)) \<le> count_list (FOperations (put_operation d s)) SendUserOp"
proof -
  have "length (os_insert d (FOperartionSendFor s)) \<le> Suc (length (FOperartionSendFor s))"
    by (simp add: os_insert_def insort_insert_key_def)
  then show ?thesis using assms(1) by (simp add: put_operation_def)
qed

lemma MPutUserDataToSendFifo_cases:
  assumes "MPutUserDataToSendFifo place d ds s = Some (e, rest, t)"
  obtains (no_manager) "om_get (FIoManagers s) d = None" "e = E_SOCKET_CLOSED" "rest = ds" "t = s"
  | (buffered) m all r sm b where "om_get (FIoManagers s) d = Some m"
      "MPut (map (\<lambda>x. (x, place x)) ds) (g_current_SM_buffer s) (FDataBuffer m) = (all, r, sm, b)"
      "rest = map fst r" "e = (if all then E_NO_ERROR else E_BUFFER_IS_FULL)"
      "t = (if MIsWorking b then set_buffer d m b sm s else put_operation d (set_buffer d m b sm s))"
proof (cases "om_get (FIoManagers s) d")
  case None
  show ?thesis by (rule no_manager [OF None]) (use assms None in \<open>simp_all add: MPutUserDataToSendFifo_def\<close>)
next
  case (Some m)
  obtain all r sm b where p: "MPut (map (\<lambda>x. (x, place x)) ds) (g_current_SM_buffer s) (FDataBuffer m) = (all, r, sm, b)"
    by (metis prod_cases4)
  show ?thesis using assms Some p
    by (intro buffered [OF Some p]) (auto simp: MPutUserDataToSendFifo_def Let_def split: if_splits)
qed

definition waiting :: "kernel_io \<Rightarrow> descriptor \<Rightarrow> user_datas_t" where
  "waiting s d = (case om_get (FIoManagers s) d of None \<Rightarrow> [] | Some m \<Rightarrow> map fst (FDataList (FDataBuffer m)))"

definition handled_by_thread :: "kernel_io \<Rightarrow> descriptor \<Rightarrow> bool" where
  "handled_by_thread s d = (case om_get (FIoManagers s) d of None \<Rightarrow> False | Some m \<Rightarrow> MIsWorking (FDataBuffer m))"

definition full_for :: "kernel_io \<Rightarrow> descriptor \<Rightarrow> user_data_t \<Rightarrow> bool" where
  "full_for s d x = (case om_get (FIoManagers s) d of None \<Rightarrow> False
     | Some m \<Rightarrow> unat (FMaxBufferSizeForChannel (FDataBuffer m)) \<noteq> 0
         \<and> unat (FMaxBufferSizeForChannel (FDataBuffer m)) < unat (FBuffer (FDataBuffer m)) + length (FData x))"

definition io_ok :: "kernel_io \<Rightarrow> bool" where
  "io_ok s \<longleftrightarrow> om_ok (FIoManagers s) \<and> list_all (\<lambda>(d, m). buffer_ok (FDataBuffer m)) (FIoManagers s)"

lemma io_ok_get: "io_ok s \<Longrightarrow> om_get (FIoManagers s) d = Some m \<Longrightarrow> buffer_ok (FDataBuffer m)"
  unfolding io_ok_def list_all_iff by (auto dest: map_of_SomeD)

lemma io_ok_set_buffer: "io_ok s \<Longrightarrow> buffer_ok b \<Longrightarrow> io_ok (set_buffer d m b sm s)"
  using om_set_subset [of d "m\<lparr>FDataBuffer := b\<rparr>" "FIoManagers s"]
  by (auto simp: io_ok_def list_all_iff om_ok_set)

lemma io_ok_put_operation [simp]: "io_ok (put_operation d s) = io_ok s"
  by (simp add: io_ok_def)

lemma put_operation_keeps [simp]:
  "FDivisor (put_operation d s) = FDivisor s" "FIsInited (put_operation d s) = FIsInited s"
  "waiting (put_operation d s) x = waiting s x" "handled_by_thread (put_operation d s) x = handled_by_thread s x"
  by (simp_all add: put_operation_def waiting_def handled_by_thread_def)

text \<open>Nothing but the buffers, the count of shared memory and the operations change.\<close>

definition same_links :: "kernel_io \<Rightarrow> kernel_io \<Rightarrow> bool" where
  "same_links s t \<longleftrightarrow> (\<forall>d. om_has d (FIoManagers t) = om_has d (FIoManagers s)) \<and> FLog t = FLog s
     \<and> FIsInited t = FIsInited s \<and> FRoutings t = FRoutings s
     \<and> set (FOperartionSendFor s) \<subseteq> set (FOperartionSendFor t)"

lemma same_links_trans: "same_links s t \<Longrightarrow> same_links t u \<Longrightarrow> same_links s u"
  by (auto simp: same_links_def)

definition real_data :: "user_datas_t \<Rightarrow> bool" where
  "real_data ds \<longleftrightarrow> list_all (\<lambda>d. int (length (FData d)) < MAX_SIZE) ds"

definition refusal :: "kernel_io \<Rightarrow> descriptor \<Rightarrow> error_type" where
  "refusal s d = (if om_has d (FIoManagers s) then E_BUFFER_IS_FULL else E_SOCKET_CLOSED)"

text \<open>User data for one channel: a beginning of it is appended to what waits, the rest is given refused.\<close>

lemma MSendUserData_step:
  assumes "io_ok s" "sMIsValid d" "real_data ds"
  shows "\<exists>acc refused t. MSendUserData place d ds s = Some (if refused = [] then E_NO_ERROR else refusal s d, refused, t)
    \<and> ds = acc @ refused \<and> io_ok t \<and> FDivisor t = FDivisor s \<and> same_links s t
    \<and> waiting t d = waiting s d @ acc \<and> (\<forall>x. x \<noteq> d \<longrightarrow> om_get (FIoManagers t) x = om_get (FIoManagers s) x)
    \<and> (om_has d (FIoManagers s) \<longrightarrow>
         (refused \<noteq> [] \<longrightarrow> full_for t d (hd refused))
         \<and> (ds \<noteq> [] \<longrightarrow> handled_by_thread t d \<or> d \<in> set (FOperartionSendFor t)))
    \<and> (\<not> om_has d (FIoManagers s) \<longrightarrow> acc = [])"
proof (cases "ds = [] \<or> om_get (FIoManagers s) d = None")
  case True
  then have "MSendUserData place d ds s = Some (if ds = [] then E_NO_ERROR else refusal s d, ds, s)"
    using assms(2) by (auto simp: MSendUserData_def MPutUserDataToSendFifo_def refusal_def om_has_def)
  then show ?thesis using assms(1) True
    by (intro exI [of _ "[]"] exI [of _ ds] exI [of _ s]) (auto simp: same_links_def om_has_def)
next
  case False
  then obtain m where m: "om_get (FIoManagers s) d = Some m" by auto
  let ?b = "FDataBuffer m" and ?ds = "map (\<lambda>x. (x, place x)) ds"
  obtain all r sm b where put: "MPut ?ds (g_current_SM_buffer s) ?b = (all, r, sm, b)" by (metis prod_cases4)
  have "real_sizes ?ds" using assms(3) by (auto simp: real_sizes_def real_data_def list_all_iff)
  then obtain acc where acc: "FDataList b = FDataList ?b @ acc" "ds = map fst acc @ map fst r"
    "all = (r = [])" "buffer_ok b" "same_limits ?b b"
    "r \<noteq> [] \<longrightarrow> FMaxBufferSizeForChannel ?b \<noteq> 0
         \<and> unat (FMaxBufferSizeForChannel ?b) < unat (FBuffer b) + length (FData (fst (hd r)))"
    using MPut_ok [OF put io_ok_get [OF assms(1) m]] by (auto simp: comp_def)
  define t where "t = (if MIsWorking b then set_buffer d m b sm s else put_operation d (set_buffer d m b sm s))"
  have eq: "MSendUserData place d ds s = Some (if map fst r = [] then E_NO_ERROR else refusal s d, map fst r, t)"
    using False m put assms(2) acc(3)
    by (simp add: MSendUserData_def MPutUserDataToSendFifo_def t_def refusal_def om_has_def)
  have man: "FIoManagers t = om_set d (m\<lparr>FDataBuffer := b\<rparr>) (FIoManagers s)" by (simp add: t_def)
  have "om_has d (FIoManagers s)" using m by (simp add: om_has_def)
  then have "same_links s t"
    by (auto simp: same_links_def t_def om_has_set put_operation_def set_buffer_def)
  moreover have "io_ok t" using io_ok_set_buffer [OF assms(1) acc(4)] by (simp add: t_def)
  moreover have "waiting t d = waiting s d @ map fst acc"
    "\<And>x. x \<noteq> d \<Longrightarrow> om_get (FIoManagers t) x = om_get (FIoManagers s) x"
    using acc(1) m by (simp_all add: waiting_def man om_get_set)
  moreover have "map fst r \<noteq> [] \<longrightarrow> full_for t d (hd (map fst r))"
    using acc(5,6) by (auto simp: full_for_def man om_get_set hd_map same_limits_def unat_eq_zero)
  moreover have "handled_by_thread t d \<or> d \<in> set (FOperartionSendFor t)"
    by (auto simp: handled_by_thread_def man om_get_set t_def)
  moreover have "FDivisor t = FDivisor s" by (simp add: t_def)
  ultimately show ?thesis using eq acc(2) m
    by (intro exI [of _ "map fst acc"] exI [of _ "map fst r"] exI [of _ t]) (simp add: om_has_def)
qed

lemma same_channel:
  assumes "om_get (FIoManagers t) x = om_get (FIoManagers s) x"
  shows "waiting t x = waiting s x" "handled_by_thread t x = handled_by_thread s x" "full_for t x y = full_for s x y"
  using assms by (simp_all add: waiting_def handled_by_thread_def full_for_def)

section \<open>User data for several channels\<close>

text \<open>A channel that takes the messages as they are.\<close>

definition undivided :: "packet_divisor \<Rightarrow> descriptor \<Rightarrow> user_datas_t \<Rightarrow> bool" where
  "undivided v d ds =
     (case om_get (FLimitsInfo v) d of
        None \<Rightarrow> True
      | Some i \<Rightarrow>
          if MGetFlag (FMtuType i) CAN_NOT_SPLIT
          then list_all (\<lambda>x. \<not> MIsSplited (FSplit (FDataId x)) \<and> Packet_Divisor.fits i x) ds
          else \<not> MGetFlag (FMtuType i) LIMITED \<or> list_all (Packet_Divisor.fits i) ds)"

lemma undivided_loop:
  assumes "if MGetFlag (FMtuType i) CAN_NOT_SPLIT
      then list_all (\<lambda>x. \<not> MIsSplited (FSplit (FDataId x)) \<and> Packet_Divisor.fits i x) ds
      else \<not> MGetFlag (FMtuType i) LIMITED \<or> list_all (Packet_Divisor.fits i) ds"
  shows "divide_loop i d ds r = Some (r\<lparr>sent := sent r @ ds\<rparr>)"
  using assms by (induction ds arbitrary: r) (auto split: if_splits)

lemma undivided_passes: "undivided v d ds \<Longrightarrow> MSplitOrMergeIfNeed d ds v = Some (ds, [], [], v)"
  by (auto simp: undivided_def MSplitOrMergeIfNeed_def undivided_loop split: option.splits)

definition outputs_ok :: "kernel_io \<Rightarrow> output_user_data_t \<Rightarrow> bool" where
  "outputs_ok s os \<longleftrightarrow> distinct (map fst os)
     \<and> list_all (\<lambda>(d, ds). sMIsValid d \<and> real_data ds \<and> undivided (FDivisor s) d ds) os"

text \<open>What an output finds in the channel: a beginning was appended, \<open>refused\<close> was refused.\<close>

definition output_taken :: "kernel_io \<Rightarrow> kernel_io \<Rightarrow> descriptor \<Rightarrow> user_datas_t \<Rightarrow> user_datas_t \<Rightarrow> bool" where
  "output_taken s t d ds refused \<longleftrightarrow> (\<exists>acc. ds = acc @ refused \<and> waiting t d = waiting s d @ acc
     \<and> (om_has d (FIoManagers s) \<longrightarrow>
          (refused \<noteq> [] \<longrightarrow> full_for t d (hd refused))
          \<and> (ds \<noteq> [] \<longrightarrow> handled_by_thread t d \<or> d \<in> set (FOperartionSendFor t)))
     \<and> (\<not> om_has d (FIoManagers s) \<longrightarrow> acc = []))"

lemma MSendTo_outputs:
  assumes "io_ok s" "outputs_ok s os"
  shows "\<exists>refused t. MSendTo place os s = Some (concat (map (\<lambda>(d, ds). map (send_failed (refusal s d)) (refused d)) os),
       concat (map (\<lambda>(d, ds). refused d) os), t)
    \<and> io_ok t \<and> FDivisor t = FDivisor s \<and> same_links s t
    \<and> (\<forall>x. x \<notin> fst ` set os \<longrightarrow> om_get (FIoManagers t) x = om_get (FIoManagers s) x)
    \<and> (\<forall>(d, ds)\<in>set os. output_taken s t d ds (refused d))"
  using assms
proof (induction os arbitrary: s)
  case Nil
  then show ?case by (intro exI [of _ "\<lambda>_. []"] exI [of _ s]) (simp add: same_links_def)
next
  case (Cons o1 os)
  obtain d ds where o1: "o1 = (d, ds)" by fastforce
  have pre: "sMIsValid d" "real_data ds" "undivided (FDivisor s) d ds" "d \<notin> fst ` set os"
    using Cons.prems(2) by (auto simp: outputs_ok_def o1)
  obtain acc back1 s1 where one: "MSendUserData place d ds s = Some (if back1 = [] then E_NO_ERROR else refusal s d, back1, s1)"
    "ds = acc @ back1" "io_ok s1" "FDivisor s1 = FDivisor s" "same_links s s1" "waiting s1 d = waiting s d @ acc"
    "\<And>x. x \<noteq> d \<Longrightarrow> om_get (FIoManagers s1) x = om_get (FIoManagers s) x"
    and kept: "om_has d (FIoManagers s) \<Longrightarrow> (back1 \<noteq> [] \<longrightarrow> full_for s1 d (hd back1))
         \<and> (ds \<noteq> [] \<longrightarrow> handled_by_thread s1 d \<or> d \<in> set (FOperartionSendFor s1))"
    "\<not> om_has d (FIoManagers s) \<Longrightarrow> acc = []"
    using MSendUserData_step [OF Cons.prems(1) pre(1,2), of place] by blast
  have "outputs_ok s1 os" using Cons.prems(2) by (auto simp: outputs_ok_def o1 one(4))
  from Cons.IH [OF one(3) this] obtain refused t where t: "MSendTo place os s1 = Some (concat (map (\<lambda>(d, ds). map (send_failed (refusal s1 d)) (refused d)) os),
       concat (map (\<lambda>(d, ds). refused d) os), t)" "io_ok t" "FDivisor t = FDivisor s1" "same_links s1 t"
      "\<And>x. x \<notin> fst ` set os \<Longrightarrow> om_get (FIoManagers t) x = om_get (FIoManagers s1) x"
      "\<And>d ds. (d, ds) \<in> set os \<Longrightarrow> output_taken s1 t d ds (refused d)"
    by blast
  have ref: "refusal s1 = refusal s" using one(5) by (simp add: refusal_def same_links_def fun_eq_iff)
  let ?refused = "refused(d := back1)"
  have rest: "map (\<lambda>(d, ds). map (send_failed (refusal s d)) (?refused d)) os = map (\<lambda>(d, ds). map (send_failed (refusal s d)) (refused d)) os"
    "map (\<lambda>(d, ds). ?refused d) os = map (\<lambda>(d, ds). refused d) os"
    using pre(4) by (auto intro!: map_cong simp: image_iff)
  have "MSendTo place (o1 # os) s = Some (concat (map (\<lambda>(d, ds). map (send_failed (refusal s d)) (?refused d)) (o1 # os)),
       concat (map (\<lambda>(d, ds). ?refused d) (o1 # os)), t)"
    using undivided_passes [OF pre(3)] one(1) t(1) unfolding o1 list.map concat.simps rest ref
    by (auto simp: refusal_def E_BUFFER_IS_FULL_def E_SOCKET_CLOSED_def E_NO_ERROR_def)
  moreover have "output_taken s t d ds (?refused d)"
    using one(2,6) kept same_channel [OF t(5) [OF pre(4)]] t(4) unfolding output_taken_def
    by (intro exI [of _ acc]) (auto simp: same_links_def)
  moreover have "output_taken s t x xs (?refused x)" if "(x, xs) \<in> set os" for x xs
  proof -
    have "x \<noteq> d" using that pre(4) by force
    then show ?thesis using t(6) [OF that] one(5) same_channel(1) [OF one(7)] unfolding output_taken_def by (simp add: same_links_def)
  qed
  moreover have "same_links s t" using same_links_trans [OF one(5) t(4)] .
  moreover have "\<forall>x. x \<notin> fst ` set (o1 # os) \<longrightarrow> om_get (FIoManagers t) x = om_get (FIoManagers s) x"
    using t(5) one(7) by (auto simp: o1)
  ultimately show ?case using t(2,3) one(4) by (intro exI [of _ ?refused] exI [of _ t]) (auto simp: o1)
qed

section \<open>Sending from a buffer\<close>

text \<open>
  The messages that the channel took, out of those that were tried; once the connection is known
  to be closed nothing more is tried.
\<close>

definition link_took :: "channel_link \<Rightarrow> channel_event list \<Rightarrow> descriptor \<Rightarrow> user_datas_t \<Rightarrow> nat \<Rightarrow> bool" where
  "link_took link log d ds i = link (log @ map (SentData d) (take i ds)) (SentData d (ds ! i))"

lemma link_took_Suc:
  "link_took link log d (x # ds) (Suc i) = link_took link (log @ [SentData d x]) d ds i"
  by (simp add: link_took_def)

lemma sending_closed:
  "sending_loop link cs d False ds s = (map (send_failed E_UNKNOWN_ERROR) ds, ds, s)"
  by (induction ds) simp_all

definition picked :: "(nat \<Rightarrow> bool) \<Rightarrow> user_datas_t \<Rightarrow> user_datas_t" where
  "picked P ds = map ((!) ds) (filter P [0..<length ds])"

lemma picked_Cons: "picked P (x # ds) = (if P 0 then [x] else []) @ picked (P \<circ> Suc) ds"
proof -
  have "filter P [0..<length (x # ds)] = (if P 0 then [0] else []) @ map Suc (filter (P \<circ> Suc) [0..<length ds])"
    by (simp add: upt_conv_Cons map_Suc_upt [symmetric] filter_map del: upt_Suc)
  then show ?thesis by (simp add: picked_def comp_def)
qed

lemma sending_alive:
  "snd (MGet_info d cs) \<Longrightarrow> sending_loop link cs d True ds s =
     (map (send_failed E_SOCKET_CLOSED) (picked (\<lambda>i. \<not> link_took link (FLog s) d ds i) ds),
      picked (\<lambda>i. \<not> link_took link (FLog s) d ds i) ds, s\<lparr>FLog := FLog s @ map (SentData d) ds\<rparr>)"
proof (induction ds arbitrary: s)
  case Nil
  then show ?case by (simp add: picked_def)
next
  case (Cons x ds)
  have "link_took link (FLog s) d (x # ds) 0 = link (FLog s) (SentData d x)" by (simp add: link_took_def)
  then show ?case using Cons by (simp add: MSend_def picked_Cons link_took_Suc comp_def)
qed

section \<open>Shared memory of a removed channel\<close>

text \<open>
  The count of shared memory is that of all channels, until a channel is removed that has shared data
  in its buffer: the data goes and the count stays.
\<close>

definition shared_counted :: "kernel_io \<Rightarrow> bool" where
  "shared_counted s \<longleftrightarrow> g_current_SM_buffer s = sum_list (map (\<lambda>(d, m). ucast (FSMBuffer (FDataBuffer m))) (FIoManagers s))"

lemma removed_channel_stays_counted:
  assumes "io_ok s" "shared_counted s" "om_get (FIoManagers s) d = Some m"
  shows "shared_counted (snd (MRemoveManagerFor d s)) \<longleftrightarrow> (ucast (FSMBuffer (FDataBuffer m)) :: 32 word) = 0"
proof -
  let ?w = "\<lambda>(d :: descriptor, m). ucast (FSMBuffer (FDataBuffer m)) :: 32 word"
  have "sum_list (map ?w ms) = sum_list (map ?w (om_erase d ms)) + ucast (FSMBuffer (FDataBuffer m))"
    if "om_ok ms" "om_get ms d = Some m" for ms
    using that
  proof (induction ms)
    case (Cons e ms)
    show ?case
    proof (cases "fst e = d")
      case True
      then have "om_erase d (e # ms) = ms" using Cons.prems(1)
        by (auto simp: om_erase_def om_ok_Cons filter_id_conv)
      then show ?thesis using True Cons.prems(2) by (cases e) simp
    next
      case False
      then have "om_erase d (e # ms) = e # om_erase d ms" by (simp add: om_erase_def)
      then show ?thesis using False Cons by (cases e) (simp add: om_ok_Cons algebra_simps)
    qed
  qed simp
  then show ?thesis using assms by (auto simp: shared_counted_def MRemoveManagerFor_def io_ok_def)
qed

text \<open>A default for one kind of channel is never used, though the message that is logged says so.\<close>

lemma own_default_unused:
  "MBufferingConfFor (Some (c\<lparr>conf_io := map (\<lambda>(t, io). (t, io\<lparr>conf_io_default := f t\<rparr>)) (conf_io c)\<rparr>)) d who =
     MBufferingConfFor (Some c) d who"
proof -
  have m: "map_of (map (\<lambda>(t, io). (t, io\<lparr>conf_io_default := f t\<rparr>)) ts) who =
      map_option (\<lambda>io. io\<lparr>conf_io_default := f who\<rparr>) (map_of ts who)" for ts
    by (induction ts) auto
  show ?thesis by (cases "map_of (conf_io c) who") (simp_all add: MBufferingConfFor_def m split: option.split)
qed

section \<open>Properties\<close>

definition sample_io :: kernel_io where
  "sample_io = the (MAddChannelFor (Some \<lparr>conf_io = [], conf_default = Some \<lparr>conf_maxbuf = Some 6, conf_maxsmbuf = None, conf_sm = None\<rparr>\<rparr>)
     3 ''tcp'' default_split_info (CKernelIo\<lparr>FIsInited := True, FRegistry := [''tcp'']\<rparr>))"

text \<open>
  C26: User data for several channels is never lost on its way into the buffers: for every channel a
  beginning of its messages is appended, in order, to what waits, and an operation will send it; the
  rest is given back, each message with one error, which says that the buffer is full or that
  there is no such channel. Other channels do not change. (The channels take the messages as they
  are; what \<open>CPacketDivisor\<close> does to others is the subject of \<open>Packet_Divisor\<close>.)
\<close>

theorem user_data_buffered_or_given_back:
  assumes "io_ok s" "outputs_ok s os"
  shows "\<exists>refused t. MSendTo place os s = Some (concat (map (\<lambda>(d, ds). map (send_failed (refusal s d)) (refused d)) os),
       concat (map (\<lambda>(d, ds). refused d) os), t)
    \<and> (\<forall>x. x \<notin> fst ` set os \<longrightarrow> waiting t x = waiting s x)
    \<and> (\<forall>(d, ds)\<in>set os. \<exists>acc. ds = acc @ refused d \<and> waiting t d = waiting s d @ acc
         \<and> (if om_has d (FIoManagers s)
            then (refused d \<noteq> [] \<longrightarrow> full_for t d (hd (refused d)))
               \<and> (ds \<noteq> [] \<longrightarrow> handled_by_thread t d \<or> d \<in> set (FOperartionSendFor t))
            else acc = []))"
proof -
  obtain refused t where t: "MSendTo place os s = Some (concat (map (\<lambda>(d, ds). map (send_failed (refusal s d)) (refused d)) os),
       concat (map (\<lambda>(d, ds). refused d) os), t)"
    "\<And>x. x \<notin> fst ` set os \<Longrightarrow> om_get (FIoManagers t) x = om_get (FIoManagers s) x"
    "\<forall>(d, ds)\<in>set os. output_taken s t d ds (refused d)"
    using MSendTo_outputs [OF assms, of place] by blast
  then show ?thesis using same_channel(1) [OF t(2)] unfolding output_taken_def
    by (intro exI [of _ refused] exI [of _ t]) fastforce
qed

theorem user_data_buffered_or_given_back_witness:
  "\<exists>(refused :: descriptor \<Rightarrow> user_datas_t) t. MSendTo (\<lambda>_. False) [(3, [sample_data 4, sample_data 5]), (8, [sample_data 1])] sample_io =
     Some (map (send_failed (refusal sample_io 3)) (refused 3) @ map (send_failed (refusal sample_io 8)) (refused 8),
       refused 3 @ refused 8, t) \<and> waiting t 5 = waiting sample_io 5"
proof -
  let ?os = "[(3, [sample_data 4, sample_data 5]), (8, [sample_data 1])]"
  have ok: "io_ok sample_io" "outputs_ok sample_io ?os" by code_simp+
  obtain refused t where t: "MSendTo (\<lambda>_. False) ?os sample_io =
      Some (concat (map (\<lambda>(d, ds). map (send_failed (refusal sample_io d)) (refused d)) ?os), concat (map (\<lambda>(d, ds). refused d) ?os), t)"
    "\<forall>x. x \<notin> fst ` set ?os \<longrightarrow> waiting t x = waiting sample_io x"
    using user_data_buffered_or_given_back [OF ok, of "\<lambda>_. False"] by blast
  show ?thesis by (rule exI [of _ refused], rule exI [of _ t]) (use t in \<open>simp del: MSendTo.simps\<close>)
qed

text \<open>
  C27: While the connection is known, a thread tries to send every message of the buffer, once and in
  order; those that the channel does not take are reported and kept. They are reported as
  sent to a closed socket. When the connection is no longer known the first failure ends
  the attempts, and the failed message and all after it are reported as an unknown error: the two
  codes are used the wrong way round.
\<close>

theorem failed_sends_reported:
  fixes link d ds s
  defines "took \<equiv> link_took link (FLog s) d ds"
  shows "(if snd (MGet_info d cs)
     then MSendingUserDataTo link cs d ds s =
       (map (send_failed E_SOCKET_CLOSED) (picked (\<lambda>i. \<not> took i) ds), picked (\<lambda>i. \<not> took i) ds,
        s\<lparr>FLog := FLog s @ map (SentData d) ds\<rparr>)
     else \<exists>n\<le>length ds. (\<forall>i<n. took i) \<and> (n < length ds \<longrightarrow> \<not> took n)
       \<and> MSendingUserDataTo link cs d ds s = (map (send_failed E_UNKNOWN_ERROR) (drop n ds), drop n ds,
           s\<lparr>FLog := FLog s @ map (SentData d) (take (Suc n) ds)\<rparr>))"
proof (cases "snd (MGet_info d cs)")
  case True
  then show ?thesis by (simp add: MSendingUserDataTo_def sending_alive took_def)
next
  case gone: False
  have "\<exists>n\<le>length ds. (\<forall>i<n. link_took link (FLog s) d ds i) \<and> (n < length ds \<longrightarrow> \<not> link_took link (FLog s) d ds n)
       \<and> sending_loop link cs d True ds s = (map (send_failed E_UNKNOWN_ERROR) (drop n ds), drop n ds,
           s\<lparr>FLog := FLog s @ map (SentData d) (take (Suc n) ds)\<rparr>)" for s :: kernel_io
  proof (induction ds arbitrary: s)
    case Nil
    then show ?case by simp
  next
    case (Cons x ds)
    have head: "link_took link (FLog s) d (x # ds) 0 = link (FLog s) (SentData d x)" by (simp add: link_took_def)
    show ?case
    proof (cases "link (FLog s) (SentData d x)")
      case True
      let ?s = "s\<lparr>FLog := FLog s @ [SentData d x]\<rparr>"
      obtain n where n: "n \<le> length ds" "\<forall>i<n. link_took link (FLog ?s) d ds i"
        "n < length ds \<longrightarrow> \<not> link_took link (FLog ?s) d ds n"
        "sending_loop link cs d True ds ?s = (map (send_failed E_UNKNOWN_ERROR) (drop n ds), drop n ds,
           ?s\<lparr>FLog := FLog ?s @ map (SentData d) (take (Suc n) ds)\<rparr>)"
        using Cons.IH by blast
      have "\<forall>i<Suc n. link_took link (FLog s) d (x # ds) i"
        using n(2) head True by (simp add: All_less_Suc2 link_took_Suc)
      then show ?thesis using n True by (intro exI [of _ "Suc n"]) (simp add: MSend_def link_took_Suc)
    next
      case False
      then show ?thesis using head by (intro exI [of _ 0]) (simp add: MSend_def sending_closed gone)
    qed
  qed
  then show ?thesis using gone by (simp add: MSendingUserDataTo_def took_def)
qed

theorem failed_sends_reported_witness:
  "MSendingUserDataTo (\<lambda>l e. length l \<noteq> 0) CDescriptors 3 [sample_data 4] sample_io =
     ([send_failed E_UNKNOWN_ERROR (sample_data 4)], [sample_data 4], sample_io\<lparr>FLog := FLog sample_io @ [SentData 3 (sample_data 4)]\<rparr>)"
proof -
  have closed: "\<not> snd (MGet_info 3 CDescriptors)" by code_simp
  have "FLog sample_io = []" by code_simp
  then have none: "\<not> link_took (\<lambda>l e. length l \<noteq> 0) (FLog sample_io) 3 [sample_data 4] 0" by (simp add: link_took_def)
  obtain n where n: "n \<le> 1" "\<forall>i<n. link_took (\<lambda>l e. length l \<noteq> 0) (FLog sample_io) 3 [sample_data 4] i"
    "MSendingUserDataTo (\<lambda>l e. length l \<noteq> 0) CDescriptors 3 [sample_data 4] sample_io =
       (map (send_failed E_UNKNOWN_ERROR) (drop n [sample_data 4]), drop n [sample_data 4],
        sample_io\<lparr>FLog := FLog sample_io @ map (SentData 3) (take (Suc n) [sample_data 4])\<rparr>)"
    using failed_sends_reported [of 3 CDescriptors "\<lambda>l e. length l \<noteq> 0" "[sample_data 4]" sample_io] closed by auto
  have "n = 0" using n(1,2) none by (cases n) auto
  then show ?thesis using n(3) by simp
qed

end
