(* ===== verification/Send_Threads.thy ===== *)
theory Send_Threads
  imports Kernel_Io
begin

text \<open>
  The threads that send user data. Any thread may put messages into the buffer of a channel;
  operations of the thread pool run \<open>MSendUserDataImpl\<close> of \<open>CKernelIo.cpp\<close>, which takes a channel out of
  \<open>FOperartionSendFor\<close>, empties its buffer, sends, and looks again until the buffer is empty. Here the
  parts of \<open>MSendUserDataImpl\<close> that run under one lock are the steps of a relation, so that the steps of
  all threads interleave in every possible way, also with channels that are added and removed
  and with connections that are closed.
\<close>

section \<open>Threads\<close>

datatype worker =
    Idle
  | Popped descriptor
  | Taken descriptor "placed_t list"
  | Sending descriptor "placed_t list"
  | Sent descriptor

fun busy_with :: "worker \<Rightarrow> descriptor option" where
  "busy_with (Taken d ds) = Some d"
| "busy_with (Sending d ds) = Some d"
| "busy_with (Sent d) = Some d"
| "busy_with _ = None"

fun in_flight :: "worker \<Rightarrow> user_datas_t" where
  "in_flight (Taken d ds) = map fst ds"
| "in_flight (Sending d ds) = map fst ds"
| "in_flight _ = []"

text \<open>
  \<open>phases\<close> is where each thread is, by its number, \<open>gone\<close> the connections that are closed and \<open>used\<close> the
  descriptors that were given out, none of them twice. What was accepted for a channel and
  what was handed on from it are recorded.
\<close>

record send_sys =
  sys_io :: kernel_io
  phases :: "32 word \<Rightarrow> worker"
  gone :: "descriptor list"
  used :: "descriptor list"
  accepted :: "descriptor \<Rightarrow> user_datas_t"
  handed :: "descriptor \<Rightarrow> user_datas_t"

definition start_sys :: "string list \<Rightarrow> send_sys" where
  "start_sys reg = \<lparr>sys_io = CKernelIo\<lparr>FIsInited := True, FRegistry := reg\<rparr>, phases = \<lambda>_. Idle, gone = [], used = [],
     accepted = \<lambda>_. [], handed = \<lambda>_. []\<rparr>"

definition go :: "32 word \<Rightarrow> worker \<Rightarrow> send_sys \<Rightarrow> send_sys" where
  "go w p s = s\<lparr>phases := (phases s)(w := p)\<rparr>"

text \<open>
  The steps: messages are put; a thread begins an operation that waits in the pool; it tries the
  channel; it looks whether the connection is there; it sends, which changes the log of what went
  to channels; it looks for more; a channel is added or removed, a connection closed.
\<close>

inductive send_step :: "(user_data_t \<Rightarrow> bool) \<Rightarrow> send_sys \<Rightarrow> send_sys \<Rightarrow> bool" for place where
  put: "ds \<noteq> [] \<Longrightarrow> list_all (\<lambda>d. int (length (FData d)) < MAX_SIZE) ds \<Longrightarrow>
     MPutUserDataToSendFifo place d ds (sys_io s) = Some (e, rest, io) \<Longrightarrow>
     send_step place s (s\<lparr>sys_io := io,
       accepted := (accepted s)(d := accepted s d @ take (length ds - length rest) ds)\<rparr>)"
| start: "w \<noteq> 0 \<Longrightarrow> phases s w = Idle \<Longrightarrow> SendUserOp \<in> set (FOperations (sys_io s)) \<Longrightarrow>
     begin_pop (sys_io s) = (x, io) \<Longrightarrow>
     send_step place s (go w (case x of None \<Rightarrow> Idle | Some d \<Rightarrow> Popped d)
       (s\<lparr>sys_io := io\<lparr>FOperations := remove1 SendUserOp (FOperations io)\<rparr>\<rparr>))"
| attempt: "phases s w = Popped d \<Longrightarrow> begin_try w d (sys_io s) = Some (x, io) \<Longrightarrow>
     send_step place s (go w (case x of None \<Rightarrow> Idle | Some (e, ds) \<Rightarrow> Taken e ds) (s\<lparr>sys_io := io\<rparr>))"
| look: "phases s w = Taken d ds \<Longrightarrow>
     send_step place s (go w (if d \<in> set (gone s) then Idle else Sending d ds) s)"
| send: "phases s w = Sending d ds \<Longrightarrow>
     send_step place s (go w (Sent d) (s\<lparr>sys_io := (sys_io s)\<lparr>FLog := l\<rparr>,
       handed := (handed s)(d := handed s d @ map fst ds)\<rparr>))"
| more: "phases s w = Sent d \<Longrightarrow> MNextSend w d [] (sys_io s) = Some (is, ds, io) \<Longrightarrow>
     send_step place s (go w (if is then Sending d ds else Idle) (s\<lparr>sys_io := io\<rparr>))"
| add: "d \<notin> set (used s) \<Longrightarrow> MAddChannelFor conf d who lim (sys_io s) = Some io \<Longrightarrow>
     send_step place s (s\<lparr>sys_io := io, used := d # used s\<rparr>)"
| remove: "send_step place s (s\<lparr>sys_io := snd (MRemoveManagerFor d (sys_io s))\<rparr>)"
| close: "send_step place s (s\<lparr>gone := d # gone s\<rparr>)"

definition reachable_sys :: "(user_data_t \<Rightarrow> bool) \<Rightarrow> string list \<Rightarrow> send_sys \<Rightarrow> bool" where
  "reachable_sys place reg s \<longleftrightarrow> (send_step place)\<^sup>*\<^sup>* (start_sys reg) s"

section \<open>Invariant\<close>

text \<open>
  One channel: its buffer is well-formed; the thread noted in it is the one that is busy with the
  channel; where something waits a thread is busy with it, an operation for it is noted, or
  a thread is about to try it; and nothing is lost or overtaken.
\<close>

definition channel_ok :: "send_sys \<Rightarrow> descriptor \<Rightarrow> buffering \<Rightarrow> bool" where
  "channel_ok s d b \<longleftrightarrow> buffer_ok b
     \<and> (\<forall>w. busy_with (phases s w) = Some d \<longrightarrow> FDoingThread b = w)
     \<and> (d \<notin> set (gone s) \<longrightarrow>
          (FDoingThread b \<noteq> 0 \<longrightarrow> busy_with (phases s (FDoingThread b)) = Some d)
          \<and> (FDataList b \<noteq> [] \<longrightarrow> FDoingThread b \<noteq> 0 \<or> d \<in> set (FOperartionSendFor (sys_io s)) \<or> (\<exists>w. phases s w = Popped d))
          \<and> accepted s d = handed s d
              @ (if FDoingThread b = 0 then [] else in_flight (phases s (FDoingThread b))) @ map fst (FDataList b))"

definition sys_ok :: "send_sys \<Rightarrow> bool" where
  "sys_ok s \<longleftrightarrow> om_ok (FIoManagers (sys_io s)) \<and> os_ok (FOperartionSendFor (sys_io s))
     \<and> phases s 0 = Idle
     \<and> (\<forall>w d. busy_with (phases s w) = Some d \<longrightarrow> d \<in> set (used s))
     \<and> (\<forall>d. om_has d (FIoManagers (sys_io s)) \<longrightarrow> d \<in> set (used s))
     \<and> (\<forall>d. d \<notin> set (used s) \<longrightarrow> accepted s d = [] \<and> handed s d = [])
     \<and> length (FOperartionSendFor (sys_io s)) \<le> count_list (FOperations (sys_io s)) SendUserOp
     \<and> (\<forall>d m. om_get (FIoManagers (sys_io s)) d = Some m \<longrightarrow> channel_ok s d (FDataBuffer m))"


lemma go_simps [simp]:
  "sys_io (go w p s) = sys_io s" "phases (go w p s) = (phases s)(w := p)" "gone (go w p s) = gone s"
  "used (go w p s) = used s" "accepted (go w p s) = accepted s" "handed (go w p s) = handed s"
  by (simp_all add: go_def)

definition awaited :: "send_sys \<Rightarrow> descriptor \<Rightarrow> bool" where
  "awaited s d \<longleftrightarrow> d \<in> set (FOperartionSendFor (sys_io s)) \<or> (\<exists>w. phases s w = Popped d)"

text \<open>A step that leaves the threads busy with a channel and its records alone leaves the channel well-formed.\<close>

lemma channel_frame:
  assumes "channel_ok s d b" "set (gone s) \<subseteq> set (gone t)" "accepted t d = accepted s d" "handed t d = handed s d"
    "awaited s d \<Longrightarrow> awaited t d"
    "\<And>w. busy_with (phases t w) = Some d \<longleftrightarrow> busy_with (phases s w) = Some d"
    "\<And>w. busy_with (phases s w) = Some d \<Longrightarrow> in_flight (phases t w) = in_flight (phases s w)"
  shows "channel_ok t d b"
proof -
  have b: "busy_with (phases s (FDoingThread b)) = Some d" if "d \<notin> set (gone t)" "FDoingThread b \<noteq> 0"
    using assms(1,2) that by (auto simp: channel_ok_def)
  have a: "FDoingThread b \<noteq> 0 \<or> awaited t d" if "d \<notin> set (gone t)" "FDataList b \<noteq> []"
    using assms(1,2,5) that unfolding channel_ok_def awaited_def by blast
  have f: "accepted s d = handed s d
      @ (if FDoingThread b = 0 then [] else in_flight (phases s (FDoingThread b))) @ map fst (FDataList b)"
    if "d \<notin> set (gone t)"
    using assms(1,2) that unfolding channel_ok_def by blast
  have "buffer_ok b" "\<forall>w. busy_with (phases s w) = Some d \<longrightarrow> FDoingThread b = w"
    using assms(1) unfolding channel_ok_def by blast+
  then show ?thesis unfolding channel_ok_def assms(3,4,6)
    using a b f assms(7) by (simp add: awaited_def disj_assoc)
qed

lemma sys_ok_channel: "sys_ok s \<Longrightarrow> om_get (FIoManagers (sys_io s)) d = Some m \<Longrightarrow> channel_ok s d (FDataBuffer m)"
  by (simp add: sys_ok_def)

lemma sys_put:
  assumes "sys_ok s" "list_all (\<lambda>d. int (length (FData d)) < MAX_SIZE) ds"
    "MPutUserDataToSendFifo place d ds (sys_io s) = Some (e, rest, io)"
  shows "sys_ok (s\<lparr>sys_io := io, accepted := (accepted s)(d := accepted s d @ take (length ds - length rest) ds)\<rparr>)"
    (is "sys_ok ?t")
  using assms(3)
proof (cases rule: MPutUserDataToSendFifo_cases)
  case no_manager
  then have "?t = s" by simp
  then show ?thesis using assms(1) by simp
next
  case (buffered m all r sm b)
  let ?ds = "map (\<lambda>x. (x, place x)) ds"
  have ok: "channel_ok s d (FDataBuffer m)" using sys_ok_channel [OF assms(1)] buffered(1) by simp
  have "real_sizes ?ds" using assms(2) by (auto simp: real_sizes_def list_all_iff)
  then obtain acc where acc: "FDataList b = FDataList (FDataBuffer m) @ acc" "ds = map fst acc @ map fst r"
    "buffer_ok b" "same_limits (FDataBuffer m) b"
    using MPut_ok [OF buffered(2)] ok by (auto simp: channel_ok_def comp_def)
  have th: "FDoingThread b = FDoingThread (FDataBuffer m)" using acc(4) by (simp add: same_limits_def)
  have got: "take (length ds - length rest) ds = map fst acc" using acc(2) buffered(3) by simp
  have has: "om_has d (FIoManagers (sys_io s))" using buffered(1) by (simp add: om_has_def)
  have io: "FIoManagers io = om_set d (m\<lparr>FDataBuffer := b\<rparr>) (FIoManagers (sys_io s))"
    "set (FOperartionSendFor (sys_io s)) \<subseteq> set (FOperartionSendFor io)"
    "\<not> MIsWorking b \<Longrightarrow> d \<in> set (FOperartionSendFor io)"
    "os_ok (FOperartionSendFor io)" "length (FOperartionSendFor io) \<le> count_list (FOperations io) SendUserOp"
    using buffered(5) assms(1) put_operation_count [of "set_buffer d m b sm (sys_io s)" d] by (auto simp: sys_ok_def)
  have "channel_ok ?t d b"
    using ok acc th got io(3) unfolding channel_ok_def by (auto simp: MIsWorking_def word_gt_0)
  moreover have "channel_ok ?t x (FDataBuffer n)" if "x \<noteq> d" "om_get (FIoManagers (sys_io s)) x = Some n" for x n
    using io(2) that by (intro channel_frame [OF sys_ok_channel [OF assms(1) that(2)]]) (auto simp: awaited_def)
  ultimately have "channel_ok ?t x (FDataBuffer n)" if "om_get (FIoManagers io) x = Some n" for x n
    using that by (auto simp: io(1) om_get_set split: if_splits)
  then show ?thesis using assms(1) has io unfolding sys_ok_def by (auto simp: om_has_set om_ok_set)
qed

lemma awaited_go:
  assumes "awaited s e" "phases s w \<noteq> Popped e" "\<And>v. v \<noteq> w \<Longrightarrow> phases t v = phases s v"
    "set (FOperartionSendFor (sys_io s)) \<subseteq> set (FOperartionSendFor (sys_io t))"
  shows "awaited t e"
  using assms unfolding awaited_def by (metis subsetD)

lemma channel_frame_go:
  assumes "channel_ok s e b" "set (gone s) \<subseteq> set (gone t)" "accepted t e = accepted s e" "handed t e = handed s e"
    "set (FOperartionSendFor (sys_io s)) \<subseteq> set (FOperartionSendFor (sys_io t))"
    "phases t = (phases s)(w := p)" "phases s w \<noteq> Popped e"
    "busy_with p = Some e \<longleftrightarrow> busy_with (phases s w) = Some e"
    "busy_with p = Some e \<Longrightarrow> in_flight p = in_flight (phases s w)"
  shows "channel_ok t e b"
proof (rule channel_frame [OF assms(1-4)])
  show "awaited s e \<Longrightarrow> awaited t e" using assms(5-7) by (elim awaited_go [where w = w]) auto
qed (use assms(6,8,9) in auto)

lemma sys_start:
  assumes "sys_ok s" "w \<noteq> 0" "phases s w = Idle" "SendUserOp \<in> set (FOperations (sys_io s))"
    "begin_pop (sys_io s) = (x, io)"
  shows "sys_ok (go w (case x of None \<Rightarrow> Idle | Some d \<Rightarrow> Popped d)
     (s\<lparr>sys_io := io\<lparr>FOperations := remove1 SendUserOp (FOperations io)\<rparr>\<rparr>))" (is "sys_ok ?t")
proof -
  have count: "count_list (FOperations (sys_io s)) SendUserOp = Suc (count_list (remove1 SendUserOp (FOperations (sys_io s))) SendUserOp)"
    using assms(4) count_list_0_iff [of "FOperations (sys_io s)" SendUserOp] by (simp add: count_list_remove1)
  have left: "length (FOperartionSendFor (sys_io s)) \<le> Suc (count_list (remove1 SendUserOp (FOperations (sys_io s))) SendUserOp)"
    using assms(1) unfolding sys_ok_def count by blast
  have io: "FIoManagers io = FIoManagers (sys_io s)" "FOperations io = FOperations (sys_io s)"
    "FOperartionSendFor io = tl (FOperartionSendFor (sys_io s))" "x = None \<longleftrightarrow> FOperartionSendFor (sys_io s) = []"
    "\<And>d. x = Some d \<Longrightarrow> d = hd (FOperartionSendFor (sys_io s))"
    using assms(5) by (auto simp: begin_pop_def split: list.splits)
  have free: "busy_with (phases ?t v) = busy_with (phases s v)" "in_flight (phases ?t v) = in_flight (phases s v)" for v
    using assms(3) by (auto split: option.splits)
  have wake: "awaited ?t d" if wd: "awaited s d" for d
  proof (cases "d \<in> set (FOperartionSendFor (sys_io s))")
    case True
    then obtain e es where e: "FOperartionSendFor (sys_io s) = e # es" by (cases "FOperartionSendFor (sys_io s)") auto
    then have "x = Some e" using io(4,5) by (cases x) auto
    then show ?thesis using True e io(3) by (auto simp: awaited_def)
  next
    case False
    then obtain v where "phases s v = Popped d" using wd by (auto simp: awaited_def)
    moreover from this have "v \<noteq> w" using assms(3) by auto
    ultimately show ?thesis by (auto simp: awaited_def)
  qed
  have "channel_ok ?t d (FDataBuffer m)" if "om_get (FIoManagers (sys_io s)) d = Some m" for d m
  proof (rule channel_frame [OF sys_ok_channel [OF assms(1) that]])
    show "awaited s d \<Longrightarrow> awaited ?t d" by (rule wake)
  qed (unfold free, simp_all)
  moreover have "length (FOperartionSendFor (sys_io ?t)) \<le> count_list (FOperations (sys_io ?t)) SendUserOp"
    using left by (simp add: io)
  moreover have "os_ok (tl (FOperartionSendFor (sys_io s)))"
    using assms(1) by (cases "FOperartionSendFor (sys_io s)") (auto simp: sys_ok_def os_ok_Cons)
  moreover have "\<forall>v d. busy_with (phases ?t v) = Some d \<longrightarrow> d \<in> set (used s)"
    unfolding free using assms(1) by (simp add: sys_ok_def)
  moreover have "phases ?t 0 = Idle" using assms(1,2) by (simp add: sys_ok_def)
  ultimately show ?thesis using assms(1) unfolding sys_ok_def by (simp add: io)
qed

text \<open>A thread tries a channel: it takes all that waits, or there is nothing for it to do.\<close>

lemma begin_try_cases:
  assumes "sys_ok s" "w \<noteq> 0"
  shows "(\<exists>io. begin_try w d (sys_io s) = Some (None, io) \<and> FIoManagers io = FIoManagers (sys_io s)
        \<and> FOperartionSendFor io = FOperartionSendFor (sys_io s) \<and> FOperations io = FOperations (sys_io s)
        \<and> (\<forall>m. om_get (FIoManagers (sys_io s)) d = Some m \<longrightarrow> FDoingThread (FDataBuffer m) \<noteq> 0 \<or> FDataList (FDataBuffer m) = []))
    \<or> (\<exists>m b sm. om_get (FIoManagers (sys_io s)) d = Some m \<and> FDoingThread (FDataBuffer m) = 0
        \<and> begin_try w d (sys_io s) = Some (Some (d, FDataList (FDataBuffer m)), set_buffer d m b sm (sys_io s))
        \<and> buffer_ok b \<and> FDoingThread b = w \<and> FDataList b = [])"
proof (cases "om_get (FIoManagers (sys_io s)) d")
  case None
  then show ?thesis by (simp add: begin_try_def)
next
  case (Some m)
  let ?b = "FDataBuffer m"
  have ok: "buffer_ok ?b" using sys_ok_channel [OF assms(1) Some] by (simp add: channel_ok_def)
  consider (working) "FDoingThread ?b \<noteq> 0" | (empty) "FDoingThread ?b = 0" "FDataList ?b = []"
    | (takes) "FDoingThread ?b = 0" "FDataList ?b \<noteq> []" by blast
  then show ?thesis
  proof cases
    case working
    then show ?thesis using Some by (simp add: begin_try_def MIsWorking_def word_gt_0)
  next
    case empty
    have same: "om_set d m (FIoManagers (sys_io s)) = FIoManagers (sys_io s)"
      using assms(1) Some by (intro om_eqI) (auto simp: sys_ok_def om_ok_set om_get_set)
    have "m\<lparr>FDataBuffer := ?b\<rparr> = m" by simp
    then have "begin_try w d (sys_io s) = Some (None, set_buffer d m ?b (g_current_SM_buffer (sys_io s)) (sys_io s))"
      using Some empty by (simp add: begin_try_def MIsWorking_def MTry_empty)
    then show ?thesis using Some empty(2) same by (intro disjI1) simp
  next
    case takes
    obtain b where b: "MTry w (g_current_SM_buffer (sys_io s)) ?b = Some (True, FDataList ?b, g_current_SM_buffer (sys_io s) - ucast (FSMBuffer ?b), b)"
      "FDataList b = []" "FDoingThread b = w" "buffer_ok b"
      using MTry_takes [OF takes(2,1), of w "g_current_SM_buffer (sys_io s)"] ok assms(2) by metis
    have "begin_try w d (sys_io s) = Some (Some (d, FDataList ?b),
        set_buffer d m b (g_current_SM_buffer (sys_io s) - ucast (FSMBuffer ?b)) (sys_io s))"
      using Some takes(1) b(1) by (simp add: begin_try_def MIsWorking_def)
    then show ?thesis using Some takes(1) b(2-4) by blast
  qed
qed

lemma sys_attempt:
  assumes "sys_ok s" "phases s w = Popped d" "begin_try w d (sys_io s) = Some (x, io)"
  shows "sys_ok (go w (case x of None \<Rightarrow> Idle | Some (e, ds) \<Rightarrow> Taken e ds) (s\<lparr>sys_io := io\<rparr>))" (is "sys_ok ?t")
proof -
  have w: "w \<noteq> 0" using assms(1,2) by (auto simp: sys_ok_def)
  from begin_try_cases [OF assms(1) w, of d] show ?thesis
  proof (elim disjE exE conjE)
    fix io'
    assume a: "begin_try w d (sys_io s) = Some (None, io')" "FIoManagers io' = FIoManagers (sys_io s)"
      "FOperartionSendFor io' = FOperartionSendFor (sys_io s)" "FOperations io' = FOperations (sys_io s)"
      "\<forall>m. om_get (FIoManagers (sys_io s)) d = Some m \<longrightarrow> FDoingThread (FDataBuffer m) \<noteq> 0 \<or> FDataList (FDataBuffer m) = []"
    then have x: "x = None" "io = io'" using assms(3) by simp_all
    have free: "busy_with (phases ?t v) = busy_with (phases s v)" "in_flight (phases ?t v) = in_flight (phases s v)" for v
      using assms(2) x by auto
    have "channel_ok ?t e (FDataBuffer m)" if m: "om_get (FIoManagers (sys_io s)) e = Some m" for e m
    proof (cases "e = d")
      case True
      then show ?thesis using sys_ok_channel [OF assms(1) m] a(5) m free unfolding channel_ok_def by (auto simp: x a(3))
    next
      case False
      then show ?thesis using assms(2)
        by (intro channel_frame_go [OF sys_ok_channel [OF assms(1) m], where w = w and p = Idle]) (auto simp: x a(3))
    qed
    then show ?thesis using assms(1) w unfolding sys_ok_def by (auto simp: x a(2-4))
  next
    fix m b sm
    let ?io = "set_buffer d m b sm (sys_io s)"
    assume a: "om_get (FIoManagers (sys_io s)) d = Some m" "FDoingThread (FDataBuffer m) = 0"
      "begin_try w d (sys_io s) = Some (Some (d, FDataList (FDataBuffer m)), ?io)"
      "buffer_ok b" "FDoingThread b = w" "FDataList b = []"
    then have x: "x = Some (d, FDataList (FDataBuffer m))" "io = ?io" using assms(3) by simp_all
    note ch = sys_ok_channel [OF assms(1) a(1)]
    have none: "busy_with (phases s v) \<noteq> Some d" for v
      using ch a(2) assms(1) unfolding channel_ok_def sys_ok_def by (metis busy_with.simps(4) option.distinct(1))
    have "channel_ok ?t d b"
      using ch a(2,4-6) none w unfolding channel_ok_def by (auto simp: x)
    moreover have "channel_ok ?t e (FDataBuffer n)" if n: "om_get (FIoManagers (sys_io s)) e = Some n" "e \<noteq> d" for e n
      using n(2) assms(2)
      by (intro channel_frame_go [OF sys_ok_channel [OF assms(1) n(1)], where w = w and p = "Taken d (FDataList (FDataBuffer m))"])
        (auto simp: x)
    ultimately have "channel_ok ?t e (FDataBuffer n)" if "om_get (FIoManagers io) e = Some n" for e n
      using that by (auto simp: x om_get_set split: if_splits)
    moreover have "d \<in> set (used s)" using a(1) assms(1) by (auto simp: sys_ok_def om_has_def)
    ultimately show ?thesis using assms(1) w unfolding sys_ok_def by (auto simp: x om_has_set om_ok_set)
  qed
qed

text \<open>Steps of a busy thread that leave the channels alone.\<close>

lemma busy_used: "sys_ok s \<Longrightarrow> busy_with (phases s w) = Some d \<Longrightarrow> d \<in> set (used s)"
  unfolding sys_ok_def by blast

lemma sys_look:
  assumes "sys_ok s" "phases s w = Taken d ds"
  shows "sys_ok (go w (if d \<in> set (gone s) then Idle else Sending d ds) s)" (is "sys_ok ?t")
proof -
  have w: "w \<noteq> 0" using assms by (auto simp: sys_ok_def)
  have "channel_ok ?t e (FDataBuffer m)" if m: "om_get (FIoManagers (sys_io s)) e = Some m" for e m
  proof (cases "e = d \<and> d \<in> set (gone s)")
    case True
    then show ?thesis using sys_ok_channel [OF assms(1) m] unfolding channel_ok_def by auto
  next
    case False
    then show ?thesis using assms(2)
      by (intro channel_frame_go [OF sys_ok_channel [OF assms(1) m], where w = w and p = "if d \<in> set (gone s) then Idle else Sending d ds"]) auto
  qed
  moreover have "d \<in> set (used s)" using busy_used [OF assms(1), of w d] assms(2) by simp
  ultimately show ?thesis using assms(1) w unfolding sys_ok_def by auto
qed

lemma sys_send:
  assumes "sys_ok s" "phases s w = Sending d ds"
  shows "sys_ok (go w (Sent d) (s\<lparr>sys_io := (sys_io s)\<lparr>FLog := l\<rparr>, handed := (handed s)(d := handed s d @ map fst ds)\<rparr>))"
    (is "sys_ok ?t")
proof -
  have w: "w \<noteq> 0" using assms by (auto simp: sys_ok_def)
  have "channel_ok ?t e (FDataBuffer m)" if m: "om_get (FIoManagers (sys_io s)) e = Some m" for e m
  proof (cases "e = d")
    case True
    let ?b = "FDataBuffer m"
    note ch = sys_ok_channel [OF assms(1) m]
    have th: "FDoingThread ?b = w" using ch assms(2) True unfolding channel_ok_def by simp
    have acc: "accepted s d = handed s d @ map fst ds @ map fst (FDataList ?b)" if "d \<notin> set (gone s)"
      using ch th w True that assms(2) by (simp add: channel_ok_def)
    have "v = w" if "busy_with (phases s v) = Some d" for v using ch th True that by (simp add: channel_ok_def)
    then show ?thesis using ch acc th w True by (simp add: channel_ok_def)
  next
    case False
    then show ?thesis using assms(2)
      by (intro channel_frame_go [OF sys_ok_channel [OF assms(1) m], where w = w and p = "Sent d"]) auto
  qed
  moreover have "d \<in> set (used s)" using busy_used [OF assms(1), of w d] assms(2) by simp
  ultimately show ?thesis using assms(1) w unfolding sys_ok_def by auto
qed

text \<open>A thread that has sent looks for more.\<close>

lemma MNextSend_cases:
  assumes "sys_ok s" "phases s w = Sent d"
  shows "(om_get (FIoManagers (sys_io s)) d = None \<and> MNextSend w d [] (sys_io s) = Some (False, [], sys_io s))
    \<or> (\<exists>m b sm. om_get (FIoManagers (sys_io s)) d = Some m \<and> FDoingThread (FDataBuffer m) = w
        \<and> MNextSend w d [] (sys_io s) = Some (FDataList (FDataBuffer m) \<noteq> [], FDataList (FDataBuffer m), set_buffer d m b sm (sys_io s))
        \<and> buffer_ok b \<and> FDataList b = [] \<and> FDoingThread b = (if FDataList (FDataBuffer m) = [] then 0 else w))"
proof (cases "om_get (FIoManagers (sys_io s)) d")
  case None
  then show ?thesis by (simp add: MNextSend_def)
next
  case (Some m)
  let ?b = "FDataBuffer m" and ?sm = "g_current_SM_buffer (sys_io s)"
  have w: "w \<noteq> 0" using assms by (auto simp: sys_ok_def)
  have ok: "buffer_ok ?b" "FDoingThread ?b = w" using sys_ok_channel [OF assms(1) Some] assms(2) by (auto simp: channel_ok_def)
  obtain b1 where b1: "MFinish w [] False ?b = Some ([], b1)" "FDataList b1 = FDataList ?b" "FDoingThread b1 = 0" "buffer_ok b1"
    using MFinish_all_sent [OF ok(2), of False] ok(1) by metis
  show ?thesis
  proof (cases "FDataList ?b = []")
    case True
    then show ?thesis using Some b1 ok(2) by (auto simp: MNextSend_def MTry_empty)
  next
    case False
    obtain b2 where "MTry w ?sm b1 = Some (True, FDataList b1, ?sm - ucast (FSMBuffer b1), b2)"
      "FDataList b2 = []" "FDoingThread b2 = w" "buffer_ok b2"
      using MTry_takes [of b1 w ?sm] False b1 w by metis
    then show ?thesis using Some b1 False ok(2) by (auto simp: MNextSend_def)
  qed
qed

lemma sys_more:
  assumes "sys_ok s" "phases s w = Sent d" "MNextSend w d [] (sys_io s) = Some (is, ds, io)"
  shows "sys_ok (go w (if is then Sending d ds else Idle) (s\<lparr>sys_io := io\<rparr>))" (is "sys_ok ?t")
proof -
  have w: "w \<noteq> 0" using assms by (auto simp: sys_ok_def)
  have used: "d \<in> set (used s)" using busy_used [OF assms(1), of w d] assms(2) by simp
  from MNextSend_cases [OF assms(1,2)] show ?thesis
  proof (elim disjE exE conjE)
    assume a: "om_get (FIoManagers (sys_io s)) d = None" "MNextSend w d [] (sys_io s) = Some (False, [], sys_io s)"
    then have x: "\<not> is" "io = sys_io s" using assms(3) by simp_all
    have "channel_ok ?t e (FDataBuffer n)" if n: "om_get (FIoManagers (sys_io s)) e = Some n" for e n
    proof -
      have "e \<noteq> d" using a(1) n by auto
      then show ?thesis using assms(2) x
        by (intro channel_frame_go [OF sys_ok_channel [OF assms(1) n], where w = w and p = Idle]) auto
    qed
    then show ?thesis using assms(1) w unfolding sys_ok_def by (auto simp: x)
  next
    fix m b sm
    let ?io = "set_buffer d m b sm (sys_io s)" and ?more = "FDataList (FDataBuffer m)"
    assume a: "om_get (FIoManagers (sys_io s)) d = Some m" "FDoingThread (FDataBuffer m) = w"
      "MNextSend w d [] (sys_io s) = Some (?more \<noteq> [], ?more, ?io)"
      "buffer_ok b" "FDataList b = []" "FDoingThread b = (if ?more = [] then 0 else w)"
    then have x: "is = (?more \<noteq> [])" "ds = ?more" "io = ?io" using assms(3) by simp_all
    note ch = sys_ok_channel [OF assms(1) a(1)]
    have only: "v = w" if "busy_with (phases s v) = Some d" for v using ch a(2) that by (simp add: channel_ok_def)
    have "channel_ok ?t d b"
      using ch a(2,4-6) only w assms(2) unfolding channel_ok_def by (auto simp: x)
    moreover have "channel_ok ?t e (FDataBuffer n)" if n: "om_get (FIoManagers (sys_io s)) e = Some n" "e \<noteq> d" for e n
      using n(2) assms(2)
      by (intro channel_frame_go [OF sys_ok_channel [OF assms(1) n(1)], where w = w and p = "if is then Sending d ds else Idle"])
        (auto simp: x split: if_splits)
    ultimately have "channel_ok ?t e (FDataBuffer n)" if "om_get (FIoManagers io) e = Some n" for e n
      using that by (auto simp: x om_get_set split: if_splits)
    then show ?thesis using assms(1) w used unfolding sys_ok_def by (auto simp: x om_has_set om_ok_set)
  qed
qed

lemma sys_add:
  assumes "sys_ok s" "d \<notin> set (used s)" "MAddChannelFor conf d who lim (sys_io s) = Some io"
  shows "sys_ok (s\<lparr>sys_io := io, used := d # used s\<rparr>)" (is "sys_ok ?t")
proof -
  have new: "\<not> om_has d (FIoManagers (sys_io s))" "accepted s d = []" "handed s d = []"
    "\<And>w. busy_with (phases s w) \<noteq> Some d"
    using assms(1,2) by (auto simp: sys_ok_def)
  define b where "b = CBuffering (MBufferingConfFor conf d who)"
  have b: "buffer_ok b" "FDataList b = []" "FDoingThread b = 0" by (simp_all add: b_def CBuffering_def)
  have io: "FIoManagers io = om_insert d \<lparr>FWho = who, FDataBuffer = b\<rparr> (FIoManagers (sys_io s))"
    "FOperartionSendFor io = FOperartionSendFor (sys_io s)" "FOperations io = FOperations (sys_io s)"
    using assms(3) new(1) by (auto simp: MAddChannelFor_def b_def split: if_splits)
  have "channel_ok ?t d b" using b new by (simp add: channel_ok_def)
  moreover have "channel_ok ?t e (FDataBuffer n)" if n: "om_get (FIoManagers (sys_io s)) e = Some n" for e n
    by (rule channel_frame [OF sys_ok_channel [OF assms(1) n]]) (auto simp: io awaited_def)
  ultimately have "channel_ok ?t e (FDataBuffer n)" if "om_get (FIoManagers io) e = Some n" for e n
    using that new(1) by (auto simp: io om_get_insert split: if_splits)
  then show ?thesis using assms(1) unfolding sys_ok_def by (auto simp: io om_has_insert om_ok_insert)
qed

lemma om_erase_absent: "om_get m k = None \<Longrightarrow> om_erase k m = m"
  by (auto simp: om_erase_def map_of_eq_None_iff filter_id_conv)

lemma sys_remove:
  assumes "sys_ok s"
  shows "sys_ok (s\<lparr>sys_io := snd (MRemoveManagerFor d (sys_io s))\<rparr>)" (is "sys_ok ?t")
proof -
  let ?io = "snd (MRemoveManagerFor d (sys_io s))"
  have io: "FIoManagers ?io = om_erase d (FIoManagers (sys_io s))"
    "FOperartionSendFor ?io = os_erase d (FOperartionSendFor (sys_io s))" "FOperations ?io = FOperations (sys_io s)"
    by (simp_all add: MRemoveManagerFor_def Let_def om_erase_absent split: option.splits)
  have "channel_ok ?t e (FDataBuffer n)" if n: "om_get (FIoManagers (sys_io s)) e = Some n" "e \<noteq> d" for e n
    using n(2) by (intro channel_frame [OF sys_ok_channel [OF assms(1) n(1)]]) (auto simp: io awaited_def)
  moreover have "length (os_erase d (FOperartionSendFor (sys_io s))) \<le> length (FOperartionSendFor (sys_io s))"
    by (simp add: os_erase_def)
  ultimately show ?thesis using assms(1) unfolding sys_ok_def
    by (auto simp: io om_get_erase om_has_erase om_ok_erase os_ok_erase split: if_splits)
qed

lemma sys_close: "sys_ok s \<Longrightarrow> sys_ok (s\<lparr>gone := d # gone s\<rparr>)"
  using channel_frame [of s _ _ "s\<lparr>gone := d # gone s\<rparr>"] unfolding sys_ok_def by (simp add: awaited_def subset_insertI)

theorem sys_step_ok: "send_step place s t \<Longrightarrow> sys_ok s \<Longrightarrow> sys_ok t"
proof (induction rule: send_step.induct)
  case (put ds d s e rest io)
  then show ?case by (intro sys_put)
next
  case (start w s x io)
  then show ?case by (intro sys_start)
next
  case (attempt s w d x io)
  then show ?case by (intro sys_attempt)
next
  case (look s w d ds)
  then show ?case by (intro sys_look)
next
  case (send s w d ds l)
  then show ?case by (intro sys_send)
next
  case (more s w d "is" ds io)
  then show ?case by (intro sys_more)
next
  case (add d s conf who lim io)
  then show ?case by (intro sys_add)
qed (auto intro: sys_remove sys_close)

lemma start_sys_ok: "sys_ok (start_sys reg)"
  by (simp add: sys_ok_def start_sys_def CKernelIo_def om_has_def)

lemma reachable_sys_ok: "reachable_sys place reg s \<Longrightarrow> sys_ok s"
  unfolding reachable_sys_def by (induction rule: rtranclp_induct) (auto intro: start_sys_ok sys_step_ok)

section \<open>A run\<close>

text \<open>A channel is added, two messages are put, and thread 1 sends them and finds no more.\<close>

definition run_1 :: send_sys where
  "run_1 = (let s = start_sys [''tcp''] in s\<lparr>sys_io := the (MAddChannelFor None 3 ''tcp'' default_split_info (sys_io s)), used := [3]\<rparr>)"

definition run_2 :: send_sys where
  "run_2 = (let (e, rest, io) = the (MPutUserDataToSendFifo (\<lambda>_. False) 3 [sample_data 4, sample_data 2] (sys_io run_1))
     in run_1\<lparr>sys_io := io, accepted := (accepted run_1)(3 := accepted run_1 3 @ take (2 - length rest) [sample_data 4, sample_data 2])\<rparr>)"

definition run_3 :: send_sys where
  "run_3 = (let (x, io) = begin_pop (sys_io run_2)
     in go 1 (case x of None \<Rightarrow> Idle | Some d \<Rightarrow> Popped d)
          (run_2\<lparr>sys_io := io\<lparr>FOperations := remove1 SendUserOp (FOperations io)\<rparr>\<rparr>))"

definition run_4 :: send_sys where
  "run_4 = (let (x, io) = the (begin_try 1 3 (sys_io run_3))
     in go 1 (case x of None \<Rightarrow> Idle | Some (e, ds) \<Rightarrow> Taken e ds) (run_3\<lparr>sys_io := io\<rparr>))"

definition run_5 :: send_sys where
  "run_5 = go 1 (Sending 3 [(sample_data 4, False), (sample_data 2, False)]) run_4"

definition run_6 :: send_sys where
  "run_6 = go 1 (Sent 3) (run_5\<lparr>sys_io := (sys_io run_5)\<lparr>FLog := []\<rparr>,
     handed := (handed run_5)(3 := handed run_5 3 @ [sample_data 4, sample_data 2])\<rparr>)"

definition run_7 :: send_sys where
  "run_7 = (let (is, ds, io) = the (MNextSend 1 3 [] (sys_io run_6))
     in go 1 (if is then Sending 3 ds else Idle) (run_6\<lparr>sys_io := io\<rparr>))"

lemma run_steps:
  "send_step (\<lambda>_. False) (start_sys [''tcp'']) run_1" "send_step (\<lambda>_. False) run_1 run_2"
  "send_step (\<lambda>_. False) run_2 run_3" "send_step (\<lambda>_. False) run_3 run_4" "send_step (\<lambda>_. False) run_4 run_5"
  "send_step (\<lambda>_. False) run_5 run_6" "send_step (\<lambda>_. False) run_6 run_7"
proof -
  let ?s = "start_sys [''tcp'']"
  have "MAddChannelFor None 3 ''tcp'' default_split_info (sys_io ?s) \<noteq> None" by code_simp
  then obtain io where 1: "MAddChannelFor None 3 ''tcp'' default_split_info (sys_io ?s) = Some io" by auto
  have "3 \<notin> set (used ?s)" by (simp add: start_sys_def)
  then show "send_step (\<lambda>_. False) ?s run_1"
    using send_step.add [OF _ 1] 1 by (simp add: run_1_def start_sys_def)
  have "map_option (\<lambda>r. fst (snd r)) (MPutUserDataToSendFifo (\<lambda>_. False) 3 [sample_data 4, sample_data 2] (sys_io run_1)) = Some []"
    by code_simp
  then obtain e io where 2: "MPutUserDataToSendFifo (\<lambda>_. False) 3 [sample_data 4, sample_data 2] (sys_io run_1) = Some (e, [], io)"
    by auto
  have "list_all (\<lambda>d. int (length (FData d)) < MAX_SIZE) [sample_data 4, sample_data 2]"
    by (simp add: sample_data_def MAX_SIZE_def)
  from send_step.put [OF _ this 2] show "send_step (\<lambda>_. False) run_1 run_2"
    by (simp add: run_2_def 2)
  have 3: "phases run_2 1 = Idle" "SendUserOp \<in> set (FOperations (sys_io run_2))" by code_simp+
  show "send_step (\<lambda>_. False) run_2 run_3"
    using send_step.start [OF _ 3] by (simp add: run_3_def split: prod.split)
  have 4: "phases run_3 1 = Popped 3" "begin_try 1 3 (sys_io run_3) \<noteq> None" by code_simp+
  then obtain x io where x: "begin_try 1 3 (sys_io run_3) = Some (x, io)" by auto
  show "send_step (\<lambda>_. False) run_3 run_4"
    using send_step.attempt [OF 4(1) x] x by (simp add: run_4_def)
  have 5: "phases run_4 1 = Taken 3 [(sample_data 4, False), (sample_data 2, False)]" "gone run_4 = []" by code_simp+
  show "send_step (\<lambda>_. False) run_4 run_5"
    using send_step.look [OF 5(1)] 5(2) by (simp add: run_5_def)
  have 6: "phases run_5 1 = Sending 3 [(sample_data 4, False), (sample_data 2, False)]" by code_simp
  show "send_step (\<lambda>_. False) run_5 run_6"
    using send_step.send [OF 6, of _ "[]"] by (simp add: run_6_def)
  have 7: "phases run_6 1 = Sent 3" "MNextSend 1 3 [] (sys_io run_6) \<noteq> None" by code_simp+
  then obtain y where y: "MNextSend 1 3 [] (sys_io run_6) = Some y" by auto
  then show "send_step (\<lambda>_. False) run_6 run_7"
    using send_step.more [OF 7(1)] by (cases y) (simp add: run_7_def)
qed

lemma run_reachable:
  "reachable_sys (\<lambda>_. False) [''tcp''] run_6" "reachable_sys (\<lambda>_. False) [''tcp''] run_7"
  unfolding reachable_sys_def using run_steps by (meson r_into_rtranclp rtranclp_trans)+

section \<open>Properties\<close>

text \<open>
  C24: However the threads interleave, no check of the buffers fails. Of every channel that is there
  and whose connection is open, the messages that were accepted are those handed on, those
  that one thread is sending and those that wait, in this order: none is lost, doubled or
  overtaken, and never do two threads send to one channel.
\<close>

theorem threads_keep_order:
  assumes "reachable_sys place reg s"
  shows "(\<forall>w d. phases s w = Popped d \<longrightarrow> begin_try w d (sys_io s) \<noteq> None)
    \<and> (\<forall>w d. phases s w = Sent d \<longrightarrow> MNextSend w d [] (sys_io s) \<noteq> None)
    \<and> (\<forall>d m. om_get (FIoManagers (sys_io s)) d = Some m \<longrightarrow> d \<notin> set (gone s) \<longrightarrow>
      (\<exists>v. (\<forall>w. busy_with (phases s w) = Some d \<longrightarrow> w = v)
        \<and> accepted s d = handed s d @ (if busy_with (phases s v) = Some d then in_flight (phases s v) else [])
            @ map fst (FDataList (FDataBuffer m))))"
proof (intro conjI allI impI)
  note ok = reachable_sys_ok [OF assms]
  fix w d
  show "begin_try w d (sys_io s) \<noteq> None" if "phases s w = Popped d"
  proof -
    have "w \<noteq> 0" using ok that by (auto simp: sys_ok_def)
    from begin_try_cases [OF ok this, of d] show ?thesis by auto
  qed
  show "MNextSend w d [] (sys_io s) \<noteq> None" if "phases s w = Sent d"
    using MNextSend_cases [OF ok that] by auto
next
  note ok = reachable_sys_ok [OF assms]
  fix d m
  assume m: "om_get (FIoManagers (sys_io s)) d = Some m" and g: "d \<notin> set (gone s)"
  let ?b = "FDataBuffer m"
  note ch = sys_ok_channel [OF ok m]
  have z: "phases s 0 = Idle" using ok by (simp add: sys_ok_def)
  have one: "\<forall>w. busy_with (phases s w) = Some d \<longrightarrow> w = FDoingThread ?b" using ch by (auto simp: channel_ok_def)
  have "accepted s d = handed s d @ (if busy_with (phases s (FDoingThread ?b)) = Some d
      then in_flight (phases s (FDoingThread ?b)) else []) @ map fst (FDataList ?b)"
    using ch g z by (cases "FDoingThread ?b = 0") (simp_all add: channel_ok_def)
  then show "\<exists>v. (\<forall>w. busy_with (phases s w) = Some d \<longrightarrow> w = v)
        \<and> accepted s d = handed s d @ (if busy_with (phases s v) = Some d then in_flight (phases s v) else [])
            @ map fst (FDataList ?b)"
    using one by blast
qed

theorem threads_keep_order_witness:
  "MNextSend 1 3 [] (sys_io run_6) \<noteq> None
   \<and> (\<exists>m v. om_get (FIoManagers (sys_io run_6)) 3 = Some m
      \<and> accepted run_6 3 = handed run_6 3 @ (if busy_with (phases run_6 v) = Some 3 then in_flight (phases run_6 v) else [])
            @ map fst (FDataList (FDataBuffer m)))"
proof -
  have "phases run_6 1 = Sent 3" "gone run_6 = []" by code_simp+
  moreover obtain m where "om_get (FIoManagers (sys_io run_6)) 3 = Some m"
  proof -
    have "om_get (FIoManagers (sys_io run_6)) 3 \<noteq> None" by code_simp
    then show thesis using that by blast
  qed
  ultimately show ?thesis using threads_keep_order [OF run_reachable(1)] by (metis empty_iff list.set(1))
qed

text \<open>
  C25: No wake-up is lost: when no thread is busy and no operation waits in the pool, every message
  that was accepted for a channel that is there with an open connection has been handed on.
\<close>

theorem no_message_forgotten:
  assumes "reachable_sys place reg s" "\<And>w. phases s w = Idle" "SendUserOp \<notin> set (FOperations (sys_io s))"
    "om_has d (FIoManagers (sys_io s))" "d \<notin> set (gone s)"
  shows "handed s d = accepted s d"
proof -
  note ok = reachable_sys_ok [OF assms(1)]
  obtain m where m: "om_get (FIoManagers (sys_io s)) d = Some m" using assms(4) by (auto simp: om_has_def)
  have "FOperartionSendFor (sys_io s) = []" using ok assms(3) by (simp add: sys_ok_def)
  then show ?thesis using sys_ok_channel [OF ok m] assms(2,5) by (auto simp: channel_ok_def)
qed

theorem no_message_forgotten_witness:
  "handed run_7 3 = accepted run_7 3 \<and> accepted run_7 3 = [sample_data 4, sample_data 2]"
proof -
  have "phases run_7 w = Idle" for w
  proof (cases "w = 1")
    case True
    have "phases run_7 1 = Idle" by code_simp
    with True show ?thesis by simp
  next
    case False
    have "fst (the (MNextSend 1 3 [] (sys_io run_6))) = False" by code_simp
    with False show ?thesis
      by (simp add: run_7_def run_6_def run_5_def run_4_def run_3_def run_2_def run_1_def start_sys_def Let_def split: prod.split)
  qed
  moreover have "SendUserOp \<notin> set (FOperations (sys_io run_7))" "om_has 3 (FIoManagers (sys_io run_7))" "3 \<notin> set (gone run_7)"
    by code_simp+
  moreover have "accepted run_7 3 = [sample_data 4, sample_data 2]" by code_simp
  ultimately show ?thesis using no_message_forgotten [OF run_reachable(2), of 3] by simp
qed

end
