(* ===== verification/Routing_Service.thy ===== *)
theory Routing_Service
  imports Kernel_Io Message_Filling Genealogy Subscription_Table
begin

text \<open>
  The routing of messages (\<open>CRoutingService\<close> of \<open>services/CRoutingService.h/.cpp\<close>) and the operations of
  \<open>CKernelIo\<close> that call it. Messages of customers get their receivers from \<open>CRequiredDG\<close>; the
  receivers of every message are grouped by the connection that leads to them (\<open>CInfoService\<close>),
  and each connection gets one copy with its group. What cannot be sent is reported to the
  sender, to the registrators and to the receivers. When programs come and go or change their
  demands, the senders of the kernel are told who receives from them.

  The services are singletons that call each other: their states are the record \<open>kernel\<close>. \<open>setting\<close> has
  what does not change: the identifier of the kernel, the parsers, the channels and the place of
  data. The model is the build for C++ 2011 and later, with \<open>UDT_NO_ROUTE_IS_ERROR\<close> not
  defined. A handler runs to its end before the next one; \<open>None\<close> is a failed \<open>CHECK\<close>.
\<close>

section \<open>State\<close>

record state_t =
  FNoRoute :: "64 word"
  FSendError :: "64 word"
  FNumPackets :: "32 word"
  FNumSended :: "32 word"
  FNumNonHandled :: "32 word"

definition new_state :: state_t where
  "new_state = \<lparr>FNoRoute = 0, FSendError = 0, FNumPackets = 0, FNumSended = 0, FNumNonHandled = 0\<rparr>"

record kernel =
  k_descriptors :: descriptors
  k_info :: data_info_t
  k_dg :: required_dg
  k_io :: kernel_io
  k_state :: state_t
  k_pushed :: "(descriptor \<times> kernel_msg) list"
  k_user :: "(descriptor \<times> user_datas_t) list"

record setting =
  e_my :: program_id_t
  e_parsers :: parsers
  e_link :: channel_link
  e_place :: "user_data_t \<Rightarrow> bool"

abbreviation my_id :: "setting \<Rightarrow> id_t" where
  "my_id e \<equiv> FId (e_my e)"

type_synonym output_decriptors_for_t = "(descriptor, routing_t) omap"

section \<open>Connections of a route\<close>

text \<open>The result: the receivers that are kept, those without a way, the connections with their receivers.\<close>

fun output_loop ::
    "setting \<Rightarrow> id_t \<Rightarrow> uuid list \<Rightarrow> output_decriptors_for_t \<Rightarrow> kernel
       \<Rightarrow> (uuid list \<times> uuid list \<times> output_decriptors_for_t \<times> kernel) option" where
  "output_loop e src [] out k = Some ([], [], out, k)"
| "output_loop e src (u # us) out k =
     MNextDestinations (e_my e) (k_descriptors k) u (k_info k) \<bind> (\<lambda>(ds, i).
       let k1 = k\<lparr>k_info := i\<rparr>
       in if ds \<noteq> [] \<and> sMIsValid (hd ds)
          then (let r = get_or \<lparr>FRoute = [], FFrom = src\<rparr> out (hd ds)
                in map_option (\<lambda>(kept, lost, out1, k2). (u # kept, lost, out1, k2))
                     (output_loop e src us (om_set (hd ds) (r\<lparr>FRoute := FRoute r @ [u]\<rparr>) out) k1))
          else map_option (\<lambda>(kept, lost, out1, k2). (kept, u # lost, out1, k2)) (output_loop e src us out k1))"

definition MGetOutputDescriptors ::
    "setting \<Rightarrow> routing_t \<Rightarrow> kernel \<Rightarrow> (routing_t \<times> uuid list \<times> output_decriptors_for_t \<times> kernel) option" where
  "MGetOutputDescriptors e aTo k =
     map_option (\<lambda>(kept, lost, out, k1). (aTo\<lparr>FRoute := kept\<rparr>, lost, out, k1))
       (output_loop e (FFrom aTo) (FRoute aTo) [] k)"

section \<open>Messages between kernels\<close>

text \<open>The receivers that the message could not be sent to, and the next state.\<close>

fun send_each :: "setting \<Rightarrow> kernel_msg \<Rightarrow> output_decriptors_for_t \<Rightarrow> kernel \<Rightarrow> uuid list \<times> kernel" where
  "send_each e aWhat [] k = ([], k)"
| "send_each e aWhat ((d, r) # ds) k =
     (let (ok, io) = MSendTo_route (e_link e) d aWhat r (k_io k);
          (lost, k1) = send_each e aWhat ds (k\<lparr>k_io := io\<rparr>)
      in (if ok then lost else FRoute r @ lost, k1))"

definition route_MSendTo ::
    "setting \<Rightarrow> routing_t \<Rightarrow> kernel_msg \<Rightarrow> kernel \<Rightarrow> (routing_t \<times> uuid list \<times> kernel) option" where
  "route_MSendTo e aTo aWhat k =
     map_option (\<lambda>(to, lost, out, k1). let (unsent, k2) = send_each e aWhat out k1 in (to, lost @ unsent, k2))
       (MGetOutputDescriptors e aTo k)"

definition MRoute :: "setting \<Rightarrow> routing_t \<Rightarrow> kernel_msg \<Rightarrow> kernel \<Rightarrow> (routing_t \<times> uuid list \<times> kernel) option" where
  "MRoute e aRoute aWhat k =
     (let r = aRoute\<lparr>FRoute := remove1 (FUuid (my_id e)) (FRoute aRoute)\<rparr>
      in if FRoute r = [] then Some (r, [], k) else route_MSendTo e r aWhat k)"

section \<open>Reports of errors\<close>

definition error_receivers :: "fail_send_t \<Rightarrow> uuid list" where
  "error_receivers f = FRegistrators f @ [FUuid (FFrom (FRouting f))] @ FRoute (FRouting f)"

definition MNoteFailSend_one :: "setting \<Rightarrow> fail_send_t \<Rightarrow> kernel \<Rightarrow> kernel option" where
  "MNoteFailSend_one e f k =
     map_option (\<lambda>(to, lost, k1). k1)
       (route_MSendTo e \<lparr>FRoute = error_receivers f, FFrom = my_id e\<rparr> (NetFail f) k)"

fun push_unique :: "uuid list \<Rightarrow> uuid list \<Rightarrow> uuid list" where
  "push_unique new [] = new"
| "push_unique new (u # us) = push_unique (if u \<in> set new then new else new @ [u]) us"

definition merge_fails :: "fail_send_t \<Rightarrow> fail_send_t \<Rightarrow> fail_send_t" where
  "merge_fails old new =
     (let f = fail_MSetError (FError new) old
      in f\<lparr>FRouting := (FRouting f)\<lparr>FRoute :=
           push_unique (push_unique [] (FRoute (FRouting f))) (FRoute (FRouting new))\<rparr>\<rparr>)"

text \<open>\<open>_less_compare\<close> compares the number of the packet and the uuid of its sender.\<close>

definition fail_key :: "fail_send_t \<Rightarrow> 32 word \<times> uuid" where
  "fail_key f = (FPacketNumber f, FUuid (FFrom (FRouting f)))"

fun merge_repeated :: "fail_send_t list \<Rightarrow> (32 word \<times> uuid, fail_send_t) omap \<Rightarrow> (32 word \<times> uuid, fail_send_t) omap" where
  "merge_repeated [] m = m"
| "merge_repeated (f # fs) m =
     merge_repeated fs
       (case om_get m (fail_key f) of
          None \<Rightarrow> om_set (fail_key f) f m
        | Some old \<Rightarrow> om_set (fail_key f) (merge_fails old f) m)"

fun note_each :: "setting \<Rightarrow> fail_send_t list \<Rightarrow> kernel \<Rightarrow> kernel option" where
  "note_each e [] k = Some k"
| "note_each e (f # fs) k = MNoteFailSend_one e f k \<bind> note_each e fs"

definition MNoteFailSend :: "setting \<Rightarrow> fail_send_t list \<Rightarrow> kernel \<Rightarrow> kernel option" where
  "MNoteFailSend e aFail k = note_each e (map snd (merge_repeated aFail [])) k"

section \<open>User data\<close>

definition route_of :: "user_data_t \<Rightarrow> uuid list" where
  "route_of d = FRoute (FRouting (FDataId d))"

definition set_route :: "uuid list \<Rightarrow> user_data_t \<Rightarrow> user_data_t" where
  "set_route us d = d\<lparr>FDataId := (FDataId d)\<lparr>FRouting := (FRouting (FDataId d))\<lparr>FRoute := us\<rparr>\<rparr>\<rparr>"

definition MClassifyMessages :: "user_datas_t \<Rightarrow> user_datas_t \<times> user_datas_t" where
  "MClassifyMessages aData = (filter (\<lambda>d. route_of d = []) aData, filter (\<lambda>d. route_of d \<noteq> []) aData)"

text \<open>What stays of a message, and what has to be swapped for connections of this kernel.\<close>

definition extract_swapped :: "descriptors \<Rightarrow> user_data_t \<Rightarrow> user_datas_t \<times> user_datas_t" where
  "extract_swapped cs d =
     (let swapped = (if FEndian (FDataId d) \<noteq> E_SHARE_ENDIAN then filter (\<lambda>u. MIs_uuid u cs) (route_of d) else []);
          rest = (if FEndian (FDataId d) \<noteq> E_SHARE_ENDIAN then filter (\<lambda>u. \<not> MIs_uuid u cs) (route_of d) else route_of d)
      in if swapped \<noteq> []
         then (if rest = [] then [] else [set_route rest d], [set_route swapped d])
         else ([set_route rest d], []))"

definition MExtractMsgThatHasToBeSwaped :: "descriptors \<Rightarrow> user_datas_t \<Rightarrow> user_datas_t \<times> user_datas_t" where
  "MExtractMsgThatHasToBeSwaped cs aFrom =
     (concat (map (fst \<circ> extract_swapped cs) aFrom), concat (map (snd \<circ> extract_swapped cs) aFrom))"

text \<open>The result: what goes to \<open>aTo\<close>, what stays in \<open>aFrom\<close>, the errors.\<close>

fun MSwapEndianIfNeed :: "parsers \<Rightarrow> user_datas_t \<Rightarrow> user_datas_t \<times> user_datas_t \<times> fail_send_t list" where
  "MSwapEndianIfNeed ps [] = ([], [], [])"
| "MSwapEndianIfNeed ps (d # ds) =
     (let (error, d1) = sMSwapEndian ps d; (to, left, errs) = MSwapEndianIfNeed ps ds
      in if error \<noteq> E_NO_ERROR then (to, d1 # left, send_failed error d1 # errs) else (d1 # to, left, errs))"

definition MRoutingMsgToDescriptor :: "user_data_t \<Rightarrow> output_decriptors_for_t \<Rightarrow> output_user_data_t" where
  "MRoutingMsgToDescriptor aMsg aDesc =
     map (\<lambda>(d, r). (d, [aMsg\<lparr>FDataId := (FDataId aMsg)\<lparr>FRouting := r\<rparr>\<rparr>])) aDesc"

text \<open>The list \<open>aTo\<close> afterwards.\<close>

fun MSortedSplice :: "output_user_data_t \<Rightarrow> output_user_data_t \<Rightarrow> output_user_data_t" where
  "MSortedSplice [] ts = ts"
| "MSortedSplice (w # ws) [] = w # ws"
| "MSortedSplice (w # ws) (t # ts) =
     (if fst t < fst w then t # MSortedSplice (w # ws) ts
      else if fst t = fst w then (fst t, snd t @ snd w) # MSortedSplice ws ts
      else w # MSortedSplice ws (t # ts))"

text \<open>One message: its error, the message with the receivers that have a way, the outputs, the further errors.\<close>

definition distribute_one ::
    "setting \<Rightarrow> user_data_t \<Rightarrow> kernel \<Rightarrow> (error_type \<times> user_data_t \<times> output_user_data_t \<times> fail_send_t list \<times> kernel) option" where
  "distribute_one e d k =
     (if route_of d \<noteq> []
      then map_option (\<lambda>(to, lost, descr, k1).
             let d1 = d\<lparr>FDataId := (FDataId d)\<lparr>FRouting := to\<rparr>\<rparr>
             in if descr \<noteq> []
                then (let out = MRoutingMsgToDescriptor d1 descr;
                          error = (if out \<noteq> [] then E_NO_ERROR else E_NO_ROUTE)
                      in (error, d1, out,
                          if error \<noteq> E_NO_ERROR \<and> lost \<noteq> [] then [fail_of_info_to (FDataId d1) lost E_NO_ROUTE] else [], k1))
                else (E_NO_ROUTE, d1, [], [], k1))
           (MGetOutputDescriptors e (FRouting (FDataId d)) k)
      else Some (E_UNKNOWN_ERROR, d, [], [], k))"

text \<open>The result: the data without a route, \<open>aSendToDescriptors\<close>, the errors, the next state.\<close>

fun distribute_loop ::
    "setting \<Rightarrow> user_datas_t \<Rightarrow> output_user_data_t \<Rightarrow> kernel
       \<Rightarrow> (user_datas_t \<times> output_user_data_t \<times> fail_send_t list \<times> kernel) option" where
  "distribute_loop e [] out k = Some ([], out, [], k)"
| "distribute_loop e (d # ds) out k =
     distribute_one e d k \<bind> (\<lambda>(error, d1, new, errs, k1).
     map_option (\<lambda>(lost, out1, errs1, k2).
         if error \<noteq> E_NO_ERROR then (d1 # lost, out1, errs @ send_failed error d1 # errs1, k2)
         else (lost, out1, errs @ errs1, k2))
       (distribute_loop e ds (if new \<noteq> [] then MSortedSplice new out else out) k1))"

definition MDistributeMsgByDescriptors ::
    "setting \<Rightarrow> user_datas_t \<Rightarrow> kernel \<Rightarrow> (user_datas_t \<times> output_user_data_t \<times> fail_send_t list \<times> kernel) option" where
  "MDistributeMsgByDescriptors e aWhat k = distribute_loop e aWhat [] k"

definition MSendMessages ::
    "setting \<Rightarrow> user_datas_t \<Rightarrow> kernel \<Rightarrow> (user_datas_t \<times> fail_send_t list \<times> kernel) option" where
  "MSendMessages e aFrom k =
     MDistributeMsgByDescriptors e aFrom k \<bind> (\<lambda>(lost, out, errs, k1).
       if out \<noteq> []
       then map_option (\<lambda>(errs1, failed, io). (lost @ failed, errs @ errs1, k1\<lparr>k_io := io\<rparr>))
              (MSendTo (e_place e) out (k_io k1))
       else Some (lost, errs, k1))"

text \<open>\<open>MFillMsgReceivers\<close> and \<open>MFillMsgHandlersFor\<close> of the routing service lock \<open>CRequiredDG\<close> and call it.\<close>

definition route_MFillMsgReceivers ::
    "setting \<Rightarrow> user_datas_t \<Rightarrow> kernel \<Rightarrow> (user_datas_t \<times> user_datas_t \<times> fail_send_t list \<times> kernel) option" where
  "route_MFillMsgReceivers e aFrom k =
     map_option (\<lambda>(left, to, st). (left, to, fill_errors st, k\<lparr>k_dg := fill_dg st\<rparr>))
       (MFillMsgReceivers (e_parsers e) aFrom \<lparr>fill_dg = k_dg k, fill_errors = []\<rparr>)"

definition route_MFillMsgHandlersFor ::
    "setting \<Rightarrow> user_datas_t \<Rightarrow> kernel \<Rightarrow> (user_datas_t \<times> user_datas_t \<times> fail_send_t list \<times> kernel) option" where
  "route_MFillMsgHandlersFor e aFrom k =
     map_option (\<lambda>(left, to, st). (left, to, fill_errors st, k\<lparr>k_dg := fill_dg st\<rparr>))
       (MFillMsgHandlersFor (e_parsers e) aFrom \<lparr>fill_dg = k_dg k, fill_errors = []\<rparr>)"

definition add_sended :: "user_datas_t \<Rightarrow> kernel \<Rightarrow> kernel" where
  "add_sended ds k = k\<lparr>k_state := (k_state k)\<lparr>FNumSended := FNumSended (k_state k) + of_nat (length ds)\<rparr>\<rparr>"

text \<open>
  The handler of user data; the result is what \<open>aData\<close> holds afterwards. The list of data without a
  route is swapped with the empty one of \<open>aData\<close> before its size is added to \<open>FNoRoute\<close>.
\<close>

definition MHandleFrom :: "setting \<Rightarrow> user_datas_t \<Rightarrow> kernel \<Rightarrow> (user_datas_t \<times> kernel) option" where
  "MHandleFrom e aData k = do {
     let k1 = k\<lparr>k_state := (k_state k)\<lparr>FNumPackets := FNumPackets (k_state k) + of_nat (length aData)\<rparr>\<rparr>;
     let (unrouted, routed) = MClassifyMessages aData;
     (lost, filled, errs, k2) \<leftarrow> (if unrouted \<noteq> [] then route_MFillMsgReceivers e unrouted k1 else Some ([], [], [], k1));
     let (stay, swap) = MExtractMsgThatHasToBeSwaped (k_descriptors k2) (routed @ filled);
     (lost1, errs1, k3) \<leftarrow> (if stay \<noteq> [] then MSendMessages e stay (add_sended stay k2) else Some ([], [], k2));
     (lost2, errs2, k4) \<leftarrow>
       (if swap \<noteq> []
        then (let (to, left, es) = MSwapEndianIfNeed (e_parsers e) swap
              in map_option (\<lambda>(l, es1, k4). (l, es @ es1, k4)) (MSendMessages e to (add_sended to k3)))
        else Some ([], [], k3));
     let left = lost @ lost1 @ lost2;
     let errors = errs @ errs1 @ errs2;
     k5 \<leftarrow> (if errors \<noteq> []
       then MNoteFailSend e errors (k4\<lparr>k_state := (k_state k4)\<lparr>FSendError := FSendError (k_state k4) + 1\<rparr>\<rparr>)
       else Some k4);
     Some (left, k5\<lparr>k_state := (k_state k5)\<lparr>FNumNonHandled := FNumNonHandled (k_state k5) + of_nat (length left)\<rparr>\<rparr>)
   }"

section \<open>Demands\<close>

fun inform_each :: "setting \<Rightarrow> (demand_dg_t \<Rightarrow> demand_dg_t) \<Rightarrow> demand_dgs_for_t \<Rightarrow> kernel \<Rightarrow> kernel option" where
  "inform_each e f [] k = Some k"
| "inform_each e f ((u, ds) # ms) k =
     MGet_uuid u (k_descriptors k) \<bind> (\<lambda>to.
       inform_each e f ms
         (if sMIsValid to then k\<lparr>k_io := snd (MSendTo_one (e_link e) to (NetDemandsFor [(u, map f ds)]) (k_io k))\<rparr> else k))"

definition mark_removed :: "demand_dg_t \<Rightarrow> demand_dg_t" where
  "mark_removed d = d\<lparr>FFlags := MSetFlag E_REMOVED True (FFlags d)\<rparr>"

definition MInformNewReceiver :: "setting \<Rightarrow> demand_dgs_for_t \<times> demand_dgs_for_t \<Rightarrow> kernel \<Rightarrow> kernel option" where
  "MInformNewReceiver e aWhat k =
     inform_each e (\<lambda>d. d) (fst aWhat) k \<bind> inform_each e mark_removed (snd aWhat)"

definition receiver_changes :: "sub_run \<Rightarrow> demand_dgs_for_t \<times> demand_dgs_for_t" where
  "receiver_changes st = (sub_new st, sub_old st)"

text \<open>The changes of the last customer replace those of the ones before it.\<close>

fun add_customers ::
    "parsers \<Rightarrow> kern_links_t \<Rightarrow> demand_dgs_for_t \<times> demand_dgs_for_t \<Rightarrow> required_dg
       \<Rightarrow> ((demand_dgs_for_t \<times> demand_dgs_for_t) \<times> required_dg) option" where
  "add_customers ps [] up s = Some (up, s)"
| "add_customers ps ((u, l) # ls) up s =
     (case FType (FProgramm l) of
        E_KERNEL \<Rightarrow> add_customers ps ls up s
      | E_CONSUMER \<Rightarrow> MAddClient ps (FId (FProgramm l)) s \<bind> (\<lambda>st. add_customers ps ls (receiver_changes st) (dg st)))"

fun remove_customers ::
    "parsers \<Rightarrow> kern_links_t \<Rightarrow> demand_dgs_for_t \<times> demand_dgs_for_t \<Rightarrow> required_dg
       \<Rightarrow> ((demand_dgs_for_t \<times> demand_dgs_for_t) \<times> required_dg) option" where
  "remove_customers ps [] up s = Some (up, s)"
| "remove_customers ps ((u, l) # ls) up s =
     (case FType (FProgramm l) of
        E_KERNEL \<Rightarrow> remove_customers ps ls up s
      | E_CONSUMER \<Rightarrow> MRemoveClient ps (FUuid (FId (FProgramm l))) s \<bind>
          (\<lambda>st. remove_customers ps ls (receiver_changes st) (dg st)))"

definition MHandleNewId :: "setting \<Rightarrow> kern_links_t \<Rightarrow> kernel \<Rightarrow> kernel option" where
  "MHandleNewId e aNew k =
     add_customers (e_parsers e) aNew ([], []) (k_dg k) \<bind> (\<lambda>(up, s). MInformNewReceiver e up (k\<lparr>k_dg := s\<rparr>))"

definition MHandleCloseId :: "setting \<Rightarrow> kern_links_t \<Rightarrow> kernel \<Rightarrow> kernel option" where
  "MHandleCloseId e aOld k =
     remove_customers (e_parsers e) aOld ([], []) (k_dg k) \<bind> (\<lambda>(up, s). MInformNewReceiver e up (k\<lparr>k_dg := s\<rparr>))"

fun handle_opened :: "setting \<Rightarrow> k_diff_t \<Rightarrow> kernel \<Rightarrow> kernel option" where
  "handle_opened e [] k = Some k"
| "handle_opened e ((i, is) # ds) k = MHandleNewId e (FCustomerInfo i) k \<bind> handle_opened e ds"

fun handle_closed :: "setting \<Rightarrow> k_diff_t \<Rightarrow> kernel \<Rightarrow> kernel option" where
  "handle_closed e [] k = Some k"
| "handle_closed e ((i, is) # ds) k = MHandleCloseId e (FCustomerInfo i) k \<bind> handle_closed e ds"

definition customer_uuids :: "descriptors \<Rightarrow> uuid list" where
  "customer_uuids cs = map (\<lambda>(d, i). case i of None \<Rightarrow> 0 | Some x \<Rightarrow> link_uuid x) (MGetAll_of E_CONSUMER cs)"

definition demands_of_customers :: "descriptors \<Rightarrow> required_dg \<Rightarrow> demand_dgs_for_t" where
  "demands_of_customers cs s =
     fold (\<lambda>u m. case om_get (FDGs s) u of None \<Rightarrow> m | Some ds \<Rightarrow> om_insert u ds m) (customer_uuids cs) []"

definition MHandleDiff :: "setting \<Rightarrow> kernel_infos_diff_t \<Rightarrow> kernel \<Rightarrow> kernel option" where
  "MHandleDiff e aDiff k = do {
     k1 \<leftarrow> handle_opened e (FOpened aDiff) k;
     k2 \<leftarrow> handle_closed e (FClosed aDiff) k1;
     let inform = map (kernel_uuid \<circ> fst) (filter snd (FOpened aDiff));
     let demands = demands_of_customers (k_descriptors k2) (k_dg k2);
     if inform \<noteq> [] \<and> demands \<noteq> []
     then map_option (\<lambda>(to, lost, k3). k3)
            (route_MSendTo e \<lparr>FRoute = inform, FFrom = my_id e\<rparr> (NetDemandsFor demands) k2)
     else Some k2
   }"

fun set_intersection :: "demand_dgs_for_t \<Rightarrow> demand_dgs_for_t \<Rightarrow> demand_dgs_for_t" where
  "set_intersection [] fs = []"
| "set_intersection (t # ts) [] = t # ts"
| "set_intersection (t # ts) (f # fs) =
     (if fst t < fst f then t # set_intersection ts (f # fs)
      else if fst f < fst t then set_intersection (t # ts) fs
      else (fst t, snd t @ snd f) # set_intersection ts fs)"

fun set_all_demands ::
    "parsers \<Rightarrow> demand_dgs_for_t \<Rightarrow> demand_dgs_for_t \<times> demand_dgs_for_t \<Rightarrow> required_dg
       \<Rightarrow> ((demand_dgs_for_t \<times> demand_dgs_for_t) \<times> required_dg) option" where
  "set_all_demands ps [] nr s = Some (nr, s)"
| "set_all_demands ps ((u, ds) # ms) nr s =
     MSetDemandsDGFor ps (id_of_uuid u) ds s \<bind> (\<lambda>st.
       set_all_demands ps ms
         (if sub_new st \<noteq> [] \<and> fst nr \<noteq> [] then set_intersection (fst nr) (sub_new st) else fst nr,
          if sub_old st \<noteq> [] \<and> snd nr \<noteq> [] then set_intersection (snd nr) (sub_old st) else snd nr) (dg st))"

definition MHandleNewDemands :: "setting \<Rightarrow> demand_dgs_for_t \<Rightarrow> kernel \<Rightarrow> kernel option" where
  "MHandleNewDemands e aDemands k =
     (let own = fold (\<lambda>u. om_insert u []) (customer_uuids (k_descriptors k)) []
      in set_all_demands (e_parsers e) aDemands (own, []) (k_dg k) \<bind>
           (\<lambda>(nr, s). MInformNewReceiver e nr (k\<lparr>k_dg := s\<rparr>)))"

definition MHandleFrom_demands :: "setting \<Rightarrow> demand_dgs_t \<Rightarrow> descriptor \<Rightarrow> kernel \<Rightarrow> kernel option" where
  "MHandleFrom_demands e aP aFrom k = do {
     let (info, is) = MGet_info aFrom (k_descriptors k);
     let i = FId (FProgramm info);
     (up, s) \<leftarrow> (if is then map_option (\<lambda>st. (receiver_changes st, dg st)) (MSetDemandsDGFor (e_parsers e) i aP (k_dg k))
                else Some (([], []), k_dg k));
     k1 \<leftarrow> MInformNewReceiver e up (k\<lparr>k_dg := s\<rparr>);
     let inform = MGetOtherKernelds (e_my e) (k_info k1);
     if inform \<noteq> []
     then map_option (\<lambda>(to, lost, k2). k2)
            (route_MSendTo e \<lparr>FRoute = inform, FFrom = my_id e\<rparr> (NetDemandsFor [(FUuid i, aP)]) k1)
     else Some k1
   }"

definition route_MStart :: "setting \<Rightarrow> parsers_info \<Rightarrow> kernel \<Rightarrow> (bool \<times> kernel) option" where
  "route_MStart e infos k =
     MAddClient (e_parsers e) (my_id e) (k_dg k) \<bind> (\<lambda>st.
     MInitializeMsgInheritance infos (dg st) \<bind> (\<lambda>(ok, s). Some (ok, k\<lparr>k_dg := s\<rparr>)))"

section \<open>Operations of the channels\<close>

definition MRemoveChannelFor :: "setting \<Rightarrow> descriptor \<Rightarrow> string \<Rightarrow> kernel \<Rightarrow> kernel option" where
  "MRemoveChannelFor e aVal aWhere k =
     (if aWhere \<notin> set (FRegistry (k_io k)) then None
      else let (unsent, io) = MRemoveManagerFor aVal (k_io k);
               fails = map (\<lambda>d. send_failed E_SOCKET_CLOSED (fst d)) unsent;
               k1 = k\<lparr>k_io := io\<lparr>FDivisor := snd (MRemoveLimitsFor aVal (FDivisor io))\<rparr>\<rparr>
           in if fails \<noteq> [] then MNoteFailSend e fails k1 else Some k1)"

fun remove_channels :: "setting \<Rightarrow> descriptor list \<Rightarrow> string \<Rightarrow> kernel \<Rightarrow> kernel option" where
  "remove_channels e [] w k = Some k"
| "remove_channels e (d # ds) w k = MRemoveChannelFor e d w k \<bind> remove_channels e ds w"

text \<open>The module that is removed says which connections it has.\<close>

definition MFactoryRemoved :: "setting \<Rightarrow> string \<Rightarrow> descriptor list \<Rightarrow> kernel \<Rightarrow> kernel option" where
  "MFactoryRemoved e factory ds k = (if FIsInited (k_io k) then remove_channels e ds factory k else Some k)"

definition push_data :: "descriptor \<Rightarrow> kernel_msg \<Rightarrow> kernel \<Rightarrow> kernel" where
  "push_data aFrom aWhat k = k\<lparr>k_pushed := k_pushed k @ [(aFrom, aWhat)]\<rparr>"

definition MRecvImpl :: "setting \<Rightarrow> routing_t \<Rightarrow> descriptor \<Rightarrow> kernel_msg \<Rightarrow> error_info_t \<Rightarrow> kernel \<Rightarrow> kernel" where
  "MRecvImpl e aRoute aFrom aWhat aError k =
     (if error_info_MIsValid aError then k
      else let for_me = Kernel_Io.MIsForMe (e_my e) aRoute;
               k1 = (if FRoute aRoute = [] \<or> for_me then push_data aFrom aWhat k else k)
           in if FRoute aRoute \<noteq> [] \<and> (\<not> for_me \<or> length (FRoute aRoute) > 1)
              then k1\<lparr>k_io := MRouting aRoute aWhat aFrom (k_io k1)\<rparr> else k1)"

definition io_MReceivedData :: "setting \<Rightarrow> kernel_msg \<Rightarrow> descriptor \<Rightarrow> routing_t \<Rightarrow> error_info_t \<Rightarrow> kernel \<Rightarrow> kernel" where
  "io_MReceivedData e aWhat aFrom aRoute aError k =
     (case aWhat of NetDemands _ \<Rightarrow> push_data aFrom aWhat k | _ \<Rightarrow> MRecvImpl e aRoute aFrom aWhat aError k)"

definition MReceivedUserData :: "user_data_t \<Rightarrow> descriptor \<Rightarrow> kernel \<Rightarrow> kernel" where
  "MReceivedUserData aWhat aFrom k = k\<lparr>k_user := k_user k @ [(aFrom, [aWhat])]\<rparr>"

definition MRouteOperation :: "setting \<Rightarrow> routing_op_t \<Rightarrow> kernel \<Rightarrow> kernel option" where
  "MRouteOperation e op k =
     map_option (\<lambda>(to, lost, k1).
         if lost \<noteq> []
         then k1\<lparr>k_io := snd (MSendTo_error (e_link e) (FOpDesc op) (FOpData op)
                \<lparr>FRoute = [FUuid (FFrom to)], FFrom = my_id e\<rparr>
                (no_error_info\<lparr>error_info_t.FErrorCode := E_NO_ROUTE, error_info_t.FWhere := my_id e, FErrorTo := lost\<rparr>) (k_io k1))\<rparr>
         else k1)
       (MRoute e (FOpTo op) (FOpData op) k)"

partial_function (option) route_queue :: "setting \<Rightarrow> kernel \<Rightarrow> kernel option" where
  "route_queue e k =
     (case FRoutings (k_io k) of
        [] \<Rightarrow> Some k
      | op # rest \<Rightarrow> MRouteOperation e op (k\<lparr>k_io := (k_io k)\<lparr>FRoutings := rest\<rparr>\<rparr>) \<bind> route_queue e)"

declare route_queue.simps [code]

text \<open>The body of the loop of \<open>MSendUserDataImpl\<close>, up to the look for more, and the loop.\<close>

definition send_round :: "setting \<Rightarrow> bool \<Rightarrow> descriptor \<Rightarrow> user_datas_t \<Rightarrow> kernel \<Rightarrow> kernel option" where
  "send_round e consumer d data k = do {
     (sending, fails, k1) \<leftarrow>
       (if consumer then map_option (\<lambda>(left, to, es, k1). (to, es, k1)) (route_MFillMsgHandlersFor e data k)
        else Some (data, [], k));
     let (errs, unsent, io) = (if sending \<noteq> [] then MSendingUserDataTo (e_link e) (k_descriptors k1) d sending (k_io k1)
                               else ([], [], k_io k1));
     let k2 = k1\<lparr>k_io := io\<rparr>;
     if fails @ errs \<noteq> [] then MNoteFailSend e (fails @ errs) k2 else Some k2
   }"

partial_function (option) send_rounds ::
    "setting \<Rightarrow> 32 word \<Rightarrow> bool \<Rightarrow> descriptor \<Rightarrow> user_datas_t \<Rightarrow> kernel \<Rightarrow> kernel option" where
  "send_rounds e th consumer d data k =
     send_round e consumer d data k \<bind> (\<lambda>k1.
     MNextSend th d [] (k_io k1) \<bind> (\<lambda>(more, ds, io).
       if more then send_rounds e th consumer d (map fst ds) (k1\<lparr>k_io := io\<rparr>) else Some (k1\<lparr>k_io := io\<rparr>)))"

declare send_rounds.simps [code]

definition MSendUserDataImpl :: "setting \<Rightarrow> 32 word \<Rightarrow> kernel \<Rightarrow> kernel option" where
  "MSendUserDataImpl e th k =
     MBeginSend th (k_io k) \<bind> (\<lambda>(x, io).
       let k1 = k\<lparr>k_io := io\<rparr>
       in case x of
            None \<Rightarrow> Some k1
          | Some (d, data) \<Rightarrow>
              (let (info, is) = MGet_info d (k_descriptors k1)
               in if \<not> sMIsValid d \<or> \<not> is then Some k1
                  else send_rounds e th (FType (FProgramm info) = E_CONSUMER) d (map fst data) k1))"

section \<open>The next connection\<close>

text \<open>
  A service that answers which connection leads to a program, and may learn from a question: it
  always answers, and a question changes neither the answers nor that it is ready.
\<close>

locale way_service =
  fixes ask :: "'u \<Rightarrow> 's \<Rightarrow> ('d list \<times> 's) option" and ready :: "'s \<Rightarrow> bool"
  assumes answers: "ready s \<Longrightarrow> \<exists>ds s'. ask u s = Some (ds, s') \<and> ready s' \<and> (\<forall>v. map_option fst (ask v s') = map_option fst (ask v s))"

fun ask_all :: "('u \<Rightarrow> 's \<Rightarrow> ('d list \<times> 's) option) \<Rightarrow> 'u list \<Rightarrow> 's \<Rightarrow> ('d list list \<times> 's) option" where
  "ask_all ask [] s = Some ([], s)"
| "ask_all ask (u # us) s = ask u s \<bind> (\<lambda>(ds, s1). map_option (\<lambda>(dss, s2). (ds # dss, s2)) (ask_all ask us s1))"

definition answer :: "('u \<Rightarrow> 's \<Rightarrow> ('d list \<times> 's) option) \<Rightarrow> 's \<Rightarrow> 'u \<Rightarrow> 'd list" where
  "answer ask s u = (case map_option fst (ask u s) of Some ds \<Rightarrow> ds | None \<Rightarrow> [])"

context way_service
begin

lemma ask_answer:
  assumes "ready s"
  shows "\<exists>s'. ask u s = Some (answer ask s u, s') \<and> ready s' \<and> answer ask s' = answer ask s"
proof -
  obtain ds s' where a: "ask u s = Some (ds, s')" "ready s'" "\<And>v. map_option fst (ask v s') = map_option fst (ask v s)"
    using answers [OF assms] by blast
  have "answer ask s' = answer ask s" unfolding fun_eq_iff answer_def a(3) by simp
  moreover have "ds = answer ask s u" using a(1) by (simp add: answer_def)
  ultimately show ?thesis using a by blast
qed

lemma ask_all_answers:
  "ready s \<Longrightarrow> \<exists>s'. ask_all ask us s = Some (map (answer ask s) us, s') \<and> ready s' \<and> answer ask s' = answer ask s"
proof (induction us arbitrary: s)
  case (Cons u us)
  obtain s1 where s1: "ask u s = Some (answer ask s u, s1)" "ready s1" "answer ask s1 = answer ask s"
    using ask_answer [OF Cons.prems] by blast
  then show ?case using Cons.IH [OF s1(2)] by auto
qed simp

end

text \<open>The question of the routing service, and when it can be asked.\<close>

definition ask_way :: "setting \<Rightarrow> uuid \<Rightarrow> kernel \<Rightarrow> (descriptor list \<times> kernel) option" where
  "ask_way e u k = map_option (\<lambda>(ds, i). (ds, k\<lparr>k_info := i\<rparr>)) (MNextDestinations (e_my e) (k_descriptors k) u (k_info k))"

definition way_ready :: "setting \<Rightarrow> kernel \<Rightarrow> bool" where
  "way_ready e k \<longleftrightarrow> info_ok (e_my e) (k_info k) \<and> search_ready (FUuid (my_id e)) (FGraph (k_info k))
     \<and> descriptors_ok (k_descriptors k)"

text \<open>The path to a program depends on the vertices only, not on what the graph keeps of earlier searches.\<close>

lemma shortest_path_answer:
  assumes "search_ready a g"
  shows "map_option fst (MShortestPath a b g) =
    (dijkstra_loop (FVertices g) (search_start a) \<bind> (\<lambda>s. map_option rev (walk_back (prev_of s) a b)))"
proof -
  have r: "graph_ok g" "om_has a (FVertices g)" "graph_bounded g 65535"
    using assms latency16_bounded by (auto simp: search_ready_def)
  obtain s :: search and p g' where s: "walk_back (prev_of s) a b = Some p" "MShortestPath a b g = Some (rev p, g')" "FVertices g' = FVertices g"
    "graph_ok g'" "om_get (FPathes g') a = Some \<lparr>FMinDistance = dist_of s, FPrevious = prev_of s\<rparr>"
    using MShortestPath_step [OF r(1,3,2)] by blast
  have "map_option (\<lambda>s. \<lparr>FMinDistance = dist_of s, FPrevious = prev_of s\<rparr>)
      (dijkstra_loop (FVertices g) (search_start a)) = Some \<lparr>FMinDistance = dist_of s, FPrevious = prev_of s\<rparr>"
    using s(3-5) by (auto simp: graph_ok_def dest!: map_of_SomeD)
  then obtain t where "dijkstra_loop (FVertices g) (search_start a) = Some t" "prev_of t = prev_of s"
    by (auto simp: map_option_case split: option.splits)
  then show ?thesis using s(1,2) by simp
qed

lemma next_answer:
  assumes "search_ready (FUuid (FId my)) (FGraph d)"
  shows "map_option fst (MNextDestinations my ds t d) =
    (case om_get (FDestianationCache d) t of Some nx \<Rightarrow> Some nx
     | None \<Rightarrow> dijkstra_loop (FVertices (FGraph d)) (search_start (FUuid (FId my))) \<bind>
         (\<lambda>s. map_option rev (walk_back (prev_of s) (FUuid (FId my)) t)) \<bind> connection_of_hop (\<lambda>u. MGet_uuid u ds))"
proof (cases "om_get (FDestianationCache d) t")
  case None
  have "map_option fst (MNextDestinations my ds t d)
      = map_option fst (MShortestPath (FUuid (FId my)) t (FGraph d)) \<bind> connection_of_hop (\<lambda>u. MGet_uuid u ds)"
    by (cases "MShortestPath (FUuid (FId my)) t (FGraph d)"; cases "connection_of_hop (\<lambda>u. MGet_uuid u ds) (fst (the (MShortestPath (FUuid (FId my)) t (FGraph d))))")
      (auto simp: next_destinations_miss [OF None])
  then show ?thesis using None shortest_path_answer [OF assms] by simp
next
  case (Some nx)
  then show ?thesis by (simp add: MNextDestinations_def)
qed

lemma next_destinations_learn:
  assumes "om_get (FDestianationCache d) t = None" "MNextDestinations my ds t d = Some (nx, d')"
  shows "\<exists>p g. MShortestPath (FUuid (FId my)) t (FGraph d) = Some (p, g)
    \<and> d' = d\<lparr>FGraph := g, FDestianationCache := om_set t nx (FDestianationCache d)\<rparr>"
proof (cases "MShortestPath (FUuid (FId my)) t (FGraph d)")
  case (Some x)
  then show ?thesis
    using assms(2) by (cases x; cases "connection_of_hop (\<lambda>u. MGet_uuid u ds) (fst x)") (simp_all add: next_destinations_miss [OF assms(1)])
qed (use assms in \<open>simp add: next_destinations_miss\<close>)

lemma next_learns:
  assumes "info_ok my d" "search_ready (FUuid (FId my)) (FGraph d)" "descriptors_ok ds"
  shows "\<exists>nx d'. MNextDestinations my ds t d = Some (nx, d') \<and> info_ok my d' \<and> search_ready (FUuid (FId my)) (FGraph d')
    \<and> FNet d' = FNet d
    \<and> (\<forall>v. map_option fst (MNextDestinations my ds v d') = map_option fst (MNextDestinations my ds v d))"
proof (cases "om_get (FDestianationCache d) t")
  case (Some nx)
  then show ?thesis using assms by (simp add: MNextDestinations_def)
next
  case None
  obtain nx d' where n: "MNextDestinations my ds t d = Some (nx, d')" "info_ok my d'" "FNet d' = FNet d"
    using next_ok [OF assms None] by blast
  obtain p g where p: "MShortestPath (FUuid (FId my)) t (FGraph d) = Some (p, g)"
    "d' = d\<lparr>FGraph := g, FDestianationCache := om_set t nx (FDestianationCache d)\<rparr>"
    using next_destinations_learn [OF None n(1)] by blast
  obtain p1 g1 where "MShortestPath (FUuid (FId my)) t (FGraph d) = Some (p1, g1)" "FVertices g1 = FVertices (FGraph d)" "graph_ok g1"
    by (rule search_step [OF assms(2)])
  then have "FVertices g = FVertices (FGraph d)" "graph_ok g" using p(1) by simp_all
  then have g: "FVertices g = FVertices (FGraph d)" "search_ready (FUuid (FId my)) g"
    using assms(2) by (simp_all add: search_ready_def latency16_def)
  then have r: "search_ready (FUuid (FId my)) (FGraph d')" using p(2) by simp
  have "map_option fst (MNextDestinations my ds v d') = map_option fst (MNextDestinations my ds v d)" for v
  proof (cases "v = t")
    case True
    then show ?thesis using n(1) p(2) by (simp add: MNextDestinations_def om_simps)
  next
    case False
    have same: "FVertices (FGraph d') = FVertices (FGraph d)" "om_get (FDestianationCache d') v = om_get (FDestianationCache d) v"
      using g(1) p(2) False by (simp_all add: om_simps)
    show ?thesis unfolding next_answer [OF r] next_answer [OF assms(2)] same ..
  qed
  then show ?thesis using n r by blast
qed

lemma ask_way_learns:
  assumes "way_ready e k"
  shows "\<exists>ds k'. ask_way e u k = Some (ds, k') \<and> way_ready e k' \<and> (\<forall>v. map_option fst (ask_way e v k') = map_option fst (ask_way e v k))
    \<and> (\<exists>i. k' = k\<lparr>k_info := i\<rparr>) \<and> FNet (k_info k') = FNet (k_info k)"
proof -
  have fst_ask: "map_option fst (ask_way e v k) = map_option fst (MNextDestinations (e_my e) (k_descriptors k) v (k_info k))" for v k
    by (simp add: ask_way_def option.map_comp comp_def case_prod_unfold)
  obtain nx i where "MNextDestinations (e_my e) (k_descriptors k) u (k_info k) = Some (nx, i)" "info_ok (e_my e) i"
    "search_ready (FUuid (my_id e)) (FGraph i)" "FNet i = FNet (k_info k)"
    "\<forall>v. map_option fst (MNextDestinations (e_my e) (k_descriptors k) v i) = map_option fst (MNextDestinations (e_my e) (k_descriptors k) v (k_info k))"
    using next_learns assms unfolding way_ready_def by blast
  moreover from this have "ask_way e u k = Some (nx, k\<lparr>k_info := i\<rparr>)" by (simp add: ask_way_def)
  ultimately show ?thesis using assms by (auto simp: fst_ask way_ready_def)
qed

text \<open>The services keep the net and everything but the state of \<open>CInfoService\<close> while they are asked.\<close>

definition way_same :: "kernel \<Rightarrow> kernel \<Rightarrow> bool" where
  "way_same k k' \<longleftrightarrow> (\<exists>i. k' = k\<lparr>k_info := i\<rparr> \<and> FNet i = FNet (k_info k))"

lemma way_same_refl: "way_same k k"
  by (auto simp: way_same_def intro: exI [of _ "k_info k"])

lemma way_same_trans: "way_same k k1 \<Longrightarrow> way_same k1 k2 \<Longrightarrow> way_same k k2"
  by (auto simp: way_same_def)

interpretation ws: way_service "ask_way e" "\<lambda>k. way_ready e k \<and> way_same k0 k" for e k0
  by unfold_locales (metis ask_way_learns way_same_def way_same_trans kernel.select_convs(2) kernel.surjective kernel.update_convs(2))

section \<open>Receivers grouped by connection\<close>

text \<open>The connection that leads to a program, if there is one.\<close>

definition hop :: "setting \<Rightarrow> kernel \<Rightarrow> uuid \<Rightarrow> descriptor option" where
  "hop e k u = (let ds = answer (ask_way e) k u in if ds \<noteq> [] \<and> sMIsValid (hd ds) then Some (hd ds) else None)"

definition no_way :: "setting \<Rightarrow> kernel \<Rightarrow> uuid \<Rightarrow> bool" where
  "no_way e k u \<longleftrightarrow> hop e k u = None"

definition behind :: "setting \<Rightarrow> kernel \<Rightarrow> descriptor \<Rightarrow> uuid list \<Rightarrow> uuid list" where
  "behind e k d us = filter (\<lambda>u. hop e k u = Some d) us"

lemma behind_simps:
  "behind e k d [] = []"
  "behind e k d (u # us) = (if hop e k u = Some d then u # behind e k d us else behind e k d us)"
  by (simp_all add: behind_def)

definition route_to :: "id_t \<Rightarrow> uuid list \<Rightarrow> routing_t option" where
  "route_to src us = (if us = [] then None else Some \<lparr>FRoute = us, FFrom = src\<rparr>)"

lemma ask_hop:
  assumes "way_ready e k"
  shows "\<exists>i. MNextDestinations (e_my e) (k_descriptors k) u (k_info k) = Some (answer (ask_way e) k u, i)
    \<and> way_ready e (k\<lparr>k_info := i\<rparr>) \<and> way_same k (k\<lparr>k_info := i\<rparr>) \<and> hop e (k\<lparr>k_info := i\<rparr>) = hop e k"
proof -
  have "way_ready e k \<and> way_same k k" using assms way_same_refl by simp
  from ws.ask_answer [OF this, of u] obtain k' where k': "ask_way e u k = Some (answer (ask_way e) k u, k')"
    "way_ready e k'" "way_same k k'" "answer (ask_way e) k' = answer (ask_way e) k" by blast
  then show ?thesis by (auto simp: ask_way_def hop_def fun_eq_iff)
qed

lemma output_loop_groups:
  assumes "way_ready e k" "om_ok out" "\<And>d. om_get out d = route_to src (m d)"
  shows "\<exists>out1 k1. output_loop e src us out k = Some (filter (\<lambda>u. \<not> no_way e k u) us, filter (no_way e k) us, out1, k1)
    \<and> way_ready e k1 \<and> way_same k k1 \<and> hop e k1 = hop e k \<and> om_ok out1
    \<and> (\<forall>d. om_get out1 d = route_to src (m d @ behind e k d us))"
  using assms
proof (induction us arbitrary: out k m)
  case Nil
  then show ?case by (simp add: behind_simps way_same_refl)
next
  case (Cons u us)
  obtain i where i: "MNextDestinations (e_my e) (k_descriptors k) u (k_info k) = Some (answer (ask_way e) k u, i)"
    "way_ready e (k\<lparr>k_info := i\<rparr>)" "way_same k (k\<lparr>k_info := i\<rparr>)" "hop e (k\<lparr>k_info := i\<rparr>) = hop e k"
    using ask_hop [OF Cons.prems(1)] by blast
  let ?k = "k\<lparr>k_info := i\<rparr>"
  have same: "no_way e ?k = no_way e k" "behind e ?k = behind e k"
    using i(4) by (simp_all add: no_way_def behind_def fun_eq_iff)
  show ?case
  proof (cases "hop e k u")
    case None
    then have a: "\<not> (answer (ask_way e) k u \<noteq> [] \<and> sMIsValid (hd (answer (ask_way e) k u)))"
      by (auto simp: hop_def Let_def split: if_splits)
    obtain out1 k1 where
      "output_loop e src us out ?k = Some (filter (\<lambda>u. \<not> no_way e k u) us, filter (no_way e k) us, out1, k1)"
      "way_ready e k1" "way_same ?k k1" "hop e k1 = hop e k" "om_ok out1"
      "\<And>x. om_get out1 x = route_to src (m x @ behind e k x us)"
      using Cons.IH [OF i(2) Cons.prems(2,3)] unfolding same i(4) by blast
    moreover have "no_way e k u" "\<And>x. behind e k x (u # us) = behind e k x us"
      using None by (simp_all add: no_way_def behind_simps)
    ultimately show ?thesis using i(1) a way_same_trans [OF i(3)] by auto
  next
    case (Some d)
    then have a: "answer (ask_way e) k u \<noteq> []" "sMIsValid d" "hd (answer (ask_way e) k u) = d"
      by (auto simp: hop_def Let_def split: if_splits)
    let ?out = "om_set d ((get_or \<lparr>FRoute = [], FFrom = src\<rparr> out d)\<lparr>FRoute := FRoute (get_or \<lparr>FRoute = [], FFrom = src\<rparr> out d) @ [u]\<rparr>) out"
    let ?m = "m(d := m d @ [u])"
    have out: "om_ok ?out" using Cons.prems(2) by (rule om_ok_set)
    have "om_get ?out x = route_to src (?m x)" for x
      using Cons.prems(3) [of d] Cons.prems(3) [of x] by (auto simp: om_simps get_or_def route_to_def split: if_splits)
    from Cons.IH [OF i(2) out this] obtain out1 k1 where
      "output_loop e src us ?out ?k = Some (filter (\<lambda>u. \<not> no_way e k u) us, filter (no_way e k) us, out1, k1)"
      "way_ready e k1" "way_same ?k k1" "hop e k1 = hop e k" "om_ok out1"
      "\<And>x. om_get out1 x = route_to src (?m x @ behind e k x us)"
      unfolding same i(4) by blast
    moreover have "?m x @ behind e k x us = m x @ behind e k x (u # us)" for x
      using Some by (simp add: behind_simps)
    ultimately show ?thesis
      using a i(1) Some way_same_trans [OF i(3)] by (auto simp: no_way_def [of e k u])
  qed
qed

lemma output_descriptors_step:
  assumes "way_ready e k"
  shows "\<exists>out k1. MGetOutputDescriptors e r k
      = Some (r\<lparr>FRoute := filter (\<lambda>u. \<not> no_way e k u) (FRoute r)\<rparr>, filter (no_way e k) (FRoute r), out, k1)
    \<and> way_ready e k1 \<and> way_same k k1 \<and> hop e k1 = hop e k \<and> om_ok out
    \<and> (\<forall>d. om_get out d = route_to (FFrom r) (behind e k d (FRoute r)))"
proof -
  have "om_get [] d = route_to (FFrom r) []" for d :: descriptor by (simp add: route_to_def)
  from output_loop_groups [OF assms om_ok_Nil this, of "FRoute r"] show ?thesis
    by (auto simp: MGetOutputDescriptors_def)
qed

section \<open>Messages sorted by connection\<close>

text \<open>A queue that is not there is empty.\<close>

definition as_queue :: "'a list \<Rightarrow> 'a list option" where
  "as_queue xs = (if xs = [] then None else Some xs)"

definition both_queues :: "'a list option \<Rightarrow> 'a list option \<Rightarrow> 'a list option" where
  "both_queues t w = (case t of None \<Rightarrow> w | Some x \<Rightarrow> (case w of None \<Rightarrow> t | Some y \<Rightarrow> Some (x @ y)))"

lemma both_queues_simps [simp]: "both_queues None w = w" "both_queues t None = t" "both_queues (Some x) (Some y) = Some (x @ y)"
  by (auto simp: both_queues_def split: option.splits)

lemma both_as_queue: "both_queues (as_queue xs) (as_queue ys) = as_queue (xs @ ys)"
  by (simp add: as_queue_def)

lemma om_get_below: "(\<forall>x\<in>set m. (d::'k::linorder) < fst x) \<Longrightarrow> om_get m d = None"
  by (force simp: map_of_eq_None_iff)

lemma splice_keys: "fst ` set (MSortedSplice ws ts) = fst ` set ws \<union> fst ` set ts"
  by (induction ws ts rule: MSortedSplice.induct) auto

lemma splice_above:
  assumes "\<forall>x\<in>set ws. d < fst x" "\<forall>x\<in>set ts. d < fst x"
  shows "\<forall>x\<in>set (MSortedSplice ws ts). d < fst x"
proof -
  have "d < y" if "y \<in> fst ` set (MSortedSplice ws ts)" for y
    using that assms unfolding splice_keys by auto
  then show ?thesis by blast
qed

text \<open>Splicing keeps the order of the connections and appends to each queue.\<close>

lemma splice_queues:
  "om_ok ws \<Longrightarrow> om_ok ts \<Longrightarrow> om_ok (MSortedSplice ws ts)
     \<and> (\<forall>d. om_get (MSortedSplice ws ts) d = both_queues (om_get ts d) (om_get ws d))"
proof (induction ws ts rule: MSortedSplice.induct)
  case (3 w ws t ts)
  have w: "om_ok ws" "\<forall>x\<in>set ws. fst w < fst x" and t: "om_ok ts" "\<forall>x\<in>set ts. fst t < fst x"
    using "3.prems" by (auto simp: om_ok_Cons)
  consider "fst t < fst w" | "fst t = fst w" | "fst w < fst t" by fastforce
  then show ?case
  proof cases
    case 1
    have above: "\<forall>x\<in>set (MSortedSplice (w # ws) ts). fst t < fst x"
      using 1 w t by (intro splice_above) auto
    have "om_get (w # ws) (fst t) = None" using 1 w by (intro om_get_below) auto
    with "3.IH"(1) [OF 1 "3.prems"(1) t(1)] above 1 show ?thesis by (cases t) (auto simp: om_ok_Cons)
  next
    case 2
    have above: "\<forall>x\<in>set (MSortedSplice ws ts). fst t < fst x"
      using 2 w t by (intro splice_above) auto
    with "3.IH"(2) [OF _ 2 w(1) t(1)] 2 show ?thesis by (cases t; cases w) (auto simp: om_ok_Cons)
  next
    case 3
    have above: "\<forall>x\<in>set (MSortedSplice ws (t # ts)). fst w < fst x"
      using 3 w t by (intro splice_above) auto
    have "om_get (t # ts) (fst w) = None" using 3 t by (intro om_get_below) auto
    moreover have "\<not> fst t < fst w" "fst t \<noteq> fst w" using 3 by auto
    ultimately show ?thesis using "3.IH"(3) [OF _ _ w(1) "3.prems"(2)] above by (cases w) (auto simp: om_ok_Cons)
  qed
qed auto

text \<open>The copy of a message that goes through a connection.\<close>

definition copy_for :: "setting \<Rightarrow> kernel \<Rightarrow> descriptor \<Rightarrow> user_data_t \<Rightarrow> user_data_t" where
  "copy_for e k d m = set_route (behind e k d (route_of m)) m"

definition copies_by :: "setting \<Rightarrow> kernel \<Rightarrow> descriptor \<Rightarrow> user_datas_t \<Rightarrow> user_datas_t" where
  "copies_by e k d ms = map (copy_for e k d) (filter (\<lambda>m. behind e k d (route_of m) \<noteq> []) ms)"

definition lost_message :: "setting \<Rightarrow> kernel \<Rightarrow> user_data_t \<Rightarrow> bool" where
  "lost_message e k m \<longleftrightarrow> (\<forall>u\<in>set (route_of m). no_way e k u)"

definition lost_error :: "user_data_t \<Rightarrow> error_type" where
  "lost_error m = (if route_of m = [] then E_UNKNOWN_ERROR else E_NO_ROUTE)"

lemma copies_Nil: "copies_by e k d [] = []"
  by (simp add: copies_by_def)

lemma lost_iff: "lost_message e k m \<longleftrightarrow> (\<forall>d. behind e k d (route_of m) = [])"
  by (simp add: lost_message_def no_way_def behind_def filter_empty_conv) (metis not_None_eq)

lemma copies_lost: "lost_message e k m \<Longrightarrow> copies_by e k d [m] = []"
  by (simp add: lost_iff copies_by_def)

lemma routing_to_descriptor:
  fixes us :: "uuid list"
  assumes "om_ok out" "\<And>d. om_get out d = route_to (FFrom (FRouting (FDataId m))) (behind e k d (route_of m))"
  defines "os \<equiv> MRoutingMsgToDescriptor (set_route us m) out"
  shows "om_ok os" "om_get os d = as_queue (copies_by e k d [m])" "os = [] \<longleftrightarrow> lost_message e k m"
proof -
  let ?f = "\<lambda>d r. [(set_route us m)\<lparr>FDataId := (FDataId (set_route us m))\<lparr>FRouting := r\<rparr>\<rparr>]"
  have os: "os = map (\<lambda>(d, r). (d, ?f d r)) out" by (simp add: os_def MRoutingMsgToDescriptor_def)
  show "om_ok os" using assms(1) unfolding os om_ok_map_values .
  have "?f d \<lparr>FRoute = ws, FFrom = FFrom (FRouting (FDataId m))\<rparr> = [set_route ws m]" for ws d
    by (simp add: set_route_def)
  then show get: "om_get os d = as_queue (copies_by e k d [m])" for d
    unfolding os om_get_map_values assms(2) by (simp add: route_to_def as_queue_def copies_by_def copy_for_def)
  have "os = [] \<longleftrightarrow> (\<forall>d. om_get os d = None)" by (cases os) (auto simp: map_of_eq_None_iff)
  also have "\<dots> \<longleftrightarrow> lost_message e k m" by (auto simp: get lost_iff as_queue_def copies_by_def)
  finally show "os = [] \<longleftrightarrow> lost_message e k m" .
qed

lemma distribute_one_step:
  assumes "way_ready e k"
  shows "\<exists>new k1. distribute_one e m k =
      Some (if lost_message e k m then lost_error m else E_NO_ERROR,
            if route_of m = [] then m else set_route (filter (\<lambda>u. \<not> no_way e k u) (route_of m)) m, new, [], k1)
    \<and> way_ready e k1 \<and> way_same k k1 \<and> hop e k1 = hop e k \<and> om_ok new \<and> (\<forall>d. om_get new d = as_queue (copies_by e k d [m]))"
proof (cases "route_of m = []")
  case True
  then show ?thesis using assms
    by (intro exI [of _ "[]"] exI [of _ k])
       (simp add: distribute_one_def lost_error_def lost_message_def way_same_refl copies_by_def behind_simps as_queue_def)
next
  case False
  let ?r = "FRouting (FDataId m)"
  let ?us = "filter (\<lambda>u. \<not> no_way e k u) (route_of m)"
  obtain out k1 where o: "MGetOutputDescriptors e ?r k = Some (?r\<lparr>FRoute := ?us\<rparr>, filter (no_way e k) (route_of m), out, k1)"
    "way_ready e k1" "way_same k k1" "hop e k1 = hop e k" "om_ok out"
    and get: "\<And>d. om_get out d = route_to (FFrom ?r) (behind e k d (route_of m))"
    using output_descriptors_step [OF assms, of ?r] unfolding route_of_def by blast
  note os = routing_to_descriptor [OF o(5) get, of ?us]
  have set: "m\<lparr>FDataId := (FDataId m)\<lparr>FRouting := ?r\<lparr>FRoute := ?us\<rparr>\<rparr>\<rparr> = set_route ?us m" by (simp add: set_route_def)
  have out: "out = [] \<longleftrightarrow> lost_message e k m" using os(3) by (simp add: MRoutingMsgToDescriptor_def)
  show ?thesis
    using o(1-4) os False out
    by (cases "lost_message e k m") (auto simp: distribute_one_def set lost_error_def Let_def copies_lost as_queue_def)
qed

text \<open>What is kept of a message that no connection takes: without receivers.\<close>

definition lost_part :: "setting \<Rightarrow> kernel \<Rightarrow> user_datas_t \<Rightarrow> user_datas_t" where
  "lost_part e k ms = map (set_route []) (filter (lost_message e k) ms)"

definition lost_fails :: "setting \<Rightarrow> kernel \<Rightarrow> user_datas_t \<Rightarrow> fail_send_t list" where
  "lost_fails e k ms = map (\<lambda>m. send_failed (lost_error m) (set_route [] m)) (filter (lost_message e k) ms)"

lemma lost_route: "lost_message e k m \<Longrightarrow> filter (\<lambda>u. \<not> no_way e k u) (route_of m) = []"
  by (simp add: lost_message_def filter_empty_conv)

lemma set_route_Nil: "route_of m = [] \<Longrightarrow> set_route [] m = m"
  by (simp add: route_of_def set_route_def)

lemma lost_error_error: "lost_error m \<noteq> E_NO_ERROR"
  by (simp add: lost_error_def E_NO_ERROR_def E_NO_ROUTE_def E_UNKNOWN_ERROR_def)

lemma same_hops:
  assumes "hop e k1 = hop e k"
  shows "no_way e k1 = no_way e k" "behind e k1 = behind e k" "copies_by e k1 = copies_by e k"
    "lost_message e k1 = lost_message e k" "lost_part e k1 = lost_part e k" "lost_fails e k1 = lost_fails e k"
proof -
  show n: "no_way e k1 = no_way e k" and b: "behind e k1 = behind e k"
    using assms by (simp_all add: fun_eq_iff no_way_def behind_def)
  show "copies_by e k1 = copies_by e k" by (simp add: fun_eq_iff copies_by_def copy_for_def b)
  have l: "lost_message e k1 = lost_message e k" by (simp add: fun_eq_iff lost_message_def n)
  then show "lost_message e k1 = lost_message e k" .
  show "lost_part e k1 = lost_part e k" "lost_fails e k1 = lost_fails e k"
    unfolding fun_eq_iff lost_part_def lost_fails_def l by simp_all
qed

lemma distribute_loop_groups:
  assumes "way_ready e k" "om_ok out" "\<And>d. om_get out d = as_queue (q d)"
  shows "\<exists>out1 k1. distribute_loop e ms out k = Some (lost_part e k ms, out1, lost_fails e k ms, k1)
    \<and> way_ready e k1 \<and> way_same k k1 \<and> hop e k1 = hop e k \<and> om_ok out1
    \<and> (\<forall>d. om_get out1 d = as_queue (q d @ copies_by e k d ms))"
  using assms
proof (induction ms arbitrary: out k q)
  case Nil
  then show ?case by (simp add: lost_part_def lost_fails_def copies_Nil way_same_refl)
next
  case (Cons m ms)
  let ?d = "if route_of m = [] then m else set_route (filter (\<lambda>u. \<not> no_way e k u) (route_of m)) m"
  obtain new k1 where one: "distribute_one e m k =
      Some (if lost_message e k m then lost_error m else E_NO_ERROR, ?d, new, [], k1)"
    and k1: "way_ready e k1" "way_same k k1" "hop e k1 = hop e k"
    and new: "om_ok new" "\<And>d. om_get new d = as_queue (copies_by e k d [m])"
    using distribute_one_step [OF Cons.prems(1)] by blast
  let ?out = "if new \<noteq> [] then MSortedSplice new out else out"
  note same = same_hops [OF k1(3)]
  note spl = splice_queues [OF new(1) Cons.prems(2)]
  have out: "om_ok ?out" using spl Cons.prems(2) by simp
  have q: "om_get ?out d = as_queue (q d @ copies_by e k d [m])" for d
  proof -
    have "om_get ?out d = both_queues (om_get out d) (om_get new d)" using spl by simp
    then show ?thesis unfolding new(2) Cons.prems(3) both_as_queue .
  qed
  have app: "(q d @ copies_by e k d [m]) @ copies_by e k d ms = q d @ copies_by e k d (m # ms)" for d
    by (simp add: copies_by_def)
  obtain out1 k2 where rest: "distribute_loop e ms ?out k1 = Some (lost_part e k ms, out1, lost_fails e k ms, k2)"
    "way_ready e k2" "way_same k1 k2" "hop e k2 = hop e k" "om_ok out1"
    "\<And>d. om_get out1 d = as_queue (q d @ copies_by e k d (m # ms))"
    using Cons.IH [OF k1(1) out q] unfolding k1(3) same app by blast
  have d: "lost_message e k m \<Longrightarrow> ?d = set_route [] m" using lost_route set_route_Nil by simp
  have "distribute_loop e (m # ms) out k = Some (lost_part e k (m # ms), out1, lost_fails e k (m # ms), k2)"
    using one rest(1) d lost_error_error [of m]
    by (cases "lost_message e k m") (simp_all add: lost_part_def lost_fails_def)
  then show ?case using rest way_same_trans [OF k1(2)] by blast
qed

lemma distribute_step:
  assumes "way_ready e k"
  shows "\<exists>out k1. MDistributeMsgByDescriptors e ms k = Some (lost_part e k ms, out, lost_fails e k ms, k1)
    \<and> way_ready e k1 \<and> way_same k k1 \<and> hop e k1 = hop e k \<and> om_ok out
    \<and> (\<forall>d. om_get out d = as_queue (copies_by e k d ms))"
proof -
  have "om_get [] d = as_queue []" for d :: descriptor by (simp add: as_queue_def)
  from distribute_loop_groups [OF assms om_ok_Nil this] show ?thesis by (simp add: MDistributeMsgByDescriptors_def)
qed

section \<open>Into the channels\<close>

text \<open>What a channel gets fits into it.\<close>

definition sendable :: "setting \<Rightarrow> kernel \<Rightarrow> user_datas_t \<Rightarrow> bool" where
  "sendable e k ms \<longleftrightarrow> real_data ms \<and> (\<forall>d\<in>set (List.map_filter (hop e k) (concat (map route_of ms))).
     undivided (FDivisor (k_io k)) d (copies_by e k d ms))"

lemma outputs_sendable:
  assumes s: "sendable e k ms" and out: "om_ok out" "\<And>d. om_get out d = as_queue (copies_by e k d ms)"
    and io: "FDivisor (k_io k1) = FDivisor (k_io k)"
  shows "outputs_ok (k_io k1) out"
proof -
  have "sMIsValid d \<and> real_data ds \<and> undivided (FDivisor (k_io k1)) d ds" if "(d, ds) \<in> set out" for d ds
  proof -
    have ds: "ds = copies_by e k d ms" "ds \<noteq> []"
      using that out by (auto simp: om_get_mem [OF out(1), symmetric] as_queue_def split: if_splits)
    then obtain m u where m: "m \<in> set ms" "u \<in> set (route_of m)" "hop e k u = Some d"
      by (auto simp: copies_by_def behind_def filter_empty_conv)
    have "real_data ds" using s ds(1) by (auto simp: sendable_def real_data_def list_all_iff copies_by_def copy_for_def set_route_def)
    moreover have "d \<in> set (List.map_filter (hop e k) (concat (map route_of ms)))"
      using m by (force simp: map_filter_def)
    moreover have "sMIsValid d" using m(3) by (auto simp: hop_def Let_def split: if_splits)
    ultimately show ?thesis using s ds(1) io by (simp add: sendable_def)
  qed
  then show ?thesis using om_ok_distinct [OF out(1)] by (auto simp: outputs_ok_def list_all_iff)
qed

section \<open>The groups as lists\<close>

definition connections :: "setting \<Rightarrow> kernel \<Rightarrow> uuid list \<Rightarrow> descriptor list" where
  "connections e k us = sort (remdups (List.map_filter (hop e k) us))"

definition groups :: "setting \<Rightarrow> kernel \<Rightarrow> id_t \<Rightarrow> uuid list \<Rightarrow> output_decriptors_for_t" where
  "groups e k src us = map (\<lambda>d. (d, \<lparr>FRoute = behind e k d us, FFrom = src\<rparr>)) (connections e k us)"

definition message_groups :: "setting \<Rightarrow> kernel \<Rightarrow> user_datas_t \<Rightarrow> output_user_data_t" where
  "message_groups e k ms = map (\<lambda>d. (d, copies_by e k d ms)) (connections e k (concat (map route_of ms)))"

lemma set_connections: "d \<in> set (connections e k us) \<longleftrightarrow> behind e k d us \<noteq> []"
  by (force simp: connections_def map_filter_def behind_def filter_empty_conv)

lemma sorted_connections: "sorted_wrt (<) (connections e k us)"
  by (simp add: connections_def strict_sorted_iff)

lemma om_ok_of_list: "sorted_wrt (<) ds \<Longrightarrow> om_ok (map (\<lambda>d. (d, f d)) ds)"
  by (simp add: om_ok_def comp_def)

lemma om_get_of_list: "om_get (map (\<lambda>d. (d, f d)) ds) d = (if d \<in> set ds then Some (f d) else None)"
  by (induction ds) auto

lemma copies_through: "copies_by e k d ms \<noteq> [] \<longleftrightarrow> behind e k d (concat (map route_of ms)) \<noteq> []"
  by (auto simp: copies_by_def behind_def filter_empty_conv)

lemma groups_eqI:
  assumes "om_ok out" "\<And>d. om_get out d = route_to src (behind e k d us)"
  shows "out = groups e k src us"
  using assms by (intro om_eqI) (auto simp: groups_def om_ok_of_list sorted_connections om_get_of_list set_connections route_to_def)

lemma message_groups_eqI:
  assumes "om_ok out" "\<And>d. om_get out d = as_queue (copies_by e k d ms)"
  shows "out = message_groups e k ms"
proof (rule om_eqI)
  show "om_get out d = om_get (message_groups e k ms) d" for d
    unfolding message_groups_def om_get_of_list set_connections copies_through [symmetric] assms(2) by (simp add: as_queue_def)
qed (simp_all add: assms message_groups_def om_ok_of_list sorted_connections)

lemma output_descriptors_groups:
  assumes "way_ready e k"
  shows "\<exists>k1. MGetOutputDescriptors e r k = Some (r\<lparr>FRoute := filter (\<lambda>u. \<not> no_way e k u) (FRoute r)\<rparr>,
      filter (no_way e k) (FRoute r), groups e k (FFrom r) (FRoute r), k1)
    \<and> way_ready e k1 \<and> way_same k k1 \<and> hop e k1 = hop e k"
  using output_descriptors_step [OF assms, of r] groups_eqI by metis

lemma distribute_groups:
  assumes "way_ready e k"
  shows "\<exists>k1. MDistributeMsgByDescriptors e ms k = Some (lost_part e k ms, message_groups e k ms, lost_fails e k ms, k1)
    \<and> way_ready e k1 \<and> way_same k k1 \<and> hop e k1 = hop e k"
  using distribute_step [OF assms, of ms] message_groups_eqI by metis

section \<open>Messages between kernels\<close>

text \<open>The services are not asked otherwise when only channels and counters change.\<close>

lemma fst_ask_way: "map_option fst (ask_way e u k) = map_option fst (MNextDestinations (e_my e) (k_descriptors k) u (k_info k))"
  by (simp add: ask_way_def option.map_comp comp_def case_prod_unfold)

lemma hop_update [simp]:
  "hop e (k\<lparr>k_io := io\<rparr>) = hop e k" "hop e (k\<lparr>k_state := st\<rparr>) = hop e k" "hop e (k\<lparr>k_dg := g\<rparr>) = hop e k"
  by (simp_all add: hop_def fun_eq_iff answer_def fst_ask_way)

lemma way_ready_update [simp]:
  "way_ready e (k\<lparr>k_io := io\<rparr>) = way_ready e k" "way_ready e (k\<lparr>k_state := st\<rparr>) = way_ready e k"
  "way_ready e (k\<lparr>k_dg := g\<rparr>) = way_ready e k"
  by (simp_all add: way_ready_def)

definition channel_open :: "kernel_io \<Rightarrow> descriptor \<Rightarrow> bool" where
  "channel_open s d \<longleftrightarrow> sMIsValid d \<and> FIsInited s \<and> om_has d (FIoManagers s)"

definition log_more :: "channel_event list \<Rightarrow> kernel_io \<Rightarrow> kernel_io" where
  "log_more es s = s\<lparr>FLog := FLog s @ es\<rparr>"

lemma log_more_simps [simp]:
  "log_more [] s = s" "log_more es (log_more fs s) = log_more (fs @ es) s"
  "channel_open (log_more es s) = channel_open s" "FRoutings (log_more es s) = FRoutings s"
  "FIoManagers (log_more es s) = FIoManagers s" "FLog (log_more es s) = FLog s @ es" "FDivisor (log_more es s) = FDivisor s"
  "io_ok (log_more es s) = io_ok s" "waiting (log_more es s) = waiting s"
  by (simp_all add: log_more_def channel_open_def fun_eq_iff io_ok_def waiting_def)

text \<open>What the channels are given for a message and its receivers.\<close>

definition group_events :: "kernel_io \<Rightarrow> kernel_msg \<Rightarrow> output_decriptors_for_t \<Rightarrow> channel_event list" where
  "group_events s w out = map (\<lambda>(d, r). SentMsg d w r no_error_info) (filter (\<lambda>(d, r). channel_open s d) out)"

definition message_events :: "setting \<Rightarrow> kernel \<Rightarrow> kernel_msg \<Rightarrow> routing_t \<Rightarrow> channel_event list" where
  "message_events e k w r = group_events (k_io k) w (groups e k (FFrom r) (FRoute r))"

text \<open>\<open>k1\<close> is \<open>k\<close> after these events, but for what the information service has learned.\<close>

definition after_events :: "channel_event list \<Rightarrow> kernel \<Rightarrow> kernel \<Rightarrow> bool" where
  "after_events es k k1 \<longleftrightarrow> (\<exists>i. FNet i = FNet (k_info k) \<and> k1 = k\<lparr>k_info := i, k_io := log_more es (k_io k)\<rparr>)"

lemma MSendTo_route_log:
  "snd (MSendTo_route link d w r s) = log_more (if channel_open s d then [SentMsg d w r no_error_info] else []) s"
  by (auto simp: MSendTo_route_def MSendTo_error_def MSend_def channel_open_def log_more_def)

lemma send_each_log: "\<exists>lost. send_each e w out k = (lost, k\<lparr>k_io := log_more (group_events (k_io k) w out) (k_io k)\<rparr>)"
proof (induction out arbitrary: k)
  case Nil
  then show ?case by (simp add: group_events_def)
next
  case (Cons x out)
  obtain d r where x: "x = (d, r)" by fastforce
  obtain ok io where s: "MSendTo_route (e_link e) d w r (k_io k) = (ok, io)" by fastforce
  have io: "io = log_more (if channel_open (k_io k) d then [SentMsg d w r no_error_info] else []) (k_io k)"
    using MSendTo_route_log [of "e_link e" d w r "k_io k"] s by simp
  then have "group_events io w = group_events (k_io k) w" by (simp add: group_events_def fun_eq_iff)
  then show ?case using Cons.IH [of "k\<lparr>k_io := io\<rparr>"] s io by (auto simp: x group_events_def)
qed

lemma way_same_keeps:
  "way_same k k1 \<Longrightarrow> k_io k1 = k_io k \<and> k_descriptors k1 = k_descriptors k \<and> k_state k1 = k_state k \<and> k_dg k1 = k_dg k"
  by (auto simp: way_same_def)

lemma after_events_keeps:
  "after_events es k k1 \<Longrightarrow> k_io k1 = log_more es (k_io k) \<and> k_state k1 = k_state k \<and> k_dg k1 = k_dg k \<and> k_descriptors k1 = k_descriptors k"
  by (auto simp: after_events_def)

lemma after_events_trans:
  assumes "after_events es k k1" "after_events fs k1 k2"
  shows "after_events (es @ fs) k k2"
  using assms by (auto simp: after_events_def)

lemma route_MSendTo_step:
  assumes "way_ready e k"
  shows "\<exists>lost k1. route_MSendTo e r w k = Some (r\<lparr>FRoute := filter (\<lambda>u. \<not> no_way e k u) (FRoute r)\<rparr>, lost, k1)
    \<and> way_ready e k1 \<and> hop e k1 = hop e k \<and> after_events (message_events e k w r) k k1"
proof -
  obtain k1 where k1: "MGetOutputDescriptors e r k = Some (r\<lparr>FRoute := filter (\<lambda>u. \<not> no_way e k u) (FRoute r)\<rparr>,
      filter (no_way e k) (FRoute r), groups e k (FFrom r) (FRoute r), k1)"
    "way_ready e k1" "way_same k k1" "hop e k1 = hop e k"
    using output_descriptors_groups [OF assms] by blast
  let ?g = "groups e k (FFrom r) (FRoute r)"
  obtain lost where lost: "send_each e w ?g k1 = (lost, k1\<lparr>k_io := log_more (group_events (k_io k1) w ?g) (k_io k1)\<rparr>)"
    using send_each_log by blast
  have io: "k_io k1 = k_io k" using way_same_keeps [OF k1(3)] by simp
  have "after_events (message_events e k w r) k (k1\<lparr>k_io := log_more (group_events (k_io k1) w ?g) (k_io k1)\<rparr>)"
    using k1(3) unfolding message_events_def io by (auto simp: after_events_def way_same_def)
  then show ?thesis using k1 lost by (auto simp: route_MSendTo_def)
qed

section \<open>Reports and transit messages\<close>

lemma same_groups:
  assumes "hop e k1 = hop e k"
  shows "groups e k1 = groups e k"
proof -
  have "connections e k1 = connections e k" unfolding fun_eq_iff connections_def assms by simp
  then show ?thesis by (simp add: fun_eq_iff groups_def same_hops [OF assms])
qed

lemma message_events_same: "hop e k1 = hop e k \<Longrightarrow> channel_open (k_io k1) = channel_open (k_io k) \<Longrightarrow> message_events e k1 = message_events e k"
  using same_groups [of e k1 k] by (intro ext) (simp add: message_events_def group_events_def)

definition fail_events :: "setting \<Rightarrow> kernel \<Rightarrow> fail_send_t \<Rightarrow> channel_event list" where
  "fail_events e k f = message_events e k (NetFail f) \<lparr>FRoute = error_receivers f, FFrom = my_id e\<rparr>"

lemma note_each_step:
  "way_ready e k \<Longrightarrow> \<exists>k1. note_each e fs k = Some k1 \<and> way_ready e k1 \<and> hop e k1 = hop e k
     \<and> after_events (concat (map (fail_events e k) fs)) k k1"
proof (induction fs arbitrary: k)
  case Nil
  then show ?case by (auto simp: after_events_def intro: exI [of _ "k_info k"])
next
  case (Cons f fs)
  obtain k1 where k1: "MNoteFailSend_one e f k = Some k1" "way_ready e k1" "hop e k1 = hop e k" "after_events (fail_events e k f) k k1"
    using route_MSendTo_step [OF Cons.prems, of "\<lparr>FRoute = error_receivers f, FFrom = my_id e\<rparr>" "NetFail f"]
    by (fastforce simp: MNoteFailSend_one_def fail_events_def)
  have "fail_events e k1 = fail_events e k"
    using message_events_same [OF k1(3)] after_events_keeps [OF k1(4)] by (simp add: fail_events_def fun_eq_iff)
  then show ?case using Cons.IH [OF k1(2)] k1 after_events_trans [OF k1(4)] by auto
qed

definition merged_fails :: "fail_send_t list \<Rightarrow> fail_send_t list" where
  "merged_fails fs = map snd (merge_repeated fs [])"

lemma MNoteFailSend_step:
  assumes "way_ready e k"
  shows "\<exists>k1. MNoteFailSend e fs k = Some k1 \<and> way_ready e k1 \<and> hop e k1 = hop e k
    \<and> after_events (concat (map (fail_events e k) (merged_fails fs))) k k1"
  unfolding MNoteFailSend_def merged_fails_def by (rule note_each_step [OF assms])

text \<open>One message of the queue: it goes to every connection of its route, after which at most an answer of an error.\<close>

definition transit_events :: "setting \<Rightarrow> kernel \<Rightarrow> routing_op_t \<Rightarrow> channel_event list" where
  "transit_events e k op =
     message_events e k (FOpData op) ((FOpTo op)\<lparr>FRoute := remove1 (FUuid (my_id e)) (FRoute (FOpTo op))\<rparr>)"

lemma message_events_Nil: "FRoute r = [] \<Longrightarrow> message_events e k w r = []"
  by (simp add: message_events_def groups_def connections_def group_events_def map_filter_def)

lemma MRoute_step:
  assumes "way_ready e k"
  shows "\<exists>to lost k1. MRoute e (FOpTo op) (FOpData op) k = Some (to, lost, k1) \<and> FFrom to = FFrom (FOpTo op)
    \<and> way_ready e k1 \<and> hop e k1 = hop e k \<and> after_events (transit_events e k op) k k1"
proof (cases "remove1 (FUuid (my_id e)) (FRoute (FOpTo op)) = []")
  case True
  then show ?thesis using assms
    by (auto simp: MRoute_def transit_events_def message_events_Nil after_events_def intro: exI [of _ "k_info k"])
next
  case False
  then show ?thesis
    using route_MSendTo_step [OF assms, of "(FOpTo op)\<lparr>FRoute := remove1 (FUuid (my_id e)) (FRoute (FOpTo op))\<rparr>" "FOpData op"]
    by (fastforce simp: MRoute_def transit_events_def)
qed

lemma MRouteOperation_step:
  assumes "way_ready e k"
  shows "\<exists>k1 ans. MRouteOperation e op k = Some k1 \<and> way_ready e k1 \<and> hop e k1 = hop e k
    \<and> length ans \<le> 1 \<and> after_events (transit_events e k op @ ans) k k1"
proof -
  obtain to lost k1 where k1: "MRoute e (FOpTo op) (FOpData op) k = Some (to, lost, k1)" "FFrom to = FFrom (FOpTo op)"
    "way_ready e k1" "hop e k1 = hop e k" "after_events (transit_events e k op) k k1"
    using MRoute_step [OF assms] by blast
  let ?r = "\<lparr>FRoute = [FUuid (FFrom to)], FFrom = my_id e\<rparr>"
  let ?err = "no_error_info\<lparr>error_info_t.FErrorCode := E_NO_ROUTE, error_info_t.FWhere := my_id e, FErrorTo := lost\<rparr>"
  let ?ans = "if lost \<noteq> [] \<and> channel_open (k_io k) (FOpDesc op) then [SentMsg (FOpDesc op) (FOpData op) ?r ?err] else []"
  let ?k = "if lost \<noteq> [] then k1\<lparr>k_io := snd (MSendTo_error (e_link e) (FOpDesc op) (FOpData op) ?r ?err (k_io k1))\<rparr> else k1"
  have "after_events ?ans k1 ?k"
    using after_events_keeps [OF k1(5)]
    by (auto simp: after_events_def MSendTo_error_def MSend_def channel_open_def log_more_def intro: exI [of _ "k_info k1"])
  moreover have "MRouteOperation e op k = Some ?k" using k1(1) by (simp add: MRouteOperation_def)
  moreover have "way_ready e ?k" "hop e ?k = hop e k" using k1 by simp_all
  ultimately show ?thesis using after_events_trans [OF k1(5)]
    by (intro exI [of _ ?k] exI [of _ ?ans]) auto
qed

definition op_done :: "setting \<Rightarrow> kernel \<Rightarrow> routing_op_t \<Rightarrow> channel_event list \<Rightarrow> bool" where
  "op_done e k op es \<longleftrightarrow> (\<exists>ans. es = transit_events e k op @ ans \<and> length ans \<le> 1)"

lemma route_queue_step:
  assumes "way_ready e k"
  shows "\<exists>k1 ess. route_queue e k = Some k1 \<and> way_ready e k1 \<and> FRoutings (k_io k1) = []
    \<and> FLog (k_io k1) = FLog (k_io k) @ concat ess \<and> list_all2 (op_done e k) (FRoutings (k_io k)) ess
    \<and> hop e k1 = hop e k \<and> FIoManagers (k_io k1) = FIoManagers (k_io k)"
  using assms
proof (induction "FRoutings (k_io k)" arbitrary: k)
  case Nil
  then show ?case by (auto simp: route_queue.simps [of e k] split: list.splits)
next
  case (Cons op rest)
  let ?k = "k\<lparr>k_io := (k_io k)\<lparr>FRoutings := rest\<rparr>\<rparr>"
  obtain k1 ans where k1: "MRouteOperation e op ?k = Some k1" "way_ready e k1" "hop e k1 = hop e k" "length ans \<le> 1"
    "after_events (transit_events e ?k op @ ans) ?k k1"
    using MRouteOperation_step [of e ?k op] Cons.prems by auto
  have io: "k_io k1 = log_more (transit_events e ?k op @ ans) ((k_io k)\<lparr>FRoutings := rest\<rparr>)"
    using after_events_keeps [OF k1(5)] by simp
  have chan: "channel_open (k_io ?k) = channel_open (k_io k)" "channel_open (k_io k1) = channel_open (k_io k)"
    unfolding io by (simp_all add: channel_open_def fun_eq_iff)
  have evs: "op_done e k1 = op_done e k" "transit_events e ?k = transit_events e k"
    using message_events_same [of e ?k k] message_events_same [of e k1 k] k1(3) chan
    by (simp_all add: op_done_def transit_events_def fun_eq_iff)
  obtain k2 ess where k2: "route_queue e k1 = Some k2" "way_ready e k2" "FRoutings (k_io k2) = []"
    "FLog (k_io k2) = FLog (k_io k1) @ concat ess" "list_all2 (op_done e k) rest ess"
    "hop e k2 = hop e k" "FIoManagers (k_io k2) = FIoManagers (k_io k)"
    using Cons.hyps(1) [of k1] k1(2,3) io unfolding evs by auto
  have "op_done e k op (transit_events e k op @ ans)" using k1(4) by (auto simp: op_done_def)
  moreover have "route_queue e k = Some k2"
    using Cons.hyps(2) [symmetric] k1(1) k2(1) by (simp add: route_queue.simps [of e k])
  ultimately show ?case using k2 Cons.hyps(2) [symmetric] io evs(2)
    by (intro exI [of _ k2] exI [of _ "(transit_events e k op @ ans) # ess"]) simp
qed

section \<open>Repeated errors\<close>

lemma push_unique_spec: "distinct new \<Longrightarrow> distinct (push_unique new us) \<and> set (push_unique new us) = set new \<union> set us"
  by (induction new us rule: push_unique.induct) auto

text \<open>What the reports of one packet and sender are merged to.\<close>

definition fail_of :: "fail_send_t list \<Rightarrow> 32 word \<times> uuid \<Rightarrow> fail_send_t list" where
  "fail_of fs x = filter (\<lambda>f. fail_key f = x) fs"

lemma fail_key_merge: "fail_key (merge_fails old new) = fail_key old"
  by (simp add: fail_key_def merge_fails_def fail_MSetError_def Let_def)

lemma merge_repeated_ok: "om_ok m \<Longrightarrow> om_ok (merge_repeated fs m)"
  by (induction fs m rule: merge_repeated.induct) (auto simp: om_ok_set split: option.splits)

lemma merge_repeated_get:
  "om_get (merge_repeated fs m) x =
     (case om_get m x of
        Some f \<Rightarrow> Some (fold (\<lambda>g f. merge_fails f g) (fail_of fs x) f)
      | None \<Rightarrow> (case fail_of fs x of [] \<Rightarrow> None | g # gs \<Rightarrow> Some (fold (\<lambda>g f. merge_fails f g) gs g)))"
proof (induction fs m rule: merge_repeated.induct)
  case (1 m)
  then show ?case by (simp add: fail_of_def split: option.splits)
next
  case (2 f fs m)
  show ?case
  proof (cases "om_get m (fail_key f)")
    case None
    then show ?thesis using "2.IH" by (cases "x = fail_key f") (auto simp: om_simps fail_of_def split: option.splits)
  next
    case (Some old)
    then show ?thesis using "2.IH" by (cases "x = fail_key f") (auto simp: om_simps fail_of_def split: option.splits)
  qed
qed

definition fail_route :: "fail_send_t \<Rightarrow> uuid list" where
  "fail_route f = FRoute (FRouting f)"

lemma merge_fails_route: "set (fail_route (merge_fails f g)) = set (fail_route f) \<union> set (fail_route g)"
  using push_unique_spec [of "push_unique [] (fail_route f)" "fail_route g"] push_unique_spec [of "[]" "fail_route f"]
  by (simp add: merge_fails_def fail_route_def fail_MSetError_def Let_def)

lemma merge_fails_error: "FError (merge_fails f g) = FError f OR FError g"
  by (simp add: merge_fails_def fail_MSetError_def MSetFlag_def code_inner_error_def Let_def)

lemma fold_merge:
  defines "m \<equiv> \<lambda>gs f. fold (\<lambda>g f. merge_fails f g) gs f"
  shows "fail_key (m gs f) = fail_key f"
    "set (fail_route (m gs f)) = (\<Union>g\<in>set (f # gs). set (fail_route g))"
    "bit (FError (m gs f)) b = (\<exists>g\<in>set (f # gs). bit (FError g) b)"
  unfolding m_def
  by (induction gs arbitrary: f) (auto simp: fail_key_merge merge_fails_route merge_fails_error bit_or_iff)

text \<open>A report stands for all reports of its packet and sender.\<close>

definition stands_for :: "fail_send_t list \<Rightarrow> fail_send_t \<Rightarrow> bool" where
  "stands_for fs f \<longleftrightarrow> fail_of fs (fail_key f) \<noteq> []
     \<and> set (fail_route f) = (\<Union>g\<in>set (fail_of fs (fail_key f)). set (fail_route g))
     \<and> (\<forall>b. bit (FError f) b = (\<exists>g\<in>set (fail_of fs (fail_key f)). bit (FError g) b))"

lemma merged_fails_spec:
  "sorted_wrt (<) (map fail_key (merged_fails fs)) \<and> fail_key ` set (merged_fails fs) = fail_key ` set fs
     \<and> (\<forall>f\<in>set (merged_fails fs). stands_for fs f)"
proof -
  let ?m = "merge_repeated fs []"
  have ok: "om_ok ?m" by (simp add: merge_repeated_ok)
  have entry: "fail_key f = x \<and> stands_for fs f" if x: "(x, f) \<in> set ?m" for x f
  proof -
    have "om_get ?m x = Some f" using x by (simp add: om_get_mem [OF ok])
    then obtain g gs where g: "fail_of fs x = g # gs" "f = fold (\<lambda>g f. merge_fails f g) gs g"
      by (auto simp: merge_repeated_get split: list.splits)
    have "fail_key g = x" using g(1) by (auto simp: fail_of_def dest: filter_eq_ConsD)
    then have "fail_key f = x" unfolding g(2) fold_merge(1) .
    moreover have "stands_for fs f" using g(1) fold_merge [of gs g] unfolding stands_for_def calculation by (simp add: g(2))
    ultimately show ?thesis ..
  qed
  then have keys: "map fail_key (merged_fails fs) = map fst ?m" by (auto simp: merged_fails_def)
  have "x \<in> fst ` set ?m \<longleftrightarrow> fail_of fs x \<noteq> []" for x
    using merge_repeated_get [of fs "[]" x] by (auto simp: om_has_iff [symmetric] om_has_def split: list.splits)
  moreover have "fail_of fs x \<noteq> [] \<longleftrightarrow> x \<in> fail_key ` set fs" for x by (auto simp: fail_of_def filter_empty_conv)
  ultimately have "fst ` set ?m = fail_key ` set fs" by blast
  then have "fail_key ` set (merged_fails fs) = fail_key ` set fs" using arg_cong [OF keys, of set] by simp
  moreover have "sorted_wrt (<) (map fail_key (merged_fails fs))" using ok unfolding keys om_ok_def .
  moreover have "\<forall>f\<in>set (merged_fails fs). stands_for fs f" using entry by (auto simp: merged_fails_def)
  ultimately show ?thesis by blast
qed

end
