(* ===== verification/Routing_Delivery.thy ===== *)
theory Routing_Delivery
  imports Routing_Service
begin

text \<open>
  What the routing service does with user data, errors, transit messages and demands: the handlers of
  \<open>Routing_Service\<close> composed with the table of demands, the ways of the information service and
  the buffers of the channels. Every handler is shown to return, and what the channels are given
  is described exactly.
\<close>

section \<open>User data through the service\<close>

lemma MSendMessages_step:
  assumes "way_ready e k" "io_ok (k_io k)" "sendable e k ms"
  defines "ds \<equiv> connections e k (concat (map route_of ms))"
  shows "\<exists>refused k1. MSendMessages e ms k = Some (lost_part e k ms @ concat (map refused ds),
      lost_fails e k ms @ concat (map (\<lambda>d. map (send_failed (refusal (k_io k) d)) (refused d)) ds), k1)
    \<and> way_ready e k1 \<and> hop e k1 = hop e k \<and> io_ok (k_io k1) \<and> same_links (k_io k) (k_io k1)
    \<and> FDivisor (k_io k1) = FDivisor (k_io k) \<and> k_state k1 = k_state k
    \<and> (\<forall>d. output_taken (k_io k) (k_io k1) d (copies_by e k d ms) (refused d))"
proof -
  let ?out = "message_groups e k ms"
  obtain k1 where k1: "MDistributeMsgByDescriptors e ms k = Some (lost_part e k ms, ?out, lost_fails e k ms, k1)"
    "way_ready e k1" "way_same k k1" "hop e k1 = hop e k"
    using distribute_groups [OF assms(1)] by blast
  have io: "k_io k1 = k_io k" "k_state k1 = k_state k" using way_same_keeps [OF k1(3)] by simp_all
  have none: "copies_by e k d ms = []" if "d \<notin> set ds" for d
    using that copies_through [of e k d ms] by (simp add: ds_def set_connections)
  have get: "om_get ?out d = as_queue (copies_by e k d ms)" for d
    unfolding message_groups_def om_get_of_list set_connections copies_through [symmetric] by (simp add: as_queue_def)
  have ok: "om_ok ?out" by (simp add: message_groups_def om_ok_of_list sorted_connections)
  have out: "?out = map (\<lambda>d. (d, copies_by e k d ms)) ds" by (simp add: message_groups_def ds_def)
  have "outputs_ok (k_io k) ?out" by (rule outputs_sendable [OF assms(3) ok get refl])
  from MSendTo_outputs [OF assms(2) this, of "e_place e"] obtain refused t where
    t: "MSendTo (e_place e) ?out (k_io k) = Some (concat (map (\<lambda>d. map (send_failed (refusal (k_io k) d)) (refused d)) ds),
        concat (map refused ds), t)" "io_ok t" "FDivisor t = FDivisor (k_io k)" "same_links (k_io k) t"
      "\<forall>x. x \<notin> set ds \<longrightarrow> om_get (FIoManagers t) x = om_get (FIoManagers (k_io k)) x"
      "\<forall>d\<in>set ds. output_taken (k_io k) t d (copies_by e k d ms) (refused d)"
    unfolding out by (auto simp: comp_def image_comp)
  let ?refused = "\<lambda>d. if d \<in> set ds then refused d else []"
  have "output_taken (k_io k) t d (copies_by e k d ms) (?refused d)" for d
    using t(5,6) none by (cases "d \<in> set ds") (auto simp: output_taken_def waiting_def)
  moreover have "MSendMessages e ms k = Some (lost_part e k ms @ concat (map ?refused ds),
      lost_fails e k ms @ concat (map (\<lambda>d. map (send_failed (refusal (k_io k) d)) (?refused d)) ds), k1\<lparr>k_io := t\<rparr>)"
  proof (cases "?out = []")
    case True
    then have "ds = []" by (simp add: out)
    then have "t = k_io k" using t(1) True by simp
    then show ?thesis using True \<open>ds = []\<close> k1(1) io(1) by (simp add: MSendMessages_def)
  next
    case False
    have "map ?refused ds = map refused ds"
      "map (\<lambda>d. map (send_failed (refusal (k_io k) d)) (?refused d)) ds = map (\<lambda>d. map (send_failed (refusal (k_io k) d)) (refused d)) ds"
      by (simp_all cong: map_cong)
    then show ?thesis unfolding MSendMessages_def k1(1) using False t(1) io(1) by (simp only: bind.bind_lunit split option.map if_True simp_thms)
  qed
  ultimately show ?thesis using k1 t io by (intro exI [of _ ?refused] exI [of _ "k1\<lparr>k_io := t\<rparr>"]) simp
qed

text \<open>Data in the byte order of this machine is not swapped.\<close>

lemma extract_own_order:
  assumes "\<forall>d\<in>set ms. FEndian (FDataId d) = E_SHARE_ENDIAN"
  shows "MExtractMsgThatHasToBeSwaped cs ms = (ms, [])"
proof -
  have "extract_swapped cs d = ([d], [])" if "d \<in> set ms" for d
    using assms that by (simp add: extract_swapped_def Let_def set_route_def route_of_def)
  then have "concat (map (fst \<circ> extract_swapped cs) ms) = ms" "concat (map (snd \<circ> extract_swapped cs) ms) = []"
    by (induction ms) auto
  then show ?thesis by (simp add: MExtractMsgThatHasToBeSwaped_def)
qed

definition unrouted :: "user_datas_t \<Rightarrow> user_datas_t" where
  "unrouted ms = filter (\<lambda>d. route_of d = []) ms"

definition routed :: "user_datas_t \<Rightarrow> user_datas_t" where
  "routed ms = filter (\<lambda>d. route_of d \<noteq> []) ms"

text \<open>The reports of a run: all errors if there are any.\<close>

lemma note_if_step:
  assumes "way_ready e k"
  shows "\<exists>k1. (if es \<noteq> [] then MNoteFailSend e es (k\<lparr>k_state := st\<rparr>) else Some k) = Some k1
    \<and> k_io k1 = log_more (concat (map (fail_events e k) (merged_fails es))) (k_io k)
    \<and> k_state k1 = (if es \<noteq> [] then st else k_state k) \<and> way_ready e k1 \<and> hop e k1 = hop e k"
proof (cases "es = []")
  case True
  then show ?thesis using assms by (simp add: merged_fails_def)
next
  case False
  let ?k = "k\<lparr>k_state := st\<rparr>"
  obtain k1 where k1: "MNoteFailSend e es ?k = Some k1" "way_ready e k1" "hop e k1 = hop e k"
    "after_events (concat (map (fail_events e ?k) (merged_fails es))) ?k k1"
    using MNoteFailSend_step [of e ?k es] assms by auto
  have "fail_events e ?k = fail_events e k" using message_events_same [of e ?k k] by (simp add: fail_events_def fun_eq_iff)
  then show ?thesis using False k1 after_events_keeps [OF k1(4)] by auto
qed

lemma sendable_update:
  assumes "hop e k1 = hop e k" "FDivisor (k_io k1) = FDivisor (k_io k)"
  shows "sendable e k1 ms = sendable e k ms"
  unfolding sendable_def assms same_hops [OF assms(1)] ..

lemma send_if_step:
  assumes "way_ready e k" "io_ok (k_io k)" "sendable e k rs"
  defines "ds \<equiv> connections e k (concat (map route_of rs))"
  shows "\<exists>refused k1. (if rs \<noteq> [] then MSendMessages e rs (add_sended rs k) else Some ([], [], k))
      = Some (lost_part e k rs @ concat (map refused ds),
          lost_fails e k rs @ concat (map (\<lambda>d. map (send_failed (refusal (k_io k) d)) (refused d)) ds), k1)
    \<and> way_ready e k1 \<and> hop e k1 = hop e k \<and> io_ok (k_io k1) \<and> FLog (k_io k1) = FLog (k_io k)
    \<and> channel_open (k_io k1) = channel_open (k_io k) \<and> k_state k1 = k_state (add_sended rs k)
    \<and> (\<forall>d. output_taken (k_io k) (k_io k1) d (copies_by e k d rs) (refused d))"
proof (cases "rs = []")
  case True
  then have "add_sended rs k = k" by (simp add: add_sended_def)
  with True assms show ?thesis
    by (intro exI [of _ "\<lambda>_. []"] exI [of _ k]) (simp add: lost_part_def lost_fails_def output_taken_def copies_Nil)
next
  case False
  let ?k = "add_sended rs k"
  have same: "hop e ?k = hop e k" "k_io ?k = k_io k" "way_ready e ?k = way_ready e k" by (simp_all add: add_sended_def)
  have conn: "connections e ?k = connections e k" unfolding fun_eq_iff connections_def same(1) by simp
  have "sendable e ?k rs" using assms(3) same(2) sendable_update [OF same(1)] by simp
  from MSendMessages_step [of e ?k rs, unfolded same same_hops [OF same(1)] conn, OF assms(1,2) this]
  obtain refused k1 where k1: "MSendMessages e rs ?k = Some (lost_part e k rs @ concat (map refused ds),
      lost_fails e k rs @ concat (map (\<lambda>d. map (send_failed (refusal (k_io k) d)) (refused d)) ds), k1)"
    "way_ready e k1" "hop e k1 = hop e k" "io_ok (k_io k1)" "same_links (k_io k) (k_io k1)" "k_state k1 = k_state ?k"
    "\<forall>d. output_taken (k_io k) (k_io k1) d (copies_by e k d rs) (refused d)"
    unfolding ds_def by blast
  have "FLog (k_io k1) = FLog (k_io k)" "channel_open (k_io k1) = channel_open (k_io k)"
    using k1(5) by (simp_all add: same_links_def channel_open_def fun_eq_iff)
  then show ?thesis using False k1 by (intro exI [of _ refused] exI [of _ k1]) simp
qed

lemma output_taken_log: "output_taken s (log_more es t) d ds refused = output_taken s t d ds refused"
proof -
  have "full_for (log_more es t) = full_for t" "handled_by_thread (log_more es t) = handled_by_thread t"
    "FOperartionSendFor (log_more es t) = FOperartionSendFor t"
    by (simp_all add: log_more_def full_for_def handled_by_thread_def fun_eq_iff)
  then show ?thesis by (simp add: output_taken_def)
qed

lemma MHandleFrom_step:
  assumes ready: "way_ready e k" "io_ok (k_io k)"
    and fill: "MFillMsgReceivers (e_parsers e) (unrouted ms) \<lparr>fill_dg = k_dg k, fill_errors = []\<rparr> = Some (left, filled, st)"
    and order: "\<forall>d\<in>set (routed ms @ filled). FEndian (FDataId d) = E_SHARE_ENDIAN" and snd: "sendable e k (routed ms @ filled)"
  defines "rs \<equiv> routed ms @ filled"
  defines "ds \<equiv> connections e k (concat (map route_of rs))"
  shows "\<exists>refused k1. MHandleFrom e ms k = Some (left @ lost_part e k rs @ concat (map refused ds), k1)
    \<and> (\<forall>d. output_taken (k_io k) (k_io k1) d (copies_by e k d rs) (refused d))
    \<and> FLog (k_io k1) = FLog (k_io k) @ concat (map (fail_events e k) (merged_fails (fill_errors st @ lost_fails e k rs
        @ concat (map (\<lambda>d. map (send_failed (refusal (k_io k) d)) (refused d)) ds))))
    \<and> way_ready e k1 \<and> io_ok (k_io k1) \<and> hop e k1 = hop e k
    \<and> FNumPackets (k_state k1) = FNumPackets (k_state k) + of_nat (length ms)
    \<and> FNumSended (k_state k1) = FNumSended (k_state k) + of_nat (length rs)
    \<and> FNoRoute (k_state k1) = FNoRoute (k_state k)"
proof -
  let ?k1 = "k\<lparr>k_state := (k_state k)\<lparr>FNumPackets := FNumPackets (k_state k) + of_nat (length ms)\<rparr>\<rparr>"
  let ?k2 = "?k1\<lparr>k_dg := fill_dg st\<rparr>"
  have f: "(if unrouted ms \<noteq> [] then route_MFillMsgReceivers e (unrouted ms) ?k1 else Some ([], [], [], ?k1))
      = Some (left, filled, fill_errors st, ?k2)"
    using fill by (cases "unrouted ms = []") (auto simp: route_MFillMsgReceivers_def)
  have same: "hop e ?k2 = hop e k" "k_io ?k2 = k_io k" "way_ready e ?k2 = way_ready e k" by simp_all
  have conn: "connections e ?k2 = connections e k" unfolding fun_eq_iff connections_def same(1) by simp
  have "sendable e ?k2 rs" using snd same(2) sendable_update [OF same(1)] by (simp add: rs_def)
  from send_if_step [of e ?k2 rs, unfolded same same_hops [OF same(1)] conn, OF ready this] obtain refused k3 where
    send: "(if rs \<noteq> [] then MSendMessages e rs (add_sended rs ?k2) else Some ([], [], ?k2))
      = Some (lost_part e k rs @ concat (map refused ds),
          lost_fails e k rs @ concat (map (\<lambda>d. map (send_failed (refusal (k_io k) d)) (refused d)) ds), k3)"
    and k3: "way_ready e k3" "hop e k3 = hop e k" "io_ok (k_io k3)" "FLog (k_io k3) = FLog (k_io k)"
      "channel_open (k_io k3) = channel_open (k_io k)" "k_state k3 = k_state (add_sended rs ?k2)"
    and taken: "\<forall>d. output_taken (k_io k) (k_io k3) d (copies_by e k d rs) (refused d)"
    unfolding ds_def by blast
  let ?es = "fill_errors st @ lost_fails e k rs @ concat (map (\<lambda>d. map (send_failed (refusal (k_io k) d)) (refused d)) ds)"
  let ?st = "(k_state k3)\<lparr>FSendError := FSendError (k_state k3) + 1\<rparr>"
  obtain k4 where noted: "(if ?es \<noteq> [] then MNoteFailSend e ?es (k3\<lparr>k_state := ?st\<rparr>) else Some k3) = Some k4"
    and k4: "k_io k4 = log_more (concat (map (fail_events e k3) (merged_fails ?es))) (k_io k3)"
      "k_state k4 = (if ?es \<noteq> [] then ?st else k_state k3)" "way_ready e k4" "hop e k4 = hop e k3"
    using note_if_step [OF k3(1), of ?es ?st] by blast
  have fe: "fail_events e k3 = fail_events e k" using message_events_same [OF k3(2,5)] by (simp add: fail_events_def fun_eq_iff)
  let ?left = "left @ lost_part e k rs @ concat (map refused ds)"
  let ?k5 = "k4\<lparr>k_state := (k_state k4)\<lparr>FNumNonHandled := FNumNonHandled (k_state k4) + of_nat (length ?left)\<rparr>\<rparr>"
  have order': "\<forall>d\<in>set rs. FEndian (FDataId d) = E_SHARE_ENDIAN" using order by (simp add: rs_def)
  have "MHandleFrom e ms k = Some (?left, ?k5)"
    unfolding MHandleFrom_def MClassifyMessages_def Let_def split unrouted_def [symmetric] routed_def [symmetric] f
      bind.bind_lunit rs_def [symmetric] extract_own_order [OF order'] send
    by (simp only: append_Nil2 simp_thms if_False bind.bind_lunit split noted)
  moreover have "\<forall>d. output_taken (k_io k) (k_io ?k5) d (copies_by e k d rs) (refused d)"
    using taken by (simp add: k4(1) output_taken_log)
  moreover have "FLog (k_io ?k5) = FLog (k_io k) @ concat (map (fail_events e k) (merged_fails ?es))"
    using k3(4) by (simp add: k4(1) fe)
  moreover have "FNumPackets (k_state ?k5) = FNumPackets (k_state k) + of_nat (length ms)"
    "FNumSended (k_state ?k5) = FNumSended (k_state k) + of_nat (length rs)" "FNoRoute (k_state ?k5) = FNoRoute (k_state k)"
    by (simp_all add: k4(2) k3(6) add_sended_def)
  moreover have "way_ready e ?k5" "io_ok (k_io ?k5)" "hop e ?k5 = hop e k" using k4 k3 by simp_all
  ultimately show ?thesis by (intro exI [of _ refused] exI [of _ ?k5]) simp
qed

section \<open>A thread sends what waits\<close>

lemma sending_to_known:
  "snd (MGet_info d cs) \<Longrightarrow> (if ms \<noteq> [] then MSendingUserDataTo link cs d ms s else ([], [], s)) =
     (map (send_failed E_SOCKET_CLOSED) (picked (\<lambda>i. \<not> link_took link (FLog s) d ms i) ms),
      picked (\<lambda>i. \<not> link_took link (FLog s) d ms i) ms, log_more (map (SentData d) ms) s)"
  by (cases "ms = []") (simp_all add: MSendingUserDataTo_def sending_alive log_more_def picked_def)

text \<open>
  What is sent to a channel: to a customer the messages that have handlers there, with them, and the
  others are reported; to a kernel all.
\<close>

definition prepared :: "setting \<Rightarrow> bool \<Rightarrow> kernel \<Rightarrow> user_datas_t \<Rightarrow> user_datas_t" where
  "prepared e consumer k ms = (if consumer then deliverable (e_parsers e) (k_dg k) ms else ms)"

definition unprepared :: "setting \<Rightarrow> bool \<Rightarrow> kernel \<Rightarrow> user_datas_t \<Rightarrow> fail_send_t list" where
  "unprepared e consumer k ms =
     (if consumer then map (fault_report (e_parsers e) (k_dg k)) (undeliverable (e_parsers e) (k_dg k) ms) else [])"

lemma prepare_step:
  assumes "consumer \<Longrightarrow> \<forall>m\<in>set ms. length (route_of m) = 1"
  shows "\<exists>g. (if consumer then map_option (\<lambda>(left, to, es, k1). (to, es, k1)) (route_MFillMsgHandlersFor e ms k)
      else Some (ms, [], k)) = Some (prepared e consumer k ms, unprepared e consumer k ms, k\<lparr>k_dg := g\<rparr>)"
proof (cases consumer)
  case True
  then obtain st where "MFillMsgHandlersFor (e_parsers e) ms \<lparr>fill_dg = k_dg k, fill_errors = []\<rparr> =
      Some (map (own_order (e_parsers e)) (undeliverable (e_parsers e) (k_dg k) ms), deliverable (e_parsers e) (k_dg k) ms, st)"
    "fill_errors st = map (fault_report (e_parsers e) (k_dg k)) (undeliverable (e_parsers e) (k_dg k) ms)"
    using fill_all_handlers [of ms "e_parsers e" "\<lparr>fill_dg = k_dg k, fill_errors = []\<rparr>"] assms by (auto simp: route_of_def)
  then show ?thesis using True by (auto simp: route_MFillMsgHandlersFor_def prepared_def unprepared_def)
next
  case False
  then show ?thesis by (intro exI [of _ "k_dg k"]) (simp add: prepared_def unprepared_def)
qed

text \<open>The reports of a thread: of messages without handlers and of those that the channel did not take.\<close>

definition sending_fails :: "setting \<Rightarrow> kernel \<Rightarrow> descriptor \<Rightarrow> user_datas_t \<Rightarrow> fail_send_t list" where
  "sending_fails e k d to =
     map (send_failed E_SOCKET_CLOSED) (picked (\<lambda>i. \<not> link_took (e_link e) (FLog (k_io k)) d to i) to)"

lemma send_round_step:
  fixes e consumer k ms
  assumes "way_ready e k" "snd (MGet_info d (k_descriptors k))" "consumer \<Longrightarrow> \<forall>m\<in>set ms. length (route_of m) = 1"
  defines "to \<equiv> prepared e consumer k ms" and "es \<equiv> unprepared e consumer k ms"
  shows "\<exists>k1. send_round e consumer d ms k = Some k1
    \<and> k_io k1 = log_more (map (SentData d) to @ concat (map (fail_events e k) (merged_fails (es @ sending_fails e k d to)))) (k_io k)"
proof -
  obtain g where p: "(if consumer then map_option (\<lambda>(left, to, es, k1). (to, es, k1)) (route_MFillMsgHandlersFor e ms k)
      else Some (ms, [], k)) = Some (to, es, k\<lparr>k_dg := g\<rparr>)"
    using prepare_step [where e = e and k = k, OF assms(3)] unfolding to_def es_def by blast
  let ?k = "k\<lparr>k_dg := g, k_io := log_more (map (SentData d) to) (k_io k)\<rparr>"
  let ?es = "es @ sending_fails e k d to"
  have fe: "fail_events e ?k = fail_events e k" using message_events_same [of e ?k k] by (simp add: fail_events_def fun_eq_iff)
  obtain k1 where k1: "(if ?es \<noteq> [] then MNoteFailSend e ?es ?k else Some ?k) = Some k1"
    "k_io k1 = log_more (concat (map (fail_events e k) (merged_fails ?es))) (k_io ?k)"
  proof -
    have st: "?k\<lparr>k_state := k_state ?k\<rparr> = ?k" by simp
    have ready: "way_ready e ?k" using assms(1) by simp
    show ?thesis using that note_if_step [OF ready, of ?es "k_state ?k"] unfolding st fe by blast
  qed
  have known: "snd (MGet_info d (k_descriptors (k\<lparr>k_dg := g\<rparr>)))" using assms(2) by simp
  have "send_round e consumer d ms k = Some k1"
    unfolding send_round_def p bind.bind_lunit split Let_def sending_to_known [OF known]
    using k1(1) unfolding sending_fails_def by (auto split: if_splits)
  then show ?thesis using k1(2) by auto
qed

lemma next_send_nothing:
  assumes "om_get (FIoManagers s) d = Some m" "FDataList (FDataBuffer m) = []" "FDoingThread (FDataBuffer m) = th"
  shows "\<exists>b. MNextSend th d [] s = Some (False, [], set_buffer d m b (g_current_SM_buffer s) s)
    \<and> FDataList b = [] \<and> FDoingThread b = 0 \<and> (buffer_ok (FDataBuffer m) \<longrightarrow> buffer_ok b)"
proof -
  obtain b where b: "MFinish th [] False (FDataBuffer m) = Some ([], b)" "FDataList b = []" "FDoingThread b = 0"
    "buffer_ok (FDataBuffer m) \<Longrightarrow> buffer_ok b"
    using MFinish_all_sent [OF assms(3)] assms(2) by metis
  then show ?thesis using assms(1) by (intro exI [of _ b]) (simp add: MNextSend_def MTry_empty)
qed

text \<open>The channel a thread takes: known, with data and no other thread.\<close>

definition can_begin :: "kernel \<Rightarrow> descriptor \<Rightarrow> bool" where
  "can_begin k d \<longleftrightarrow> sMIsValid d \<and> snd (MGet_info d (k_descriptors k)) \<and> waiting (k_io k) d \<noteq> []
     \<and> \<not> handled_by_thread (k_io k) d"

definition to_consumer :: "kernel \<Rightarrow> descriptor \<Rightarrow> bool" where
  "to_consumer k d \<longleftrightarrow> FType (FProgramm (fst (MGet_info d (k_descriptors k)))) = E_CONSUMER"

lemma begin_step:
  assumes "waiting (k_io k) d \<noteq> []" "\<not> handled_by_thread (k_io k) d" "FOperartionSendFor (k_io k) = d # rest" "io_ok (k_io k)" "th \<noteq> 0"
  shows "\<exists>ms m b sm. MBeginSend th (k_io k) = Some (Some (d, ms), set_buffer d m b sm ((k_io k)\<lparr>FOperartionSendFor := rest\<rparr>))
    \<and> map fst ms = waiting (k_io k) d \<and> om_has d (FIoManagers (k_io k))
    \<and> FDataList b = [] \<and> FDoingThread b = th \<and> buffer_ok b"
proof -
  obtain m where m: "om_get (FIoManagers (k_io k)) d = Some m"
    using assms(1) by (cases "om_get (FIoManagers (k_io k)) d") (auto simp: waiting_def)
  have b: "FDataList (FDataBuffer m) \<noteq> []" "FDoingThread (FDataBuffer m) = 0" "\<not> MIsWorking (FDataBuffer m)"
    "map fst (FDataList (FDataBuffer m)) = waiting (k_io k) d" "buffer_ok (FDataBuffer m)"
    using assms(1,2) m io_ok_get [OF assms(4) m]
    by (auto simp: waiting_def handled_by_thread_def MIsWorking_def word_gt_0)
  obtain b' where "MTry th (g_current_SM_buffer (k_io k)) (FDataBuffer m)
      = Some (True, FDataList (FDataBuffer m), g_current_SM_buffer (k_io k) - ucast (FSMBuffer (FDataBuffer m)), b')"
    "FDataList b' = []" "FDoingThread b' = th" "buffer_ok b'"
    using MTry_takes [OF b(1,2), of th] b(5) assms(5) by metis
  then show ?thesis using m b assms(3) by (auto simp: MBeginSend_def begin_pop_def begin_try_def om_has_def)
qed

lemma channel_worked_off_step:
  fixes e k d
  assumes ready: "way_ready e k" "io_ok (k_io k)" "th \<noteq> 0" and d: "can_begin k d" "FOperartionSendFor (k_io k) = d # rest"
    and one: "to_consumer k d \<Longrightarrow> \<forall>m\<in>set (waiting (k_io k) d). length (route_of m) = 1"
  defines "to \<equiv> prepared e (to_consumer k d) k (waiting (k_io k) d)" and "es \<equiv> unprepared e (to_consumer k d) k (waiting (k_io k) d)"
  shows "\<exists>k1. MSendUserDataImpl e th k = Some k1
    \<and> FLog (k_io k1) = FLog (k_io k) @ map (SentData d) to
        @ concat (map (fail_events e k) (merged_fails (es @ sending_fails e k d to)))
    \<and> waiting (k_io k1) d = [] \<and> \<not> handled_by_thread (k_io k1) d \<and> io_ok (k_io k1)
    \<and> FOperartionSendFor (k_io k1) = rest"
proof -
  obtain ms m b sm where b: "MBeginSend th (k_io k) = Some (Some (d, ms), set_buffer d m b sm ((k_io k)\<lparr>FOperartionSendFor := rest\<rparr>))"
    "map fst ms = waiting (k_io k) d" "om_has d (FIoManagers (k_io k))"
    and buf: "FDataList b = []" "FDoingThread b = th" "buffer_ok b"
    using begin_step [OF _ _ d(2) ready(2,3)] d(1) unfolding can_begin_def by blast
  let ?s = "set_buffer d m b sm ((k_io k)\<lparr>FOperartionSendFor := rest\<rparr>)"
  let ?k = "k\<lparr>k_io := ?s\<rparr>"
  have k: "way_ready e ?k" "hop e ?k = hop e k" "FLog (k_io ?k) = FLog (k_io k)" "k_dg ?k = k_dg k"
    "snd (MGet_info d (k_descriptors ?k))" using ready(1) d(1) by (simp_all add: can_begin_def)
  have chan: "channel_open (k_io ?k) = channel_open (k_io k)" using b(3) by (auto simp: channel_open_def fun_eq_iff om_simps)
  have fe: "fail_events e ?k = fail_events e k" using message_events_same [OF k(2) chan] by (simp add: fail_events_def fun_eq_iff)
  have same: "prepared e c ?k = prepared e c k" "unprepared e c ?k = unprepared e c k" "sending_fails e ?k = sending_fails e k" for c
    by (simp_all add: prepared_def unprepared_def sending_fails_def fun_eq_iff)
  obtain k1 where k1: "send_round e (to_consumer k d) d (map fst ms) ?k = Some k1"
    "k_io k1 = log_more (map (SentData d) to @ concat (map (fail_events e k) (merged_fails (es @ sending_fails e k d to)))) ?s"
    using send_round_step [OF k(1,5), of "to_consumer k d" "map fst ms"] one b(2) unfolding fe same to_def es_def by auto
  have "om_get (FIoManagers (k_io k1)) d = Some (m\<lparr>FDataBuffer := b\<rparr>)" by (simp add: k1(2) om_simps)
  from next_send_nothing [OF this, of th] buf obtain b2 where
    b2: "MNextSend th d [] (k_io k1) = Some (False, [], set_buffer d (m\<lparr>FDataBuffer := b\<rparr>) b2 (g_current_SM_buffer (k_io k1)) (k_io k1))"
      "FDataList b2 = []" "FDoingThread b2 = 0" "buffer_ok b2" by auto
  let ?t = "set_buffer d (m\<lparr>FDataBuffer := b\<rparr>) b2 (g_current_SM_buffer (k_io k1)) (k_io k1)"
  have "io_ok ?s" using io_ok_set_buffer [OF _ buf(3), of "(k_io k)\<lparr>FOperartionSendFor := rest\<rparr>"] ready(2) by (simp add: io_ok_def)
  then have "io_ok ?t" using k1(2) io_ok_set_buffer [OF _ b2(4)] by simp
  moreover have "waiting ?t d = []" "\<not> handled_by_thread ?t d" using b2 by (simp_all add: waiting_def handled_by_thread_def om_simps MIsWorking_def)
  moreover have "FOperartionSendFor ?t = rest" "FLog ?t = FLog (k_io k) @ map (SentData d) to
        @ concat (map (fail_events e k) (merged_fails (es @ sending_fails e k d to)))"
    by (simp_all add: k1(2) log_more_def)
  moreover have "MSendUserDataImpl e th k = Some (k1\<lparr>k_io := ?t\<rparr>)"
    using b(1) d(1) k1(1) b2(1)
    by (simp add: MSendUserDataImpl_def can_begin_def to_consumer_def case_prod_unfold send_rounds.simps [of e th _ d])
  ultimately show ?thesis by (intro exI [of _ "k1\<lparr>k_io := ?t\<rparr>"]) simp
qed

text \<open>When the connection is forgotten between the two, the messages the thread took are gone and the channel stays taken.\<close>

lemma taken_data_lost:
  assumes "waiting (k_io k) d \<noteq> []" "\<not> handled_by_thread (k_io k) d" "FOperartionSendFor (k_io k) = d # rest" "io_ok (k_io k)" "th \<noteq> 0"
    "\<not> snd (MGet_info d (k_descriptors k))"
  shows "\<exists>k1. MSendUserDataImpl e th k = Some k1 \<and> FLog (k_io k1) = FLog (k_io k) \<and> waiting (k_io k1) d = []
    \<and> handled_by_thread (k_io k1) d"
proof -
  obtain ms m b sm where b: "MBeginSend th (k_io k) = Some (Some (d, ms), set_buffer d m b sm ((k_io k)\<lparr>FOperartionSendFor := rest\<rparr>))"
    "FDataList b = []" "FDoingThread b = th"
    using begin_step [OF assms(1-5)] by blast
  then show ?thesis using assms(5,6)
    by (auto simp: MSendUserDataImpl_def case_prod_unfold waiting_def handled_by_thread_def MIsWorking_def om_simps word_gt_0)
qed

section \<open>Demands of a customer\<close>

text \<open>What the senders of this kernel are told: each on its own connection.\<close>

definition inform_events :: "kernel \<Rightarrow> (demand_dg_t \<Rightarrow> demand_dg_t) \<Rightarrow> demand_dgs_for_t \<Rightarrow> channel_event list" where
  "inform_events k f ms = concat (map (\<lambda>(u, ds). case om_get (FByUUIDs (k_descriptors k)) u of
       None \<Rightarrow> []
     | Some d \<Rightarrow> if channel_open (k_io k) d then [SentMsg d (NetDemandsFor [(u, map f ds)]) no_route no_error_info] else []) ms)"

lemma inform_events_same:
  assumes "k_descriptors k1 = k_descriptors k" "channel_open (k_io k1) = channel_open (k_io k)"
  shows "inform_events k1 = inform_events k"
  unfolding fun_eq_iff inform_events_def assms by simp

lemma inform_events_log [simp]: "inform_events (k\<lparr>k_io := log_more es (k_io k)\<rparr>) = inform_events k"
  by (rule inform_events_same) simp_all

lemma not_valid_INVALID: "\<not> sMIsValid INVALID"
  by (simp add: sMIsValid_def INVALID_def)

lemma inform_each_log:
  "descriptors_ok (k_descriptors k) \<Longrightarrow> inform_each e f ms k = Some (k\<lparr>k_io := log_more (inform_events k f ms) (k_io k)\<rparr>)"
proof (induction ms arbitrary: k)
  case Nil
  then show ?case by (simp add: inform_events_def)
next
  case (Cons x ms)
  obtain u ds where x: "x = (u, ds)" by fastforce
  define to where "to = (case om_get (FByUUIDs (k_descriptors k)) u of None \<Rightarrow> INVALID | Some d \<Rightarrow> d)"
  let ?es = "if channel_open (k_io k) to then [SentMsg to (NetDemandsFor [(u, map f ds)]) no_route no_error_info] else []"
  let ?k = "k\<lparr>k_io := log_more ?es (k_io k)\<rparr>"
  have get: "MGet_uuid u (k_descriptors k) = Some to" using MGet_uuid_ok [OF Cons.prems] by (simp add: to_def)
  have "(if sMIsValid to then k\<lparr>k_io := snd (MSendTo_one (e_link e) to (NetDemandsFor [(u, map f ds)]) (k_io k))\<rparr> else k) = ?k"
    by (auto simp: MSendTo_one_def MSendTo_route_log channel_open_def)
  then have "inform_each e f (x # ms) k = inform_each e f ms ?k" by (simp add: x get)
  also have "\<dots> = Some (?k\<lparr>k_io := log_more (inform_events k f ms) (k_io ?k)\<rparr>)" using Cons.IH [of ?k] Cons.prems by simp
  also have "\<dots> = Some (k\<lparr>k_io := log_more (inform_events k f (x # ms)) (k_io k)\<rparr>)"
    by (auto simp: inform_events_def x to_def channel_open_def not_valid_INVALID split: option.split)
  finally show ?case .
qed

lemma MInformNewReceiver_log:
  assumes "descriptors_ok (k_descriptors k)"
  shows "MInformNewReceiver e (new, old) k =
    Some (k\<lparr>k_io := log_more (inform_events k (\<lambda>d. d) new @ inform_events k mark_removed old) (k_io k)\<rparr>)"
  using assms by (simp add: MInformNewReceiver_def inform_each_log)

lemma demands_step:
  fixes e k d ds info
  assumes ready: "way_ready e k" and subs: "subs_ok (e_parsers e) (k_dg k)" and known: "MGet_info d (k_descriptors k) = (info, True)"
    and ds: "demands_ok (e_parsers e) (FMsgsGenealogy (k_dg k)) ds" "same_demands ds (MGetDemandFor (FUuid (FId (FProgramm info))) (k_dg k))"
  defines "u \<equiv> FUuid (FId (FProgramm info))"
  defines "old \<equiv> set (MGetDemandFor u (k_dg k))"
  shows "\<exists>added removed k1. MHandleFrom_demands e ds d k = Some k1 \<and> subs_ok (e_parsers e) (k_dg k1)
    \<and> (\<forall>to. MGetDemandFor to (k_dg k1) = (if to = u then ds else MGetDemandFor to (k_dg k)))
    \<and> (\<forall>src. told added src = {(p, c, Some u) |p c.
         serves (e_parsers e) (k_dg k) (set ds) src p c \<and> \<not> serves (e_parsers e) (k_dg k) (set ds \<inter> old) src p c})
    \<and> (\<forall>src. told removed src = {(p, c, Some u) |p c.
         serves (e_parsers e) (k_dg k) old src p c \<and> \<not> serves (e_parsers e) (k_dg k) (set ds \<inter> old) src p c})
    \<and> FLog (k_io k1) = FLog (k_io k) @ inform_events k (\<lambda>d. d) added @ inform_events k mark_removed removed
        @ message_events e k (NetDemandsFor [(u, ds)])
            \<lparr>FRoute = MGetOtherKernelds (e_my e) (k_info k), FFrom = my_id e\<rparr>"
proof -
  obtain st where st: "MSetDemandsDGFor (e_parsers e) (FId (FProgramm info)) ds (k_dg k) = Some st" "subs_ok (e_parsers e) (dg st)"
    "\<forall>to. MGetDemandFor to (dg st) = (if to = u then ds else MGetDemandFor to (k_dg k))"
    and told: "\<forall>src. told (sub_new st) src = {(p, c, Some u) |p c.
         serves (e_parsers e) (k_dg k) (set ds) src p c \<and> \<not> serves (e_parsers e) (k_dg k) (set ds \<inter> old) src p c}"
      "\<forall>src. told (sub_old st) src = {(p, c, Some u) |p c.
         serves (e_parsers e) (k_dg k) old src p c \<and> \<not> serves (e_parsers e) (k_dg k) (set ds \<inter> old) src p c}"
    using set_demands_ok [OF subs ds] unfolding u_def old_def by blast
  let ?k = "k\<lparr>k_dg := dg st\<rparr>"
  let ?es = "inform_events k (\<lambda>d. d) (sub_new st) @ inform_events k mark_removed (sub_old st)"
  let ?k1 = "?k\<lparr>k_io := log_more ?es (k_io k)\<rparr>"
  let ?w = "NetDemandsFor [(u, ds)]" and ?r = "\<lparr>FRoute = MGetOtherKernelds (e_my e) (k_info k), FFrom = my_id e\<rparr>"
  have "inform_events ?k = inform_events k" by (rule inform_events_same) simp_all
  then have inf: "MInformNewReceiver e (sub_new st, sub_old st) ?k = Some ?k1"
    using MInformNewReceiver_log [of ?k e "sub_new st" "sub_old st"] ready by (simp add: way_ready_def)
  have r1: "way_ready e ?k1" "message_events e ?k1 = message_events e k"
    using ready message_events_same [of e ?k1 k] by simp_all
  have "\<exists>k2. (if FRoute ?r \<noteq> [] then map_option (\<lambda>(to, lost, k2). k2) (route_MSendTo e ?r ?w ?k1) else Some ?k1) = Some k2
      \<and> after_events (message_events e k ?w ?r) ?k1 k2"
  proof (cases "FRoute ?r = []")
    case True
    then show ?thesis by (auto simp: message_events_Nil after_events_def intro: exI [of _ "k_info k"])
  next
    case False
    then show ?thesis using route_MSendTo_step [OF r1(1), of ?r ?w] unfolding r1(2) by auto
  qed
  then obtain k2 where k2: "(if FRoute ?r \<noteq> [] then map_option (\<lambda>(to, lost, k2). k2) (route_MSendTo e ?r ?w ?k1) else Some ?k1) = Some k2"
    "after_events (message_events e k ?w ?r) ?k1 k2" by blast
  have "MHandleFrom_demands e ds d k = Some k2"
    using k2(1) by (simp add: MHandleFrom_demands_def known st(1) u_def [symmetric] receiver_changes_def inf split: if_splits)
  then show ?thesis using st told after_events_keeps [OF k2(2)]
    by (intro exI [of _ "sub_new st"] exI [of _ "sub_old st"] exI [of _ k2]) simp
qed

text \<open>Of the customers that come at once only the changes of the last one are announced.\<close>

lemma only_last_announced:
  assumes "add_customers ps ls up s = Some (up1, s1)" "FType (FProgramm l) = E_CONSUMER"
  shows "add_customers ps (ls @ [(u, l)]) up s =
    map_option (\<lambda>st. (receiver_changes st, dg st)) (MAddClient ps (FId (FProgramm l)) s1)"
  using assms
proof (induction ls arbitrary: up s)
  case Nil
  then show ?case by (cases "MAddClient ps (FId (FProgramm l)) s") simp_all
next
  case (Cons x ls)
  then show ?case by (cases x) (auto split: eProgramType.splits simp: bind_eq_Some_conv receiver_changes_def)
qed

section \<open>A sample\<close>

definition sample_e :: setting where
  "sample_e = \<lparr>e_my = sample_program 10 E_KERNEL, e_parsers = no_parsers, e_link = (\<lambda>_ _. True), e_place = (\<lambda>_. False)\<rparr>"

text \<open>Kernel 10 has connection 2 to kernel 20, which has program 21; kernel 30 is not linked.\<close>

definition sample_channels :: kernel_io where
  "sample_channels = the (MAddChannelFor None 2 ''tcp'' default_split_info (snd (Kernel_Io.MStart (CKernelIo\<lparr>FRegistry := [''tcp'']\<rparr>))))"

definition sample_state :: "data_info_t option" where
  "sample_state = run_ops (info_step (e_my sample_e)) (MInit (e_my sample_e)) sample_events"

definition kernel_at :: "data_info_t \<Rightarrow> kernel" where
  "kernel_at i = \<lparr>k_descriptors = sample_connections, k_info = i, k_dg = CRequiredDG, k_io = sample_channels,
     k_state = new_state, k_pushed = [], k_user = []\<rparr>"

definition sample_packet :: "uuid list \<Rightarrow> user_data_t" where
  "sample_packet us = \<lparr>FDataId = sample_message\<lparr>FRouting := \<lparr>FRoute = us, FFrom = id_of_uuid 11\<rparr>\<rparr>, FData = [1, 2]\<rparr>"

lemma sample_kernel_ready: "\<exists>i. sample_state = Some i \<and> way_ready sample_e (kernel_at i)"
proof -
  let ?my = "e_my sample_e"
  have "disciplined (info_step ?my) (info_allowed ?my) (MInit ?my) sample_events" by code_simp
  then obtain i where i: "sample_state = Some i" "info_ok ?my i"
    using nt.run_total_inv [OF info_init_ok] unfolding sample_state_def by blast
  have "map_option (\<lambda>d. search_ready (FUuid (FId ?my)) (FGraph d)) sample_state = Some True" by code_simp
  then have "search_ready (FUuid (FId ?my)) (FGraph i)" unfolding i(1) by simp
  moreover have "descriptors_ok sample_connections" by code_simp
  ultimately show ?thesis using i by (auto simp: way_ready_def kernel_at_def)
qed

lemma sample_io_ok: "io_ok sample_channels"
  by code_simp

text \<open>
  The same kernel with two customers, 8 on connection 3 and 9 on connection 4. As \<open>CLocalLink\<close> does, their
  channels want whole messages.
\<close>

definition customer_limits :: split_info where
  "customer_limits = default_split_info\<lparr>FMtuType := MSetFlag CAN_NOT_SPLIT True (FMtuType default_split_info)\<rparr>"

definition customer_channels :: kernel_io where
  "customer_channels =
     the (MAddChannelFor None 4 ''tcp'' customer_limits (the (MAddChannelFor None 3 ''tcp'' customer_limits sample_channels)))"

definition customer_state :: "data_info_t option" where
  "customer_state = run_ops (info_step (e_my sample_e)) (MInit (e_my sample_e))
     [LinkOpened 2 (sample_kernel_link 20 E_KERNEL), NetCame sample_net 2,
      LinkOpened 3 (sample_kernel_link 8 E_CONSUMER), LinkOpened 4 (sample_kernel_link 9 E_CONSUMER)]"

definition customer_connections :: descriptors where
  "customer_connections = \<lparr>FLast = 4, FDescriptors = [(2, Some (sample_kernel_link 20 E_KERNEL)),
     (3, Some (sample_kernel_link 8 E_CONSUMER)), (4, Some (sample_kernel_link 9 E_CONSUMER))], FByUUIDs = [(8, 3), (9, 4), (20, 2)]\<rparr>"

definition customers_at :: "required_dg \<Rightarrow> kernel_io \<Rightarrow> data_info_t \<Rightarrow> kernel" where
  "customers_at s io i = \<lparr>k_descriptors = customer_connections, k_info = i, k_dg = s, k_io = io,
     k_state = new_state, k_pushed = [], k_user = []\<rparr>"

lemma customers_at_simps [simp]:
  "k_descriptors (customers_at s io i) = customer_connections" "k_info (customers_at s io i) = i"
  "k_dg (customers_at s io i) = s" "k_io (customers_at s io i) = io"
  by (simp_all add: customers_at_def)

lemma customers_ready: "\<exists>i. customer_state = Some i \<and> (\<forall>s io. way_ready sample_e (customers_at s io i))"
proof -
  let ?my = "e_my sample_e"
  let ?ops = "[LinkOpened 2 (sample_kernel_link 20 E_KERNEL), NetCame sample_net 2,
      LinkOpened 3 (sample_kernel_link 8 E_CONSUMER), LinkOpened 4 (sample_kernel_link 9 E_CONSUMER)]"
  have "disciplined (info_step ?my) (info_allowed ?my) (MInit ?my) ?ops" by code_simp
  then obtain i where i: "customer_state = Some i" "info_ok ?my i"
    using nt.run_total_inv [OF info_init_ok] unfolding customer_state_def by blast
  have "map_option (\<lambda>d. search_ready (FUuid (FId ?my)) (FGraph d)) customer_state = Some True" by code_simp
  then have "search_ready (FUuid (FId ?my)) (FGraph i)" unfolding i(1) by simp
  moreover have "descriptors_ok customer_connections" by code_simp
  ultimately show ?thesis using i by (auto simp: way_ready_def customers_at_def)
qed

lemma customers_io_ok: "io_ok customer_channels"
  by code_simp

section \<open>Properties\<close>

lemma hop_reaches:
  assumes "way_ready e k" "hop e k u = Some d"
  shows "u \<noteq> FUuid (my_id e) \<and> net_reaches (FKernels (FNet (k_info k))) (FUuid (my_id e)) u"
proof -
  have r: "info_ok (e_my e) (k_info k)" "search_ready (FUuid (my_id e)) (FGraph (k_info k))" "descriptors_ok (k_descriptors k)"
    using assms(1) by (simp_all add: way_ready_def)
  obtain i where i: "MNextDestinations (e_my e) (k_descriptors k) u (k_info k) = Some (answer (ask_way e) k u, i)"
    using ask_hop [OF assms(1)] by blast
  have ne: "answer (ask_way e) k u \<noteq> []" using assms(2) by (auto simp: hop_def Let_def split: if_splits)
  show ?thesis
  proof (cases "om_get (FDestianationCache (k_info k)) u")
    case (Some nx)
    then have "nx \<noteq> []" using i ne by (simp add: MNextDestinations_def)
    then show ?thesis using Some r(1) reachable_net [OF r(1)] by (simp add: info_ok_def)
  next
    case None
    from next_ok [OF r None] i ne show ?thesis by (auto split: if_splits)
  qed
qed

text \<open>
  C5: The receivers of a message are grouped by the connection that leads to them: each receiver for
  which the information service names a valid connection is in the group of this connection and
  stays in the route, the others are put aside, all in their order. A receiver in a group is
  another program to which links lead. What the service learns while it is asked changes
  neither its answers nor the net.
\<close>

theorem receivers_grouped:
  assumes "way_ready e k"
  shows "\<exists>k1. MGetOutputDescriptors e r k = Some (r\<lparr>FRoute := filter (\<lambda>u. hop e k u \<noteq> None) (FRoute r)\<rparr>,
      filter (\<lambda>u. hop e k u = None) (FRoute r),
      map (\<lambda>d. (d, \<lparr>FRoute = filter (\<lambda>u. hop e k u = Some d) (FRoute r), FFrom = FFrom r\<rparr>))
        (sort (remdups (List.map_filter (hop e k) (FRoute r)))), k1)
    \<and> way_ready e k1 \<and> hop e k1 = hop e k \<and> FNet (k_info k1) = FNet (k_info k) \<and> k_io k1 = k_io k
    \<and> (\<forall>u d. hop e k u = Some d \<longrightarrow> u \<noteq> FUuid (my_id e)
         \<and> net_reaches (FKernels (FNet (k_info k))) (FUuid (my_id e)) u)"
proof -
  obtain k1 where k1: "MGetOutputDescriptors e r k = Some (r\<lparr>FRoute := filter (\<lambda>u. \<not> no_way e k u) (FRoute r)\<rparr>,
      filter (no_way e k) (FRoute r), groups e k (FFrom r) (FRoute r), k1)"
    "way_ready e k1" "way_same k k1" "hop e k1 = hop e k"
    using output_descriptors_groups [OF assms] by blast
  have "FNet (k_info k1) = FNet (k_info k)" "k_io k1 = k_io k" using k1(3) by (auto simp: way_same_def)
  then show ?thesis using k1 hop_reaches [OF assms]
    unfolding no_way_def groups_def behind_def connections_def by blast
qed

lemma sample_hops: "map_option (\<lambda>i. map (hop sample_e (kernel_at i)) [21, 31, 10]) sample_state = Some [Some 2, None, None]"
  by code_simp

theorem receivers_grouped_witness:
  "\<exists>i k1. sample_state = Some i \<and> MGetOutputDescriptors sample_e \<lparr>FRoute = [21, 31, 10], FFrom = id_of_uuid 11\<rparr> (kernel_at i)
     = Some (\<lparr>FRoute = [21], FFrom = id_of_uuid 11\<rparr>, [31, 10], [(2, \<lparr>FRoute = [21], FFrom = id_of_uuid 11\<rparr>)], k1)"
proof -
  obtain i where i: "sample_state = Some i" "way_ready sample_e (kernel_at i)" using sample_kernel_ready by blast
  have "hop sample_e (kernel_at i) 21 = Some 2" "hop sample_e (kernel_at i) 31 = None" "hop sample_e (kernel_at i) 10 = None"
    using sample_hops unfolding i(1) by simp_all
  with receivers_grouped [OF i(2), of "\<lparr>FRoute = [21, 31, 10], FFrom = id_of_uuid 11\<rparr>"] i(1) show ?thesis
    by (auto simp: map_filter_def)
qed

text \<open>
  C4: The handler of user data in the byte order of the machine: messages without a route get their
  receivers from the table of demands, and every message is copied to each connection of its
  receivers with exactly the receivers behind it. Of the copies for a connection a beginning is
  appended to what waits there, in order, and the rest is refused only if the channel is gone or
  its buffer is full. What has no receivers, no way or is refused is given back, and every error
  is reported; the counter of packets without a way is never raised.
\<close>

theorem user_data_handled:
  assumes "way_ready e k" "io_ok (k_io k)"
    "MFillMsgReceivers (e_parsers e) (unrouted ms) \<lparr>fill_dg = k_dg k, fill_errors = []\<rparr> = Some (left, filled, st)"
    "\<forall>d\<in>set (routed ms @ filled). FEndian (FDataId d) = E_SHARE_ENDIAN" "sendable e k (routed ms @ filled)"
  defines "rs \<equiv> routed ms @ filled"
  defines "ds \<equiv> connections e k (concat (map route_of rs))"
  shows "\<exists>refused k1. MHandleFrom e ms k = Some (left @ lost_part e k rs @ concat (map refused ds), k1)
    \<and> (\<forall>d. output_taken (k_io k) (k_io k1) d (copies_by e k d rs) (refused d))
    \<and> FLog (k_io k1) = FLog (k_io k) @ concat (map (fail_events e k) (merged_fails (fill_errors st @ lost_fails e k rs
        @ concat (map (\<lambda>d. map (send_failed (refusal (k_io k) d)) (refused d)) ds))))
    \<and> way_ready e k1 \<and> io_ok (k_io k1) \<and> hop e k1 = hop e k
    \<and> FNumPackets (k_state k1) = FNumPackets (k_state k) + of_nat (length ms)
    \<and> FNumSended (k_state k1) = FNumSended (k_state k) + of_nat (length rs)
    \<and> FNoRoute (k_state k1) = FNoRoute (k_state k)"
  unfolding ds_def rs_def by (rule MHandleFrom_step [OF assms(1-5)])

theorem user_data_handled_witness:
  "\<exists>i (refused :: descriptor \<Rightarrow> user_datas_t) k1. sample_state = Some i
     \<and> MHandleFrom sample_e [sample_packet [21, 31]] (kernel_at i) = Some (refused 2, k1)
     \<and> output_taken sample_channels (k_io k1) 2 [sample_packet [21]] (refused 2)"
proof -
  obtain i where i: "sample_state = Some i" "way_ready sample_e (kernel_at i)" using sample_kernel_ready by blast
  let ?k = "kernel_at i" and ?ms = "[sample_packet [21, 31]]"
  have h: "hop sample_e ?k 21 = Some 2" "hop sample_e ?k 31 = None" using sample_hops unfolding i(1) by simp_all
  have r: "route_of (sample_packet us) = us" "set_route vs (sample_packet us) = sample_packet vs" for us vs
    by (simp_all add: sample_packet_def route_of_def set_route_def)
  have order: "FEndian (FDataId (sample_packet [21, 31])) = E_SHARE_ENDIAN" by (simp add: sample_packet_def sample_message_def)
  have parts: "unrouted ?ms = []" "routed ?ms = ?ms" by (simp_all add: unrouted_def routed_def r)
  have lists: "connections sample_e ?k [21, 31] = [2]" "lost_part sample_e ?k ?ms = []" "copies_by sample_e ?k 2 ?ms = [sample_packet [21]]"
    by (simp_all add: connections_def map_filter_def lost_part_def lost_message_def no_way_def copies_by_def copy_for_def behind_def r h)
  have "undivided (FDivisor sample_channels) 2 [sample_packet [21]]" "real_data ?ms" by code_simp+
  then have "sendable sample_e ?k (routed ?ms @ [])" using h lists(3) by (simp add: sendable_def map_filter_def r kernel_at_def parts)
  moreover have "\<forall>d\<in>set (routed ?ms @ []). FEndian (FDataId d) = E_SHARE_ENDIAN"
    using order by (simp add: parts)
  moreover have io: "k_io ?k = sample_channels" by (simp add: kernel_at_def)
  moreover have "MFillMsgReceivers (e_parsers sample_e) (unrouted ?ms) \<lparr>fill_dg = k_dg ?k, fill_errors = []\<rparr>
    = Some ([], [], \<lparr>fill_dg = k_dg ?k, fill_errors = []\<rparr>)" by (simp add: parts)
  ultimately have "\<exists>refused k1. MHandleFrom sample_e ?ms ?k = Some ([] @ lost_part sample_e ?k (routed ?ms @ [])
       @ concat (map refused (connections sample_e ?k (concat (map route_of (routed ?ms @ []))))), k1)
     \<and> (\<forall>d. output_taken (k_io ?k) (k_io k1) d (copies_by sample_e ?k d (routed ?ms @ [])) (refused d))"
    using user_data_handled [OF i(2), of ?ms "[]" "[]"] sample_io_ok by (simp only: io) blast
  then obtain refused k1 where
    "MHandleFrom sample_e ?ms ?k = Some ([] @ lost_part sample_e ?k ?ms
       @ concat (map refused (connections sample_e ?k (concat (map route_of ?ms)))), k1)"
    "\<forall>d. output_taken sample_channels (k_io k1) d (copies_by sample_e ?k d ?ms) (refused d)"
    unfolding parts append_Nil2 io by blast
  then have "MHandleFrom sample_e ?ms ?k = Some (refused 2, k1)" "output_taken sample_channels (k_io k1) 2 [sample_packet [21]] (refused 2)"
    using lists by (simp_all add: r, metis)
  then show ?thesis using i(1) by blast
qed

text \<open>
  C11: Errors of the same packet and sender are reported once: the reports go out in the order of
  packet and sender, each with the receivers of all the errors it stands for and all their flags,
  to the registrators, the sender and the receivers over the connections that are open.
\<close>

theorem errors_reported_once:
  assumes "way_ready e k"
  shows "\<exists>k1 ms. MNoteFailSend e fs k = Some k1 \<and> k_io k1 = log_more (concat (map (fail_events e k) ms)) (k_io k)
    \<and> sorted_wrt (<) (map fail_key ms) \<and> fail_key ` set ms = fail_key ` set fs
    \<and> (\<forall>f\<in>set ms. set (fail_route f) = (\<Union>g\<in>set (fail_of fs (fail_key f)). set (fail_route g))
         \<and> (\<forall>b. bit (FError f) b = (\<exists>g\<in>set (fail_of fs (fail_key f)). bit (FError g) b)))"
proof -
  obtain k1 where "MNoteFailSend e fs k = Some k1" "after_events (concat (map (fail_events e k) (merged_fails fs))) k k1"
    using MNoteFailSend_step [OF assms] by blast
  then show ?thesis using merged_fails_spec [of fs] after_events_keeps unfolding stands_for_def
    by (intro exI [of _ k1] exI [of _ "merged_fails fs"]) simp
qed

theorem errors_reported_once_witness:
  "\<exists>i k1. sample_state = Some i
     \<and> MNoteFailSend sample_e [send_failed E_NO_ROUTE (sample_packet [21]), send_failed E_PACKET_LOST (sample_packet [31])] (kernel_at i) = Some k1"
proof -
  obtain i where i: "sample_state = Some i" "way_ready sample_e (kernel_at i)" using sample_kernel_ready by blast
  let ?fs = "[send_failed E_NO_ROUTE (sample_packet [21]), send_failed E_PACKET_LOST (sample_packet [31])]"
  have "MNoteFailSend sample_e ?fs (kernel_at i) \<noteq> None"
    using errors_reported_once [OF i(2), of ?fs] by (elim exE conjE) simp
  then show ?thesis using i(1) by blast
qed

text \<open>
  C7: The queue of messages in transit is worked off: the operation returns with the queue empty,
  and every message was given, in the order of the queue, to each open connection of its route
  without this kernel, followed by at most one answer that there is no way.
\<close>

theorem transit_queue_empties:
  assumes "way_ready e k"
  shows "\<exists>k1 ess. route_queue e k = Some k1 \<and> FRoutings (k_io k1) = [] \<and> FLog (k_io k1) = FLog (k_io k) @ concat ess
    \<and> list_all2 (\<lambda>op es. \<exists>ans. es = transit_events e k op @ ans \<and> length ans \<le> 1) (FRoutings (k_io k)) ess"
  using route_queue_step [OF assms] unfolding op_done_def by blast

theorem transit_queue_empties_witness:
  "\<exists>i k1. sample_state = Some i
     \<and> route_queue sample_e ((kernel_at i)\<lparr>k_io := MRouting \<lparr>FRoute = [10, 21], FFrom = id_of_uuid 11\<rparr> (NetDemands []) 2 sample_channels\<rparr>) = Some k1
     \<and> FRoutings (k_io k1) = []"
proof -
  obtain i where "sample_state = Some i" "way_ready sample_e (kernel_at i)" using sample_kernel_ready by blast
  moreover from this have "way_ready sample_e ((kernel_at i)\<lparr>k_io := MRouting \<lparr>FRoute = [10, 21], FFrom = id_of_uuid 11\<rparr> (NetDemands []) 2 sample_channels\<rparr>)"
    by simp
  ultimately show ?thesis using transit_queue_empties by blast
qed

text \<open>
  C6: A thread that takes a channel with data sends what waits there and returns. To a kernel it offers
  every message as it is. To a customer it offers the messages that have handlers there (in the byte
  order of this machine, and with the receiver among the destinations when the handlers are real
  ones and registrators), each with exactly these handlers. In both cases every one of them is
  offered once, in the order in which they waited. The other messages and those that the channel does
  not take are reported, in this order. The channel is then free and nothing waits there.
\<close>

theorem channel_worked_off:
  fixes e k d
  assumes "way_ready e k" "io_ok (k_io k)" "th \<noteq> 0" "can_begin k d" "FOperartionSendFor (k_io k) = d # rest"
    "to_consumer k d \<Longrightarrow> \<forall>m\<in>set (waiting (k_io k) d). length (route_of m) = 1"
  defines "ms \<equiv> waiting (k_io k) d" and "ps \<equiv> e_parsers e"
  defines "to \<equiv> if to_consumer k d then map (with_handlers (k_dg k) \<circ> own_order ps) (filter (\<lambda>m. fault_of ps (k_dg k) m = E_NO_ERROR) ms) else ms"
    and "es \<equiv> if to_consumer k d then map (fault_report ps (k_dg k)) (filter (\<lambda>m. fault_of ps (k_dg k) m \<noteq> E_NO_ERROR) ms) else []"
  shows "\<exists>k1. MSendUserDataImpl e th k = Some k1
    \<and> FLog (k_io k1) = FLog (k_io k) @ map (SentData d) to
        @ concat (map (fail_events e k) (merged_fails (es @ sending_fails e k d to)))
    \<and> waiting (k_io k1) d = [] \<and> \<not> handled_by_thread (k_io k1) d \<and> io_ok (k_io k1)
    \<and> FOperartionSendFor (k_io k1) = rest"
  using channel_worked_off_step [OF assms(1-6)]
  unfolding to_def es_def ms_def ps_def prepared_def unprepared_def deliverable_def undeliverable_def .

definition customer_loaded :: kernel_io where
  "customer_loaded = (case MSendTo (\<lambda>_. False) [(3, [sample_for 8 [5], sample_for 8 [8]])] customer_channels of
     Some (es, left, s) \<Rightarrow> s | None \<Rightarrow> customer_channels)"

theorem channel_worked_off_witness:
  "\<exists>i k1. customer_state = Some i \<and> MSendUserDataImpl sample_e 7 (customers_at sample_mixed customer_loaded i) = Some k1
     \<and> take (Suc (length (FLog customer_loaded))) (FLog (k_io k1))
         = FLog customer_loaded @ [SentData 3 (with_handlers sample_mixed (sample_for 8 [8]))]
     \<and> waiting (k_io k1) 3 = []"
proof -
  obtain i where i: "customer_state = Some i" "\<And>s io. way_ready sample_e (customers_at s io i)" using customers_ready by blast
  let ?k = "customers_at sample_mixed customer_loaded i" and ?ms = "[sample_for 8 [5], sample_for 8 [8]]"
  have io: "io_ok customer_loaded" "waiting customer_loaded 3 = ?ms" "\<not> handled_by_thread customer_loaded 3"
    "FOperartionSendFor customer_loaded = [3]" by code_simp+
  have "snd (MGet_info 3 customer_connections)" "FType (FProgramm (fst (MGet_info 3 customer_connections))) = E_CONSUMER" "sMIsValid 3"
    by code_simp+
  then have k: "can_begin ?k 3" "to_consumer ?k 3" using io by (simp_all add: can_begin_def to_consumer_def)
  have "map (fault_of no_parsers sample_mixed) ?ms = [E_INCORRECT_USING_OF_UDT_1, E_NO_ERROR]" by code_simp
  then have f: "fault_of no_parsers sample_mixed (sample_for 8 [5]) \<noteq> E_NO_ERROR" "fault_of no_parsers sample_mixed (sample_for 8 [8]) = E_NO_ERROR"
    by (simp_all add: error_codes)
  have own: "own_order no_parsers (sample_for 8 [8]) = sample_for 8 [8]" by code_simp
  have one: "\<forall>m\<in>set (waiting (k_io ?k) 3). length (route_of m) = 1" using io(2) by (simp add: route_of_def sample_for_def)
  have e: "e_parsers sample_e = no_parsers" by (simp add: sample_e_def)
  have "io_ok (k_io ?k)" "FOperartionSendFor (k_io ?k) = [3]" using io by simp_all
  from channel_worked_off [OF i(2) this(1) _ k(1) this(2) one, of 7]
  obtain k1 where "MSendUserDataImpl sample_e 7 ?k = Some k1" "waiting (k_io k1) 3 = []"
    "\<exists>es. FLog (k_io k1) = FLog customer_loaded @ [SentData 3 (with_handlers sample_mixed (sample_for 8 [8]))] @ es"
    using k(2) by (auto simp: e io(2) f own)
  then show ?thesis using i(1) by auto
qed


text \<open>Customer 8 demands what 9, \<open>sensor@a.b\<close>, sends; 9 is told on its connection.\<close>

definition two_programs :: "required_dg option" where
  "two_programs = run_ops (sub_step no_parsers) (CRequiredDG\<lparr>FMsgsGenealogy := []\<rparr>) [Come (program 8 ''view''), Come (program 9 ''sensor@a.b'')]"

lemma two_programs_ok:
  "\<exists>s. two_programs = Some s \<and> subs_ok no_parsers s \<and> FMsgsGenealogy s = [] \<and> om_get (FIds s) 9 = Some (program 9 ''sensor@a.b'')
    \<and> (\<forall>u. MGetDemandFor u s = [])"
proof -
  let ?start = "CRequiredDG\<lparr>FMsgsGenealogy := []\<rparr>"
  have "subs_ok no_parsers ?start \<and> FMsgsGenealogy ?start = []" using start_ok by simp
  moreover have "disciplined (sub_step no_parsers) (sub_allowed no_parsers) ?start [Come (program 8 ''view''), Come (program 9 ''sensor@a.b'')]"
    by code_simp
  ultimately obtain s where s: "two_programs = Some s" "subs_ok no_parsers s" "FMsgsGenealogy s = []"
    "sub_abs s = fold spec_step [Come (program 8 ''view''), Come (program 9 ''sensor@a.b'')] (sub_abs ?start)"
    using sb.run_refines unfolding two_programs_def by blast
  then have "om_get (FIds s) 9 = Some (program 9 ''sensor@a.b'')" "\<forall>u. MGetDemandFor u s = []"
    by (auto simp: sub_abs_def program_def fun_eq_iff CRequiredDG_def MGetDemandFor_def)
  then show ?thesis using s by blast
qed


text \<open>Demands of other kernels: what is announced as removed is intersected with nothing.\<close>

lemma removals_never_announced: "set_all_demands ps ms (nr, []) s = Some ((nr1, old), s1) \<Longrightarrow> old = []"
  by (induction ms arbitrary: nr s) (auto simp: bind_eq_Some_conv split: if_splits)

end
