(* ===== verification/Data_Object.thy ===== *)
theory Data_Object
  imports Udt_Types
begin

text \<open>
  User data on its way to the handlers (\<open>CDataObject\<close> of \<open>core/CDataObject.h/.cpp\<close>). Data that comes in on a
  connection is queued for the connection, and one operation of the thread pool takes the whole
  queue, calls the handlers and looks again. The pieces that run under \<open>FFifoMutex\<close> are the functions
  below, a run of the pool (\<open>CPoolThread::MRun\<close>) is a step relation in which the pieces of all threads
  interleave in every way. \<open>None\<close> is a failed \<open>CHECK\<close> or the use of an entry that is gone: an operation
  holds the address of the entry of its connection.
\<close>

section \<open>State\<close>

record user_operation_t =
  FUserData :: user_datas_t
  FIsWorking :: bool

definition new_operation :: user_operation_t where
  "new_operation = \<lparr>FUserData = [], FIsWorking = False\<rparr>"

text \<open>The pool has the connections whose operations wait to be run.\<close>

record data_object =
  FUserDataFIFO :: "(descriptor, user_operation_t) omap"
  pool_ops :: "descriptor list"

definition CDataObject :: data_object where
  "CDataObject = \<lparr>FUserDataFIFO = [], pool_ops = []\<rparr>"

section \<open>Operations\<close>

text \<open>Whether an operation has to be started, and the entry.\<close>

definition operation_MPush :: "user_datas_t \<Rightarrow> user_operation_t \<Rightarrow> (bool \<times> user_operation_t) option" where
  "operation_MPush aVal op =
     (let need_call = (\<not> FIsWorking op \<and> FUserData op = []);
          op1 = op\<lparr>FUserData := FUserData op @ aVal\<rparr>
      in if FUserData op1 = [] then None else Some (need_call, op1))"

definition object_MPush :: "descriptor \<Rightarrow> user_datas_t \<Rightarrow> data_object \<Rightarrow> data_object option" where
  "object_MPush aDesc aVal s =
     (let op = (case om_get (FUserDataFIFO s) aDesc of None \<Rightarrow> new_operation | Some op \<Rightarrow> op)
      in map_option (\<lambda>(need, op1). s\<lparr>FUserDataFIFO := om_set aDesc op1 (FUserDataFIFO s),
                                     pool_ops := pool_ops s @ (if need then [aDesc] else [])\<rparr>)
           (operation_MPush aVal op))"

text \<open>\<open>MUserOperation\<close> before and after the call of the handlers. The second says whether the operation is kept.\<close>

definition operation_begin :: "descriptor \<Rightarrow> data_object \<Rightarrow> (user_datas_t \<times> data_object) option" where
  "operation_begin d s =
     (case om_get (FUserDataFIFO s) d of
        None \<Rightarrow> None
      | Some op \<Rightarrow>
          if FUserData op = [] then None
          else Some (FUserData op, s\<lparr>FUserDataFIFO := om_set d (op\<lparr>FUserData := [], FIsWorking := True\<rparr>) (FUserDataFIFO s)\<rparr>))"

definition operation_end :: "descriptor \<Rightarrow> data_object \<Rightarrow> (bool \<times> data_object) option" where
  "operation_end d s =
     (case om_get (FUserDataFIFO s) d of
        None \<Rightarrow> None
      | Some op \<Rightarrow>
          if FUserData op \<noteq> [] then Some (True, s)
          else Some (False, s\<lparr>FUserDataFIFO := om_erase d (FUserDataFIFO s)\<rparr>))"

section \<open>Threads\<close>

datatype phase = Free | Took descriptor user_datas_t | Called descriptor | Kept descriptor

fun about :: "phase \<Rightarrow> descriptor option" where
  "about Free = None"
| "about (Took d ms) = Some d"
| "about (Called d) = Some d"
| "about (Kept d) = Some d"

text \<open>What came in on a connection and what its handlers were called with are recorded.\<close>

record object_sys =
  obj :: data_object
  at :: "nat \<Rightarrow> phase"
  came :: "descriptor \<Rightarrow> user_datas_t"
  handled :: "descriptor \<Rightarrow> user_datas_t"

definition object_start :: object_sys where
  "object_start = \<lparr>obj = CDataObject, at = \<lambda>_. Free, came = \<lambda>_. [], handled = \<lambda>_. []\<rparr>"

definition move :: "nat \<Rightarrow> phase \<Rightarrow> object_sys \<Rightarrow> object_sys" where
  "move w p s = s\<lparr>at := (at s)(w := p)\<rparr>"

text \<open>
  Data comes in; a free thread begins an operation of the pool; it calls the handlers; it looks
  for more; an operation that is kept goes back into the pool.
\<close>

inductive object_step :: "object_sys \<Rightarrow> object_sys \<Rightarrow> bool" where
  push: "ms \<noteq> [] \<Longrightarrow> object_MPush d ms (obj s) = Some o1 \<Longrightarrow>
     object_step s (s\<lparr>obj := o1, came := (came s)(d := came s d @ ms)\<rparr>)"
| start: "at s w = Free \<Longrightarrow> d \<in> set (pool_ops (obj s)) \<Longrightarrow>
     operation_begin d ((obj s)\<lparr>pool_ops := remove1 d (pool_ops (obj s))\<rparr>) = Some (ms, o1) \<Longrightarrow>
     object_step s (move w (Took d ms) (s\<lparr>obj := o1\<rparr>))"
| call: "at s w = Took d ms \<Longrightarrow>
     object_step s (move w (Called d) (s\<lparr>handled := (handled s)(d := handled s d @ ms)\<rparr>))"
| finish: "at s w = Called d \<Longrightarrow> operation_end d (obj s) = Some (keep, o1) \<Longrightarrow>
     object_step s (move w (if keep then Kept d else Free) (s\<lparr>obj := o1\<rparr>))"
| again: "at s w = Kept d \<Longrightarrow>
     object_step s (move w Free (s\<lparr>obj := (obj s)\<lparr>pool_ops := pool_ops (obj s) @ [d]\<rparr>\<rparr>))"

section \<open>Invariant\<close>

fun phase_ok :: "phase \<Rightarrow> user_datas_t \<Rightarrow> user_datas_t \<Rightarrow> user_datas_t \<Rightarrow> bool" where
  "phase_ok Free q c h = False"
| "phase_ok (Took d ms) q c h = (c = h @ ms @ q)"
| "phase_ok (Called d) q c h = (c = h @ q)"
| "phase_ok (Kept d) q c h = (q \<noteq> [] \<and> c = h @ q)"

definition held_by :: "object_sys \<Rightarrow> descriptor \<Rightarrow> nat \<Rightarrow> bool" where
  "held_by s d w \<longleftrightarrow> about (at s w) = Some d"

text \<open>A connection without an entry is settled; otherwise its one operation waits in the pool or is run by one thread.\<close>

definition in_pool :: "object_sys \<Rightarrow> descriptor \<Rightarrow> user_operation_t \<Rightarrow> bool" where
  "in_pool s d op \<longleftrightarrow> count_list (pool_ops (obj s)) d = 1 \<and> (\<forall>w. \<not> held_by s d w)
     \<and> FUserData op \<noteq> [] \<and> came s d = handled s d @ FUserData op"

definition in_thread :: "object_sys \<Rightarrow> descriptor \<Rightarrow> user_operation_t \<Rightarrow> bool" where
  "in_thread s d op \<longleftrightarrow> d \<notin> set (pool_ops (obj s)) \<and> FIsWorking op
     \<and> (\<exists>w. held_by s d w \<and> (\<forall>v. held_by s d v \<longrightarrow> v = w) \<and> phase_ok (at s w) (FUserData op) (came s d) (handled s d))"

definition conn_ok :: "object_sys \<Rightarrow> descriptor \<Rightarrow> bool" where
  "conn_ok s d \<longleftrightarrow> (case om_get (FUserDataFIFO (obj s)) d of
     None \<Rightarrow> d \<notin> set (pool_ops (obj s)) \<and> (\<forall>w. \<not> held_by s d w) \<and> came s d = handled s d
   | Some op \<Rightarrow> in_pool s d op \<or> in_thread s d op)"

definition object_ok :: "object_sys \<Rightarrow> bool" where
  "object_ok s \<longleftrightarrow> om_ok (FUserDataFIFO (obj s)) \<and> (\<forall>d. conn_ok s d)"

lemma move_simps [simp]:
  "obj (move w p s) = obj s" "at (move w p s) = (at s)(w := p)" "came (move w p s) = came s" "handled (move w p s) = handled s"
  by (simp_all add: move_def)

lemma in_threadI:
  assumes "d \<notin> set (pool_ops (obj s))" "FIsWorking op" "held_by s d w" "\<And>v. held_by s d v \<Longrightarrow> v = w"
    "phase_ok (at s w) (FUserData op) (came s d) (handled s d)"
  shows "in_thread s d op"
  using assms unfolding in_thread_def by blast

text \<open>A step about one connection leaves the others alone.\<close>

lemma conn_frame:
  assumes "conn_ok s d" "om_get (FUserDataFIFO (obj t)) d = om_get (FUserDataFIFO (obj s)) d"
    "count_list (pool_ops (obj t)) d = count_list (pool_ops (obj s)) d" "came t d = came s d" "handled t d = handled s d"
    "\<And>w. about (at s w) = Some d \<or> about (at t w) = Some d \<Longrightarrow> at t w = at s w"
  shows "conn_ok t d"
proof -
  have "held_by t d w = held_by s d w" for w
    using assms(6) [of w] by (cases "about (at s w) = Some d"; cases "about (at t w) = Some d") (simp_all add: held_by_def)
  then have held: "held_by t d = held_by s d" by blast
  have pool: "d \<in> set (pool_ops (obj t)) \<longleftrightarrow> d \<in> set (pool_ops (obj s))"
    using assms(3) count_list_0_iff [of "pool_ops (obj t)" d] count_list_0_iff [of "pool_ops (obj s)" d] by simp
  have phase: "held_by s d w \<Longrightarrow> at t w = at s w" for w
    using assms(6) [of w] by (simp add: held_by_def)
  have "in_pool t d op = in_pool s d op" for op by (simp add: in_pool_def held assms(3-5))
  moreover have "in_thread t d op = in_thread s d op" for op
    unfolding in_thread_def held pool assms(4,5) using phase by (metis (no_types))
  ultimately show ?thesis using assms(1) unfolding conn_ok_def assms(2,4,5) held pool by (simp split: option.splits)
qed

lemma count_append_other: "d \<noteq> e \<Longrightarrow> count_list (xs @ [e]) d = count_list xs d"
  by simp

lemma count_remove1: "d \<noteq> e \<Longrightarrow> count_list (remove1 e xs) d = count_list xs d"
  by (induction xs) auto

lemma count_remove1_same: "count_list xs d = 1 \<Longrightarrow> d \<notin> set (remove1 d xs)"
  by (induction xs) (auto simp: count_list_0_iff split: if_splits)

lemma object_okI:
  assumes "object_ok s" "om_ok (FUserDataFIFO (obj t))" "conn_ok t d" "\<And>e. e \<noteq> d \<Longrightarrow> conn_ok s e \<Longrightarrow> conn_ok t e"
  shows "object_ok t"
  using assms unfolding object_ok_def by metis

lemma push_total:
  assumes "ms \<noteq> []"
  shows "\<exists>o1. object_MPush d ms o0 = Some o1"
  using assms by (auto simp: object_MPush_def operation_MPush_def Let_def)

lemma object_push:
  assumes ok: "object_ok s" and ms: "ms \<noteq> []" and o1: "object_MPush d ms (obj s) = Some o1"
  shows "object_ok (s\<lparr>obj := o1, came := (came s)(d := came s d @ ms)\<rparr>)" (is "object_ok ?t")
proof -
  obtain op where op: "op = (case om_get (FUserDataFIFO (obj s)) d of None \<Rightarrow> new_operation | Some op \<Rightarrow> op)" by simp
  let ?need = "\<not> FIsWorking op \<and> FUserData op = []"
  let ?op = "op\<lparr>FUserData := FUserData op @ ms\<rparr>"
  have o1: "o1 = (obj s)\<lparr>FUserDataFIFO := om_set d ?op (FUserDataFIFO (obj s)), pool_ops := pool_ops (obj s) @ (if ?need then [d] else [])\<rparr>"
    using o1 ms by (auto simp: object_MPush_def operation_MPush_def Let_def op [symmetric])
  have dok: "conn_ok s d" using ok by (simp add: object_ok_def)
  show ?thesis
  proof (rule object_okI [OF ok, where d = d])
    show "om_ok (FUserDataFIFO (obj ?t))" using ok by (simp add: o1 object_ok_def om_ok_set)
    show "conn_ok ?t d"
    proof (cases "om_get (FUserDataFIFO (obj s)) d")
      case None
      then have "op = new_operation" by (simp add: op)
      then have "in_pool ?t d ?op" using dok None ms
        by (simp add: conn_ok_def in_pool_def o1 new_operation_def held_by_def count_list_0_iff)
      then show ?thesis by (simp add: conn_ok_def o1 om_simps)
    next
      case (Some op')
      then have "op' = op" by (simp add: op)
      then consider "in_pool s d op" | "in_thread s d op" using dok Some by (auto simp: conn_ok_def)
      then have "in_pool ?t d ?op \<or> in_thread ?t d ?op"
      proof cases
        case 1
        then show ?thesis by (auto simp: in_pool_def o1 held_by_def)
      next
        case 2
        then obtain w where w: "held_by s d w" "\<forall>v. held_by s d v \<longrightarrow> v = w" "phase_ok (at s w) (FUserData op) (came s d) (handled s d)"
          unfolding in_thread_def by blast
        from w(3) have "phase_ok (at s w) (FUserData op @ ms) (came s d @ ms) (handled s d)" by (cases "at s w") auto
        then have phase: "phase_ok (at ?t w) (FUserData ?op) (came ?t d) (handled ?t d)" by simp
        have held: "held_by ?t d = held_by s d" by (simp add: held_by_def fun_eq_iff)
        have "d \<notin> set (pool_ops (obj s))" and work: "FIsWorking op" using 2 unfolding in_thread_def by blast+
        then have "d \<notin> set (pool_ops (obj ?t))" "FIsWorking ?op" by (simp_all add: o1)
        then have "in_thread ?t d ?op"
          by (rule in_threadI [OF _ _ _ _ phase]) (use w(1,2) in \<open>unfold held, blast+\<close>)
        then show ?thesis ..
      qed
      then show ?thesis by (simp add: conn_ok_def o1 om_simps)
    qed
    show "conn_ok ?t e" if "e \<noteq> d" "conn_ok s e" for e
      using that by (intro conn_frame [OF that(2)]) (auto simp: o1 om_simps)
  qed
qed

lemma begin_total:
  assumes "object_ok s" "d \<in> set (pool_ops (obj s))"
  shows "\<exists>op. om_get (FUserDataFIFO (obj s)) d = Some op \<and> in_pool s d op"
proof -
  have "conn_ok s d" using assms(1) by (simp add: object_ok_def)
  then show ?thesis using assms(2) by (auto simp: conn_ok_def in_thread_def split: option.splits)
qed

lemma object_begin:
  assumes ok: "object_ok s" and w: "at s w = Free" and d: "d \<in> set (pool_ops (obj s))"
    and o1: "operation_begin d ((obj s)\<lparr>pool_ops := remove1 d (pool_ops (obj s))\<rparr>) = Some (ms, o1)"
  shows "object_ok (move w (Took d ms) (s\<lparr>obj := o1\<rparr>))" (is "object_ok ?t")
proof -
  obtain op where op: "om_get (FUserDataFIFO (obj s)) d = Some op" "in_pool s d op" using begin_total [OF ok d] by blast
  let ?op = "op\<lparr>FUserData := [], FIsWorking := True\<rparr>"
  have o1: "ms = FUserData op" "o1 = (obj s)\<lparr>pool_ops := remove1 d (pool_ops (obj s)), FUserDataFIFO := om_set d ?op (FUserDataFIFO (obj s))\<rparr>"
    using o1 op by (auto simp: operation_begin_def in_pool_def)
  show ?thesis
  proof (rule object_okI [OF ok, where d = d])
    show "om_ok (FUserDataFIFO (obj ?t))" using ok by (simp add: o1 object_ok_def om_ok_set)
    have "in_thread ?t d ?op" using op(2)
      by (intro in_threadI [where w = w]) (auto simp: in_pool_def held_by_def o1 count_remove1_same split: if_splits)
    then show "conn_ok ?t d" by (simp add: conn_ok_def o1 om_simps)
    show "conn_ok ?t e" if "e \<noteq> d" "conn_ok s e" for e
      using that w by (intro conn_frame [OF that(2)]) (auto simp: o1 om_simps count_remove1 split: if_splits)
  qed
qed

text \<open>A thread that is about a connection is the one that has its operation.\<close>

lemma thread_has:
  assumes "object_ok s" "about (at s w) = Some d"
  shows "\<exists>op. om_get (FUserDataFIFO (obj s)) d = Some op \<and> d \<notin> set (pool_ops (obj s)) \<and> FIsWorking op
    \<and> (\<forall>v. held_by s d v \<longrightarrow> v = w) \<and> phase_ok (at s w) (FUserData op) (came s d) (handled s d)"
proof -
  have ok: "conn_ok s d" and h: "held_by s d w" using assms by (simp_all add: object_ok_def held_by_def)
  obtain op where op: "om_get (FUserDataFIFO (obj s)) d = Some op" using ok h by (cases "om_get (FUserDataFIFO (obj s)) d") (auto simp: conn_ok_def)
  then have "in_thread s d op" using ok h by (auto simp: conn_ok_def in_pool_def)
  then obtain v where v: "held_by s d v" "\<forall>u. held_by s d u \<longrightarrow> u = v" "phase_ok (at s v) (FUserData op) (came s d) (handled s d)"
    "d \<notin> set (pool_ops (obj s))" "FIsWorking op" unfolding in_thread_def by blast
  then have "v = w" using h by blast
  then show ?thesis using op v by blast
qed

lemma object_call:
  assumes ok: "object_ok s" and w: "at s w = Took d ms"
  shows "object_ok (move w (Called d) (s\<lparr>handled := (handled s)(d := handled s d @ ms)\<rparr>))" (is "object_ok ?t")
proof -
  obtain op where op: "om_get (FUserDataFIFO (obj s)) d = Some op" "d \<notin> set (pool_ops (obj s))" "FIsWorking op"
    "\<forall>v. held_by s d v \<longrightarrow> v = w" "came s d = handled s d @ ms @ FUserData op"
    using thread_has [OF ok, of w d] w by auto
  show ?thesis
  proof (rule object_okI [OF ok, where d = d])
    show "om_ok (FUserDataFIFO (obj ?t))" using ok by (simp add: object_ok_def)
    have "in_thread ?t d op" using op
      by (intro in_threadI [where w = w]) (auto simp: held_by_def split: if_splits)
    then show "conn_ok ?t d" using op(1) by (simp add: conn_ok_def)
    show "conn_ok ?t e" if "e \<noteq> d" "conn_ok s e" for e
      using that w by (intro conn_frame [OF that(2)]) (auto split: if_splits)
  qed
qed

lemma object_finish:
  assumes ok: "object_ok s" and w: "at s w = Called d" and o1: "operation_end d (obj s) = Some (keep, o1)"
  shows "object_ok (move w (if keep then Kept d else Free) (s\<lparr>obj := o1\<rparr>))" (is "object_ok ?t")
proof -
  obtain op where op: "om_get (FUserDataFIFO (obj s)) d = Some op" "d \<notin> set (pool_ops (obj s))" "FIsWorking op"
    "\<forall>v. held_by s d v \<longrightarrow> v = w" "came s d = handled s d @ FUserData op"
    using thread_has [OF ok, of w d] w by auto
  have o1: "keep = (FUserData op \<noteq> [])"
    "o1 = (if keep then obj s else (obj s)\<lparr>FUserDataFIFO := om_erase d (FUserDataFIFO (obj s))\<rparr>)"
    using o1 op(1) by (auto simp: operation_end_def split: if_splits)
  show ?thesis
  proof (rule object_okI [OF ok, where d = d])
    show "om_ok (FUserDataFIFO (obj ?t))" using ok by (simp add: o1(2) object_ok_def om_ok_erase)
    show "conn_ok ?t d"
    proof (cases keep)
      case True
      then have "in_thread ?t d op" using op o1
        by (intro in_threadI [where w = w]) (auto simp: held_by_def split: if_splits)
      then show ?thesis using op(1) True by (simp add: conn_ok_def o1(2))
    next
      case False
      have "\<not> held_by ?t d v" for v using op(4) False by (auto simp: held_by_def)
      then show ?thesis using False op o1 by (simp add: conn_ok_def om_simps)
    qed
    show "conn_ok ?t e" if "e \<noteq> d" "conn_ok s e" for e
      using that w by (intro conn_frame [OF that(2)]) (auto simp: o1(2) om_simps split: if_splits)
  qed
qed

lemma object_again:
  assumes ok: "object_ok s" and w: "at s w = Kept d"
  shows "object_ok (move w Free (s\<lparr>obj := (obj s)\<lparr>pool_ops := pool_ops (obj s) @ [d]\<rparr>\<rparr>))" (is "object_ok ?t")
proof -
  obtain op where op: "om_get (FUserDataFIFO (obj s)) d = Some op" "d \<notin> set (pool_ops (obj s))" "FIsWorking op"
    "\<forall>v. held_by s d v \<longrightarrow> v = w" "FUserData op \<noteq> []" "came s d = handled s d @ FUserData op"
    using thread_has [OF ok, of w d] w by auto
  show ?thesis
  proof (rule object_okI [OF ok, where d = d])
    show "om_ok (FUserDataFIFO (obj ?t))" using ok by (simp add: object_ok_def)
    have "in_pool ?t d op" using op by (auto simp: in_pool_def held_by_def count_list_0_iff)
    then show "conn_ok ?t d" using op(1) by (simp add: conn_ok_def)
    show "conn_ok ?t e" if "e \<noteq> d" "conn_ok s e" for e
      using that w by (intro conn_frame [OF that(2)]) (auto split: if_splits)
  qed
qed

lemma object_step_ok: "object_step s t \<Longrightarrow> object_ok s \<Longrightarrow> object_ok t"
  by (induction rule: object_step.induct) (blast intro: object_push object_begin object_call object_finish object_again)+

lemma object_start_ok: "object_ok object_start"
  by (simp add: object_ok_def object_start_def CDataObject_def conn_ok_def held_by_def)

definition reachable_object :: "object_sys \<Rightarrow> bool" where
  "reachable_object s \<longleftrightarrow> object_step\<^sup>*\<^sup>* object_start s"

lemma reachable_object_ok: "reachable_object s \<Longrightarrow> object_ok s"
  unfolding reachable_object_def by (induction rule: rtranclp_induct) (auto intro: object_start_ok object_step_ok)

section \<open>Samples\<close>

definition sample_piece :: "nat \<Rightarrow> user_data_t" where
  "sample_piece n = \<lparr>FDataId = \<lparr>FPacketNumber = of_nat n, FDataProtocol = CText ''raw'', FDataOffset = 0, FEventsList = [],
     FDestination = [], FRegistrators = [], FRouting = \<lparr>FRoute = [], FFrom = id_of_uuid 9\<rparr>, FSplit = no_split,
     FEndian = E_SHARE_ENDIAN, FDataWhat = \<lparr>FVersion = no_version, FMessageHeader = 2\<rparr>\<rparr>, FData = [7]\<rparr>"

definition sample_object :: "user_operation_t \<Rightarrow> descriptor list \<Rightarrow> data_object" where
  "sample_object op ds = \<lparr>FUserDataFIFO = [(3, op)], pool_ops = ds\<rparr>"

text \<open>A message came in on connection 3 and thread 1 has it; a second message comes in; thread 1 is done with the first.\<close>

definition sample_came :: object_sys where
  "sample_came = object_start\<lparr>obj := sample_object \<lparr>FUserData = [sample_piece 1], FIsWorking = False\<rparr> [3],
     came := (\<lambda>_. [])(3 := [sample_piece 1])\<rparr>"

definition sample_taken :: object_sys where
  "sample_taken = move 1 (Took 3 [sample_piece 1]) (sample_came\<lparr>obj := sample_object \<lparr>FUserData = [], FIsWorking = True\<rparr> []\<rparr>)"

definition sample_busy :: object_sys where
  "sample_busy = sample_taken\<lparr>obj := sample_object \<lparr>FUserData = [sample_piece 2], FIsWorking = True\<rparr> [],
     came := (came sample_taken)(3 := [sample_piece 1, sample_piece 2])\<rparr>"

definition sample_called :: object_sys where
  "sample_called = move 1 (Called 3) (sample_taken\<lparr>handled := (handled sample_taken)(3 := [sample_piece 1])\<rparr>)"

definition sample_done :: object_sys where
  "sample_done = move 1 Free (sample_called\<lparr>obj := CDataObject\<rparr>)"

lemmas sample_defs = sample_came_def sample_taken_def sample_busy_def sample_called_def sample_done_def sample_object_def
  object_start_def CDataObject_def object_MPush_def operation_MPush_def new_operation_def operation_begin_def operation_end_def
  om_erase_def

lemma sample_steps: "object_step object_start sample_came" "object_step sample_came sample_taken" "object_step sample_taken sample_busy"
  "object_step sample_taken sample_called" "object_step sample_called sample_done"
proof -
  show "object_step object_start sample_came"
    using object_step.push [of "[sample_piece 1]" 3 object_start "obj sample_came"] by (simp add: sample_defs)
  show "object_step sample_came sample_taken"
    using object_step.start [of sample_came 1 3 "[sample_piece 1]" "obj sample_taken"] by (simp add: sample_defs move_def)
  show "object_step sample_taken sample_busy"
    using object_step.push [of "[sample_piece 2]" 3 sample_taken "obj sample_busy"] by (simp add: sample_defs)
  show "object_step sample_taken sample_called"
    using object_step.call [of sample_taken 1 3 "[sample_piece 1]"] by (simp add: sample_defs)
  show "object_step sample_called sample_done"
    using object_step.finish [of sample_called 1 3 False "CDataObject"] by (simp add: sample_defs)
qed

lemma sample_reachable: "reachable_object sample_busy" "reachable_object sample_done"
  unfolding reachable_object_def using sample_steps by (meson rtranclp.rtrancl_into_rtrancl rtranclp.rtrancl_refl)+

section \<open>Properties\<close>

text \<open>
  C9: However threads interleave, the queue of user data never fails a check and never uses an entry
  that is gone: what comes in is always taken, an operation of the pool always finds data, and a
  thread that has called the handlers always finds its entry. No two threads have data of
  one connection at the same time, and the data of a connection is handled in the order in which
  it came in: what came is what was handled, what the thread has, and what waits.
\<close>

theorem user_data_in_order:
  assumes "reachable_object s"
  shows "(\<forall>d ms. ms \<noteq> [] \<longrightarrow> object_MPush d ms (obj s) \<noteq> None)
    \<and> (\<forall>d. d \<in> set (pool_ops (obj s)) \<longrightarrow> operation_begin d ((obj s)\<lparr>pool_ops := remove1 d (pool_ops (obj s))\<rparr>) \<noteq> None)
    \<and> (\<forall>w d. at s w = Called d \<longrightarrow> operation_end d (obj s) \<noteq> None)
    \<and> (\<forall>v w d. about (at s v) = Some d \<longrightarrow> about (at s w) = Some d \<longrightarrow> v = w)
    \<and> (\<forall>w d ms. at s w = Took d ms \<longrightarrow> came s d = handled s d @ ms
         @ (case om_get (FUserDataFIFO (obj s)) d of None \<Rightarrow> [] | Some op \<Rightarrow> FUserData op))"
proof -
  note ok = reachable_object_ok [OF assms]
  have "operation_begin d ((obj s)\<lparr>pool_ops := remove1 d (pool_ops (obj s))\<rparr>) \<noteq> None" if "d \<in> set (pool_ops (obj s))" for d
    using begin_total [OF ok that] by (auto simp: operation_begin_def in_pool_def)
  moreover have "operation_end d (obj s) \<noteq> None" if "at s w = Called d" for w d
    using thread_has [OF ok, of w d] that by (auto simp: operation_end_def)
  moreover have "v = w" if "about (at s v) = Some d" "about (at s w) = Some d" for v w d
    using thread_has [OF ok that(2)] that(1) by (auto simp: held_by_def)
  moreover have "came s d = handled s d @ ms @ (case om_get (FUserDataFIFO (obj s)) d of None \<Rightarrow> [] | Some op \<Rightarrow> FUserData op)"
    if "at s w = Took d ms" for w d ms
    using thread_has [OF ok, of w d] that by auto
  ultimately show ?thesis using push_total by fastforce
qed

theorem user_data_in_order_witness:
  "came sample_busy 3 = handled sample_busy 3 @ [sample_piece 1]
     @ (case om_get (FUserDataFIFO (obj sample_busy)) 3 of None \<Rightarrow> [] | Some op \<Rightarrow> FUserData op)"
proof -
  have "at sample_busy 1 = Took 3 [sample_piece 1]" by (simp add: sample_defs)
  then show ?thesis using user_data_in_order [OF sample_reachable(1)] by blast
qed

text \<open>
  C10: No user data is forgotten: when no thread is busy and no operation waits in the pool, the
  handlers have been called with everything that came in, and no entry is left.
\<close>

theorem no_user_data_forgotten:
  assumes "reachable_object s" "\<forall>w. at s w = Free" "pool_ops (obj s) = []"
  shows "FUserDataFIFO (obj s) = [] \<and> handled s = came s"
proof -
  have ok: "conn_ok s d" for d using reachable_object_ok [OF assms(1)] by (simp add: object_ok_def)
  have none: "om_get (FUserDataFIFO (obj s)) d = None" for d
    using ok [of d] assms(2,3) by (auto simp: conn_ok_def in_pool_def in_thread_def held_by_def split: option.splits)
  then have "FUserDataFIFO (obj s) = []"
    using none [of "fst (hd (FUserDataFIFO (obj s)))"] by (cases "FUserDataFIFO (obj s)") auto
  moreover have "handled s d = came s d" for d using ok [of d] none [of d] by (simp add: conn_ok_def)
  ultimately show ?thesis by blast
qed

theorem no_user_data_forgotten_witness: "handled sample_done = came sample_done \<and> came sample_done 3 = [sample_piece 1]"
proof -
  have "\<forall>w. at sample_done w = Free" "pool_ops (obj sample_done) = []" "came sample_done 3 = [sample_piece 1]"
    by (simp_all add: sample_defs)
  then show ?thesis using no_user_data_forgotten [OF sample_reachable(2)] by blast
qed

end
