(* ===== verification/Spec2Isabelle.thy ===== *)
theory Spec2Isabelle
  imports Prelude Udt_Types Program_Names Route_Graph Descriptors Packet_Divisor Msg_Handlers
    Subscriptions Subscription_Table Crc Wire_Head In_Parser User_Data
    Message_Filling Example_Parser Genealogy Info_Service Buffering Kernel_Io Send_Threads
    Routing_Service Routing_Delivery Data_Object
begin

text \<open>
  A verification library of UDT, a message broker in C++: programs ("customers") connect to a
  kernel, say which messages they want, and the kernel carries messages between them, over
  other kernels where needed.

  \<^bold>\<open>The program and its parts.\<close> The kernel (\<open>UDT/src/kernel\<close>) is a chain of services.
  \<open>CDescriptors\<close> (\<open>core/\<close>) numbers the open connections and knows which program is behind each.
  \<open>CInfoService\<close> follows the programs of the network and asks \<open>CGraph\<close> (\<open>services/\<close>) for the path
  to each. \<open>CRoutingService\<close> owns \<open>CRequiredDG\<close>, which keeps the demands of the programs and
  fills in the receivers of every message. \<open>CPacketDivisor\<close> cuts messages that are too large for
  a channel into parts, and joins parts for channels that take whole messages only. \<open>CKernelIo\<close>
  (\<open>io/\<close>) has a channel for every connection, with a buffer (\<open>CBuffering\<close>) that threads empty.
  \<open>CDataObject\<close> (\<open>core/\<close>) queues what comes in and calls the services in threads of a pool. So the way
  of a message is: a channel, \<open>CDataObject\<close>, \<open>CRoutingService\<close> with the receivers of \<open>CRequiredDG\<close> and the
  ways of \<open>CInfoService\<close>, \<open>CPacketDivisor\<close>, the buffers, and a thread that gives it to a channel. The names
  of programs and groups, with which demands address their senders, are \<open>NSHARE::CAddress\<close> and
  its neighbours (\<open>SHARE/src/UType/CAddress.cpp\<close>). Data that all parts exchange is in
  \<open>udt_share\<close> and \<open>core/kernel_type.h\<close>. Between processes everything travels in packets of an
  inner protocol (\<open>internel_protocol.h\<close>): \<open>serialize\<close> and \<open>fill_dg_head\<close> (\<open>udt_share.cpp\<close>) write
  them, \<open>CInParser\<close> (\<open>parser_in_protocol.h\<close>) finds them in a stream, \<open>deserialize\<close> reads them.

  \<^bold>\<open>Theories.\<close>

  \<^item> \<open>Prelude\<close>: texts with the order the containers give them, \<open>std::map\<close> and \<open>std::set\<close> as
    sorted lists with the library of their look-ups, and the locale \<open>operation_driven\<close> of a
    component driven by operations under a discipline of its callers. The value \<open>None\<close> is a
    process that stops (a failed \<open>CHECK\<close>, \<open>LOG(FATAL)\<close>, an invalid iterator).
  \<^item> \<open>Udt_Types\<close>: the records of \<open>udt_types.h\<close>, \<open>programm_id.h\<close>, \<open>version.h\<close>, \<open>CFlags.h\<close>,
    \<open>kernel_type.h/.cpp\<close> and of \<open>shared_types.h/.cpp\<close>, with their operations.
  \<^item> \<open>Program_Names\<close>: \<open>CAddress.cpp\<close>, all of it. Group texts are paths, program names are a path
    with a plain name; the match depth that the code computes character by character is the
    depth of paths.
  \<^item> \<open>Route_Graph\<close>: \<open>CGraph.h/.cpp\<close>, all of it. The search of Dijkstra with its loop, its
    queue and the cache. The loop is a \<open>partial_function (option)\<close> and is proved to end. The
    search answers exactly when the vertex can be reached; the path is shortest when all
    links have one latency, and a closed example shows that it need not be otherwise. Every
    disciplined run of the operations keeps the graph and the cache coherent
    (\<open>rg\<close>, interpretation of \<open>operation_driven\<close>). What clients rely on is the locale
    \<open>path_provider\<close> (\<open>rp\<close>).
  \<^item> \<open>Descriptors\<close>: \<open>CDescriptors.h/.cpp\<close>, with its events. Look-ups by program follow no
    dangling iterator under the discipline that a program opens one connection
    (\<open>ds\<close>, interpretation of \<open>operation_driven\<close>).
  \<^item> \<open>Info_Service\<close>: \<open>CInfoService.h/.cpp\<close>. The net of kernels and their links changes when
    connections open and close and when other kernels send their nets; in every disciplined run
    (\<open>nt\<close>, interpretation of \<open>operation_driven\<close>) the graph has the links of the net, and the next
    connection to a program, worked out inside \<open>path_provider\<close>, leads along links of the net.
    Merging of two nets is a specification for one kernel, applied to each.
  \<^item> \<open>Packet_Divisor\<close>: \<open>CPacketDivisor.h/.cpp\<close>, all of it. Splitting conserves data and numbers
    the parts; merging is its inverse however the parts arrive; lost parts are reported.
    Packet numbers are 16-bit and sizes 32-bit words, with their wrap-around.
  \<^item> \<open>Msg_Handlers\<close>: \<open>msg_handlers_t\<close> of \<open>CRequiredDG.cpp\<close>: the handlers of one receiver in the
    order of their priorities.
  \<^item> \<open>Subscriptions\<close>: the demands, the senders and the receivers of \<open>CRequiredDG.cpp\<close>:
    registering and un-registering a receiver for a message and the messages derived from it,
    look-up of programs by name, demands for the nearest sender only, changes of demands,
    coming and going of programs. Parsers of user protocols are loaded at run time, so they
    are a parameter (\<open>parsers\<close>).
  \<^item> \<open>Subscription_Table\<close>: what the operations of \<open>Subscriptions\<close> do to the table of receivers.
    The table that a specification computes from the programs that are there and their demands
    is the table of the code after every disciplined run (\<open>sb\<close>, interpretation of
    \<open>refined_component\<close>, which extends \<open>operation_driven\<close> by an abstraction); nearest senders are
    the matching programs of the least depth; closed examples show three errors.
  \<^item> \<open>Genealogy\<close>: \<open>MInitializeMsgInheritance\<close> of \<open>CRequiredDG.cpp\<close> and what it calls: from the direct
    heirs that the parsers declare to all heirs and ancestors of every message. The walk is a
    \<open>partial_function (option)\<close> and is proved to end whatever is declared; its result is the
    specification \<open>lineage\<close>, an inductive relation. The rules \<open>walk_rule\<close>, \<open>visit_rule\<close> and
    \<open>genealogy_loop_rule\<close> carry both proofs.
  \<^item> \<open>Message_Filling\<close>: from \<open>MFillByRawProtocol\<close> to \<open>MFillByUserProtocol\<close> of \<open>CRequiredDG.cpp\<close>, with
    \<open>MFillMsgReceivers\<close> and \<open>MFillMsgHandlersFor\<close>: who receives a message, with which handlers and
    which errors. The documented contract of a protocol's parser is the locale \<open>framing_parser\<close>:
    under it no byte of a sender's stream is lost.
  \<^item> \<open>Example_Parser\<close>: the parser of the example protocol, which keeps that contract (\<open>ep\<close>,
    interpretation of \<open>framing_parser\<close>).
  \<^item> \<open>Crc\<close>: the tables and loops of \<open>crc8.h\<close> and \<open>crc16.h\<close>. They are the division by the
    polynomial, and find every error in one byte.
  \<^item> \<open>Wire_Head\<close>: the packed head of a packet, its bytes and back, the byte swaps of
    \<open>endian_type.h\<close>, and \<open>fill_dg_head\<close>.
  \<^item> \<open>In_Parser\<close>: \<open>CInParser\<close>, all of it. Every stream of frames, however it is cut into pieces,
    is parsed into exactly these frames; other bytes are parsed without leaving them except at
    two kinds of places, where an error of the code is shown.
  \<^item> \<open>User_Data\<close>: a message as a packet: \<open>serialize\<close> and \<open>deserialize\<close>, and the way of a message
    from one to the other over a stream.

  \<^item> \<open>Buffering\<close>: \<open>CBuffering.h/.cpp\<close>. The buffer is a queue, stays within its limit and counts its
    shared memory exactly (\<open>bf\<close>, interpretation of \<open>refined_component\<close>).
  \<^item> \<open>Kernel_Io\<close>: the channels of \<open>CKernelIo.h/.cpp\<close> with their buffers, messages between kernels, user
    data into the buffers and out of them. What a channel does with a message is a parameter, a
    function of everything that channels were given before (\<open>channel_link\<close>); the log \<open>FLog\<close> records
    what they are given. User data is buffered in order or given back with the reason.
  \<^item> \<open>Send_Threads\<close>: the threads of \<open>MSendUserDataImpl\<close> as a step relation whose steps are the pieces
    under one lock; in every interleaving messages keep their order and none is forgotten.
  \<^item> \<open>Routing_Service\<close>: \<open>CRoutingService.h/.cpp\<close> with the operations of \<open>CKernelIo\<close> that call it, over the
    state of all services (\<open>kernel\<close>). A service that answers which connection leads to a program is
    the locale \<open>way_service\<close>, interpreted on \<open>MNextDestinations\<close> (\<open>ws\<close>): asking changes no answer, because
    the path found does not depend on the caches. From it follow the groups of receivers by
    connection, the sorted splice of messages and the reports.
  \<^item> \<open>Routing_Delivery\<close>: the handlers of \<open>Routing_Service\<close> composed with the table of demands, the net and
    the buffers: user data, errors, messages in transit, the threads that send, new demands. The
    loops over queues are \<open>partial_function (option)\<close> and are proved to return.
  \<^item> \<open>Data_Object\<close>: the queue of user data of \<open>CDataObject.h/.cpp\<close> and the pool that runs its operations,
    as a step relation: no check fails, no entry is used that is gone, data keeps its order.

  This theory joins them: the route of a message is what the demands of the programs say, and
  the message waits at the connections that lead to the programs of its route.

  \<^bold>\<open>Bounds.\<close> Machine integers are words at their width where they can wrap (packet numbers,
  part sizes, priorities, identifiers, versions, all fields of packets, the counters of the
  parser and its comparison of sizes as an \<open>int\<close>, the bytes in a buffer and the counts of shared
  memory and of packets). Messages are shorter than \<open>MAX_SIZE\<close>, two gigabytes, where their sizes are added. Match depths, latencies and lengths of texts
  are natural numbers: they are bounded by the length of a name or by a configuration value,
  far below the width of the code's types. Descriptors are integers. There is no fuel: every
  loop is structural, has a measure or is proved to end.

  \<^bold>\<open>Not modelled.\<close> Sockets, files, shared memory, threads and logging (input and output of the
  operating system), the configuration reader, the byte buffer and its allocators, the
  customer library, user interfaces, tests, examples and the vendored libraries. They are calls of
  the operating system, or memory management of which the model has the contents only. Of the
  services the search of kernels by Ethernet and the time dispatcher are timers and sockets; of
  \<open>CDataObject\<close> the store of the last event of each kind (\<open>CHardWorker\<close>) is left out. The model is
  the release build, where \<open>DCHECK\<close> is compiled away.
\<close>

section \<open>From demands to the route of a message\<close>

lemma receivers_are_handled:
  assumes "receivers_ok r"
  shows "u \<in> fst ` set (FReceivers r) \<longleftrightarrow> FHandlers (get_or no_handlers (FReceivers r) u) \<noteq> []"
proof -
  have all: "om_all (\<lambda>h. handlers_ok h \<and> FHandlers h \<noteq> []) (FReceivers r)" using assms by (simp add: receivers_ok_def)
  show ?thesis
  proof (cases "om_get (FReceivers r) u")
    case None
    then have "u \<notin> fst ` set (FReceivers r)" by (simp add: map_of_eq_None_iff)
    then show ?thesis using None by (simp add: get_or_def no_handlers_def)
  next
    case (Some h)
    then have "u \<in> fst ` set (FReceivers r)" by (metis domI dom_map_of_conv_image_fst)
    then show ?thesis using om_all_get [OF all Some] Some by (simp add: get_or_def)
  qed
qed

text \<open>A message that nobody is singled out for and that has no version: the whole table receives it.\<close>

definition broadcast :: "user_data_t \<Rightarrow> bool" where
  "broadcast d \<longleftrightarrow> FData d \<noteq> [] \<and> MIsRaw (FDataId d) \<and> FDestination (FDataId d) = [] \<and> FRegistrators (FDataId d) = []
     \<and> FRoute (FRouting (FDataId d)) = [] \<and> \<not> MIsExist (FVersion (FDataWhat (FDataId d)))"

lemma broadcast_routed:
  assumes "tables_ok s" "broadcast d" and cnt: "counted s"
  defines "i \<equiv> FDataId d"
  defines "src \<equiv> FUuid (FFrom (FRouting i))" and "k \<equiv> FMessageHeader (FDataWhat i)"
  shows "\<exists>from to st. MFillMsgReceivers ps [d] \<lparr>fill_dg = s, fill_errors = []\<rparr> = Some (from, to, st)
    \<and> length from + length to = 1 \<and> fill_errors st = []
    \<and> (to \<noteq> [] \<longleftrightarrow> FNumberOfRealReceivers (get_or no_receivers (FExpected (routing_of src RAW_PROTOCOL_NAME s)) k) \<noteq> 0)
    \<and> (\<forall>m\<in>set to. FData m = FData d \<and> FEndian (FDataId m) = FEndian i
         \<and> (\<forall>u. u \<in> set (FRoute (FRouting (FDataId m))) \<longleftrightarrow> FHandlers (handlers_at s src RAW_PROTOCOL_NAME k u) \<noteq> []))"
proof -
  let ?ex = "FExpected (routing_of src RAW_PROTOCOL_NAME s)"
  define r where "r = MGetUUIDsOfReceivers ?ex (FDataWhat i)"
  have r: "receivers_ok r" unfolding r_def MGetUUIDsOfReceivers_def
    using routing_expected_ok [OF assms(1), of src RAW_PROTOCOL_NAME]
    by (intro om_all_get_or [where P = receivers_ok]) (auto simp: expected_ok_def om_all_def receivers_ok_def no_receivers_def)
  have d: "FDestination i = []" "FRegistrators i = []" "FRoute (FRouting i) = []" "\<And>v. MCheckVersion v i"
    using assms(2) by (simp_all add: broadcast_def i_def MCheckVersion_def)
  have all: "receives i = (\<lambda>k. True)" using d(1,4) by (simp add: receives_def asked_def fun_eq_iff)
  obtain j es where fill: "MFillRouteAndDestanationInfo r i = (FReceivers r \<noteq> [], j, es)"
    "FRoute (FRouting j) = map fst (FReceivers r)" "map (\<lambda>e. (FRoute (FRouting e), FError e)) es = []" "FEndian j = FEndian i"
    using filled_route [of r i] r d by (auto simp: receivers_ok_def all)
  have route: "u \<in> set (FRoute (FRouting j)) \<longleftrightarrow> FHandlers (handlers_at s src RAW_PROTOCOL_NAME k u) \<noteq> []" for u
    using receivers_are_handled [OF r, of u] fill(2)
    by (simp add: handlers_at_def handlers_in_def r_def MGetUUIDsOfReceivers_def k_def)
  have some: "?ex \<noteq> [] \<and> FReceivers r \<noteq> []" if "FNumberOfRealReceivers r \<noteq> 0"
  proof -
    have "FNumberOfRealReceivers r = of_int (real_handlers r)"
      using cnt by (simp add: counted_def counted_in_def r_def MGetUUIDsOfReceivers_def)
    then have "FReceivers r \<noteq> []" using that by (auto simp: real_handlers_def)
    then show ?thesis by (auto simp: r_def MGetUUIDsOfReceivers_def get_or_def no_receivers_def)
  qed
  let ?go = "?ex \<noteq> [] \<and> FReceivers r \<noteq> [] \<and> FNumberOfRealReceivers r \<noteq> 0"
  have "MFillMsgReceivers ps [d] \<lparr>fill_dg = s, fill_errors = []\<rparr> =
      Some (if ?go then [] else [d], if ?go then [d\<lparr>FDataId := j\<rparr>] else [],
        \<lparr>fill_dg = MGetOrCreateExpectedListFor src RAW_PROTOCOL_NAME s, fill_errors = []\<rparr>)"
    using assms(2) fill(1,3)
    by (auto simp: broadcast_def Let_def routing_of_create fill_message_def add_errors_def src_def i_def r_def)
  moreover have "?go \<longleftrightarrow> FNumberOfRealReceivers (get_or no_receivers ?ex k) \<noteq> 0"
    using some by (auto simp: r_def MGetUUIDsOfReceivers_def k_def)
  ultimately show ?thesis using route fill(4) by (auto simp: i_def)
qed

text \<open>
  A program demands a message of a sender: one of its demands matches the name of the sender and is
  for this message or one that it is derived from. The number of demands for the message that are
  not those of registrators decides whether it goes on.
\<close>

definition demands_it :: "parsers \<Rightarrow> msg_inheritances_t \<Rightarrow> sub_spec \<Rightarrow> user_data_t \<Rightarrow> uuid \<Rightarrow> bool" where
  "demands_it ps g sp d u \<longleftrightarrow> u \<in> fst ` demanded ps g sp (FUuid (FFrom (FRouting (FDataId d)))) RAW_PROTOCOL_NAME
     (FMessageHeader (FDataWhat (FDataId d)))"

definition real_demands_for :: "parsers \<Rightarrow> msg_inheritances_t \<Rightarrow> sub_spec \<Rightarrow> user_data_t \<Rightarrow> nat" where
  "real_demands_for ps g sp d = card (real_demands ps g sp (FUuid (FFrom (FRouting (FDataId d)))) RAW_PROTOCOL_NAME
     (FMessageHeader (FDataWhat (FDataId d))))"

lemma broadcast_follows:
  fixes ps g ops
  defines "start \<equiv> CRequiredDG\<lparr>FMsgsGenealogy := g\<rparr>" and "sp \<equiv> fold spec_step ops (Map.empty, \<lambda>_. [])"
  assumes "disciplined (sub_step ps) (sub_allowed ps) start ops" and "broadcast d"
  shows "\<exists>s from to st. run_ops (sub_step ps) start ops = Some s
    \<and> MFillMsgReceivers ps [d] \<lparr>fill_dg = s, fill_errors = []\<rparr> = Some (from, to, st)
    \<and> length from + length to = 1 \<and> fill_errors st = [] \<and> (to \<noteq> [] \<longleftrightarrow> \<not> 2 ^ 32 dvd real_demands_for ps g sp d)
    \<and> (\<forall>m\<in>set to. FData m = FData d \<and> FEndian (FDataId m) = FEndian (FDataId d)
         \<and> (\<forall>u. u \<in> set (FRoute (FRouting (FDataId m))) \<longleftrightarrow> demands_it ps g sp d u))"
proof -
  obtain ids D where sp: "sp = (ids, D)" by fastforce
  obtain s where s: "run_ops (sub_step ps) start ops = Some s" "tables_ok s" "counted s"
    and h: "\<And>src p k to h. h \<in> set (FHandlers (handlers_at s src p k to)) \<longleftrightarrow>
         (\<exists>i d. ids src = Some i \<and> d \<in> set (D to) \<and> depth_of i d \<noteq> 0 \<and> FHandler d = h
            \<and> (p, k) \<in> (\<lambda>c. (FProtocol c, FMessageHeader (FWhat c))) ` set (copies ps g d))"
    and n: "\<And>src p k. FNumberOfRealReceivers (get_or no_receivers (FExpected (routing_of src p s)) k) =
        of_nat (card (real_demands ps g sp src p k))"
    using run_follows_demands [OF assms(3) [unfolded start_def] sp [unfolded sp_def]] unfolding start_def sp by blast
  have some: "FHandlers (handlers_at s (FUuid (FFrom (FRouting (FDataId d)))) RAW_PROTOCOL_NAME
      (FMessageHeader (FDataWhat (FDataId d))) u) \<noteq> [] \<longleftrightarrow> demands_it ps g sp d u" for u
  proof -
    have not_empty: "xs \<noteq> [] \<longleftrightarrow> (\<exists>h. h \<in> set xs)" for xs :: "handler_id list" by (simp add: ex_in_conv)
    show ?thesis unfolding not_empty h demands_it_def demanded_def sp fst_conv snd_conv by (force simp: image_iff)
  qed
  have real: "of_nat (real_demands_for ps g sp d) \<noteq> (0 :: 32 word) \<longleftrightarrow> \<not> 2 ^ 32 dvd real_demands_for ps g sp d"
    by (simp add: word_of_nat_eq_0_iff)
  show ?thesis using s(1) broadcast_routed [OF s(2) assms(4) s(3), of ps]
    unfolding some n real_demands_for_def [symmetric] real by blast
qed

section \<open>Properties\<close>


definition sample_broadcast :: user_data_t where
  "sample_broadcast = \<lparr>FDataId = \<lparr>FPacketNumber = 1, FDataProtocol = CText ''raw'', FDataOffset = 0, FEventsList = [],
     FDestination = [], FRegistrators = [], FRouting = \<lparr>FRoute = [], FFrom = id_of_uuid 9\<rparr>, FSplit = no_split,
     FEndian = E_SHARE_ENDIAN, FDataWhat = \<lparr>FVersion = no_version, FMessageHeader = 2\<rparr>\<rparr>, FData = [1, 2, 3]\<rparr>"

lemma sample_real_demands:
  "real_demands no_parsers one_derived (fold spec_step sample_run (Map.empty, \<lambda>_. [])) 9 RAW_PROTOCOL_NAME 2
     = {(8, wanted 4 1 5 0 ''sensor@a'')}"
proof -
  let ?d = "wanted 4 1 5 0 ''sensor@a''"
  obtain ids D where f: "fold spec_step sample_run (Map.empty, \<lambda>_. []) = (ids, D)" by fastforce
  then have i: "ids 9 = Some (program 9 ''sensor@a.b'')" and d: "\<And>u. set (D u) = (if u = 8 then {?d} else {})"
    by (auto simp: sample_run_def program_def)
  have n: "depth_of (program 9 ''sensor@a.b'') ?d \<noteq> 0" "\<not> MIsRegistrator ?d" by code_simp+
  have c: "(RAW_PROTOCOL_NAME, 2) \<in> (\<lambda>c. (FProtocol c, FMessageHeader (FWhat c))) ` set (copies no_parsers one_derived ?d)"
    by code_simp
  show ?thesis using i n c unfolding f real_demands_def demanded_def fst_conv snd_conv d by (auto split: if_splits)
qed

lemma sample_broadcast_sent: "broadcast sample_broadcast" "FEndian (FDataId sample_broadcast) = E_SHARE_ENDIAN"
  "FUuid (FFrom (FRouting (FDataId sample_broadcast))) = 9" "FMessageHeader (FDataWhat (FDataId sample_broadcast)) = 2"
  by (simp_all add: broadcast_def sample_broadcast_def MIsRaw_def RAW_PROTOCOL_NAME_def MIsExist_def no_version_def id_of_uuid_def)


text \<open>No channel has a limit on the size of a packet or wants whole messages only.\<close>

definition unlimited :: "packet_divisor \<Rightarrow> bool" where
  "unlimited v \<longleftrightarrow> list_all (\<lambda>(c, i). \<not> MGetFlag (FMtuType i) CAN_NOT_SPLIT \<and> \<not> MGetFlag (FMtuType i) LIMITED) (FLimitsInfo v)"

lemma unlimited_undivided: "unlimited v \<Longrightarrow> undivided v c ms"
  by (auto simp: unlimited_def undivided_def list_all_iff split: option.splits dest!: map_of_SomeD)


text \<open>Kernel 10 of the sample, to which program 9 sends a message that program 8 demands.\<close>

definition sample_table :: "required_dg option" where
  "sample_table = run_ops (sub_step no_parsers) (CRequiredDG\<lparr>FMsgsGenealogy := one_derived\<rparr>) sample_run"


end
